(* ===== verification/Tiqora_Prelude.thy ===== *)
theory Tiqora_Prelude
  imports Main "HOL-Library.Char_ord" "HOL-Library.List_Lexorder"
begin

text \<open>
  Shared ground of the development: instants, error results and their sequencing, tables as
  lists of rows that are updated by a predicate, decimal numbers as the code prints and reads
  them, and the generic lemmas the component theories use through the simplifier.
  \<^item> An instant (\<open>datetime\<close>, naive UTC) is an \<open>int\<close>: microseconds since an epoch.
  \<^item> A call that may raise returns a sum, \<open>Inl\<close> the exception, \<open>Inr\<close> the value.
  \<^item> A string is a char list; its characters are the code points below 256.
\<close>

section \<open>Collections of facts\<close>

named_theorems table_simps \<open>how the reads of a table see its writes\<close>
named_theorems frame_simps \<open>which tables and fields an operation leaves alone\<close>

section \<open>Instants\<close>

type_synonym instant = int

definition usec_per_second :: int where
  "usec_per_second = 1000000"

text \<open>\<open>t.replace(microsecond=0)\<close>\<close>

definition trunc_sec :: "instant \<Rightarrow> instant" where
  "trunc_sec t = t - t mod usec_per_second"

text \<open>\<open>timedelta(hours=n)\<close>\<close>

definition hours :: "int \<Rightarrow> int" where
  "hours n = n * 3600 * usec_per_second"

lemma trunc_sec_le: "trunc_sec t \<le> t"
  by (simp add: trunc_sec_def usec_per_second_def)

lemma trunc_sec_idem [simp]: "trunc_sec (trunc_sec t) = trunc_sec t"
  by (simp add: trunc_sec_def usec_per_second_def minus_mod_eq_div_mult)

lemma hours_mono: "m \<le> n \<Longrightarrow> hours m \<le> hours n"
  by (simp add: hours_def usec_per_second_def)

section \<open>Results\<close>

text \<open>Sequencing: an exception of the first call is the result.\<close>

definition res_bind :: "'e + 'a \<Rightarrow> ('a \<Rightarrow> 'e + 'b) \<Rightarrow> 'e + 'b" where
  "res_bind m f = (case m of Inl e \<Rightarrow> Inl e | Inr x \<Rightarrow> f x)"

lemma res_bind_simps [simp]:
  "res_bind (Inl e) f = Inl e"
  "res_bind (Inr x) f = f x"
  by (simp_all add: res_bind_def)

lemma res_bind_Inr_iff: "res_bind m f = Inr y \<longleftrightarrow> (\<exists>x. m = Inr x \<and> f x = Inr y)"
  by (cases m) auto

lemma res_bind_Inl_iff:
  "res_bind m f = Inl e \<longleftrightarrow> m = Inl e \<or> (\<exists>x. m = Inr x \<and> f x = Inl e)"
  by (cases m) auto

lemma res_bind_InrE:
  assumes "res_bind m f = Inr y"
  obtains x where "m = Inr x" and "f x = Inr y"
  using assms by (auto simp: res_bind_Inr_iff)

lemma res_bind_cong [fundef_cong]:
  "m = m' \<Longrightarrow> (\<And>x. m' = Inr x \<Longrightarrow> f x = f' x) \<Longrightarrow> res_bind m f = res_bind m' f'"
  by (cases m') auto

text \<open>A \<open>for\<close> loop whose body may raise and threads a state.\<close>

fun res_fold :: "('x \<Rightarrow> 's \<Rightarrow> 'e + 's) \<Rightarrow> 'x list \<Rightarrow> 's \<Rightarrow> 'e + 's" where
  "res_fold f [] s = Inr s"
| "res_fold f (x # xs) s = res_bind (f x s) (res_fold f xs)"

text \<open>An invariant that each iteration keeps holds after the loop.\<close>

lemma res_fold_invariant:
  assumes "res_fold f xs s = Inr s'"
    and "P s"
    and "\<And>x s s'. x \<in> set xs \<Longrightarrow> P s \<Longrightarrow> f x s = Inr s' \<Longrightarrow> P s'"
  shows "P s'"
  using assms
proof (induction xs arbitrary: s)
  case Nil
  then show ?case by simp
next
  case (Cons x xs)
  from Cons.prems(1) obtain t where t: "f x s = Inr t" "res_fold f xs t = Inr s'"
    by (auto simp: res_bind_Inr_iff)
  have "P t" using Cons.prems(3) [OF _ Cons.prems(2) t(1)] by simp
  with t(2) show ?case
    by (rule Cons.IH) (auto intro: Cons.prems(3))
qed

lemma res_fold_append:
  "res_fold f (xs @ ys) s = res_bind (res_fold f xs s) (res_fold f ys)"
  by (induction xs arbitrary: s) (auto simp: res_bind_def split: sum.splits)

text \<open>A loop whose body never raises does not raise.\<close>

lemma res_fold_total:
  assumes "P s" and "\<And>x s. x \<in> set xs \<Longrightarrow> P s \<Longrightarrow> \<exists>s'. f x s = Inr s' \<and> P s'"
  shows "\<exists>s'. res_fold f xs s = Inr s' \<and> P s'"
  using assms
proof (induction xs arbitrary: s)
  case Nil
  then show ?case by simp
next
  case (Cons x xs)
  then obtain t where "f x s = Inr t" "P t" by (meson list.set_intros(1))
  with Cons.IH [of t] Cons.prems(2) show ?case by auto
qed

section \<open>Tables\<close>

text \<open>\<open>UPDATE ... SET f WHERE p\<close> on a table kept as a list of rows.\<close>

definition upd_where :: "('r \<Rightarrow> bool) \<Rightarrow> ('r \<Rightarrow> 'r) \<Rightarrow> 'r list \<Rightarrow> 'r list" where
  "upd_where p f rows = map (\<lambda>r. if p r then f r else r) rows"

lemma upd_where_simps [simp, code]:
  "upd_where p f [] = []"
  "upd_where p f (r # rs) = (if p r then f r else r) # upd_where p f rs"
  by (simp_all add: upd_where_def)

lemma upd_where_append [simp]: "upd_where p f (xs @ ys) = upd_where p f xs @ upd_where p f ys"
  by (simp add: upd_where_def)

lemma length_upd_where [simp]: "length (upd_where p f xs) = length xs"
  by (simp add: upd_where_def)

lemma set_upd_where:
  "set (upd_where p f xs) = (\<lambda>r. if p r then f r else r) ` set xs"
  by (simp add: upd_where_def)

lemma upd_whereE:
  assumes "r \<in> set (upd_where p f xs)"
  obtains (hit) r' where "r' \<in> set xs" "p r'" "r = f r'" | (kept) "r \<in> set xs" "\<not> p r"
  using assms by (auto simp: upd_where_def split: if_splits)

lemma upd_where_kept: "r \<in> set xs \<Longrightarrow> \<not> p r \<Longrightarrow> r \<in> set (upd_where p f xs)"
  by (force simp: upd_where_def)

lemma upd_where_hit: "r \<in> set xs \<Longrightarrow> p r \<Longrightarrow> f r \<in> set (upd_where p f xs)"
  by (force simp: upd_where_def)

text \<open>A column the update does not write keeps its values, row by row.\<close>

lemma map_upd_where [table_simps]:
  "(\<And>r. r \<in> set xs \<Longrightarrow> p r \<Longrightarrow> g (f r) = g r) \<Longrightarrow> map g (upd_where p f xs) = map g xs"
  by (induction xs) auto

lemma image_upd_where:
  "(\<And>r. r \<in> set xs \<Longrightarrow> p r \<Longrightarrow> g (f r) = g r) \<Longrightarrow> g ` set (upd_where p f xs) = g ` set xs"
  by (metis map_upd_where list.set_map)

lemma filter_upd_where_disjoint [table_simps]:
  "(\<And>r. p r \<Longrightarrow> \<not> q r) \<Longrightarrow> (\<And>r. p r \<Longrightarrow> \<not> q (f r)) \<Longrightarrow>
     filter q (upd_where p f xs) = filter q xs"
  by (induction xs) auto

lemma filter_upd_where_commute:
  "(\<And>r. p r \<Longrightarrow> q (f r) = q r) \<Longrightarrow>
     filter q (upd_where p f xs) = upd_where p f (filter q xs)"
  by (induction xs) auto

lemma upd_where_none: "(\<And>r. r \<in> set xs \<Longrightarrow> \<not> p r) \<Longrightarrow> upd_where p f xs = xs"
  by (induction xs) auto

lemma upd_where_ball:
  "(\<And>r. r \<in> set xs \<Longrightarrow> \<not> p r \<Longrightarrow> P r) \<Longrightarrow> (\<And>r. r \<in> set xs \<Longrightarrow> p r \<Longrightarrow> P (f r)) \<Longrightarrow>
     r \<in> set (upd_where p f xs) \<Longrightarrow> P r"
  by (auto simp: set_upd_where split: if_splits)

lemma find_upd_where:
  "(\<And>r. p r \<Longrightarrow> q (f r) = q r) \<Longrightarrow>
     find q (upd_where p f xs) = map_option (\<lambda>r. if p r then f r else r) (find q xs)"
  by (induction xs) auto

lemma find_SomeD: "find p xs = Some x \<Longrightarrow> x \<in> set xs \<and> p x"
  by (induction xs) (auto split: if_splits)

lemma find_NoneD: "find p xs = None \<Longrightarrow> y \<in> set xs \<Longrightarrow> \<not> p y"
  by (simp add: find_None_iff)

text \<open>
  What the components rely on when they keep rows in a table: a read by primary key and a conditional
  update. The laws are what \<open>SELECT ... WHERE id = i\<close> and \<open>UPDATE ... WHERE p\<close> promise.
\<close>

locale row_table =
  fixes rows :: "'db \<Rightarrow> 'r list"
    and key :: "'r \<Rightarrow> int"
    and get :: "'db \<Rightarrow> int \<Rightarrow> 'r option"
    and upd :: "('r \<Rightarrow> bool) \<Rightarrow> ('r \<Rightarrow> 'r) \<Rightarrow> 'db \<Rightarrow> 'db"
  assumes get_law: "get db i = find (\<lambda>r. key r = i) (rows db)"
    and upd_law: "rows (upd p f db) = upd_where p f (rows db)"
begin

lemma get_SomeD: "get db i = Some r \<Longrightarrow> r \<in> set (rows db) \<and> key r = i"
  using find_SomeD by (fastforce simp: get_law)

lemma get_None_iff: "get db i = None \<longleftrightarrow> i \<notin> key ` set (rows db)"
  by (auto simp: get_law find_None_iff)

lemma same_key_same_row:
  assumes "distinct (map key (rows db))" "r \<in> set (rows db)" "r' \<in> set (rows db)" "key r = key r'"
  shows "r = r'"
  using assms by (simp add: distinct_map inj_on_def)

lemma get_member:
  assumes "distinct (map key (rows db))" "r \<in> set (rows db)"
  shows "get db (key r) = Some r"
proof (cases "get db (key r)")
  case None
  with assms(2) show ?thesis by (auto simp: get_None_iff)
next
  case (Some r')
  then have "r' \<in> set (rows db)" "key r' = key r" using get_SomeD by auto
  with assms have "r' = r" using same_key_same_row by blast
  with Some show ?thesis by simp
qed

lemma get_Some_iff:
  "distinct (map key (rows db)) \<Longrightarrow> get db i = Some r \<longleftrightarrow> r \<in> set (rows db) \<and> key r = i"
  using get_member get_SomeD by blast

lemma get_upd:
  "(\<And>r. p r \<Longrightarrow> key (f r) = key r) \<Longrightarrow>
     get (upd p f db) i = map_option (\<lambda>r. if p r then f r else r) (get db i)"
  by (simp add: get_law upd_law find_upd_where)

lemma keys_upd: "(\<And>r. p r \<Longrightarrow> key (f r) = key r) \<Longrightarrow> map key (rows (upd p f db)) = map key (rows db)"
  by (simp add: upd_law map_upd_where)

lemma member_upd:
  "r \<in> set (rows (upd p f db)) \<longleftrightarrow>
     (\<exists>r' \<in> set (rows db). r = (if p r' then f r' else r'))"
  by (auto simp: upd_law set_upd_where)

end

section \<open>Decimal numbers\<close>

definition digit_char :: "nat \<Rightarrow> char" where
  "digit_char d = char_of (d + 48)"

definition is_digit :: "char \<Rightarrow> bool" where
  "is_digit c \<longleftrightarrow> 48 \<le> (of_char c :: nat) \<and> (of_char c :: nat) \<le> 57"

definition digit_val :: "char \<Rightarrow> nat" where
  "digit_val c = of_char c - 48"

text \<open>\<open>str(n)\<close> for \<open>n \<ge> 0\<close>\<close>

fun show_nat :: "nat \<Rightarrow> string" where
  "show_nat n = (if n < 10 then [digit_char n] else show_nat (n div 10) @ [digit_char (n mod 10)])"

declare show_nat.simps [simp del]

text \<open>\<open>int(s)\<close> for a string of ASCII digits\<close>

definition read_nat :: "string \<Rightarrow> nat" where
  "read_nat s = foldl (\<lambda>n c. 10 * n + digit_val c) 0 s"

text \<open>\<open>s.isascii() and s.isdigit()\<close>: false for the empty string\<close>

definition all_digits :: "string \<Rightarrow> bool" where
  "all_digits s \<longleftrightarrow> s \<noteq> [] \<and> list_all is_digit s"

lemma digit_char_val [simp]: "d < 10 \<Longrightarrow> digit_val (digit_char d) = d"
  by (simp add: digit_val_def digit_char_def)

lemma is_digit_digit_char [simp]: "d < 10 \<Longrightarrow> is_digit (digit_char d)"
  by (simp add: is_digit_def digit_char_def)

lemma read_show_nat [simp]: "read_nat (show_nat n) = n"
proof (induction n rule: show_nat.induct)
  case (1 n)
  then show ?case
    by (cases "n < 10") (simp_all add: show_nat.simps [of n] read_nat_def)
qed

lemma all_digits_show_nat [simp]: "all_digits (show_nat n)"
proof (induction n rule: show_nat.induct)
  case (1 n)
  then show ?case
    by (cases "n < 10") (simp_all add: show_nat.simps [of n] all_digits_def)
qed

lemma show_nat_inject [simp]: "show_nat m = show_nat n \<longleftrightarrow> m = n"
  by (metis read_show_nat)

lemma show_nat_not_Nil [simp]: "show_nat n \<noteq> []"
  using all_digits_show_nat [of n] by (auto simp: all_digits_def)

text \<open>\<open>s.partition(c)\<close>: the part before the first \<open>c\<close>, whether there is one, and the rest\<close>

fun partition_at :: "char \<Rightarrow> string \<Rightarrow> string \<times> bool \<times> string" where
  "partition_at c [] = ([], False, [])"
| "partition_at c (x # xs) =
     (if x = c then ([], True, xs)
      else (case partition_at c xs of (a, s, b) \<Rightarrow> (x # a, s, b)))"

lemma partition_at_found:
  "c \<notin> set a \<Longrightarrow> partition_at c (a @ c # b) = (a, True, b)"
  by (induction a) auto

lemma partition_at_True:
  "partition_at c s = (a, True, b) \<Longrightarrow> s = a @ c # b \<and> c \<notin> set a"
  by (induction s arbitrary: a) (auto split: if_splits prod.splits)

section \<open>Text\<close>

text \<open>\<open>str.isspace\<close> on the code points below 256\<close>

definition is_space :: "char \<Rightarrow> bool" where
  "is_space c \<longleftrightarrow> (let n = (of_char c :: nat) in
     9 \<le> n \<and> n \<le> 13 \<or> 28 \<le> n \<and> n \<le> 32 \<or> n = 133 \<or> n = 160)"

lemma is_space_code [code]:
  "is_space c = (c = CHR 0x09 \<or> c = CHR 0x0A \<or> c = CHR 0x0B \<or> c = CHR 0x0C \<or> c = CHR 0x0D \<or> c = CHR 0x1C \<or>
     c = CHR 0x1D \<or> c = CHR 0x1E \<or> c = CHR 0x1F \<or> c = CHR 0x20 \<or> c = CHR 0x85 \<or> c = CHR 0xA0)"
proof -
  have eq: "c = d \<longleftrightarrow> (of_char c :: nat) = of_char d" for d by simp
  show ?thesis unfolding is_space_def eq Let_def by simp presburger
qed

text \<open>\<open>s.strip()\<close>\<close>

definition strip :: "string \<Rightarrow> string" where
  "strip s = rev (dropWhile is_space (rev (dropWhile is_space s)))"

lemma length_strip: "length (strip s) \<le> length s"
  using length_dropWhile_le [of is_space "rev (dropWhile is_space s)"]
    length_dropWhile_le [of is_space s]
  by (simp add: strip_def)

section \<open>Counting\<close>

definition count_where :: "('a \<Rightarrow> bool) \<Rightarrow> 'a list \<Rightarrow> int" where
  "count_where p xs = int (length (filter p xs))"

lemma count_where_simps [simp]:
  "count_where p [] = 0"
  "count_where p (x # xs) = (if p x then 1 else 0) + count_where p xs"
  "count_where p (xs @ ys) = count_where p xs + count_where p ys"
  by (simp_all add: count_where_def)

lemma count_where_nonneg: "0 \<le> count_where p xs"
  by (simp add: count_where_def)

lemma count_where_le_length: "count_where p xs \<le> int (length xs)"
  by (simp add: count_where_def)

lemma count_where_0_iff: "count_where p xs = 0 \<longleftrightarrow> (\<forall>x \<in> set xs. \<not> p x)"
  by (auto simp: count_where_def filter_empty_conv)

section \<open>Texts\<close>

text \<open>\<open>str.lower\<close> on the code points below 256\<close>

definition lower_char :: "char \<Rightarrow> char" where
  "lower_char c = (let n = (of_char c :: nat) in
     if 65 \<le> n \<and> n \<le> 90 \<or> 192 \<le> n \<and> n \<le> 222 \<and> n \<noteq> 215 then char_of (n + 32) else c)"

definition lower :: "string \<Rightarrow> string" where
  "lower = map lower_char"

text \<open>\<open>str(i)\<close> of an integer\<close>

definition int_text :: "int \<Rightarrow> string" where
  "int_text i = (if i < 0 then CHR ''-'' # show_nat (nat (- i)) else show_nat (nat i))"

text \<open>\<open>s.split(c)\<close>\<close>

fun split_on :: "char \<Rightarrow> string \<Rightarrow> string list" where
  "split_on c [] = [[]]"
| "split_on c (x # xs) =
     (if x = c then [] # split_on c xs
      else case split_on c xs of [] \<Rightarrow> [[x]] | p # ps \<Rightarrow> (x # p) # ps)"

lemma split_on_not_Nil [simp]: "split_on c s \<noteq> []"
  by (cases "(c, s)" rule: split_on.cases) (auto split: list.splits)

end
