(* ===== verification/Change_Phases.thy ===== *)
theory Change_Phases
  imports Tiqora_Prelude
begin

text \<open>
  \<open>itsm/change/phases.py\<close>: the phase machine of a change. \<open>TRANSITIONS\<close>, the system-only and
  system-also pairs, the guards of one step and the targets offered to a person. The theorems: final
  phases are left by nobody, the offered targets are exactly the ones some admissible step can take,
  and a normal change never gets past approval by people's steps alone.
\<close>

section \<open>Phases, types and the transition table\<close>

datatype phase = draft | submitted | assessment | approval | scheduled | implementing | review
  | closed | rejected | cancelled

datatype change_type = standard | normal | emergency

datatype outcome = successful | failed | backed_out

definition PHASES :: "phase list" where
  "PHASES = [draft, submitted, assessment, approval, scheduled, implementing, review, closed,
     rejected, cancelled]"

definition FINAL_PHASES :: "phase list" where
  "FINAL_PHASES = [closed, cancelled]"

definition REOPENABLE_PHASES :: "phase list" where
  "REOPENABLE_PHASES = filter (\<lambda>p. p \<notin> set FINAL_PHASES) PHASES"

definition TRANSITIONS :: "((phase \<times> phase) \<times> change_type list) list" where
  "TRANSITIONS = [
     ((draft, submitted), [normal]),
     ((draft, scheduled), [standard]),
     ((draft, approval), [emergency]),
     ((draft, implementing), [emergency]),
     ((submitted, assessment), [normal]),
     ((submitted, draft), [normal]),
     ((assessment, approval), [normal]),
     ((assessment, scheduled), [normal]),
     ((approval, scheduled), [normal, emergency]),
     ((approval, rejected), [normal, emergency]),
     ((approval, assessment), [normal]),
     ((approval, draft), [emergency]),
     ((rejected, draft), [normal, emergency]),
     ((scheduled, implementing), [standard, normal, emergency]),
     ((scheduled, draft), [standard, normal, emergency]),
     ((implementing, review), [normal, emergency, standard]),
     ((implementing, closed), [standard]),
     ((review, closed), [standard, normal, emergency]),
     ((draft, cancelled), [standard, normal, emergency]),
     ((submitted, cancelled), [standard, normal, emergency]),
     ((assessment, cancelled), [standard, normal, emergency]),
     ((approval, cancelled), [standard, normal, emergency]),
     ((scheduled, cancelled), [standard, normal, emergency]),
     ((rejected, cancelled), [standard, normal, emergency])]"

definition SYSTEM_ONLY :: "(phase \<times> phase) list" where
  "SYSTEM_ONLY = [(approval, scheduled), (approval, rejected), (approval, assessment),
     (approval, draft)]"

definition SYSTEM_ALSO :: "((phase \<times> phase) \<times> change_type list) list" where
  "SYSTEM_ALSO = [((implementing, review), [emergency])]"

section \<open>Guards\<close>

record guard_context =
  gc_change_type :: change_type
  gc_phase :: phase
  gc_to :: phase
  gc_is_manager :: bool
  gc_has_window :: bool
  gc_plans_complete :: bool
  gc_questionnaire_complete :: bool
  gc_impact_computed :: bool
  gc_block_conflicts :: int
  gc_override_reason :: "string option"
  gc_open_tasks :: int
  gc_force :: bool
  gc_outcome :: "outcome option"
  gc_pir_notes_present :: bool
  gc_approval_pending :: bool
  gc_approval_rejected :: bool
  gc_cab_chosen :: bool
  gc_process_ticket :: bool
  gc_emergency_post_approval :: bool
  gc_standard_requires_review :: bool
  gc_approval_cancelled :: bool
  gc_force_approval :: bool
  gc_auto_low_risk :: bool

datatype guard_code = window_missing | plans_missing | questionnaire_incomplete | impact_pending
  | block_conflict | tasks_open | outcome_missing | pir_missing | approval_pending | cab_missing
  | transition_not_allowed | system_only | process_ticket | auto_approval_not_eligible

record guard_failure =
  gf_code :: guard_code
  gf_overridable :: bool

definition guard_fail :: "guard_code \<Rightarrow> guard_failure" where
  "guard_fail c = \<lparr>gf_code = c, gf_overridable = False\<rparr>"

definition pair_allowed :: "guard_context \<Rightarrow> bool \<Rightarrow> bool" where
  "pair_allowed ctx system =
     (let pair = (gc_phase ctx, gc_to ctx); typ = gc_change_type ctx in
      case map_of TRANSITIONS pair of
        None \<Rightarrow> False
      | Some types \<Rightarrow>
         if typ \<notin> set types then False
         else if system \<and> pair \<notin> set SYSTEM_ONLY \<and>
           (case map_of SYSTEM_ALSO pair of None \<Rightarrow> True | Some also \<Rightarrow> typ \<notin> set also)
         then False
         else if pair = (draft, implementing) \<and> \<not> gc_emergency_post_approval ctx then False
         else if typ = standard \<and> pair = (implementing, review) \<and>
           \<not> gc_standard_requires_review ctx then False
         else if typ = standard \<and> pair = (implementing, closed) \<and>
           gc_standard_requires_review ctx then False
         else True)"

text \<open>\<open>(ctx.override_reason or "").strip()\<close> as a truth value\<close>

definition override_given :: "guard_context \<Rightarrow> bool" where
  "override_given ctx \<longleftrightarrow>
     strip (case gc_override_reason ctx of None \<Rightarrow> [] | Some r \<Rightarrow> r) \<noteq> []"

definition window_failures :: "guard_context \<Rightarrow> guard_failure list" where
  "window_failures ctx =
     (let pair = (gc_phase ctx, gc_to ctx) in
      if gc_to ctx \<in> {approval, scheduled, implementing} then
        (if \<not> gc_has_window ctx then [guard_fail window_missing] else []) @
        (if 0 < gc_block_conflicts ctx \<and>
            (pair = (assessment, scheduled) \<or> \<not> (gc_is_manager ctx \<and> override_given ctx))
         then [\<lparr>gf_code = block_conflict, gf_overridable = pair \<noteq> (assessment, scheduled)\<rparr>]
         else [])
      else [])"

definition preparation_failures :: "guard_context \<Rightarrow> guard_failure list" where
  "preparation_failures ctx =
     (let pair = (gc_phase ctx, gc_to ctx); typ = gc_change_type ctx in
      (if pair = (assessment, scheduled) \<and> \<not> gc_auto_low_risk ctx
       then [guard_fail auto_approval_not_eligible] else []) @
      (if (typ = normal \<or> typ = emergency) \<and>
          pair \<in> {(assessment, approval), (assessment, scheduled), (draft, approval)} \<and>
          \<not> gc_plans_complete ctx
       then [guard_fail plans_missing] else []) @
      (if typ = normal \<and> pair \<in> {(assessment, approval), (assessment, scheduled)} then
         (if \<not> gc_questionnaire_complete ctx then [guard_fail questionnaire_incomplete] else []) @
         (if \<not> gc_impact_computed ctx then [guard_fail impact_pending] else [])
       else []) @
      (if gc_to ctx = approval \<and> \<not> gc_cab_chosen ctx then [guard_fail cab_missing] else []))"

definition completion_failures :: "guard_context \<Rightarrow> guard_failure list" where
  "completion_failures ctx =
     (let pair = (gc_phase ctx, gc_to ctx); typ = gc_change_type ctx;
          forced = gc_is_manager ctx \<and> gc_force_approval ctx \<and> gc_approval_cancelled ctx in
      (if pair \<in> {(implementing, review), (implementing, closed)} \<and> 0 < gc_open_tasks ctx \<and>
          \<not> (gc_is_manager ctx \<and> gc_force ctx)
       then [\<lparr>gf_code = tasks_open, gf_overridable = True\<rparr>] else []) @
      (if gc_to ctx = closed then
         (if gc_outcome ctx = None then [guard_fail outcome_missing] else []) @
         (if pair = (review, closed) \<and> typ \<noteq> standard \<and> \<not> gc_pir_notes_present ctx
          then [guard_fail pir_missing] else []) @
         (if gc_approval_pending ctx \<and> \<not> forced
          then [\<lparr>gf_code = approval_pending, gf_overridable = gc_approval_cancelled ctx\<rparr>] else []) @
         (if gc_approval_rejected ctx \<and> gc_outcome ctx = Some successful
          then [guard_fail transition_not_allowed] else [])
       else []))"

definition check_transition :: "guard_context \<Rightarrow> bool \<Rightarrow> guard_failure list" where
  "check_transition ctx system =
     (if gc_process_ticket ctx then
        (if gc_to ctx = cancelled \<and> gc_is_manager ctx \<and> \<not> system then
           (if gc_phase ctx \<in> set REOPENABLE_PHASES then []
            else [guard_fail transition_not_allowed])
         else [guard_fail process_ticket])
      else if \<not> pair_allowed ctx system then [guard_fail transition_not_allowed]
      else if \<not> system \<and> (gc_phase ctx, gc_to ctx) \<in> set SYSTEM_ONLY
      then [guard_fail system_only]
      else if system then []
      else window_failures ctx @ preparation_failures ctx @ completion_failures ctx)"

text \<open>The context \<open>allowed_targets\<close> builds: every precondition met.\<close>

definition offer_context :: "phase \<Rightarrow> change_type \<Rightarrow> phase \<Rightarrow> bool \<Rightarrow> bool \<Rightarrow> guard_context" where
  "offer_context ph typ to post_approval requires_review =
     \<lparr>gc_change_type = typ, gc_phase = ph, gc_to = to, gc_is_manager = False,
      gc_has_window = True, gc_plans_complete = True, gc_questionnaire_complete = True,
      gc_impact_computed = True, gc_block_conflicts = 0, gc_override_reason = None,
      gc_open_tasks = 0, gc_force = False, gc_outcome = None, gc_pir_notes_present = True,
      gc_approval_pending = False, gc_approval_rejected = False, gc_cab_chosen = True,
      gc_process_ticket = False, gc_emergency_post_approval = post_approval,
      gc_standard_requires_review = requires_review, gc_approval_cancelled = False,
      gc_force_approval = False, gc_auto_low_risk = False\<rparr>"

definition allowed_targets :: "phase \<Rightarrow> change_type \<Rightarrow> bool \<Rightarrow> bool \<Rightarrow> bool \<Rightarrow> phase list" where
  "allowed_targets ph typ post_approval requires_review auto_low_risk =
     filter (\<lambda>to. (ph, to) \<notin> set SYSTEM_ONLY \<and>
         \<not> ((ph, to) = (assessment, scheduled) \<and> \<not> auto_low_risk) \<and>
         pair_allowed (offer_context ph typ to post_approval requires_review) False) PHASES"

section \<open>Facts about the table\<close>

lemma PHASES_all: "p \<in> set PHASES"
  by (cases p) (simp_all add: PHASES_def)

lemma REOPENABLE_iff: "p \<in> set REOPENABLE_PHASES \<longleftrightarrow> p \<notin> set FINAL_PHASES"
  by (simp add: REOPENABLE_PHASES_def PHASES_all)

lemma no_transition_from_final:
  "p \<in> set FINAL_PHASES \<Longrightarrow> map_of TRANSITIONS (p, q) = None"
  by (cases q) (auto simp: FINAL_PHASES_def TRANSITIONS_def)

lemma pair_allowed_phases:
  "pair_allowed ctx s \<Longrightarrow> \<exists>types. map_of TRANSITIONS (gc_phase ctx, gc_to ctx) = Some types \<and>
     gc_change_type ctx \<in> set types"
  by (auto simp: pair_allowed_def Let_def split: option.splits if_splits)

text \<open>
  C32. A closed or cancelled change stays as it is: from a final phase every step fails its guards,
  for a person and for the system, for every change type, also for a process ticket.
\<close>

theorem final_phases_absorbing:
  "gc_phase ctx \<in> set FINAL_PHASES \<Longrightarrow> check_transition ctx system \<noteq> []"
  using pair_allowed_phases [of ctx system] no_transition_from_final [of "gc_phase ctx" "gc_to ctx"]
  by (auto simp: check_transition_def REOPENABLE_iff)

theorem final_phases_absorbing_witness:
  "check_transition (offer_context closed normal draft True True) False \<noteq> []"
  using final_phases_absorbing [of "offer_context closed normal draft True True" False]
  by (simp add: offer_context_def FINAL_PHASES_def)

section \<open>Offered targets\<close>

lemma pair_allowed_cong:
  "gc_phase c = gc_phase d \<Longrightarrow> gc_to c = gc_to d \<Longrightarrow> gc_change_type c = gc_change_type d \<Longrightarrow>
   gc_emergency_post_approval c = gc_emergency_post_approval d \<Longrightarrow>
   gc_standard_requires_review c = gc_standard_requires_review d \<Longrightarrow>
   pair_allowed c s = pair_allowed d s"
  by (simp add: pair_allowed_def)

text \<open>
  The targets offered are the targets that can be taken: a phase is offered for a change (that is
  no process ticket) exactly when, under the same settings, some state of the change makes a person's
  step to it pass every guard.
\<close>

theorem allowed_targets_exact:
  "to \<in> set (allowed_targets ph typ post_approval requires_review auto_low) \<longleftrightarrow>
     (\<exists>ctx. gc_phase ctx = ph \<and> gc_to ctx = to \<and> gc_change_type ctx = typ \<and>
        \<not> gc_process_ticket ctx \<and> gc_emergency_post_approval ctx = post_approval \<and>
        gc_standard_requires_review ctx = requires_review \<and>
        (gc_auto_low_risk ctx \<longrightarrow> auto_low) \<and> check_transition ctx False = [])"
    (is "?L \<longleftrightarrow> ?R")
proof
  assume L: ?L
  let ?c = "(offer_context ph typ to post_approval requires_review)
     \<lparr>gc_outcome := Some failed, gc_auto_low_risk := auto_low\<rparr>"
  have "pair_allowed ?c False"
    using L pair_allowed_cong [of ?c "offer_context ph typ to post_approval requires_review" False]
    by (simp add: allowed_targets_def offer_context_def)
  then have "check_transition ?c False = []"
    using L by (auto simp: allowed_targets_def offer_context_def check_transition_def
        window_failures_def preparation_failures_def completion_failures_def Let_def)
  then show ?R
    by (intro exI [of _ ?c]) (simp add: offer_context_def)
next
  assume ?R
  then obtain ctx where ctx: "gc_phase ctx = ph" "gc_to ctx = to" "gc_change_type ctx = typ"
      "\<not> gc_process_ticket ctx" "gc_emergency_post_approval ctx = post_approval"
      "gc_standard_requires_review ctx = requires_review" "gc_auto_low_risk ctx \<longrightarrow> auto_low"
      "check_transition ctx False = []" by blast
  then have pair: "pair_allowed ctx False" "(ph, to) \<notin> set SYSTEM_ONLY"
      "preparation_failures ctx = []"
    by (auto simp: check_transition_def split: if_splits)
  have "pair_allowed (offer_context ph typ to post_approval requires_review) False"
    using pair(1) ctx pair_allowed_cong [of ctx "offer_context ph typ to post_approval requires_review" False]
    by (simp add: offer_context_def)
  with pair ctx show ?L
    by (auto simp: allowed_targets_def PHASES_all preparation_failures_def Let_def split: if_splits)
qed

theorem allowed_targets_exact_witness:
  "scheduled \<notin> set (allowed_targets assessment normal True True False)"
  using allowed_targets_exact [of scheduled assessment normal True True False]
  by (auto simp: check_transition_def preparation_failures_def Let_def split: if_splits)

section \<open>Runs of a change\<close>

text \<open>
  A run is a list of steps, each with the state of the change at that moment; a step is taken when
  \<open>check_transition\<close> reports nothing, and it sets the phase.
\<close>

inductive change_run :: "change_type \<Rightarrow> phase \<Rightarrow> (guard_context \<times> bool) list \<Rightarrow> phase \<Rightarrow> bool" where
  run_nil: "change_run typ ph [] ph"
| run_step: "change_run typ ph steps ph' \<Longrightarrow> gc_change_type ctx = typ \<Longrightarrow> gc_phase ctx = ph' \<Longrightarrow>
     check_transition ctx system = [] \<Longrightarrow> change_run typ ph (steps @ [(ctx, system)]) (gc_to ctx)"

inductive_cases change_run_NilE: "change_run typ ph [] ph'"

text \<open>Where a normal change can be without an approval outcome and without auto-approval.\<close>

definition before_approval :: "phase \<Rightarrow> bool" where
  "before_approval p \<longleftrightarrow> p \<in> {draft, submitted, assessment, approval, cancelled}"

lemma person_step_before_approval:
  assumes "check_transition ctx False = []" and "gc_change_type ctx = normal"
    and "before_approval (gc_phase ctx)" and "\<not> gc_auto_low_risk ctx"
  shows "before_approval (gc_to ctx)"
proof (cases "gc_process_ticket ctx")
  case True
  with assms(1) show ?thesis
    by (auto simp: check_transition_def before_approval_def split: if_splits)
next
  case False
  with assms(1) have pair: "pair_allowed ctx False" "(gc_phase ctx, gc_to ctx) \<notin> set SYSTEM_ONLY"
      "preparation_failures ctx = []"
    by (auto simp: check_transition_def split: if_splits)
  with assms(2-4) pair_allowed_phases [OF pair(1)] show ?thesis
    by (cases "gc_phase ctx"; cases "gc_to ctx")
       (simp_all add: before_approval_def TRANSITIONS_def SYSTEM_ONLY_def
          preparation_failures_def Let_def split: if_splits)
qed

text \<open>
  C29. Nobody schedules a normal change alone: in every run of people's steps that starts in draft and
  in which the change was never eligible for auto-approval, the change stays in draft, submitted,
  assessment or approval (or is cancelled). Scheduled, implementing, review and closed need an
  approval outcome (a system step) or the auto-approval.
\<close>

theorem normal_change_needs_approval:
  assumes "change_run normal draft steps ph"
    and "\<forall>(ctx, system) \<in> set steps. \<not> system \<and> \<not> gc_auto_low_risk ctx"
  shows "ph \<in> {draft, submitted, assessment, approval, cancelled}"
proof -
  have "before_approval ph"
    using assms
  proof (induction normal draft steps ph rule: change_run.induct)
    case run_nil
    then show ?case by (simp add: before_approval_def)
  next
    case (run_step steps ph' ctx system)
    then show ?case by (auto intro!: person_step_before_approval)
  qed
  then show ?thesis by (simp add: before_approval_def)
qed

theorem normal_change_needs_approval_witness:
  "change_run normal draft [(offer_context draft normal submitted False False, False)] submitted \<and>
   submitted \<in> {draft, submitted, assessment, approval, cancelled}"
proof -
  let ?c = "offer_context draft normal submitted False False"
  have free: "check_transition ?c False = []"
    by (simp add: check_transition_def pair_allowed_def offer_context_def TRANSITIONS_def
        SYSTEM_ONLY_def window_failures_def preparation_failures_def completion_failures_def)
  have "change_run normal draft ([] @ [(?c, False)]) (gc_to ?c)"
    by (rule run_step [OF run_nil _ _ free]) (simp_all add: offer_context_def)
  then have run: "change_run normal draft [(?c, False)] submitted"
    by (simp add: offer_context_def)
  then show ?thesis
    using normal_change_needs_approval [OF run] by (simp add: offer_context_def)
qed

end
