(* ===== verification/Approval_Contract.thy ===== *)
theory Approval_Contract
  imports Tiqora_Prelude
begin

text \<open>
  The data of \<open>approvals/contract.py\<close>: status and rule literals, principals and their keys,
  actors, approver entries, step specifications and definitions with the checks their models run,
  and the error codes with the HTTP status the contract fixes for each of them. The detail text of
  an \<open>ApprovalError\<close> is not modelled; its code and its HTTP status are, as each
  \<open>raise\<close> writes them.
\<close>

section \<open>Literals\<close>

datatype principal_kind = Agent | Customer

datatype approval_status = AP_pending | AP_approved | AP_rejected | AP_cancelled

datatype step_status = ST_waiting | ST_active | ST_approved | ST_rejected | ST_cancelled

datatype rule = R_any | R_all | R_quorum | R_majority

datatype channel = Ch_ui | Ch_email | Ch_portal | Ch_api | Ch_mcp | Ch_chat | Ch_auto

datatype decision = D_approved | D_rejected

section \<open>Errors\<close>

datatype error_code =
    approvals_disabled | subject_unavailable | approval_busy | approval_not_found
  | ticket_not_found | template_not_found | list_not_found | forbidden | not_an_approver
  | self_approval_forbidden | customer_approver_outside_company | delegation_not_active
  | comment_too_long | already_decided | approval_closed | step_not_active
  | forward_not_allowed | forward_target_invalid | invalid_definition | unknown_subject_type
  | subject_not_requestable | customer_approvers_not_allowed | unknown_resolver
  | link_invalid | link_expired | link_used | invalid_member | list_name_taken | list_in_use
  | template_key_taken | delegation_overlap | approver_invalid | template_changed

text \<open>Every exception the modelled code can let through.\<close>

datatype error =
    ApprovalError error_code int
  | UnknownLinkError
  | ValueError
  | TypeError
  | AssertionError
  | IntegrityError
  | UnknownJobKind
  | ResolverError
  | RecursionError
  | RuntimeError

type_synonym 'a res = "error + 'a"

fun ERROR_STATUS :: "error_code \<Rightarrow> int" where
  "ERROR_STATUS approvals_disabled = 404"
| "ERROR_STATUS subject_unavailable = 409"
| "ERROR_STATUS approval_busy = 503"
| "ERROR_STATUS approval_not_found = 404"
| "ERROR_STATUS ticket_not_found = 404"
| "ERROR_STATUS template_not_found = 404"
| "ERROR_STATUS list_not_found = 404"
| "ERROR_STATUS forbidden = 403"
| "ERROR_STATUS not_an_approver = 403"
| "ERROR_STATUS self_approval_forbidden = 403"
| "ERROR_STATUS customer_approver_outside_company = 403"
| "ERROR_STATUS delegation_not_active = 403"
| "ERROR_STATUS comment_too_long = 422"
| "ERROR_STATUS already_decided = 409"
| "ERROR_STATUS approval_closed = 409"
| "ERROR_STATUS step_not_active = 409"
| "ERROR_STATUS forward_not_allowed = 409"
| "ERROR_STATUS forward_target_invalid = 422"
| "ERROR_STATUS invalid_definition = 422"
| "ERROR_STATUS unknown_subject_type = 422"
| "ERROR_STATUS subject_not_requestable = 422"
| "ERROR_STATUS customer_approvers_not_allowed = 422"
| "ERROR_STATUS unknown_resolver = 422"
| "ERROR_STATUS link_invalid = 410"
| "ERROR_STATUS link_expired = 410"
| "ERROR_STATUS link_used = 410"
| "ERROR_STATUS invalid_member = 422"
| "ERROR_STATUS list_name_taken = 409"
| "ERROR_STATUS list_in_use = 409"
| "ERROR_STATUS template_key_taken = 409"
| "ERROR_STATUS delegation_overlap = 409"
| "ERROR_STATUS approver_invalid = 403"
| "ERROR_STATUS template_changed = 409"

text \<open>What every raised \<open>ApprovalError\<close> should satisfy: code and status agree.\<close>

fun error_ok :: "error \<Rightarrow> bool" where
  "error_ok (ApprovalError c s) = (s = ERROR_STATUS c)"
| "error_ok _ = True"

section \<open>Principals and actors\<close>

record principal =
  p_kind :: principal_kind
  p_user_id :: "int option"
  p_login :: "string option"

text \<open>\<open>Principal.__post_init__\<close>: the constructor's checks\<close>

definition principal_ok :: "principal \<Rightarrow> bool" where
  "principal_ok p = (case p_kind p of
     Agent \<Rightarrow> (case p_user_id p of None \<Rightarrow> False | Some i \<Rightarrow> 1 \<le> i) \<and> p_login p = None
   | Customer \<Rightarrow> (case p_login p of None \<Rightarrow> False | Some l \<Rightarrow> l \<noteq> []) \<and> p_user_id p = None)"

definition mk_principal ::
  "principal_kind \<Rightarrow> int option \<Rightarrow> string option \<Rightarrow> principal res" where
  "mk_principal k u l =
     (let p = \<lparr>p_kind = k, p_user_id = u, p_login = l\<rparr>
      in if principal_ok p then Inr p else Inl ValueError)"

definition principal_agent :: "int \<Rightarrow> principal res" where
  "principal_agent u = (if u < 1 then Inl ValueError else mk_principal Agent (Some u) None)"

definition principal_customer :: "string \<Rightarrow> principal res" where
  "principal_customer l = (if l = [] then Inl ValueError else mk_principal Customer None (Some l))"

text \<open>\<open>str(i)\<close> of an \<open>int\<close>, and of \<open>None\<close> in an f-string\<close>

definition str_int :: "int \<Rightarrow> string" where
  "str_int i = (if i < 0 then CHR ''-'' # show_nat (nat (- i)) else show_nat (nat i))"

definition str_opt :: "('a \<Rightarrow> string) \<Rightarrow> 'a option \<Rightarrow> string" where
  "str_opt f x = (case x of None \<Rightarrow> ''None'' | Some y \<Rightarrow> f y)"

definition principal_key :: "principal \<Rightarrow> string" where
  "principal_key p = (case p_kind p of
     Agent \<Rightarrow> ''agent:'' @ str_opt str_int (p_user_id p)
   | Customer \<Rightarrow> ''customer:'' @ str_opt id (p_login p))"

definition parse_principal :: "string \<Rightarrow> principal res" where
  "parse_principal k = (case partition_at (CHR '':'') k of (kind, sep, ref) \<Rightarrow>
     if \<not> sep \<or> ref = [] then Inl ValueError
     else if kind = ''agent'' then
       (if \<not> all_digits ref \<or> show_nat (read_nat ref) \<noteq> ref then Inl ValueError
        else principal_agent (int (read_nat ref)))
     else if kind = ''customer'' then principal_customer ref
     else Inl ValueError)"

record actor =
  a_principal :: "principal option"
  a_write_user_id :: int

definition PORTAL_WRITE_USER_ID :: int where "PORTAL_WRITE_USER_ID = 1"
definition SYSTEM_WRITE_USER_ID :: int where "SYSTEM_WRITE_USER_ID = 1"

definition actor_key :: "actor \<Rightarrow> string" where
  "actor_key a = (case a_principal a of None \<Rightarrow> ''system'' | Some p \<Rightarrow> principal_key p)"

definition actor_agent :: "int \<Rightarrow> actor res" where
  "actor_agent u = res_bind (principal_agent u)
     (\<lambda>p. Inr \<lparr>a_principal = Some p, a_write_user_id = u\<rparr>)"

definition actor_customer :: "string \<Rightarrow> actor res" where
  "actor_customer l = res_bind (principal_customer l)
     (\<lambda>p. Inr \<lparr>a_principal = Some p, a_write_user_id = PORTAL_WRITE_USER_ID\<rparr>)"

definition actor_system :: actor where
  "actor_system = \<lparr>a_principal = None, a_write_user_id = SYSTEM_WRITE_USER_ID\<rparr>"

lemma principal_agent_Inr [simp]:
  "principal_agent u = Inr p \<longleftrightarrow> 1 \<le> u \<and> p = \<lparr>p_kind = Agent, p_user_id = Some u, p_login = None\<rparr>"
  by (auto simp: principal_agent_def mk_principal_def principal_ok_def)

lemma principal_customer_Inr [simp]:
  "principal_customer l = Inr p \<longleftrightarrow>
     l \<noteq> [] \<and> p = \<lparr>p_kind = Customer, p_user_id = None, p_login = Some l\<rparr>"
  by (auto simp: principal_customer_def mk_principal_def principal_ok_def)

lemma principal_okE:
  assumes "principal_ok p"
  obtains (agent) u where "1 \<le> u" "p = \<lparr>p_kind = Agent, p_user_id = Some u, p_login = None\<rparr>"
    | (customer) l where "l \<noteq> []" "p = \<lparr>p_kind = Customer, p_user_id = None, p_login = Some l\<rparr>"
proof (cases "p_kind p")
  case Agent
  with assms obtain u where "p_user_id p = Some u" "1 \<le> u" "p_login p = None"
    by (auto simp: principal_ok_def split: option.splits)
  with Agent show ?thesis by (intro agent [of u]) simp_all
next
  case Customer
  with assms obtain l where "p_login p = Some l" "l \<noteq> []" "p_user_id p = None"
    by (auto simp: principal_ok_def split: option.splits)
  with Customer show ?thesis by (intro customer [of l]) simp_all
qed

lemma str_int_nonneg [simp]: "0 \<le> u \<Longrightarrow> str_int u = show_nat (nat u)"
  by (simp add: str_int_def)

lemma parse_agent_key:
  "parse_principal (''agent:'' @ ref) =
     (if \<not> all_digits ref \<or> show_nat (read_nat ref) \<noteq> ref then Inl ValueError
      else principal_agent (int (read_nat ref)))"
  using partition_at_found [of "CHR '':''" "''agent''" ref]
  by (auto simp: parse_principal_def all_digits_def)

lemma parse_customer_key: "parse_principal (''customer:'' @ ref) = principal_customer ref"
  using partition_at_found [of "CHR '':''" "''customer''" ref]
  by (auto simp: parse_principal_def principal_customer_def)

text \<open>
  \<open>Principal.parse\<close> is the inverse of \<open>Principal.key\<close>, in both directions: every principal
  the constructor admits is read back from its key, and every key that parses is the key of the
  principal it parses to (so two spellings of one principal do not exist).
\<close>

theorem principal_key_roundtrip:
  "(principal_ok p \<longrightarrow> parse_principal (principal_key p) = Inr p) \<and>
   (parse_principal k = Inr q \<longrightarrow> principal_ok q \<and> principal_key q = k)"
proof (intro conjI impI)
  assume "principal_ok p"
  then show "parse_principal (principal_key p) = Inr p"
    by (cases rule: principal_okE)
       (simp_all add: principal_key_def str_opt_def parse_agent_key [simplified]
         parse_customer_key [simplified])
next
  assume parsed: "parse_principal k = Inr q"
  obtain kind sep ref where part: "partition_at (CHR '':'') k = (kind, sep, ref)"
    by (metis prod_cases3)
  from parsed part have sep: "sep" and ref: "ref \<noteq> []"
    by (auto simp: parse_principal_def split: if_splits)
  with part have k: "k = kind @ CHR '':'' # ref"
    using partition_at_True [of "CHR '':''" k kind ref] by simp
  have "principal_ok q \<and> principal_key q = k"
    using parsed part sep ref k
    by (auto simp: parse_principal_def principal_ok_def principal_key_def str_opt_def
        split: if_splits)
  then show "principal_ok q" and "principal_key q = k" by simp_all
qed

theorem principal_key_roundtrip_witness:
  "parse_principal (principal_key \<lparr>p_kind = Agent, p_user_id = Some 12, p_login = None\<rparr>) =
     Inr \<lparr>p_kind = Agent, p_user_id = Some 12, p_login = None\<rparr>"
  using principal_key_roundtrip [of "\<lparr>p_kind = Agent, p_user_id = Some 12, p_login = None\<rparr>"]
  by (simp add: principal_ok_def)

lemma principal_key_inject:
  "principal_ok p \<Longrightarrow> principal_ok q \<Longrightarrow> principal_key p = principal_key q \<longleftrightarrow> p = q"
  by (elim principal_okE) (auto simp: principal_key_def str_opt_def nat_eq_iff2)

section \<open>Step specifications and definitions\<close>

datatype entry_kind = E_user | E_group | E_role | E_list | E_customer_user | E_resolver

record approver_entry =
  e_kind :: entry_kind
  e_ref :: string

text \<open>The field constraints of \<open>ApproverEntry\<close> (\<open>ref\<close>: 1 to 190 characters of the BMP).\<close>

definition approver_entry_ok :: "approver_entry \<Rightarrow> bool" where
  "approver_entry_ok e \<longleftrightarrow> 1 \<le> length (e_ref e) \<and> length (e_ref e) \<le> 190 \<and>
     \<not> list_ex (\<lambda>c. (0xFFFF :: nat) < of_char c) (e_ref e)"

datatype on_timeout = OT_notify | OT_escalate | OT_reject | OT_approve
datatype on_no_approver = NA_reject | NA_approve

record step_spec =
  sp_name :: string
  sp_stage :: int
  sp_rule :: rule
  sp_quorum :: "int option"
  sp_approvers :: "approver_entry list"
  sp_due_hours :: "int option"
  sp_on_timeout :: on_timeout
  sp_escalation :: "approver_entry list"
  sp_on_no_approver :: on_no_approver
  sp_allow_delegation :: bool
  sp_allow_email :: bool

text \<open>Field constraints and \<open>_check_consistency\<close> of \<open>StepSpec\<close>.\<close>

definition step_spec_ok :: "step_spec \<Rightarrow> bool" where
  "step_spec_ok s \<longleftrightarrow>
     1 \<le> length (sp_name s) \<and> length (sp_name s) \<le> 200 \<and>
     1 \<le> sp_stage s \<and> sp_stage s \<le> 10 \<and>
     (case sp_quorum s of None \<Rightarrow> True | Some q \<Rightarrow> 1 \<le> q \<and> q \<le> 100) \<and>
     1 \<le> length (sp_approvers s) \<and> length (sp_approvers s) \<le> 50 \<and>
     list_all approver_entry_ok (sp_approvers s) \<and>
     (case sp_due_hours s of None \<Rightarrow> True | Some h \<Rightarrow> 0 \<le> h \<and> h \<le> 8760) \<and>
     length (sp_escalation s) \<le> 20 \<and> list_all approver_entry_ok (sp_escalation s) \<and>
     (sp_rule s = R_quorum \<longleftrightarrow> sp_quorum s \<noteq> None) \<and>
     (sp_on_timeout s = OT_escalate \<longleftrightarrow> sp_escalation s \<noteq> [])"

record approval_definition =
  d_steps :: "step_spec list"

text \<open>Constraints of \<open>ApprovalDefinition\<close>: 1 to 10 steps, stages contiguous from 1.\<close>

definition stages_contiguous :: "step_spec list \<Rightarrow> bool" where
  "stages_contiguous ss \<longleftrightarrow>
     (let stages = remdups (map sp_stage ss)
      in set stages = set (map int [1..<length stages + 1]))"

definition approval_definition_ok :: "approval_definition \<Rightarrow> bool" where
  "approval_definition_ok d \<longleftrightarrow>
     1 \<le> length (d_steps d) \<and> length (d_steps d) \<le> 10 \<and>
     list_all step_spec_ok (d_steps d) \<and> stages_contiguous (d_steps d)"

section \<open>Subject types and the extension points\<close>

record resolve_context =
  rc_ticket_id :: int
  rc_subject_type :: string
  rc_subject_ref :: "string option"
  rc_approval_id :: int

definition COMMENT_MAX :: nat where "COMMENT_MAX = 2000"

end
