(* ===== verification/Job_Queue.thy ===== *)
theory Job_Queue
  imports Approval_Contract
begin

text \<open>
  The background job queue: \<open>jobs/service.py\<close> (enqueue with de-duplication, reads, cancel, purge)
  and the database side of \<open>jobs/runner.py\<close> (lanes, claim, the mapping of a handler's end to a
  status, finish, retry, settling of interrupted claims), and what a running handler writes through
  \<open>jobs/context.py\<close> or an interruption hook. A job table is a list of rows in id order;
  an \<open>UPDATE\<close> with conditions is \<open>upd_where\<close>, its \<open>rowcount\<close> the number of rows the conditions
  hold for. The runner's processes interleave at the granularity of these statements:
  \<open>queue_step\<close> has one rule for each of them.
\<close>

section \<open>Rows and handlers\<close>

datatype job_status = J_queued | J_running | J_succeeded | J_failed | J_cancelled

definition ACTIVE_STATUSES :: "job_status list" where
  "ACTIVE_STATUSES = [J_queued, J_running]"

definition TERMINAL_STATUSES :: "job_status list" where
  "TERMINAL_STATUSES = [J_succeeded, J_failed, J_cancelled]"

text \<open>The runner's fixed messages, and the message of a handler's exception.\<close>

datatype job_message = INTERRUPTED_MESSAGE | TIMEOUT_MESSAGE | FAILED_MESSAGE
  | UNKNOWN_KIND_MESSAGE | RESULT_TOO_LARGE_MESSAGE | HandlerMessage string

record 'p job_row =
  jb_id :: int
  jb_kind :: string
  jb_status :: job_status
  jb_payload :: 'p
  jb_result :: "string option"
  jb_error :: "job_message option"
  jb_progress_done :: int
  jb_progress_total :: "int option"
  jb_progress_message :: "string option"
  jb_cancel_requested :: bool
  jb_dedupe_key :: "string option"
  jb_created_by :: "int option"
  jb_worker_id :: "string option"
  jb_created_at :: instant
  jb_started_at :: "instant option"
  jb_heartbeat_at :: "instant option"
  jb_finished_at :: "instant option"
  jb_attempts :: int
  jb_due_at :: "instant option"
  jb_checkpoint :: "string option"

record job_file_row =
  jf_id :: int
  jf_job_id :: int

record 'p job_table =
  jt_rows :: "'p job_row list"
  jt_next_id :: int
  jt_files :: "job_file_row list"

record job_handler =
  h_kind :: string
  h_lane :: string
  h_max_attempts :: int
  h_requeue_if_interrupted :: bool

type_synonym handlers = "job_handler list"

definition handler_of :: "handlers \<Rightarrow> string \<Rightarrow> job_handler option" where
  "handler_of hs kind = find (\<lambda>h. h_kind h = kind) hs"

definition max_attempts_of :: "handlers \<Rightarrow> string \<Rightarrow> int" where
  "max_attempts_of hs kind = (case handler_of hs kind of None \<Rightarrow> 1 | Some h \<Rightarrow> h_max_attempts h)"

definition DEFAULT_LANE :: string where "DEFAULT_LANE = ''default''"

definition lane_slots :: "string \<Rightarrow> int \<Rightarrow> int" where
  "lane_slots lane default_slots =
     (if lane = DEFAULT_LANE then default_slots
      else case map_of [(''mail'', 1), (''gi'', 2), (''gi_sync'', 1), (''itsm_import'', 1),
             (''plugins'', 1)] lane of None \<Rightarrow> 1 | Some n \<Rightarrow> n)"

section \<open>The service\<close>

definition is_active :: "'p job_row \<Rightarrow> bool" where
  "is_active j \<longleftrightarrow> jb_status j \<in> set ACTIVE_STATUSES"

definition is_terminal :: "'p job_row \<Rightarrow> bool" where
  "is_terminal j \<longleftrightarrow> jb_status j \<in> set TERMINAL_STATUSES"

definition find_active_job :: "'p job_table \<Rightarrow> string \<Rightarrow> string \<Rightarrow> 'p job_row option" where
  "find_active_job t kind key =
     find (\<lambda>j. jb_kind j = kind \<and> jb_dedupe_key j = Some key \<and> is_active j \<and>
       \<not> jb_cancel_requested j) (jt_rows t)"

definition new_job ::
  "int \<Rightarrow> string \<Rightarrow> 'p \<Rightarrow> int option \<Rightarrow> string option \<Rightarrow> instant \<Rightarrow> instant option \<Rightarrow> 'p job_row" where
  "new_job i kind payload created_by dedupe now due =
     \<lparr>jb_id = i, jb_kind = kind, jb_status = J_queued, jb_payload = payload, jb_result = None,
      jb_error = None, jb_progress_done = 0,
      jb_progress_total = None, jb_progress_message = None, jb_cancel_requested = False,
      jb_dedupe_key = dedupe, jb_created_by = created_by, jb_worker_id = None, jb_created_at = now,
      jb_started_at = None, jb_heartbeat_at = None, jb_finished_at = None, jb_attempts = 0,
      jb_due_at = due, jb_checkpoint = None\<rparr>"

text \<open>The job's id and the table; the payload is taken as already valid for its handler.\<close>

definition enqueue_job ::
  "handlers \<Rightarrow> instant \<Rightarrow> string \<Rightarrow> 'p \<Rightarrow> int option \<Rightarrow> string option \<Rightarrow> instant option \<Rightarrow>
     'p job_table \<Rightarrow> (int \<times> 'p job_table) res" where
  "enqueue_job hs now kind payload created_by dedupe due t =
     (case handler_of hs kind of
        None \<Rightarrow> Inl UnknownJobKind
      | Some _ \<Rightarrow>
         (case (case dedupe of None \<Rightarrow> None | Some key \<Rightarrow> find_active_job t kind key) of
            Some existing \<Rightarrow> Inr (jb_id existing, t)
          | None \<Rightarrow>
             Inr (jt_next_id t,
               t\<lparr>jt_rows := jt_rows t @ [new_job (jt_next_id t) kind payload created_by dedupe now due],
                 jt_next_id := jt_next_id t + 1\<rparr>)))"

definition count_active_jobs :: "'p job_table \<Rightarrow> string \<Rightarrow> int \<Rightarrow> bool \<Rightarrow> int" where
  "count_active_jobs t kind created_by include_cancelling =
     count_where (\<lambda>j. jb_kind j = kind \<and> jb_created_by j = Some created_by \<and> is_active j \<and>
       (include_cancelling \<or> \<not> jb_cancel_requested j)) (jt_rows t)"

definition rowcount :: "('r \<Rightarrow> bool) \<Rightarrow> 'r list \<Rightarrow> nat" where
  "rowcount p rows = length (filter p rows)"

definition update_jobs :: "('p job_row \<Rightarrow> bool) \<Rightarrow> ('p job_row \<Rightarrow> 'p job_row) \<Rightarrow> 'p job_table \<Rightarrow> 'p job_table" where
  "update_jobs p f t = t\<lparr>jt_rows := upd_where p f (jt_rows t)\<rparr>"

datatype cancel_error = JobNotCancellable

text \<open>
  \<open>request_cancel\<close>: \<open>seen\<close> is the status the caller read, which a worker may have changed since;
  the two guarded updates run on the current table.
\<close>

definition request_cancel ::
  "instant \<Rightarrow> job_status \<Rightarrow> int \<Rightarrow> 'p job_table \<Rightarrow> cancel_error + 'p job_table" where
  "request_cancel now seen i t =
     (if seen \<in> set TERMINAL_STATUSES then Inl JobNotCancellable
      else
        let queued = (\<lambda>j. jb_id j = i \<and> jb_status j = J_queued);
            running = (\<lambda>j. jb_id j = i \<and> jb_status j = J_running)
        in if seen = J_queued \<and> rowcount queued (jt_rows t) = 1
           then Inr (update_jobs queued (\<lambda>j. j\<lparr>jb_status := J_cancelled, jb_finished_at := Some now\<rparr>) t)
           else if rowcount running (jt_rows t) \<noteq> 1 then Inl JobNotCancellable
           else Inr (update_jobs running (\<lambda>j. j\<lparr>jb_cancel_requested := True\<rparr>) t))"

definition purgeable :: "instant \<Rightarrow> 'p job_row \<Rightarrow> bool" where
  "purgeable older_than j \<longleftrightarrow>
     is_terminal j \<and> (case jb_finished_at j of None \<Rightarrow> False | Some f \<Rightarrow> f < older_than)"

definition purge_finished_jobs :: "instant \<Rightarrow> 'p job_table \<Rightarrow> int \<times> 'p job_table" where
  "purge_finished_jobs older_than t =
     (let ids = map jb_id (filter (purgeable older_than) (jt_rows t)) in
      if ids = [] then (0, t)
      else (int (length ids),
        t\<lparr>jt_files := filter (\<lambda>f. jf_job_id f \<notin> set ids) (jt_files t),
          jt_rows := filter (\<lambda>j. jb_id j \<notin> set ids) (jt_rows t)\<rparr>))"

definition can_view_job :: "'p job_row \<Rightarrow> int \<Rightarrow> bool \<Rightarrow> bool" where
  "can_view_job j user_id admin \<longleftrightarrow> admin \<or> (jb_created_by j = Some user_id)"

definition can_download_job_file :: "'p job_row \<Rightarrow> int \<Rightarrow> bool" where
  "can_download_job_file j user_id \<longleftrightarrow> jb_created_by j = Some user_id"

section \<open>The runner\<close>

definition HEARTBEAT_SECONDS :: int where "HEARTBEAT_SECONDS = 30"
definition STALE_AFTER_SECONDS :: int where "STALE_AFTER_SECONDS = 180"
definition MAX_RESULT_CHARS :: nat where "MAX_RESULT_CHARS = 1000000"

text \<open>\<open>_requeue_values\<close>: back to the queue, or cancelled when a cancel was requested\<close>

definition requeue_values :: "instant \<Rightarrow> instant option \<Rightarrow> 'p job_row \<Rightarrow> 'p job_row" where
  "requeue_values now due j =
     j\<lparr>jb_status := (if jb_cancel_requested j then J_cancelled else J_queued),
       jb_worker_id := None, jb_started_at := None, jb_heartbeat_at := None, jb_due_at := due,
       jb_finished_at := (if jb_cancel_requested j then Some now else None)\<rparr>"

definition claimable :: "int \<Rightarrow> 'p job_row \<Rightarrow> bool" where
  "claimable i j \<longleftrightarrow> jb_id j = i \<and> jb_status j = J_queued \<and> \<not> jb_cancel_requested j"

text \<open>\<open>_claim\<close>: the attempt number (0 when taken) and the table\<close>

definition claim :: "string \<Rightarrow> instant \<Rightarrow> int \<Rightarrow> 'p job_table \<Rightarrow> int \<times> 'p job_table" where
  "claim worker now i t =
     (if rowcount (claimable i) (jt_rows t) \<noteq> 1 then (0, t)
      else
        let t' = update_jobs (claimable i) (\<lambda>j. j\<lparr>jb_status := J_running, jb_worker_id := Some worker,
               jb_started_at := Some now, jb_heartbeat_at := Some now,
               jb_attempts := jb_attempts j + 1, jb_checkpoint := None, jb_due_at := None\<rparr>) t
        in ((case find (\<lambda>j. jb_id j = i) (jt_rows t') of None \<Rightarrow> 0 | Some j \<Rightarrow> jb_attempts j), t'))"

definition own_claim :: "string \<Rightarrow> int \<Rightarrow> int \<Rightarrow> 'p job_row \<Rightarrow> bool" where
  "own_claim worker i attempt j \<longleftrightarrow> jb_id j = i \<and> jb_status j = J_running \<and>
     jb_worker_id j = Some worker \<and> jb_attempts j = attempt"

definition heartbeat :: "string \<Rightarrow> instant \<Rightarrow> int \<Rightarrow> 'p job_table \<Rightarrow> 'p job_table" where
  "heartbeat worker now i t =
     update_jobs (\<lambda>j. jb_id j = i \<and> jb_status j = J_running \<and> jb_worker_id j = Some worker)
       (\<lambda>j. j\<lparr>jb_heartbeat_at := Some now\<rparr>) t"

text \<open>How a handler's run ends; the encoded JSON of its result, if it returned one.\<close>

datatype handler_end = HE_return "string option" | HE_cancelled | HE_retry string int
  | HE_failed string | HE_exception | HE_timeout

datatype run_status = RS_final job_status | RS_retry int | RS_timeout

text \<open>\<open>_run_handler\<close>: status, error and result (the delay is the retry's)\<close>

definition run_handler ::
  "job_handler option \<Rightarrow> bool \<Rightarrow> int \<Rightarrow> handler_end \<Rightarrow>
     run_status \<times> job_message option \<times> string option" where
  "run_handler h payload_valid attempt fin =
     (case h of
        None \<Rightarrow> (RS_final J_failed, Some UNKNOWN_KIND_MESSAGE, None)
      | Some h \<Rightarrow>
         if \<not> payload_valid then (RS_final J_failed, Some FAILED_MESSAGE, None)
         else case fin of
             HE_return None \<Rightarrow> (RS_final J_succeeded, None, None)
           | HE_return (Some enc) \<Rightarrow>
              (if MAX_RESULT_CHARS < length enc
               then (RS_final J_failed, Some RESULT_TOO_LARGE_MESSAGE, None)
               else (RS_final J_succeeded, None, Some enc))
           | HE_cancelled \<Rightarrow> (RS_final J_cancelled, None, None)
           | HE_retry m delay \<Rightarrow>
              (if h_max_attempts h \<le> attempt then (RS_final J_failed, Some (HandlerMessage m), None)
               else (RS_retry delay, Some (HandlerMessage m), None))
           | HE_failed m \<Rightarrow> (RS_final J_failed, Some (HandlerMessage m), None)
           | HE_exception \<Rightarrow> (RS_final J_failed, Some FAILED_MESSAGE, None)
           | HE_timeout \<Rightarrow> (RS_timeout, Some TIMEOUT_MESSAGE, None))"

definition finalize_job ::
  "string \<Rightarrow> instant \<Rightarrow> int \<Rightarrow> int \<Rightarrow> job_status \<Rightarrow> job_message option \<Rightarrow> string option \<Rightarrow>
     'p job_table \<Rightarrow> 'p job_table" where
  "finalize_job worker now i attempt status err result t =
     update_jobs (own_claim worker i attempt)
       (\<lambda>j. j\<lparr>jb_status := status, jb_error := err, jb_result := result, jb_finished_at := Some now\<rparr>) t"

definition requeue_for_retry ::
  "string \<Rightarrow> instant \<Rightarrow> int \<Rightarrow> int \<Rightarrow> string option \<Rightarrow> int \<Rightarrow> 'p job_table \<Rightarrow> 'p job_table" where
  "requeue_for_retry worker now i attempt message delay_seconds t =
     update_jobs (own_claim worker i attempt)
       (\<lambda>j. (requeue_values now (Some (now + delay_seconds * usec_per_second)) j)
          \<lparr>jb_checkpoint := None,
           jb_progress_message :=
             (case message of None \<Rightarrow> None | Some m \<Rightarrow> if m = [] then None else Some (take 500 m))\<rparr>) t"

text \<open>
  \<open>_settle_interrupted\<close> on the row as it was read (\<open>seen\<close>): requeue before the checkpoint when the
  handler allows another attempt, else fail; \<open>extra\<close> are the caller's further conditions (stale, or
  owned by this worker). The two statements are separate transactions.
\<close>

definition settle_claim :: "('p job_row \<Rightarrow> bool) \<Rightarrow> 'p job_row \<Rightarrow> 'p job_row \<Rightarrow> bool" where
  "settle_claim extra seen j \<longleftrightarrow> jb_id j = jb_id seen \<and> jb_status j = J_running \<and>
     jb_attempts j = jb_attempts seen \<and> extra j"

definition may_requeue :: "handlers \<Rightarrow> 'p job_row \<Rightarrow> bool" where
  "may_requeue hs seen \<longleftrightarrow>
     (case handler_of hs (jb_kind seen) of None \<Rightarrow> False | Some h \<Rightarrow>
        h_requeue_if_interrupted h \<and> jb_checkpoint seen = None \<and> jb_attempts seen < h_max_attempts h)"

definition settle_requeue ::
  "instant \<Rightarrow> ('p job_row \<Rightarrow> bool) \<Rightarrow> 'p job_row \<Rightarrow> 'p job_table \<Rightarrow> bool \<times> 'p job_table" where
  "settle_requeue now extra seen t =
     (let p = (\<lambda>j. settle_claim extra seen j \<and> jb_checkpoint j = None)
      in (rowcount p (jt_rows t) = 1, update_jobs p (requeue_values now None) t))"

definition settle_fail ::
  "instant \<Rightarrow> ('p job_row \<Rightarrow> bool) \<Rightarrow> 'p job_row \<Rightarrow> bool \<Rightarrow> 'p job_table \<Rightarrow> bool \<times> 'p job_table" where
  "settle_fail now extra seen timed_out t =
     (let p = settle_claim extra seen
      in (rowcount p (jt_rows t) = 1,
          update_jobs p (\<lambda>j. j\<lparr>jb_status := J_failed,
            jb_error := Some (if timed_out then TIMEOUT_MESSAGE else INTERRUPTED_MESSAGE),
            jb_finished_at := Some now\<rparr>) t))"

definition settle_interrupted ::
  "handlers \<Rightarrow> instant \<Rightarrow> ('p job_row \<Rightarrow> bool) \<Rightarrow> 'p job_row \<Rightarrow> bool \<Rightarrow> 'p job_table \<Rightarrow> bool \<times> 'p job_table" where
  "settle_interrupted hs now extra seen timed_out t =
     (case (if may_requeue hs seen then settle_requeue now extra seen t else (False, t)) of
        (True, t') \<Rightarrow> (True, t')
      | (False, t') \<Rightarrow> settle_fail now extra seen timed_out t')"

text \<open>\<open>coalesce(heartbeat_at, started_at) < cutoff\<close>; a row without both is not selected\<close>

definition is_stale :: "instant \<Rightarrow> 'p job_row \<Rightarrow> bool" where
  "is_stale cutoff j =
     (case jb_heartbeat_at j of Some h \<Rightarrow> h < cutoff
      | None \<Rightarrow> (case jb_started_at j of None \<Rightarrow> False | Some s \<Rightarrow> s < cutoff))"

definition reap :: "handlers \<Rightarrow> instant \<Rightarrow> 'p job_table \<Rightarrow> int \<times> 'p job_table" where
  "reap hs now t =
     (let stale = is_stale (now - STALE_AFTER_SECONDS * usec_per_second);
          rows = filter (\<lambda>j. jb_status j = J_running \<and> stale j) (jt_rows t)
      in fold (\<lambda>row acc. case settle_interrupted hs now stale row False (snd acc) of
                 (True, t') \<Rightarrow> (fst acc + 1, t') | (False, t') \<Rightarrow> (fst acc, t')) rows (0, t))"

text \<open>The rows one lane may start now: due, queued, of its kinds, in id order, at most \<open>free\<close>.\<close>

definition startable :: "instant \<Rightarrow> (string \<Rightarrow> bool) \<Rightarrow> 'p job_row \<Rightarrow> bool" where
  "startable now kind_filter j \<longleftrightarrow> jb_status j = J_queued \<and> \<not> jb_cancel_requested j \<and>
     (case jb_due_at j of None \<Rightarrow> True | Some d \<Rightarrow> d \<le> now) \<and> kind_filter (jb_kind j)"

definition start_lane ::
  "string \<Rightarrow> instant \<Rightarrow> (string \<Rightarrow> bool) \<Rightarrow> int \<Rightarrow> int list \<Rightarrow> 'p job_table \<Rightarrow>
     (int \<times> int) list \<times> 'p job_table" where
  "start_lane worker now kind_filter free active t =
     fold (\<lambda>i acc. if i \<in> set active \<union> fst ` set (fst acc) then acc
             else case claim worker now i (snd acc) of (attempt, t') \<Rightarrow>
               if attempt \<noteq> 0 then (fst acc @ [(i, attempt)], t') else (fst acc, t'))
       (map jb_id (take (nat free) (filter (startable now kind_filter) (jt_rows t)))) ([], t)"

section \<open>What a handler writes\<close>

text \<open>
  \<open>JobContext\<close> of \<open>jobs/context.py\<close>. The mark of \<open>checkpoint\<close> is bound to the claim (to any running one where the
  context knows no worker), and the handler is cancelled where it is no longer there. \<open>progress\<close> is bound to the id only:
  a handler that runs on after its claim was taken away still writes it. A cancelled handler has written its progress.
\<close>

definition ctx_claim :: "string option \<Rightarrow> int \<Rightarrow> int \<Rightarrow> 'p job_row \<Rightarrow> bool" where
  "ctx_claim worker i attempt j \<longleftrightarrow> jb_id j = i \<and> jb_status j = J_running \<and>
     (case worker of None \<Rightarrow> True | Some w \<Rightarrow> jb_worker_id j = Some w \<and> jb_attempts j = attempt)"

definition checkpoint :: "string option \<Rightarrow> instant \<Rightarrow> int \<Rightarrow> int \<Rightarrow> string \<Rightarrow> 'p job_table \<Rightarrow> 'p job_table option" where
  "checkpoint worker now i attempt name t =
     (if rowcount (ctx_claim worker i attempt) (jt_rows t) \<noteq> 1 then None
      else Some (update_jobs (ctx_claim worker i attempt)
        (\<lambda>j. j\<lparr>jb_checkpoint := Some (take 50 name), jb_heartbeat_at := Some now\<rparr>) t))"

definition progress :: "instant \<Rightarrow> int \<Rightarrow> int \<Rightarrow> int option \<Rightarrow> string option \<Rightarrow> 'p job_table \<Rightarrow> 'p job_table" where
  "progress now i finished all message t =
     update_jobs (\<lambda>j. jb_id j = i)
       (\<lambda>j. j\<lparr>jb_progress_done := finished, jb_progress_total := all,
         jb_progress_message := map_option (take 500) message, jb_heartbeat_at := Some now\<rparr>) t"

definition add_file :: "int \<Rightarrow> int \<Rightarrow> 'p job_table \<Rightarrow> 'p job_table" where
  "add_file file_id i t = t\<lparr>jt_files := jt_files t @ [\<lparr>jf_id = file_id, jf_job_id = i\<rparr>]\<rparr>"

text \<open>
  The hooks of the handlers that rewrite a job after the runner failed it: the message of an invocation that was cut off
  behind a checkpoint (\<open>on_gi_invoke_interrupted\<close>), the result of linked articles up to there
  (\<open>on_linked_articles_interrupted\<close>).
\<close>

definition gi_interrupted :: "int \<Rightarrow> string \<Rightarrow> string \<Rightarrow> 'p job_table \<Rightarrow> 'p job_table" where
  "gi_interrupted i after_send after_reschedule t =
     (case (case find (\<lambda>j. jb_id j = i) (jt_rows t) of None \<Rightarrow> None | Some j \<Rightarrow> jb_checkpoint j) of
        None \<Rightarrow> t
      | Some c \<Rightarrow>
          (case map_of [(''sending'', after_send), (''rescheduled'', after_reschedule)] c of
             None \<Rightarrow> t
           | Some m \<Rightarrow> update_jobs (\<lambda>j. jb_id j = i \<and> jb_status j = J_failed)
               (\<lambda>j. j\<lparr>jb_error := Some (HandlerMessage m)\<rparr>) t))"

definition linked_articles_interrupted :: "int \<Rightarrow> string \<Rightarrow> 'p job_table \<Rightarrow> 'p job_table" where
  "linked_articles_interrupted i result t = update_jobs (\<lambda>j. jb_id j = i) (\<lambda>j. j\<lparr>jb_result := Some result\<rparr>) t"

section \<open>The queue as a transition system\<close>

text \<open>
  One rule per statement the service and the runners execute. \<open>seen\<close>, \<open>attempt\<close> and \<open>worker\<close> are
  what the process remembers, which may be out of date: only the statement's own conditions bind
  them to the row. A job's kind never changes, so the handler is the row's. The hooks run for a job the
  runner has just failed, which nothing but the purge can change by then.
\<close>

inductive queue_step :: "handlers \<Rightarrow> 'p job_table \<Rightarrow> 'p job_table \<Rightarrow> bool" for hs where
  enqueue: "enqueue_job hs now kind payload owner key due t = Inr (i, t') \<Longrightarrow> queue_step hs t t'"
| cancel: "request_cancel now seen i t = Inr t' \<Longrightarrow> queue_step hs t t'"
| claim: "claim worker now i t = (attempt, t') \<Longrightarrow> queue_step hs t t'"
| heartbeat: "queue_step hs t (heartbeat worker now i t)"
| finish: "run_handler h valid attempt fin = (RS_final st, err, result) \<Longrightarrow>
     queue_step hs t (finalize_job worker now i attempt st err result t)"
| retry: "j \<in> set (jt_rows t) \<Longrightarrow> jb_id j = i \<Longrightarrow>
     run_handler (handler_of hs (jb_kind j)) valid attempt fin = (RS_retry delay, err, result) \<Longrightarrow>
     queue_step hs t (requeue_for_retry worker now i attempt message delay t)"
| settle_requeue: "may_requeue hs seen \<Longrightarrow> j \<in> set (jt_rows t) \<Longrightarrow> jb_id j = jb_id seen \<Longrightarrow>
     jb_kind j = jb_kind seen \<Longrightarrow> queue_step hs t (snd (settle_requeue now extra seen t))"
| settle_fail: "queue_step hs t (snd (settle_fail now extra seen timed_out t))"
| checkpoint: "checkpoint worker now i attempt name t = Some t' \<Longrightarrow> queue_step hs t t'"
| progress: "queue_step hs t (progress now i finished all message t)"
| add_file: "queue_step hs t (add_file file_id i t)"
| gi_interrupted: "queue_step hs t (gi_interrupted i after_send after_reschedule t)"
| linked_interrupted: "\<forall>j \<in> set (jt_rows t). jb_id j = i \<longrightarrow> jb_status j = J_failed \<Longrightarrow>
     queue_step hs t (linked_articles_interrupted i result t)"
| purge: "queue_step hs t (snd (purge_finished_jobs older_than t))"

definition empty_queue :: "'p job_table" where
  "empty_queue = \<lparr>jt_rows = [], jt_next_id = 1, jt_files = []\<rparr>"

inductive queue_reachable :: "handlers \<Rightarrow> 'p job_table \<Rightarrow> bool" for hs where
  start: "queue_reachable hs empty_queue"
| step: "queue_reachable hs t \<Longrightarrow> queue_step hs t t' \<Longrightarrow> queue_reachable hs t'"

section \<open>The invariant\<close>

definition job_ok :: "handlers \<Rightarrow> 'p job_row \<Rightarrow> bool" where
  "job_ok hs j \<longleftrightarrow>
     0 \<le> jb_attempts j \<and> jb_attempts j \<le> max_attempts_of hs (jb_kind j) \<and>
     (jb_status j = J_queued \<longrightarrow> \<not> jb_cancel_requested j \<and>
        jb_attempts j < max_attempts_of hs (jb_kind j)) \<and>
     (jb_status j = J_running \<longrightarrow> jb_worker_id j \<noteq> None \<and> 1 \<le> jb_attempts j) \<and>
     (is_terminal j \<longrightarrow> jb_finished_at j \<noteq> None)"

definition joinable :: "string \<Rightarrow> string \<Rightarrow> 'p job_row \<Rightarrow> bool" where
  "joinable kind key j \<longleftrightarrow> jb_kind j = kind \<and> jb_dedupe_key j = Some key \<and> is_active j \<and>
     \<not> jb_cancel_requested j"

definition queue_inv :: "handlers \<Rightarrow> 'p job_table \<Rightarrow> bool" where
  "queue_inv hs t \<longleftrightarrow>
     distinct (map jb_id (jt_rows t)) \<and> (\<forall>j \<in> set (jt_rows t). jb_id j < jt_next_id t) \<and>
     (\<forall>j \<in> set (jt_rows t). job_ok hs j) \<and>
     (\<forall>kind key. length (filter (joinable kind key) (jt_rows t)) \<le> 1)"

definition handlers_ok :: "handlers \<Rightarrow> bool" where
  "handlers_ok hs \<longleftrightarrow> (\<forall>h \<in> set hs. 1 \<le> h_max_attempts h)"

lemma max_attempts_ge_1: "handlers_ok hs \<Longrightarrow> 1 \<le> max_attempts_of hs kind"
  by (auto simp: handlers_ok_def max_attempts_of_def handler_of_def split: option.splits
      dest!: find_SomeD)

lemma update_jobs_simps [simp]:
  "jt_rows (update_jobs p f t) = upd_where p f (jt_rows t)"
  "jt_next_id (update_jobs p f t) = jt_next_id t"
  "jt_files (update_jobs p f t) = jt_files t"
  by (simp_all add: update_jobs_def)

lemma length_filter_filter_le: "length (filter p (filter q xs)) \<le> length (filter p xs)"
  by (induction xs) auto

lemma length_filter_upd_le:
  "(\<And>j. j \<in> set rows \<Longrightarrow> p j \<Longrightarrow> q (f j) \<Longrightarrow> q j) \<Longrightarrow>
     length (filter q (upd_where p f rows)) \<le> length (filter q rows)"
  by (induction rows) (auto simp: le_SucI)

text \<open>An update of rows that keeps identity and never makes a row joinable keeps the invariant.\<close>

lemma update_jobs_inv:
  assumes "queue_inv hs t"
    and row: "\<And>j. j \<in> set (jt_rows t) \<Longrightarrow> p j \<Longrightarrow> job_ok hs j \<Longrightarrow>
      job_ok hs (f j) \<and> jb_id (f j) = jb_id j \<and>
      (\<forall>kind key. joinable kind key (f j) \<longrightarrow> joinable kind key j)"
  shows "queue_inv hs (update_jobs p f t)"
proof -
  from assms(1) have ok: "\<forall>j \<in> set (jt_rows t). job_ok hs j" by (simp add: queue_inv_def)
  have "map jb_id (upd_where p f (jt_rows t)) = map jb_id (jt_rows t)"
    using row ok by (intro map_upd_where) auto
  moreover have "\<forall>j \<in> set (upd_where p f (jt_rows t)). job_ok hs j \<and> jb_id j < jt_next_id t"
    using assms(1) row by (auto simp: set_upd_where queue_inv_def)
  moreover have "length (filter (joinable kind key) (upd_where p f (jt_rows t))) \<le> 1" for kind key
  proof -
    have "length (filter (joinable kind key) (upd_where p f (jt_rows t)))
        \<le> length (filter (joinable kind key) (jt_rows t))"
      using row ok by (intro length_filter_upd_le) auto
    also have "\<dots> \<le> 1" using assms(1) by (simp add: queue_inv_def)
    finally show ?thesis .
  qed
  moreover have "distinct (map jb_id (jt_rows t))" using assms(1) by (simp add: queue_inv_def)
  ultimately show ?thesis by (simp add: queue_inv_def)
qed

lemmas job_defs = job_ok_def joinable_def is_active_def is_terminal_def ACTIVE_STATUSES_def
  TERMINAL_STATUSES_def

lemma run_handler_final_terminal:
  "run_handler h v a fin = (RS_final st, err, result) \<Longrightarrow> st \<in> set TERMINAL_STATUSES"
  by (auto simp: run_handler_def TERMINAL_STATUSES_def split: option.splits handler_end.splits if_splits)

lemma run_handler_retry_attempt:
  "run_handler (handler_of hs kind) v a fin = (RS_retry d, err, result) \<Longrightarrow>
     a < max_attempts_of hs kind"
  by (auto simp: run_handler_def max_attempts_of_def split: option.splits handler_end.splits if_splits)

lemma may_requeue_attempts: "may_requeue hs seen \<Longrightarrow> jb_attempts seen < max_attempts_of hs (jb_kind seen)"
  by (auto simp: may_requeue_def max_attempts_of_def split: option.splits)

lemma same_id_same_row:
  "queue_inv hs t \<Longrightarrow> j \<in> set (jt_rows t) \<Longrightarrow> j' \<in> set (jt_rows t) \<Longrightarrow> jb_id j = jb_id j' \<Longrightarrow> j = j'"
  by (auto simp: queue_inv_def distinct_map dest: inj_onD)

lemma enqueue_inv:
  assumes "queue_inv hs t" and "handlers_ok hs"
    and "enqueue_job hs now kind payload owner key due t = Inr (i, t')"
  shows "queue_inv hs t'"
proof (cases "t' = t")
  case False
  let ?new = "new_job (jt_next_id t) kind payload owner key now due"
  from assms(3) False have t': "t' = t\<lparr>jt_rows := jt_rows t @ [?new], jt_next_id := jt_next_id t + 1\<rparr>"
    and none: "\<And>k. key = Some k \<Longrightarrow> find_active_job t kind k = None"
    by (auto simp: enqueue_job_def split: option.splits)
  have ok: "job_ok hs ?new"
    using max_attempts_ge_1 [OF assms(2), of kind] by (simp add: job_defs new_job_def)
  have "length (filter (joinable kd ky) (jt_rows t')) \<le> 1" for kd ky
  proof (cases "joinable kd ky ?new")
    case True
    then have "key = Some ky" "kd = kind" by (simp_all add: joinable_def new_job_def)
    with none have "filter (joinable kd ky) (jt_rows t) = []"
      by (simp add: find_active_job_def find_None_iff filter_empty_conv joinable_def)
    then show ?thesis by (simp add: t')
  next
    case False
    then show ?thesis using assms(1) by (simp add: t' queue_inv_def)
  qed
  with assms(1) ok show ?thesis
    by (auto simp: t' queue_inv_def new_job_def image_iff)
qed (use assms in simp)

lemma queue_step_inv:
  assumes "queue_step hs t t'" and "queue_inv hs t" and "handlers_ok hs"
  shows "queue_inv hs t'"
  using assms(1)
proof cases
  case (enqueue now kind payload owner key due i)
  then show ?thesis using assms(2,3) by (metis enqueue_inv)
next
  case (cancel now seen i)
  then show ?thesis
    using assms(2) by (auto simp: request_cancel_def Let_def job_defs split: if_splits intro!: update_jobs_inv)
next
  case (claim worker now i attempt)
  then show ?thesis
    using assms(2) by (auto simp: claim_def claimable_def Let_def job_defs split: if_splits intro!: update_jobs_inv)
next
  case (heartbeat worker now i)
  then show ?thesis
    using assms(2) by (auto simp: heartbeat_def job_defs intro!: update_jobs_inv)
next
  case (finish h valid attempt fin st err result worker now i)
  from run_handler_final_terminal [OF finish(2)] show ?thesis
    using assms(2) unfolding finish(1) finalize_job_def
    by (intro update_jobs_inv) (auto simp: job_defs own_claim_def)
next
  case (retry j i valid attempt fin delay err result worker now message)
  have "\<And>r. r \<in> set (jt_rows t) \<Longrightarrow> own_claim worker i attempt r \<Longrightarrow>
      jb_attempts r < max_attempts_of hs (jb_kind r)"
    using run_handler_retry_attempt [OF retry(4)] same_id_same_row [OF assms(2) retry(2)] retry(3)
    by (auto simp: own_claim_def)
  then show ?thesis
    using assms(2) unfolding retry(1) requeue_for_retry_def
    by (intro update_jobs_inv) (auto simp: job_defs own_claim_def requeue_values_def)
next
  case (settle_requeue seen j now extra)
  have "\<And>r. r \<in> set (jt_rows t) \<Longrightarrow> settle_claim extra seen r \<Longrightarrow>
      jb_attempts r < max_attempts_of hs (jb_kind r)"
    using may_requeue_attempts [OF settle_requeue(2)] same_id_same_row [OF assms(2) settle_requeue(3)]
      settle_requeue(4,5) by (auto simp: settle_claim_def)
  then show ?thesis
    using assms(2) unfolding settle_requeue(1) settle_requeue_def Let_def snd_conv
    by (intro update_jobs_inv) (auto simp: job_defs settle_claim_def requeue_values_def)
next
  case (settle_fail now extra seen timed_out)
  then show ?thesis
    using assms(2) by (auto simp: settle_fail_def Let_def job_defs settle_claim_def intro!: update_jobs_inv)
next
  case (checkpoint worker now i attempt name)
  then show ?thesis
    using assms(2) by (auto simp: checkpoint_def ctx_claim_def job_defs split: if_splits intro!: update_jobs_inv)
next
  case (progress now i finished all message)
  then show ?thesis
    using assms(2) by (auto simp: progress_def job_defs intro!: update_jobs_inv)
next
  case (add_file file_id i)
  then show ?thesis using assms(2) by (simp add: add_file_def queue_inv_def)
next
  case (gi_interrupted i after_send after_reschedule)
  then show ?thesis
    using assms(2) by (auto simp: gi_interrupted_def job_defs split: option.splits intro!: update_jobs_inv)
next
  case (linked_interrupted i result)
  then show ?thesis
    using assms(2) by (auto simp: linked_articles_interrupted_def job_defs intro!: update_jobs_inv)
next
  case (purge older_than)
  from assms(2) show ?thesis
    unfolding purge
    by (auto simp: purge_finished_jobs_def Let_def queue_inv_def distinct_map_filter
        intro: order_trans [OF length_filter_filter_le, simplified])
qed

lemma queue_inv_reachable: "queue_reachable hs t \<Longrightarrow> handlers_ok hs \<Longrightarrow> queue_inv hs t"
proof (induction rule: queue_reachable.induct)
  case start
  then show ?case by (simp add: queue_inv_def empty_queue_def)
next
  case (step t t')
  then show ?case by (blast intro: queue_step_inv)
qed

section \<open>Properties of the queue\<close>

text \<open>
  C11. A job runs at most as often as its handler allows, and is never stuck in the queue: in every
  reachable queue each job's claims are at most the handler's \<open>max_attempts\<close>, a queued job still has
  a claim left and carries no cancel request (such a row would never be claimed again), a running job
  has an owner and a counted claim, and an ended job has its end time.
\<close>

theorem reachable_jobs_ok:
  assumes "queue_reachable hs t" and "handlers_ok hs" and "j \<in> set (jt_rows t)"
  shows "jb_attempts j \<le> max_attempts_of hs (jb_kind j) \<and>
    (jb_status j = J_queued \<longrightarrow> \<not> jb_cancel_requested j \<and>
       jb_attempts j < max_attempts_of hs (jb_kind j)) \<and>
    (jb_status j = J_running \<longrightarrow> jb_worker_id j \<noteq> None \<and> 1 \<le> jb_attempts j) \<and>
    (jb_status j \<in> set TERMINAL_STATUSES \<longrightarrow> jb_finished_at j \<noteq> None)"
  using queue_inv_reachable [OF assms(1,2)] assms(3)
  by (simp add: queue_inv_def job_ok_def is_terminal_def)

text \<open>The example: one handler with two attempts, one job that was enqueued.\<close>

definition example_handlers :: handlers where
  "example_handlers = [\<lparr>h_kind = ''core.x'', h_lane = DEFAULT_LANE, h_max_attempts = 2,
     h_requeue_if_interrupted = True\<rparr>]"

definition example_queue :: "unit job_table" where
  "example_queue = \<lparr>jt_rows = [new_job 1 ''core.x'' () None (Some ''k'') 0 None], jt_next_id = 2,
     jt_files = []\<rparr>"

lemma example_queue_reachable: "queue_reachable example_handlers example_queue"
proof -
  have "enqueue_job example_handlers 0 ''core.x'' () None (Some ''k'') None empty_queue =
      Inr (1, example_queue)"
    by (simp add: enqueue_job_def example_handlers_def handler_of_def find_active_job_def
        empty_queue_def example_queue_def)
  then show ?thesis
    by (rule queue_reachable.step [OF queue_reachable.start queue_step.enqueue])
qed

lemma example_handlers_ok: "handlers_ok example_handlers"
  by (simp add: handlers_ok_def example_handlers_def)

theorem reachable_jobs_ok_witness:
  "jb_attempts (new_job 1 ''core.x'' () None (Some ''k'') 0 None) < max_attempts_of example_handlers ''core.x''"
  using reachable_jobs_ok [OF example_queue_reachable example_handlers_ok,
      of "new_job 1 ''core.x'' () None (Some ''k'') 0 None"]
  by (simp add: example_queue_def new_job_def)

lemma upd_where_keeps: "j \<in> set rows \<Longrightarrow> \<not> p j \<Longrightarrow> j \<in> set (upd_where p f rows)"
  by (force simp: set_upd_where)

text \<open>
  What may still change of an ended row: the progress and the heartbeat a handler writes that was not told, and, where
  the runner failed the job, the message or the result its hook stores
\<close>

definition epilogue :: "'p job_row \<Rightarrow> 'p job_row \<Rightarrow> bool" where
  "epilogue j j' \<longleftrightarrow>
     j' = j\<lparr>jb_progress_done := jb_progress_done j', jb_progress_total := jb_progress_total j',
       jb_progress_message := jb_progress_message j', jb_heartbeat_at := jb_heartbeat_at j',
       jb_error := jb_error j', jb_result := jb_result j'\<rparr> \<and>
     (jb_status j \<noteq> J_failed \<longrightarrow> jb_error j' = jb_error j \<and> jb_result j' = jb_result j)"

lemma epilogue_refl [simp]: "epilogue j j"
  by (simp add: epilogue_def)

lemma upd_where_ended:
  assumes "j \<in> set rows" "p j \<Longrightarrow> epilogue j (f j)" shows "\<exists>j' \<in> set (upd_where p f rows). epilogue j j'"
  using assms upd_where_keeps [of j rows p f] upd_where_hit [of j rows p f] by (cases "p j") (auto intro: epilogue_refl)

text \<open>
  C12. An ended job keeps its end: no statement of the service, of a runner (late finishes, retries, cancels,
  heartbeats, the reaper) or of a handler takes a job that succeeded, failed or was cancelled back, ends it again or
  changes its status, end time, attempts, owner, payload or keys. Its row can be purged; a late handler may still write
  progress and a heartbeat into it, and the hook of an interrupted handler the message or the result of a failed one.
\<close>

theorem terminal_jobs_final:
  assumes "queue_step hs t t'" and "j \<in> set (jt_rows t)" and "jb_status j \<in> set TERMINAL_STATUSES"
  shows "(\<exists>j' \<in> set (jt_rows t'). epilogue j j') \<or> (\<forall>j' \<in> set (jt_rows t'). jb_id j' \<noteq> jb_id j)"
proof -
  have kept: ?thesis if "j \<in> set (jt_rows t') \<or> (\<forall>j' \<in> set (jt_rows t'). jb_id j' \<noteq> jb_id j)"
    using that epilogue_refl by blast
  show ?thesis
    using assms
  proof cases
    case (progress now i finished all message)
    have "\<exists>j' \<in> set (upd_where (\<lambda>j. jb_id j = i) (\<lambda>j. j\<lparr>jb_progress_done := finished, jb_progress_total := all,
        jb_progress_message := map_option (take 500) message, jb_heartbeat_at := Some now\<rparr>) (jt_rows t)). epilogue j j'"
      by (rule upd_where_ended [OF assms(2)]) (simp add: epilogue_def)
    then show ?thesis using progress by (simp add: progress_def update_jobs_def)
  next
    case (gi_interrupted i after_send after_reschedule)
    have "\<exists>j' \<in> set (upd_where (\<lambda>j. jb_id j = i \<and> jb_status j = J_failed) (\<lambda>j. j\<lparr>jb_error := e\<rparr>) (jt_rows t)). epilogue j j'" for e
      by (rule upd_where_ended [OF assms(2)]) (simp add: epilogue_def)
    then show ?thesis
      using assms(2) gi_interrupted by (auto simp: gi_interrupted_def update_jobs_def split: option.splits intro: epilogue_refl)
  next
    case (linked_interrupted i result)
    have "\<exists>j' \<in> set (upd_where (\<lambda>j. jb_id j = i) (\<lambda>j. j\<lparr>jb_result := Some result\<rparr>) (jt_rows t)). epilogue j j'"
      using linked_interrupted(2) assms(2) by (intro upd_where_ended [OF assms(2)]) (simp add: epilogue_def)
    then show ?thesis using linked_interrupted by (simp add: linked_articles_interrupted_def update_jobs_def)
  qed (rule kept; use assms(2,3) in \<open>auto simp: enqueue_job_def request_cancel_def claim_def claimable_def heartbeat_def
      finalize_job_def own_claim_def requeue_for_retry_def settle_requeue_def settle_fail_def settle_claim_def
      purge_finished_jobs_def checkpoint_def ctx_claim_def add_file_def TERMINAL_STATUSES_def Let_def
      split: option.splits if_splits intro!: upd_where_keeps\<close>)+
qed

text \<open>An ended job whose handler reports on, unaware\<close>

definition ended_queue :: "unit job_table" where
  "ended_queue = \<lparr>jt_rows = [(new_job 1 ''core.x'' () None None 0 None)
     \<lparr>jb_status := J_succeeded, jb_finished_at := Some 5, jb_result := Some ''{}''\<rparr>], jt_next_id = 2, jt_files = []\<rparr>"

theorem terminal_jobs_final_witness:
  "list_ex (\<lambda>j. jb_status j = J_succeeded \<and> jb_finished_at j = Some 5 \<and> jb_result j = Some ''{}'' \<and> jb_progress_done j = 3)
     (jt_rows (progress 9 1 3 None None ended_queue))"
proof -
  let ?j = "hd (jt_rows ended_queue)"
  have "?j \<in> set (jt_rows ended_queue)" "jb_status ?j \<in> set TERMINAL_STATUSES"
    by (simp_all add: ended_queue_def TERMINAL_STATUSES_def)
  from terminal_jobs_final [OF queue_step.progress [of "[]" ended_queue 9 1 3 None None] this] show ?thesis
    by (auto simp: epilogue_def ended_queue_def progress_def update_jobs_def new_job_def)
qed

text \<open>
  The row a reaped claim left behind may have been claimed again: progress of the old handler then keeps the heartbeat
  of the new claim fresh.
\<close>

lemma stale_handler_feeds_heartbeat:
  assumes "jb_id j = i" "jb_status j = J_running" "j \<in> set (jt_rows t)"
  obtains j' where "j' \<in> set (jt_rows (progress now i finished all message t))" "jb_worker_id j' = jb_worker_id j"
    "jb_attempts j' = jb_attempts j" "jb_heartbeat_at j' = Some now"
proof
  show "j\<lparr>jb_progress_done := finished, jb_progress_total := all, jb_progress_message := map_option (take 500) message,
      jb_heartbeat_at := Some now\<rparr> \<in> set (jt_rows (progress now i finished all message t))"
    using assms by (auto simp: progress_def update_jobs_def intro!: upd_where_hit [of j])
qed simp_all

lemma filter_single:
  assumes "length (filter p xs) = 1"
  obtains x where "filter p xs = [x]" and "x \<in> set xs" and "p x"
proof -
  from assms obtain x where x: "filter p xs = [x]" by (auto simp: length_Suc_conv)
  then have "x \<in> set (filter p xs)" by simp
  then have "x \<in> set xs" "p x" by simp_all
  with x show ?thesis by (rule that)
qed

lemma claim_success:
  assumes "queue_inv hs t" and "claim worker now i t = (attempt, t')" and "attempt \<noteq> 0"
  obtains j where "j \<in> set (jt_rows t)" and "claimable i j" and "attempt = jb_attempts j + 1"
    and "t' = update_jobs (claimable i) (\<lambda>j. j\<lparr>jb_status := J_running, jb_worker_id := Some worker,
           jb_started_at := Some now, jb_heartbeat_at := Some now,
           jb_attempts := jb_attempts j + 1, jb_checkpoint := None, jb_due_at := None\<rparr>) t"
proof -
  let ?f = "\<lambda>j. j\<lparr>jb_status := J_running, jb_worker_id := Some worker,
           jb_started_at := Some now, jb_heartbeat_at := Some now,
           jb_attempts := jb_attempts j + 1, jb_checkpoint := None, jb_due_at := None\<rparr>"
  from assms(2,3) have one: "length (filter (claimable i) (jt_rows t)) = 1"
    by (auto simp: claim_def rowcount_def split: if_splits)
  then obtain j where j: "j \<in> set (jt_rows t)" "claimable i j" by (rule filter_single)
  have "find (\<lambda>r. jb_id r = i) (jt_rows t) = Some j"
  proof (cases "find (\<lambda>r. jb_id r = i) (jt_rows t)")
    case None
    with j show ?thesis by (auto simp: find_None_iff claimable_def)
  next
    case (Some r)
    with j same_id_same_row [OF assms(1), of r j] show ?thesis
      by (auto dest!: find_SomeD simp: claimable_def)
  qed
  with j one assms(2) have "attempt = jb_attempts j + 1" "t' = update_jobs (claimable i) ?f t"
    by (simp_all add: claim_def rowcount_def Let_def find_upd_where claimable_def)
  with j that show ?thesis by blast
qed

lemma finalize_job_other:
  assumes "\<forall>j \<in> set (jt_rows t). \<not> own_claim worker i attempt j"
  shows "finalize_job worker now i attempt st err result t = t"
  using assms by (simp add: finalize_job_def update_jobs_def upd_where_none)

text \<open>
  C13. A claim is exclusive: when a runner claims a job of a reachable queue, its attempt number is one
  more than the claims before, a second claim gets nothing, and a finish by anybody who remembers
  another worker or another attempt of that job leaves the queue as it is.
\<close>

theorem claim_exclusive:
  assumes "queue_reachable hs t" and "handlers_ok hs"
    and "claim worker now i t = (attempt, t')" and "attempt \<noteq> 0"
  shows "(\<exists>j \<in> set (jt_rows t). jb_id j = i \<and> attempt = jb_attempts j + 1) \<and>
    claim worker' now' i t' = (0, t') \<and>
    (\<forall>w a st err result. (w, a) \<noteq> (worker, attempt) \<longrightarrow>
       finalize_job w now' i a st err result t' = t')"
proof -
  note inv = queue_inv_reachable [OF assms(1,2)]
  from inv assms(3,4) obtain j where j: "j \<in> set (jt_rows t)" "claimable i j" "attempt = jb_attempts j + 1"
    and t': "t' = update_jobs (claimable i) (\<lambda>j. j\<lparr>jb_status := J_running, jb_worker_id := Some worker,
           jb_started_at := Some now, jb_heartbeat_at := Some now,
           jb_attempts := jb_attempts j + 1, jb_checkpoint := None, jb_due_at := None\<rparr>) t"
    by (rule claim_success)
  have row: "jb_status r = J_running \<and> jb_worker_id r = Some worker \<and> jb_attempts r = attempt"
    if r: "r \<in> set (jt_rows t')" and "jb_id r = i" for r
  proof -
    from r obtain r0 where r0: "r0 \<in> set (jt_rows t)" and eq: "r = (if claimable i r0 then
        r0\<lparr>jb_status := J_running, jb_worker_id := Some worker, jb_started_at := Some now,
          jb_heartbeat_at := Some now, jb_attempts := jb_attempts r0 + 1, jb_checkpoint := None,
          jb_due_at := None\<rparr> else r0)"
      unfolding t' by (auto simp: set_upd_where)
    from eq \<open>jb_id r = i\<close> have "jb_id r0 = i" by (simp split: if_splits)
    with j(2) have "r0 = j"
      by (intro same_id_same_row [OF inv r0 j(1)]) (simp add: claimable_def)
    with eq j(2,3) show ?thesis by simp
  qed
  have "filter (claimable i) (jt_rows t') = []"
    using row by (auto simp: filter_empty_conv claimable_def)
  then have "claim worker' now' i t' = (0, t')" by (simp add: claim_def rowcount_def)
  moreover have "finalize_job w now' i a st err result t' = t'"
    if "(w, a) \<noteq> (worker, attempt)" for w a st err result
  proof (rule finalize_job_other, intro ballI notI)
    fix r assume "r \<in> set (jt_rows t')" and own: "own_claim w i a r"
    with row [of r] have "jb_worker_id r = Some worker" "jb_attempts r = attempt"
      by (simp_all add: own_claim_def)
    with own that show False by (simp add: own_claim_def)
  qed
  moreover have "jb_id j = i" using j(2) by (simp add: claimable_def)
  ultimately show ?thesis using j(1,3) by blast
qed

theorem claim_exclusive_witness:
  "claim ''b'' 3 1 (snd (claim ''a'' 2 1 example_queue)) = (0, snd (claim ''a'' 2 1 example_queue))"
proof -
  have "fst (claim ''a'' 2 1 example_queue) \<noteq> 0"
    by (simp add: claim_def example_queue_def new_job_def rowcount_def claimable_def update_jobs_def Let_def)
  then show ?thesis
    using claim_exclusive [OF example_queue_reachable example_handlers_ok,
        of "''a''" 2 1 "fst (claim ''a'' 2 1 example_queue)" "snd (claim ''a'' 2 1 example_queue)" "''b''" 3]
    by simp
qed

text \<open>
  De-duplication: enqueueing with a key in a reachable queue leaves exactly one job of that kind
  and key that is queued or running and not being cancelled, and returns its id, whether it was there
  before or is new.
\<close>

theorem enqueue_joins_single_job:
  assumes "queue_reachable hs t" and "handlers_ok hs"
    and enq: "enqueue_job hs now kind payload owner (Some key) due t = Inr (i, t')"
  shows "\<exists>j. filter (joinable kind key) (jt_rows t') = [j] \<and> jb_id j = i"
proof -
  have "queue_inv hs t'"
    using queue_step_inv [OF queue_step.enqueue [OF enq] queue_inv_reachable [OF assms(1,2)] assms(2)] .
  then have le: "length (filter (joinable kind key) (jt_rows t')) \<le> 1" by (simp add: queue_inv_def)
  have "\<exists>j \<in> set (jt_rows t'). joinable kind key j \<and> jb_id j = i"
    using enq by (auto simp: enqueue_job_def find_active_job_def joinable_def new_job_def is_active_def
        ACTIVE_STATUSES_def split: option.splits dest!: find_SomeD)
  then obtain j where "j \<in> set (filter (joinable kind key) (jt_rows t'))" "jb_id j = i" by auto
  with le show ?thesis
    by (cases "filter (joinable kind key) (jt_rows t')") auto
qed

theorem enqueue_joins_single_job_witness:
  "enqueue_job example_handlers 9 ''core.x'' () None (Some ''k'') None example_queue = Inr (1, example_queue) \<and>
   (\<exists>j. filter (joinable ''core.x'' ''k'') (jt_rows example_queue) = [j] \<and> jb_id j = 1)"
proof -
  have enq: "enqueue_job example_handlers 9 ''core.x'' () None (Some ''k'') None example_queue =
      Inr (1, example_queue)"
    by (simp add: enqueue_job_def example_handlers_def handler_of_def find_active_job_def
        example_queue_def new_job_def is_active_def ACTIVE_STATUSES_def)
  then show ?thesis
    using enqueue_joins_single_job [OF example_queue_reachable example_handlers_ok enq] by simp
qed

end
