(* ===== verification/Approval_Rules.thy ===== *)
theory Approval_Rules
  imports Approval_Contract
begin

text \<open>
  \<open>approvals/rules.py\<close>: the outcome of one step from its voters, how many approvals a rule
  needs, which stage comes next, the result of a request and the semantic checks of a definition.
  The theorems say when a step's outcome is final, when a pending step can still go either way and
  when it can never be approved.
\<close>

section \<open>Voters and the outcome of a step\<close>

datatype vote_result = V_pending | V_approved | V_rejected

record voter_state =
  v_status :: vote_result
  v_decisive :: bool
  v_regular :: "bool option"

definition voter_in_rule :: "voter_state \<Rightarrow> bool" where
  "voter_in_rule v = (case v_regular v of None \<Rightarrow> \<not> v_decisive v | Some r \<Rightarrow> r)"

definition required_votes :: "rule \<Rightarrow> int option \<Rightarrow> int \<Rightarrow> int option" where
  "required_votes r quorum n =
     (if n < 1 then None
      else case r of
        R_any \<Rightarrow> Some 1
      | R_all \<Rightarrow> Some n
      | R_majority \<Rightarrow> Some (n div 2 + 1)
      | R_quorum \<Rightarrow> quorum)"

definition quorum_reachable :: "rule \<Rightarrow> int option \<Rightarrow> int \<Rightarrow> bool" where
  "quorum_reachable r quorum n =
     (case required_votes r quorum n of None \<Rightarrow> False | Some needed \<Rightarrow> needed \<le> n)"

definition voted :: "voter_state \<Rightarrow> bool" where
  "voted v \<longleftrightarrow> v_status v \<noteq> V_pending"

text \<open>The first voter of a loop \<open>for voter in voters: if ...: return voter.status\<close>.\<close>

definition first_status :: "(voter_state \<Rightarrow> bool) \<Rightarrow> voter_state list \<Rightarrow> vote_result option" where
  "first_status p vs = map_option v_status (find p vs)"

definition evaluate_step ::
  "rule \<Rightarrow> int option \<Rightarrow> voter_state list \<Rightarrow> vote_result res" where
  "evaluate_step r quorum vs =
     (case first_status (\<lambda>v. v_decisive v \<and> voted v) vs of
        Some s \<Rightarrow> Inr s
      | None \<Rightarrow>
         (let regular = filter voter_in_rule vs in
          if regular = [] then Inr V_pending
          else
            let approved = count_where (\<lambda>v. v_status v = V_approved) regular;
                rejected = count_where (\<lambda>v. v_status v = V_rejected) regular;
                pending = count_where (\<lambda>v. v_status v = V_pending) regular
            in (case r of
                  R_any \<Rightarrow> (case first_status voted regular of
                               Some s \<Rightarrow> Inr s | None \<Rightarrow> Inr V_pending)
                | R_all \<Rightarrow> (if rejected \<noteq> 0 then Inr V_rejected
                            else if pending = 0 then Inr V_approved else Inr V_pending)
                | _ \<Rightarrow> (case required_votes r quorum (int (length regular)) of
                          None \<Rightarrow> Inl ValueError
                        | Some needed \<Rightarrow>
                           if needed \<le> approved then Inr V_approved
                           else if approved + pending < needed then Inr V_rejected
                           else Inr V_pending))))"

section \<open>Stages and the result of a request\<close>

definition next_stage :: "(int \<times> step_status) list \<Rightarrow> int option" where
  "next_stage steps =
     (let waiting = map fst (filter (\<lambda>s. snd s = ST_waiting) steps)
      in if waiting = [] then None else Some (Min (set waiting)))"

definition request_result :: "(int \<times> step_status) list \<Rightarrow> approval_status" where
  "request_result steps =
     (let statuses = map snd steps in
      if ST_rejected \<in> set statuses then AP_rejected
      else if statuses \<noteq> [] \<and> list_all (\<lambda>s. s = ST_approved) statuses then AP_approved
      else AP_pending)"

section \<open>Semantic checks of a definition\<close>

definition MAX_STEPS_PER_STAGE :: nat where "MAX_STEPS_PER_STAGE = 10"

text \<open>The individual entries of a step and whether its quorum asks for more people than it has.\<close>

definition quorum_exceeds :: "step_spec \<Rightarrow> bool" where
  "quorum_exceeds s \<longleftrightarrow>
     sp_rule s = R_quorum \<and>
     (case sp_quorum s of None \<Rightarrow> False | Some q \<Rightarrow>
        list_all (\<lambda>e. e_kind e = E_user \<or> e_kind e = E_customer_user) (sp_approvers s) \<and>
        int (length (remdups (map (\<lambda>e. (e_kind e, e_ref e)) (sp_approvers s)))) < q)"

definition validate_definition :: "approval_definition \<Rightarrow> unit res" where
  "validate_definition d =
     (let names = map sp_name (d_steps d); stages = map sp_stage (d_steps d) in
      if list_ex (\<lambda>n. 1 < count_list names n) names
      then Inl (ApprovalError invalid_definition 422)
      else if list_ex (\<lambda>s. MAX_STEPS_PER_STAGE < count_list stages s) stages
      then Inl (ApprovalError invalid_definition 422)
      else if list_ex quorum_exceeds (d_steps d)
      then Inl (ApprovalError invalid_definition 422)
      else Inr ())"

section \<open>Facts about one evaluation\<close>

lemma count_split:
  "count_where (\<lambda>v. v_status v = V_approved) vs + count_where (\<lambda>v. v_status v = V_rejected) vs +
     count_where (\<lambda>v. v_status v = V_pending) vs = int (length vs)"
proof (induction vs)
  case Nil
  then show ?case by simp
next
  case (Cons v vs)
  then show ?case by (cases "v_status v") simp_all
qed

lemma first_status_not_pending:
  "(\<And>v. p v \<Longrightarrow> voted v) \<Longrightarrow> first_status p vs = Some s \<Longrightarrow> s \<noteq> V_pending"
  by (auto simp: first_status_def voted_def dest!: find_SomeD)

lemma first_status_append:
  "first_status p (xs @ ys) =
     (case first_status p xs of None \<Rightarrow> first_status p ys | Some s \<Rightarrow> Some s)"
  by (induction xs) (auto simp: first_status_def)

lemma first_status_None: "first_status p vs = None \<longleftrightarrow> (\<forall>v \<in> set vs. \<not> p v)"
  by (auto simp: first_status_def find_None_iff)

lemma evaluate_step_no_decisive:
  assumes "\<forall>v \<in> set vs. \<not> v_decisive v \<and> voter_in_rule v" and "vs \<noteq> []"
  shows "evaluate_step r q vs =
     (let approved = count_where (\<lambda>v. v_status v = V_approved) vs;
          rejected = count_where (\<lambda>v. v_status v = V_rejected) vs;
          pending = count_where (\<lambda>v. v_status v = V_pending) vs
      in (case r of
            R_any \<Rightarrow> (case first_status voted vs of Some s \<Rightarrow> Inr s | None \<Rightarrow> Inr V_pending)
          | R_all \<Rightarrow> (if rejected \<noteq> 0 then Inr V_rejected
                      else if pending = 0 then Inr V_approved else Inr V_pending)
          | _ \<Rightarrow> (case required_votes r q (int (length vs)) of
                    None \<Rightarrow> Inl ValueError
                  | Some needed \<Rightarrow>
                     if needed \<le> approved then Inr V_approved
                     else if approved + pending < needed then Inr V_rejected
                     else Inr V_pending)))"
proof -
  have "filter voter_in_rule vs = vs" using assms(1) by (simp add: filter_id_conv)
  moreover have "first_status (\<lambda>v. v_decisive v \<and> voted v) vs = None"
    using assms(1) by (auto simp: first_status_None)
  ultimately show ?thesis using assms(2) by (simp add: evaluate_step_def Let_def)
qed

section \<open>Finality\<close>

text \<open>
  Voters come in vote order, the pending ones last. One more vote moves a pending voter behind
  the ones that have voted.
\<close>

definition counts_of :: "voter_state list \<Rightarrow> int \<times> int \<times> int" where
  "counts_of vs = (count_where (\<lambda>v. v_status v = V_approved) vs,
     count_where (\<lambda>v. v_status v = V_rejected) vs,
     count_where (\<lambda>v. v_status v = V_pending) vs)"

text \<open>The outcome of the rule on the voters that count in it.\<close>

definition rule_outcome :: "rule \<Rightarrow> int option \<Rightarrow> voter_state list \<Rightarrow> vote_result res" where
  "rule_outcome r q vs = (case counts_of vs of (a, rej, p) \<Rightarrow>
     (case r of
        R_any \<Rightarrow> (case first_status voted vs of Some s \<Rightarrow> Inr s | None \<Rightarrow> Inr V_pending)
      | R_all \<Rightarrow> (if rej \<noteq> 0 then Inr V_rejected
                  else if p = 0 then Inr V_approved else Inr V_pending)
      | _ \<Rightarrow> (case required_votes r q (int (length vs)) of
                None \<Rightarrow> Inl ValueError
              | Some needed \<Rightarrow>
                 if needed \<le> a then Inr V_approved
                 else if a + p < needed then Inr V_rejected
                 else Inr V_pending)))"

lemma evaluate_step_unfold:
  "evaluate_step r q vs =
     (case first_status (\<lambda>v. v_decisive v \<and> voted v) vs of
        Some s \<Rightarrow> Inr s
      | None \<Rightarrow> (if filter voter_in_rule vs = [] then Inr V_pending
                 else rule_outcome r q (filter voter_in_rule vs)))"
  by (simp add: evaluate_step_def rule_outcome_def counts_of_def Let_def split: option.splits)

lemma voter_in_rule_status [simp]: "voter_in_rule (v\<lparr>v_status := s\<rparr>) = voter_in_rule v"
  by (cases "v_regular v") (simp_all add: voter_in_rule_def)

lemma rule_outcome_final:
  assumes "rule_outcome r q (ds @ ps @ v # ps') = Inr out" and "out \<noteq> V_pending"
    and "\<forall>u \<in> set (ps @ v # ps'). v_status u = V_pending" and "s \<noteq> V_pending"
  shows "rule_outcome r q (ds @ v\<lparr>v_status := s\<rparr> # ps @ ps') = Inr out"
proof (cases r)
  case R_any
  have "first_status voted (ps @ v # ps') = None"
    using assms(3) by (auto simp: first_status_None voted_def)
  with assms(1,2) R_any have "first_status voted ds = Some out"
    by (auto simp: rule_outcome_def counts_of_def first_status_append split: option.splits)
  with R_any show ?thesis
    by (simp add: rule_outcome_def counts_of_def first_status_append)
next
  case R_all
  note nonneg = count_where_nonneg [of "\<lambda>u. v_status u = V_rejected"]
    count_where_nonneg [of "\<lambda>u. v_status u = V_pending"]
  from assms R_all nonneg [of ds] nonneg [of ps] nonneg [of ps'] show ?thesis
    by (cases s) (auto simp: rule_outcome_def counts_of_def split: if_splits)
next
  case R_quorum
  with assms show ?thesis
    using count_where_nonneg [of "\<lambda>u. v_status u = V_pending" ds]
      count_where_nonneg [of "\<lambda>u. v_status u = V_pending" ps]
      count_where_nonneg [of "\<lambda>u. v_status u = V_pending" ps']
    by (cases s) (auto simp: rule_outcome_def counts_of_def split: if_splits option.splits)
next
  case R_majority
  with assms show ?thesis
    using count_where_nonneg [of "\<lambda>u. v_status u = V_pending" ds]
      count_where_nonneg [of "\<lambda>u. v_status u = V_pending" ps]
      count_where_nonneg [of "\<lambda>u. v_status u = V_pending" ps']
    by (cases s) (auto simp: rule_outcome_def counts_of_def split: if_splits option.splits)
qed

text \<open>
  C14. A step's outcome is final: once the voters so far decide a step, the vote of any further
  pending voter that is not decisive (approving or rejecting, in whatever position it was waiting)
  leaves the outcome as it is, under every rule.
\<close>

theorem evaluate_step_final:
  assumes out: "evaluate_step r q (ds @ ps @ v # ps') = Inr out" "out \<noteq> V_pending"
    and voted: "\<forall>u \<in> set ds. voted u"
    and pending: "\<forall>u \<in> set (ps @ v # ps'). v_status u = V_pending"
    and v: "\<not> v_decisive v" and s: "s \<noteq> V_pending"
  shows "evaluate_step r q (ds @ v\<lparr>v_status := s\<rparr> # ps @ ps') = Inr out"
proof -
  let ?dv = "\<lambda>u. v_decisive u \<and> voted u"
  have rest: "first_status ?dv (ps @ v # ps') = None" "first_status ?dv (v\<lparr>v_status := s\<rparr> # ps @ ps') = None"
    using pending v by (auto simp: first_status_None voted_def)
  show ?thesis
  proof (cases "first_status ?dv ds")
    case (Some x)
    with out(1) show ?thesis
      by (simp add: evaluate_step_unfold first_status_append)
  next
    case None
    note dec = None rest first_status_append [of ?dv ds]
    show ?thesis
    proof (cases "voter_in_rule v")
      case True
      with dec out show ?thesis
        using rule_outcome_final [of r q "filter voter_in_rule ds" "filter voter_in_rule ps" v
            "filter voter_in_rule ps'" out s] pending s
        by (auto simp add: evaluate_step_unfold split: if_splits)
    next
      case False
      with dec out show ?thesis
        by (simp add: evaluate_step_unfold split: if_splits)
    qed
  qed
qed

text \<open>Voters of the examples: pending, or with a vote.\<close>

definition plain_voter :: "vote_result \<Rightarrow> voter_state" where
  "plain_voter s = \<lparr>v_status = s, v_decisive = False, v_regular = None\<rparr>"

theorem evaluate_step_final_witness:
  "evaluate_step R_majority None
     [plain_voter V_approved, plain_voter V_approved, plain_voter V_rejected] = Inr V_approved"
  using evaluate_step_final [of R_majority None "[plain_voter V_approved, plain_voter V_approved]"
      "[]" "plain_voter V_pending" "[]" V_approved V_rejected]
  by (simp add: plain_voter_def evaluate_step_def first_status_def voted_def voter_in_rule_def
      required_votes_def)

section \<open>A pending step is open\<close>

text \<open>Every pending voter casts the same vote.\<close>

definition settle :: "vote_result \<Rightarrow> voter_state list \<Rightarrow> voter_state list" where
  "settle s = map (\<lambda>v. if v_status v = V_pending then v\<lparr>v_status := s\<rparr> else v)"

lemma count_settle:
  assumes "s \<noteq> V_pending"
  shows "count_where (\<lambda>v. v_status v = V_pending) (settle s vs) = 0"
    and "t \<noteq> V_pending \<Longrightarrow> count_where (\<lambda>v. v_status v = t) (settle s vs) =
      count_where (\<lambda>v. v_status v = t) vs +
      (if t = s then count_where (\<lambda>v. v_status v = V_pending) vs else 0)"
  using assms by (induction vs) (auto simp: settle_def)

lemma first_voted_settle:
  assumes "s \<noteq> V_pending" and "first_status voted vs = None" and "vs \<noteq> []"
  shows "first_status voted (settle s vs) = Some s"
  using assms by (cases vs) (auto simp: first_status_def voted_def settle_def split: if_splits)

lemma length_settle [simp]: "length (settle s vs) = length vs"
  by (simp add: settle_def)

text \<open>
  A pending step is open both ways: when no voter is decisive, there is a voter and the rule
  can be met with that many voters, a step that is pending becomes approved if everybody still
  pending approves and rejected if everybody still pending rejects.
\<close>

theorem evaluate_step_pending_open:
  assumes "evaluate_step r q vs = Inr V_pending" and "vs \<noteq> []"
    and plain: "\<forall>v \<in> set vs. \<not> v_decisive v \<and> voter_in_rule v"
    and reach: "quorum_reachable r q (int (length vs))"
  shows "evaluate_step r q (settle V_approved vs) = Inr V_approved \<and>
         evaluate_step r q (settle V_rejected vs) = Inr V_rejected"
proof -
  have plain': "\<forall>v \<in> set (settle s vs). \<not> v_decisive v \<and> voter_in_rule v" for s
    using plain by (auto simp: settle_def)
  have ne: "settle s vs \<noteq> []" for s using assms(2) by (simp add: settle_def)
  note eval = evaluate_step_no_decisive [OF plain assms(2)]
    evaluate_step_no_decisive [OF plain' ne]
  show ?thesis
  proof (cases r)
    case R_any
    with assms(1) have none: "first_status voted vs = None"
      by (auto simp: eval Let_def first_status_def voted_def split: option.splits dest!: find_SomeD)
    with R_any show ?thesis
      using assms(2) by (simp add: eval first_voted_settle)
  next
    case R_all
    with assms(1) show ?thesis
      using count_where_nonneg [of "\<lambda>v. v_status v = V_pending" vs]
        count_where_nonneg [of "\<lambda>v. v_status v = V_rejected" vs]
      by (auto simp: eval Let_def count_settle split: if_splits)
  next
    case R_quorum
    with assms(1) show ?thesis
      using reach by (auto simp: eval Let_def count_settle split: if_splits option.splits)
  next
    case R_majority
    with assms(1) show ?thesis
      using reach by (auto simp: eval Let_def count_settle split: if_splits option.splits)
  qed
qed

theorem evaluate_step_pending_open_witness:
  "evaluate_step R_quorum (Some 2)
     (settle V_approved [plain_voter V_rejected, plain_voter V_pending, plain_voter V_pending]) =
     Inr V_approved"
  using evaluate_step_pending_open [of R_quorum "Some 2"
      "[plain_voter V_rejected, plain_voter V_pending, plain_voter V_pending]"]
  by (simp add: plain_voter_def evaluate_step_def first_status_def voted_def voter_in_rule_def
      required_votes_def quorum_reachable_def)

end
