(* ===== verification/Permission_Engine.thy ===== *)
theory Permission_Engine
  imports Tiqora_Prelude "HOL-Library.AList" "HOL-Library.Product_Lexorder"
begin

text \<open>
  \<open>permissions/engine.py\<close> and \<open>permissions/sharing.py\<close>: an agent's effective permissions as the
  union of direct group memberships and role memberships, over the rows of the Znuny tables, the
  reverse question (who holds a permission on a group), the administrator rule, and the groups an
  agent may share with. The reference is \<open>holds\<close>, one predicate over the rows; the theorems show
  each operation of the engine against it and the two directions against each other.
  Primary keys are unique, so \<open>scalar_one_or_none\<close> on a key is the first match.
\<close>

section \<open>The Znuny tables the engine reads\<close>

record user_row =
  u_id :: int
  u_valid_id :: int

record group_row =
  g_id :: int
  g_name :: string
  g_valid_id :: int

record role_row =
  r_id :: int
  r_name :: string
  r_valid_id :: int

record group_user_row =
  gu_user_id :: int
  gu_group_id :: int
  gu_permission_key :: string

record role_user_row =
  ru_user_id :: int
  ru_role_id :: int

record group_role_row =
  gr_role_id :: int
  gr_group_id :: int
  gr_permission_key :: string
  gr_permission_value :: int

record queue_row =
  q_id :: int
  q_group_id :: int

record ticket_row =
  t_id :: int
  t_queue_id :: int
  t_customer_id :: "string option"
  t_customer_user_id :: "string option"
  t_user_id :: int
  t_responsible_user_id :: int

record customer_user_row =
  cu_login :: string
  cu_valid_id :: int
  cu_customer_id :: string

record customer_user_customer_row =
  cuc_user_id :: string
  cuc_customer_id :: string

record znuny_db =
  z_users :: "user_row list"
  z_groups :: "group_row list"
  z_roles :: "role_row list"
  z_group_user :: "group_user_row list"
  z_role_user :: "role_user_row list"
  z_group_role :: "group_role_row list"
  z_queues :: "queue_row list"
  z_tickets :: "ticket_row list"
  z_customer_users :: "customer_user_row list"
  z_customer_user_customers :: "customer_user_customer_row list"

section \<open>The engine\<close>

definition PERMISSION_KEYS :: "string list" where
  "PERMISSION_KEYS = [''ro'', ''move_into'', ''create'', ''note'', ''owner'', ''priority'', ''rw'']"

definition ADMIN_GROUP_NAME :: string where "ADMIN_GROUP_NAME = ''admin''"

definition user_is_valid :: "znuny_db \<Rightarrow> int \<Rightarrow> bool" where
  "user_is_valid z u \<longleftrightarrow> list_ex (\<lambda>r. u_id r = u \<and> u_valid_id r = 1) (z_users z)"

definition valid_group_ids :: "znuny_db \<Rightarrow> int set" where
  "valid_group_ids z = set (map g_id (filter (\<lambda>r. g_valid_id r = 1) (z_groups z)))"

text \<open>The rows of \<open>role_user JOIN roles\<close> for one user, roles valid.\<close>

definition valid_role_ids :: "znuny_db \<Rightarrow> int \<Rightarrow> int list" where
  "valid_role_ids z u =
     map ru_role_id (filter (\<lambda>ru. ru_user_id ru = u \<and>
       list_ex (\<lambda>r. r_id r = ru_role_id ru \<and> r_valid_id r = 1) (z_roles z)) (z_role_user z))"

text \<open>\<open>perms[group_id].add(key)\<close> on a \<open>defaultdict(set)\<close>, kept as an association list\<close>

definition add_perm :: "int \<times> string \<Rightarrow> (int \<times> string set) list \<Rightarrow> (int \<times> string set) list" where
  "add_perm gk perms = AList.map_default (fst gk) {snd gk} (insert (snd gk)) perms"

definition queue_permissions :: "znuny_db \<Rightarrow> int \<Rightarrow> (int \<times> string set) list" where
  "queue_permissions z u =
     (if \<not> user_is_valid z u then []
      else
        let valid_groups = valid_group_ids z;
            keep = filter (\<lambda>gk. fst gk \<in> valid_groups \<and> snd gk \<in> set PERMISSION_KEYS);
            direct = keep (map (\<lambda>r. (gu_group_id r, gu_permission_key r))
                       (filter (\<lambda>r. gu_user_id r = u) (z_group_user z)));
            role_ids = valid_role_ids z u;
            roled = (if role_ids = [] then []
                     else keep (map (\<lambda>r. (gr_group_id r, gr_permission_key r))
                       (filter (\<lambda>r. gr_role_id r \<in> set role_ids \<and> gr_permission_value r = 1)
                         (z_group_role z))))
        in fold add_perm roled (fold add_perm direct []))"

definition check :: "znuny_db \<Rightarrow> int \<Rightarrow> int \<Rightarrow> string \<Rightarrow> bool" where
  "check z u queue_id perm =
     (if perm \<notin> set PERMISSION_KEYS then False
      else case find (\<lambda>q. q_id q = queue_id) (z_queues z) of
             None \<Rightarrow> False
           | Some q \<Rightarrow>
              (case map_of (queue_permissions z u) (q_group_id q) of
                 None \<Rightarrow> False
               | Some keys \<Rightarrow> if ''rw'' \<in> keys then True else perm \<in> keys))"

definition groups_for_permission :: "znuny_db \<Rightarrow> int \<Rightarrow> string \<Rightarrow> int set" where
  "groups_for_permission z u perm =
     (if perm \<notin> set PERMISSION_KEYS then {}
      else set (map fst (filter (\<lambda>gk. ''rw'' \<in> snd gk \<or> perm \<in> snd gk) (queue_permissions z u))))"

definition users_for_group_permission :: "znuny_db \<Rightarrow> int \<Rightarrow> string \<Rightarrow> int set" where
  "users_for_group_permission z g key =
     (if g \<notin> valid_group_ids z then {}
      else
        set (map gu_user_id (filter (\<lambda>r. gu_group_id r = g \<and>
               gu_permission_key r \<in> {key, ''rw''} \<and> user_is_valid z (gu_user_id r))
             (z_group_user z)))
        \<union>
        set (map ru_user_id (filter (\<lambda>ru.
               list_ex (\<lambda>r. r_id r = ru_role_id ru \<and> r_valid_id r = 1) (z_roles z) \<and>
               list_ex (\<lambda>gr. gr_role_id gr = ru_role_id ru \<and> gr_group_id gr = g \<and>
                 gr_permission_key gr \<in> {key, ''rw''} \<and> gr_permission_value gr = 1)
                 (z_group_role z) \<and>
               user_is_valid z (ru_user_id ru)) (z_role_user z))))"

definition is_admin :: "znuny_db \<Rightarrow> int \<Rightarrow> bool" where
  "is_admin z u =
     (case find (\<lambda>g. g_name g = ADMIN_GROUP_NAME \<and> g_valid_id g = 1) (z_groups z) of
        None \<Rightarrow> False
      | Some g \<Rightarrow> ''rw'' \<in> (case map_of (queue_permissions z u) (g_id g) of
                              None \<Rightarrow> {} | Some keys \<Rightarrow> keys))"

definition has_rw_in_any_group :: "znuny_db \<Rightarrow> int \<Rightarrow> string list \<Rightarrow> bool" where
  "has_rw_in_any_group z u names =
     (let ids = map g_id (filter (\<lambda>g. g_name g \<in> set names \<and> g_valid_id g = 1) (z_groups z)) in
      if ids = [] then False
      else list_ex (\<lambda>i. ''rw'' \<in> (case map_of (queue_permissions z u) i of
                                   None \<Rightarrow> {} | Some keys \<Rightarrow> keys)) ids)"

definition role_ids :: "znuny_db \<Rightarrow> int \<Rightarrow> int set" where
  "role_ids z u = (if \<not> user_is_valid z u then {} else set (valid_role_ids z u))"

section \<open>Groups to share with\<close>

definition share_groups_for :: "znuny_db \<Rightarrow> int \<Rightarrow> group_row list" where
  "share_groups_for z u =
     (let valid = filter (\<lambda>g. g_valid_id g = 1) (z_groups z);
          ids = groups_for_permission z u ''ro'';
          rows = (if is_admin z u then valid
                  else filter (\<lambda>g. g_id g \<in> ids) valid)
      in sort_key (\<lambda>g. (g_name g, g_id g)) rows)"

text \<open>\<open>Inl g\<close> is \<open>ShareGroupError\<close> naming the first group that is not allowed.\<close>

definition check_share_groups :: "znuny_db \<Rightarrow> int \<Rightarrow> int list \<Rightarrow> int + int list" where
  "check_share_groups z u group_ids =
     (let wanted = sort (remdups group_ids);
          allowed = set (map g_id (share_groups_for z u))
      in case find (\<lambda>g. g \<notin> allowed) wanted of
           Some g \<Rightarrow> Inl g
         | None \<Rightarrow> Inr wanted)"

section \<open>The reference\<close>

text \<open>User \<open>u\<close> holds key \<open>k\<close> on group \<open>g\<close>: a direct row or a row of a valid role.\<close>

definition holds :: "znuny_db \<Rightarrow> int \<Rightarrow> int \<Rightarrow> string \<Rightarrow> bool" where
  "holds z u g k \<longleftrightarrow>
     user_is_valid z u \<and> g \<in> valid_group_ids z \<and>
     ((\<exists>r \<in> set (z_group_user z). gu_user_id r = u \<and> gu_group_id r = g \<and> gu_permission_key r = k) \<or>
      (\<exists>r \<in> set (z_group_role z). gr_role_id r \<in> set (valid_role_ids z u) \<and> gr_group_id r = g \<and>
         gr_permission_key r = k \<and> gr_permission_value r = 1))"

lemma map_of_add_perm:
  "map_of (add_perm gk perms) g =
     (if g = fst gk then Some (insert (snd gk) (case map_of perms g of None \<Rightarrow> {} | Some s \<Rightarrow> s))
      else map_of perms g)"
  by (auto simp: add_perm_def map_of_map_default split: option.splits)

lemma map_of_fold_add_perm:
  "map_of (fold add_perm gks perms) g =
     (let old = (case map_of perms g of None \<Rightarrow> {} | Some s \<Rightarrow> s); new = {k. (g, k) \<in> set gks}
      in if map_of perms g = None \<and> new = {} then None else Some (old \<union> new))"
proof (induction gks arbitrary: perms)
  case Nil
  then show ?case by (auto simp: Let_def split: option.splits)
next
  case (Cons gk gks)
  show ?case
    by (cases gk) (auto simp: Cons.IH map_of_add_perm Let_def split: option.splits if_splits)
qed

lemma map_of_two_folds:
  "map_of (fold add_perm B (fold add_perm A [])) g =
     (let ks = {k. (g, k) \<in> set A} \<union> {k. (g, k) \<in> set B}
      in if ks = {} then None else Some ks)"
  by (auto simp: map_of_fold_add_perm Let_def)

lemma distinct_fold_add_perm:
  "distinct (map fst perms) \<Longrightarrow> distinct (map fst (fold add_perm gks perms))"
  by (induction gks arbitrary: perms) (auto simp: add_perm_def intro!: distinct_map_default)

lemma distinct_queue_permissions: "distinct (map fst (queue_permissions z u))"
  by (simp add: queue_permissions_def Let_def distinct_fold_add_perm)


text \<open>The dictionary the engine builds, read back: exactly the keys the reference gives.\<close>

lemma queue_permissions_holds:
  "map_of (queue_permissions z u) g =
     (let ks = {k \<in> set PERMISSION_KEYS. holds z u g k} in if ks = {} then None else Some ks)"
proof (cases "user_is_valid z u")
  case False
  then show ?thesis by (simp add: queue_permissions_def holds_def Let_def)
next
  case True
  let ?keep = "filter (\<lambda>gk. fst gk \<in> valid_group_ids z \<and> snd gk \<in> set PERMISSION_KEYS)"
  let ?direct = "?keep (map (\<lambda>r. (gu_group_id r, gu_permission_key r))
     (filter (\<lambda>r. gu_user_id r = u) (z_group_user z)))"
  let ?roled = "if valid_role_ids z u = [] then []
     else ?keep (map (\<lambda>r. (gr_group_id r, gr_permission_key r))
       (filter (\<lambda>r. gr_role_id r \<in> set (valid_role_ids z u) \<and> gr_permission_value r = 1)
         (z_group_role z)))"
  have "{k \<in> set PERMISSION_KEYS. holds z u g k} =
      {k. (g, k) \<in> set ?direct} \<union> {k. (g, k) \<in> set ?roled}"
    using True by (auto simp: holds_def)
  moreover have "queue_permissions z u = fold add_perm ?roled (fold add_perm ?direct [])"
    using True by (simp add: queue_permissions_def Let_def)
  ultimately show ?thesis by (simp only: map_of_two_folds Let_def)
qed

lemma in_queue_permissions:
  "(g, ks) \<in> set (queue_permissions z u) \<longleftrightarrow> map_of (queue_permissions z u) g = Some ks"
  using distinct_queue_permissions [of z u] by simp

lemma rw_in_PERMISSION_KEYS: "''rw'' \<in> set PERMISSION_KEYS"
  by (simp add: PERMISSION_KEYS_def)

text \<open>
  C10. The permission check is the union of direct and role memberships: \<open>check\<close> answers True
  exactly for a known permission key on a queue whose group is valid and on which the (valid) user
  holds that key or \<open>rw\<close>, directly or through a valid role.
\<close>

theorem check_iff_holds:
  "check z u queue_id perm \<longleftrightarrow>
     perm \<in> set PERMISSION_KEYS \<and>
     (\<exists>q. find (\<lambda>q. q_id q = queue_id) (z_queues z) = Some q \<and>
        (holds z u (q_group_id q) ''rw'' \<or> holds z u (q_group_id q) perm))"
  using rw_in_PERMISSION_KEYS
  by (auto simp: check_def queue_permissions_holds Let_def split: option.splits if_splits)

lemma groups_for_permission_iff:
  "g \<in> groups_for_permission z u perm \<longleftrightarrow>
     perm \<in> set PERMISSION_KEYS \<and> (holds z u g ''rw'' \<or> holds z u g perm)"
proof (cases "perm \<in> set PERMISSION_KEYS")
  case True
  have "g \<in> groups_for_permission z u perm \<longleftrightarrow>
      (\<exists>ks. map_of (queue_permissions z u) g = Some ks \<and> (''rw'' \<in> ks \<or> perm \<in> ks))"
    using True unfolding in_queue_permissions [symmetric]
    by (force simp: groups_for_permission_def)
  then show ?thesis
    using True rw_in_PERMISSION_KEYS by (auto simp: queue_permissions_holds Let_def)
qed (simp add: groups_for_permission_def)

lemma users_for_group_permission_iff:
  "u \<in> users_for_group_permission z g key \<longleftrightarrow> holds z u g ''rw'' \<or> holds z u g key"
proof -
  have "u \<in> users_for_group_permission z g key \<longleftrightarrow> g \<in> valid_group_ids z \<and> user_is_valid z u \<and>
      ((\<exists>r \<in> set (z_group_user z). gu_user_id r = u \<and> gu_group_id r = g \<and>
          (gu_permission_key r = key \<or> gu_permission_key r = ''rw'')) \<or>
       (\<exists>ru \<in> set (z_role_user z). ru_user_id ru = u \<and>
          list_ex (\<lambda>r. r_id r = ru_role_id ru \<and> r_valid_id r = 1) (z_roles z) \<and>
          (\<exists>gr \<in> set (z_group_role z). gr_role_id gr = ru_role_id ru \<and> gr_group_id gr = g \<and>
             (gr_permission_key gr = key \<or> gr_permission_key gr = ''rw'') \<and>
             gr_permission_value gr = 1)))"
    by (auto simp: users_for_group_permission_def list_ex_iff)
  then show ?thesis
    unfolding holds_def valid_role_ids_def by fastforce
qed

text \<open>
  The two directions of the engine agree: a user is among the users of a group for a known
  permission exactly when the group is among the user's groups for it. The two answers are computed
  by different queries (a dictionary built per user, two joins per group).
\<close>

theorem users_groups_duality:
  "perm \<in> set PERMISSION_KEYS \<Longrightarrow>
     u \<in> users_for_group_permission z g perm \<longleftrightarrow> g \<in> groups_for_permission z u perm"
  by (simp add: users_for_group_permission_iff groups_for_permission_iff)

text \<open>The example database: user 7 holds \<open>rw\<close> on group 3 through role 5.\<close>

definition example_znuny :: znuny_db where
  "example_znuny = \<lparr>
     z_users = [\<lparr>u_id = 1, u_valid_id = 1\<rparr>, \<lparr>u_id = 7, u_valid_id = 1\<rparr>,
       \<lparr>u_id = 8, u_valid_id = 1\<rparr>, \<lparr>u_id = 9, u_valid_id = 1\<rparr>, \<lparr>u_id = 10, u_valid_id = 2\<rparr>],
     z_groups = [\<lparr>g_id = 3, g_name = ''support'', g_valid_id = 1\<rparr>],
     z_roles = [\<lparr>r_id = 5, r_name = ''agents'', r_valid_id = 1\<rparr>],
     z_group_user = [\<lparr>gu_user_id = 8, gu_group_id = 3, gu_permission_key = ''ro''\<rparr>],
     z_role_user = [\<lparr>ru_user_id = 7, ru_role_id = 5\<rparr>],
     z_group_role = [\<lparr>gr_role_id = 5, gr_group_id = 3, gr_permission_key = ''rw'',
       gr_permission_value = 1\<rparr>],
     z_queues = [\<lparr>q_id = 20, q_group_id = 3\<rparr>],
     z_tickets = [\<lparr>t_id = 100, t_queue_id = 20, t_customer_id = Some ''acme'',
       t_customer_user_id = Some ''jane'', t_user_id = 8, t_responsible_user_id = 1\<rparr>],
     z_customer_users = [\<lparr>cu_login = ''jane'', cu_valid_id = 1, cu_customer_id = ''acme''\<rparr>],
     z_customer_user_customers = []\<rparr>"

theorem users_groups_duality_witness:
  "(7 \<in> users_for_group_permission example_znuny 3 ''ro'') =
     (3 \<in> groups_for_permission example_znuny 7 ''ro'')"
  using users_groups_duality [of "''ro''" 7 example_znuny 3] by (simp add: PERMISSION_KEYS_def)

lemma is_admin_iff:
  "is_admin z u \<longleftrightarrow> (\<exists>g. find (\<lambda>g. g_name g = ADMIN_GROUP_NAME \<and> g_valid_id g = 1) (z_groups z) = Some g \<and>
     holds z u (g_id g) ''rw'')"
  using rw_in_PERMISSION_KEYS
  by (auto simp: is_admin_def queue_permissions_holds Let_def split: option.splits if_splits)

text \<open>
  C31. Sharing is refused unless every group may be shared with: \<open>check_share_groups\<close> returns the
  chosen groups sorted and without duplicates exactly when each is a valid group on which the user
  holds \<open>ro\<close> or \<open>rw\<close> (any valid group for an administrator), and otherwise names a chosen group
  that is not.
\<close>

theorem check_share_groups_spec:
  "(case check_share_groups z u group_ids of
      Inr out \<Rightarrow> sorted out \<and> distinct out \<and> set out = set group_ids \<and>
        (\<forall>g \<in> set group_ids. g \<in> valid_group_ids z \<and>
           (is_admin z u \<or> holds z u g ''ro'' \<or> holds z u g ''rw''))
    | Inl g \<Rightarrow> g \<in> set group_ids \<and>
        \<not> (g \<in> valid_group_ids z \<and> (is_admin z u \<or> holds z u g ''ro'' \<or> holds z u g ''rw'')))"
proof -
  have allowed: "g \<in> set (map g_id (share_groups_for z u)) \<longleftrightarrow>
      g \<in> valid_group_ids z \<and> (is_admin z u \<or> holds z u g ''ro'' \<or> holds z u g ''rw'')" for g
    by (auto simp: share_groups_for_def valid_group_ids_def Let_def groups_for_permission_iff
        PERMISSION_KEYS_def)
  let ?wanted = "sort (remdups group_ids)"
  let ?found = "find (\<lambda>g. g \<notin> set (map g_id (share_groups_for z u))) ?wanted"
  have found: "check_share_groups z u group_ids = (case ?found of Some g \<Rightarrow> Inl g | None \<Rightarrow> Inr ?wanted)"
    by (simp only: check_share_groups_def Let_def)
  show ?thesis
  proof (cases ?found)
    case None
    then have "\<forall>g \<in> set group_ids. g \<in> set (map g_id (share_groups_for z u))"
      by (simp add: find_None_iff)
    then have "\<forall>g \<in> set group_ids. g \<in> valid_group_ids z \<and>
        (is_admin z u \<or> holds z u g ''ro'' \<or> holds z u g ''rw'')"
      by (simp only: allowed)
    with None show ?thesis unfolding found by simp
  next
    case (Some g)
    then have "g \<in> set group_ids" "g \<notin> set (map g_id (share_groups_for z u))"
      by (auto dest!: find_SomeD)
    then have "g \<in> set group_ids \<and> \<not> (g \<in> valid_group_ids z \<and>
        (is_admin z u \<or> holds z u g ''ro'' \<or> holds z u g ''rw''))"
      by (simp only: allowed not_False_eq_True simp_thms)
    then show ?thesis unfolding found Some by simp
  qed
qed

theorem check_share_groups_spec_witness:
  "check_share_groups example_znuny 7 [3, 3] = Inr [3]"
  using check_share_groups_spec [where z = example_znuny and u = 7 and group_ids = "[3, 3]"]
  by (simp add: check_share_groups_def share_groups_for_def example_znuny_def is_admin_def
      groups_for_permission_def queue_permissions_def user_is_valid_def valid_group_ids_def
      valid_role_ids_def PERMISSION_KEYS_def ADMIN_GROUP_NAME_def add_perm_def insort_key_def)

section \<open>The interface of the permission engine\<close>

text \<open>
  What the rules of access rely on: \<open>rw\<close> on a queue gives every permission, a permission that is none
  of the keys is never given, and whoever is an administrator or may write is told so.
\<close>

locale permission_directory =
  fixes admin :: "int \<Rightarrow> bool" and may :: "int \<Rightarrow> int \<Rightarrow> string \<Rightarrow> bool"
  assumes rw_gives_all: "may u q ''rw'' \<Longrightarrow> p \<in> set PERMISSION_KEYS \<Longrightarrow> may u q p"
    and known_key: "may u q p \<Longrightarrow> p \<in> set PERMISSION_KEYS"
begin

lemma writer_reads: "admin u \<or> may u q ''rw'' \<Longrightarrow> admin u \<or> may u q ''ro''"
  using rw_gives_all by (auto simp: PERMISSION_KEYS_def)

lemma unknown_key_refused: "p \<notin> set PERMISSION_KEYS \<Longrightarrow> \<not> may u q p"
  using known_key by blast

end

interpretation permissions: permission_directory "is_admin z" "check z" for z
  by unfold_locales (auto simp: check_def split: if_splits option.splits)

end
