(* ===== verification/Approval_Store.thy ===== *)
theory Approval_Store
  imports Approval_Rules Permission_Engine Job_Queue
begin

text \<open>
  The rows of \<open>approvals/models.py\<close>, the database a transaction sees, what the engine is given from
  outside (clock, settings, registry, hash), and the writes that only append: audit rows, outbox
  events, ticket history lines and jobs (\<open>approvals/audit.py\<close>, \<open>notify.enqueue_notification\<close>).
  An ORM object is its row; \<open>cur\<close> reads the row's present columns, as the session's identity map
  does. A raised exception carries no database: the caller rolls the transaction back.
\<close>

section \<open>Rows\<close>

datatype approver_status = AR_pending | AR_approved | AR_rejected | AR_forwarded | AR_removed
  | AR_not_needed

datatype source_kind = S_user | S_group | S_role | S_list | S_customer_user | S_resolver
  | S_escalation | S_forward

record approval =
  ap_id :: int
  ap_ticket_id :: int
  ap_subject_type :: string
  ap_subject_ref :: "string option"
  ap_approval_key :: string
  ap_title :: string
  ap_description :: "string option"
  ap_template_id :: "int option"
  ap_status :: approval_status
  ap_reason :: "string option"
  ap_current_stage :: "int option"
  ap_allow_self_approval :: bool
  ap_requester :: string
  ap_created_by :: int
  ap_created_at :: instant
  ap_decided_at :: "instant option"
  ap_superseded_by :: "int option"

record step_row =
  st_id :: int
  st_approval_id :: int
  st_ticket_id :: int
  st_position :: int
  st_stage :: int
  st_name :: string
  st_rule :: rule
  st_quorum :: "int option"
  st_status :: step_status
  st_reason :: "string option"
  st_spec :: step_spec
  st_due_at :: "instant option"
  st_activated_at :: "instant option"
  st_decided_at :: "instant option"
  st_last_reminder_at :: "instant option"
  st_reminder_count :: int
  st_overdue_at :: "instant option"

record approver_row =
  ar_id :: int
  ar_approval_id :: int
  ar_step_id :: int
  ar_ticket_id :: int
  ar_principal :: string
  ar_user_id :: "int option"
  ar_customer_login :: "string option"
  ar_source_kind :: source_kind
  ar_source_ref :: "string option"
  ar_source_label :: "string option"
  ar_decisive :: bool
  ar_status :: approver_status
  ar_added_at :: instant
  ar_last_notified_at :: "instant option"

record vote_row =
  vt_id :: int
  vt_approval_id :: int
  vt_step_id :: int
  vt_approver_id :: int
  vt_ticket_id :: int
  vt_decision :: decision
  vt_comment :: "string option"
  vt_decided_by :: string
  vt_on_behalf :: bool
  vt_channel :: channel
  vt_decided_at :: instant

record token_row =
  tk_id :: int
  tk_approval_id :: int
  tk_approver_id :: int
  tk_ticket_id :: int
  tk_hash :: string
  tk_created_at :: instant
  tk_expires_at :: instant
  tk_used_at :: "instant option"
  tk_revoked_at :: "instant option"

record delegation_row =
  dg_id :: int
  dg_user_id :: int
  dg_substitute_user_id :: int
  dg_valid_from :: instant
  dg_valid_until :: "instant option"
  dg_revoked_at :: "instant option"
  dg_created_by :: int
  dg_created_at :: instant

text \<open>A template's definition is kept as JSON text; a text that no longer parses is \<open>None\<close>.\<close>

record template_row =
  tp_id :: int
  tp_key :: string
  tp_name :: string
  tp_description :: "string option"
  tp_subject_types :: "string list"
  tp_definition :: "approval_definition option"
  tp_origin :: string
  tp_valid :: bool
  tp_create_time :: instant
  tp_create_by :: int
  tp_change_time :: instant
  tp_change_by :: int

record approver_list_row =
  al_id :: int
  al_name :: string
  al_description :: "string option"
  al_valid :: bool
  al_create_time :: instant
  al_create_by :: int
  al_change_time :: instant
  al_change_by :: int

record list_member_row =
  lm_list_id :: int
  lm_user_id :: int

datatype audit_action = A_requested | A_step_activated | A_approver_added | A_approver_excluded
  | A_approver_removed | A_notified | A_reminded | A_link_issued | A_voted | A_forwarded
  | A_step_decided | A_overdue | A_escalated | A_timeout_decided | A_refreshed | A_decided
  | A_auto_decided | A_cancelled | A_superseded | A_hook_done | A_hook_failed | A_note_skipped

text \<open>The values of a JSON object in an audit row or an outbox payload.\<close>

datatype jval = JInt int | JStr string | JBool bool | JNull | JRule rule | JVote vote_result
  | JStatus approval_status | JStep step_status | JDecision decision | JChannel channel
  | JSource source_kind | JEntry entry_kind | JTimeout on_timeout

type_synonym json = "(string \<times> jval) list"

record event_row =
  ev_id :: int
  ev_approval_id :: int
  ev_ticket_id :: int
  ev_at :: instant
  ev_action :: audit_action
  ev_actor :: string
  ev_step_id :: "int option"
  ev_approver_id :: "int option"
  ev_channel :: "channel option"
  ev_detail :: "json option"

record outbox_row =
  ob_event_type :: string
  ob_ticket_id :: int
  ob_payload :: json

record history_row =
  hi_ticket_id :: int
  hi_history_type :: string
  hi_name :: string
  hi_user_id :: int

datatype mail_kind = M_request | M_reminder | M_overdue | M_escalation | M_forwarded | M_decided
  | M_cancelled

datatype job_payload =
    HookPayload int approval_status
  | MailPayload int mail_kind "int list" bool bool

record approval_db =
  db_znuny :: znuny_db
  db_templates :: "template_row list"
  db_lists :: "approver_list_row list"
  db_list_members :: "list_member_row list"
  db_approvals :: "approval list"
  db_steps :: "step_row list"
  db_approvers :: "approver_row list"
  db_votes :: "vote_row list"
  db_tokens :: "token_row list"
  db_delegations :: "delegation_row list"
  db_events :: "event_row list"
  db_outbox :: "outbox_row list"
  db_history :: "history_row list"
  db_jobs :: "job_payload job_table"
  seq_approval :: int
  seq_step :: int
  seq_approver :: int
  seq_vote :: int
  seq_token :: int
  seq_delegation :: int
  seq_event :: int
  seq_template :: int
  seq_list :: int

section \<open>What the engine is given\<close>

record approval_settings =
  set_enabled :: bool
  set_default_due_hours :: int
  set_reminder_interval_hours :: int
  set_reminder_max :: int
  set_email_links_enabled :: bool
  set_link_ttl_hours :: int
  set_max_links_per_approver :: int
  set_customer_approvers_enabled :: bool
  set_history_entries :: bool
  set_mail_requester_on_decision :: bool

record subject_type =
  sub_allow_customer_approvers :: bool
  sub_agent_requestable :: bool
  sub_available :: "(approval_db \<Rightarrow> bool) option"

record approver_resolver =
  rs_resolve :: "approval_db \<Rightarrow> resolve_context \<Rightarrow> principal list res"
  rs_yields_customers :: bool

text \<open>
  The clock (every \<open>utc_now()\<close> of one transaction reads this instant), the loaded settings, the
  registry's subject types, resolvers and job handlers, and the hash of \<open>link_digest\<close>.
\<close>

record approval_env =
  env_now :: instant
  env_settings :: approval_settings
  env_subjects :: "string \<Rightarrow> subject_type option"
  env_resolvers :: "string \<Rightarrow> approver_resolver option"
  env_handlers :: handlers
  env_sha256 :: "string \<Rightarrow> string"

text \<open>\<open>replace_non_bmp\<close>: code points above U+FFFF become U+FFFD; none of a \<open>char\<close> is\<close>

definition replace_non_bmp :: "string \<Rightarrow> string" where
  "replace_non_bmp s =
     (if \<not> list_ex (\<lambda>c. (0xFFFF :: nat) < of_char c) s then s
      else map (\<lambda>c. if of_char c \<le> (0xFFFF :: nat) then c else char_of (0xFFFD :: nat)) s)"

lemma replace_non_bmp_id [simp, code]: "replace_non_bmp s = s"
proof -
  have "\<not> (0xFFFF :: nat) < of_char c" for c :: char
    using of_char_mod_256 [where ?'a = nat, of c] mod_less_divisor [of 256 "of_char c :: nat"] by linarith
  then show ?thesis by (simp add: replace_non_bmp_def list_ex_iff)
qed

section \<open>Reads\<close>

definition get_approval :: "approval_db \<Rightarrow> int \<Rightarrow> approval option" where
  "get_approval db i = find (\<lambda>a. ap_id a = i) (db_approvals db)"

definition get_step :: "approval_db \<Rightarrow> int \<Rightarrow> step_row option" where
  "get_step db i = find (\<lambda>s. st_id s = i) (db_steps db)"

definition get_approver :: "approval_db \<Rightarrow> int \<Rightarrow> approver_row option" where
  "get_approver db i = find (\<lambda>a. ar_id a = i) (db_approvers db)"

definition get_token :: "approval_db \<Rightarrow> int \<Rightarrow> token_row option" where
  "get_token db i = find (\<lambda>k. tk_id k = i) (db_tokens db)"

text \<open>The present columns of the request an ORM object stands for.\<close>

definition cur :: "approval_db \<Rightarrow> approval \<Rightarrow> approval" where
  "cur db a = (case get_approval db (ap_id a) of None \<Rightarrow> a | Some a' \<Rightarrow> a')"

definition cur_step :: "approval_db \<Rightarrow> step_row \<Rightarrow> step_row" where
  "cur_step db s = (case get_step db (st_id s) of None \<Rightarrow> s | Some s' \<Rightarrow> s')"

definition cur_approver :: "approval_db \<Rightarrow> approver_row \<Rightarrow> approver_row" where
  "cur_approver db r = (case get_approver db (ar_id r) of None \<Rightarrow> r | Some r' \<Rightarrow> r')"

definition lock_approval :: "approval_db \<Rightarrow> int \<Rightarrow> approval res" where
  "lock_approval db i = (case get_approval db i of
     None \<Rightarrow> Inl (ApprovalError approval_not_found 404) | Some a \<Rightarrow> Inr a)"

definition locked_steps :: "approval_db \<Rightarrow> int \<Rightarrow> step_row list" where
  "locked_steps db i = sort_key st_position (filter (\<lambda>s. st_approval_id s = i) (db_steps db))"

definition locked_approvers :: "approval_db \<Rightarrow> int \<Rightarrow> approver_row list" where
  "locked_approvers db i = sort_key ar_id (filter (\<lambda>a. ar_approval_id a = i) (db_approvers db))"

definition locked_approvers_in :: "approval_db \<Rightarrow> int \<Rightarrow> int list \<Rightarrow> approver_row list" where
  "locked_approvers_in db i step_ids =
     filter (\<lambda>a. ar_step_id a \<in> set step_ids) (locked_approvers db i)"

lemma set_locked [simp]:
  "set (locked_steps db i) = {s \<in> set (db_steps db). st_approval_id s = i}"
  "set (locked_approvers db i) = {a \<in> set (db_approvers db). ar_approval_id a = i}"
  "set (locked_approvers_in db i ids) =
     {a \<in> set (db_approvers db). ar_approval_id a = i \<and> ar_step_id a \<in> set ids}"
  by (auto simp: locked_steps_def locked_approvers_def locked_approvers_in_def)

section \<open>Updates\<close>

definition upd_approvals :: "(approval \<Rightarrow> bool) \<Rightarrow> (approval \<Rightarrow> approval) \<Rightarrow> approval_db \<Rightarrow> approval_db" where
  "upd_approvals p f db = db\<lparr>db_approvals := upd_where p f (db_approvals db)\<rparr>"

definition upd_steps :: "(step_row \<Rightarrow> bool) \<Rightarrow> (step_row \<Rightarrow> step_row) \<Rightarrow> approval_db \<Rightarrow> approval_db" where
  "upd_steps p f db = db\<lparr>db_steps := upd_where p f (db_steps db)\<rparr>"

definition upd_approvers ::
  "(approver_row \<Rightarrow> bool) \<Rightarrow> (approver_row \<Rightarrow> approver_row) \<Rightarrow> approval_db \<Rightarrow> approval_db" where
  "upd_approvers p f db = db\<lparr>db_approvers := upd_where p f (db_approvers db)\<rparr>"

definition upd_tokens :: "(token_row \<Rightarrow> bool) \<Rightarrow> (token_row \<Rightarrow> token_row) \<Rightarrow> approval_db \<Rightarrow> approval_db" where
  "upd_tokens p f db = db\<lparr>db_tokens := upd_where p f (db_tokens db)\<rparr>"

text \<open>The tables of the database, as the interface the components use.\<close>

interpretation approvals: row_table db_approvals ap_id get_approval upd_approvals
  by unfold_locales (simp_all add: get_approval_def upd_approvals_def)

interpretation steps: row_table db_steps st_id get_step upd_steps
  by unfold_locales (simp_all add: get_step_def upd_steps_def)

interpretation approvers: row_table db_approvers ar_id get_approver upd_approvers
  by unfold_locales (simp_all add: get_approver_def upd_approvers_def)

interpretation tokens: row_table db_tokens tk_id get_token upd_tokens
  by unfold_locales (simp_all add: get_token_def upd_tokens_def)

lemma upd_frame [simp]:
  "db_approvals (upd_approvals p1 f1 db) = upd_where p1 f1 (db_approvals db)"
  "db_steps (upd_approvals p1 f1 db) = db_steps db"
  "db_approvers (upd_approvals p1 f1 db) = db_approvers db"
  "db_tokens (upd_approvals p1 f1 db) = db_tokens db"
  "db_approvals (upd_steps p2 f2 db) = db_approvals db"
  "db_steps (upd_steps p2 f2 db) = upd_where p2 f2 (db_steps db)"
  "db_approvers (upd_steps p2 f2 db) = db_approvers db"
  "db_tokens (upd_steps p2 f2 db) = db_tokens db"
  "db_approvals (upd_approvers p3 f3 db) = db_approvals db"
  "db_steps (upd_approvers p3 f3 db) = db_steps db"
  "db_approvers (upd_approvers p3 f3 db) = upd_where p3 f3 (db_approvers db)"
  "db_tokens (upd_approvers p3 f3 db) = db_tokens db"
  "db_approvals (upd_tokens p4 f4 db) = db_approvals db"
  "db_steps (upd_tokens p4 f4 db) = db_steps db"
  "db_approvers (upd_tokens p4 f4 db) = db_approvers db"
  "db_tokens (upd_tokens p4 f4 db) = upd_where p4 f4 (db_tokens db)"
  by (simp_all add: upd_approvals_def upd_steps_def upd_approvers_def upd_tokens_def)

text \<open>The tables no conditional update of the engine writes.\<close>

lemmas upd_defs = upd_approvals_def upd_steps_def upd_approvers_def upd_tokens_def

lemma upd_frame_rest [simp]:
  "db_znuny (upd_approvals p1 f1 db) = db_znuny db" "db_znuny (upd_steps p2 f2 db) = db_znuny db"
  "db_znuny (upd_approvers p3 f3 db) = db_znuny db" "db_znuny (upd_tokens p4 f4 db) = db_znuny db"
  "db_votes (upd_approvals p1 f1 db) = db_votes db" "db_votes (upd_steps p2 f2 db) = db_votes db"
  "db_votes (upd_approvers p3 f3 db) = db_votes db" "db_votes (upd_tokens p4 f4 db) = db_votes db"
  "db_delegations (upd_approvals p1 f1 db) = db_delegations db"
  "db_delegations (upd_steps p2 f2 db) = db_delegations db"
  "db_delegations (upd_approvers p3 f3 db) = db_delegations db"
  "db_delegations (upd_tokens p4 f4 db) = db_delegations db"
  "db_events (upd_approvals p1 f1 db) = db_events db" "db_events (upd_steps p2 f2 db) = db_events db"
  "db_events (upd_approvers p3 f3 db) = db_events db" "db_events (upd_tokens p4 f4 db) = db_events db"
  "seq_approval (upd_approvals p1 f1 db) = seq_approval db" "seq_approval (upd_steps p2 f2 db) = seq_approval db"
  "seq_approval (upd_approvers p3 f3 db) = seq_approval db" "seq_approval (upd_tokens p4 f4 db) = seq_approval db"
  "seq_step (upd_approvals p1 f1 db) = seq_step db" "seq_step (upd_steps p2 f2 db) = seq_step db"
  "seq_step (upd_approvers p3 f3 db) = seq_step db" "seq_step (upd_tokens p4 f4 db) = seq_step db"
  "seq_approver (upd_approvals p1 f1 db) = seq_approver db" "seq_approver (upd_steps p2 f2 db) = seq_approver db"
  "seq_approver (upd_approvers p3 f3 db) = seq_approver db" "seq_approver (upd_tokens p4 f4 db) = seq_approver db"
  "seq_vote (upd_approvals p1 f1 db) = seq_vote db" "seq_vote (upd_steps p2 f2 db) = seq_vote db"
  "seq_vote (upd_approvers p3 f3 db) = seq_vote db" "seq_vote (upd_tokens p4 f4 db) = seq_vote db"
  "seq_token (upd_approvals p1 f1 db) = seq_token db" "seq_token (upd_steps p2 f2 db) = seq_token db"
  "seq_token (upd_approvers p3 f3 db) = seq_token db" "seq_token (upd_tokens p4 f4 db) = seq_token db"
  by (simp_all add: upd_defs)

section \<open>Audit, outbox, history and jobs\<close>

definition audit_record ::
  "approval_env \<Rightarrow> approval \<Rightarrow> audit_action \<Rightarrow> actor \<Rightarrow> int option \<Rightarrow> int option \<Rightarrow> channel option \<Rightarrow>
     json \<Rightarrow> approval_db \<Rightarrow> approval_db" where
  "audit_record env a action act step approver ch detail db =
     db\<lparr>db_events := db_events db @ [\<lparr>ev_id = seq_event db, ev_approval_id = ap_id a,
          ev_ticket_id = ap_ticket_id a, ev_at = env_now env, ev_action = action,
          ev_actor = actor_key act, ev_step_id = step, ev_approver_id = approver, ev_channel = ch,
          ev_detail = (if detail = [] then None else Some detail)\<rparr>],
        seq_event := seq_event db + 1\<rparr>"

text \<open>The identity part of every payload, then the keys whose value is not \<open>None\<close>.\<close>

definition audit_emit :: "approval \<Rightarrow> string \<Rightarrow> json \<Rightarrow> approval_db \<Rightarrow> approval_db" where
  "audit_emit a event payload db =
     (let now = cur db a in
      if ap_reason now = Some ''ticket_deleted'' then db
      else db\<lparr>db_outbox := db_outbox db @ [\<lparr>ob_event_type = event, ob_ticket_id = ap_ticket_id a,
             ob_payload =
               [(''approval_id'', JInt (ap_id a)), (''approval_key'', JStr (ap_approval_key a)),
                (''subject_type'', JStr (ap_subject_type a)),
                (''subject_ref'', case ap_subject_ref a of None \<Rightarrow> JNull | Some r \<Rightarrow> JStr r),
                (''status'', JStatus (ap_status now))]
               @ filter (\<lambda>kv. snd kv \<noteq> JNull) payload\<rparr>]\<rparr>)"

definition ticket_exists :: "approval_db \<Rightarrow> int \<Rightarrow> bool" where
  "ticket_exists db t \<longleftrightarrow> list_ex (\<lambda>r. t_id r = t) (z_tickets (db_znuny db))"

datatype history_verb = H_requested | H_voted | H_decided | H_cancelled

fun verb_text :: "history_verb \<Rightarrow> string" where
  "verb_text H_requested = ''requested''"
| "verb_text H_voted = ''voted''"
| "verb_text H_decided = ''decided''"
| "verb_text H_cancelled = ''cancelled''"

definition audit_history ::
  "approval_env \<Rightarrow> approval \<Rightarrow> history_verb \<Rightarrow> actor \<Rightarrow> string option \<Rightarrow> approval_db \<Rightarrow> approval_db" where
  "audit_history env a verb act extra db =
     (if \<not> set_history_entries (env_settings env) \<or> \<not> ticket_exists db (ap_ticket_id a) then db
      else
        let name = (if verb = H_requested
              then ''Approval #'' @ str_int (ap_id a) @ '' ('' @ ap_approval_key a @ ''): requested''
              else ''Approval #'' @ str_int (ap_id a) @ '': '' @ verb_text verb @
                (case extra of None \<Rightarrow> [] | Some e \<Rightarrow> if e = [] then [] else '' '' @ e))
        in db\<lparr>db_history := db_history db @ [\<lparr>hi_ticket_id = ap_ticket_id a,
             hi_history_type = ''Misc'', hi_name = name, hi_user_id = a_write_user_id act\<rparr>]\<rparr>)"

definition JOB_HOOK :: string where "JOB_HOOK = ''core.approval_hook''"
definition JOB_MAIL :: string where "JOB_MAIL = ''core.approval_mail''"

definition enqueue ::
  "approval_env \<Rightarrow> string \<Rightarrow> job_payload \<Rightarrow> string option \<Rightarrow> approval_db \<Rightarrow> approval_db res" where
  "enqueue env kind payload key db =
     res_bind (enqueue_job (env_handlers env) (env_now env) kind payload None key None (db_jobs db))
       (\<lambda>it. Inr (db\<lparr>db_jobs := snd it\<rparr>))"

definition enqueue_notification ::
  "approval_env \<Rightarrow> int \<Rightarrow> mail_kind \<Rightarrow> int list \<Rightarrow> bool \<Rightarrow> approval_db \<Rightarrow> approval_db res" where
  "enqueue_notification env i kind ids include_requester db =
     (if ids = [] \<and> \<not> include_requester then Inr db
      else enqueue env JOB_MAIL (MailPayload i kind ids include_requester True) None db)"

text \<open>\<open>audit.creator_key\<close>: the actor of the first \<open>requested\<close> or \<open>auto_decided\<close> row\<close>

definition creator_key :: "approval_db \<Rightarrow> approval \<Rightarrow> string option" where
  "creator_key db a =
     (case find (\<lambda>e. ev_approval_id e = ap_id a \<and> ev_action e \<in> {A_requested, A_auto_decided})
        (db_events db) of
        None \<Rightarrow> None
      | Some e \<Rightarrow> if ev_actor e = ''system'' then None else Some (ev_actor e))"

section \<open>Frames\<close>

text \<open>
  The appending writes and \<open>enqueue\<close> change only their own tables. \<open>core\<close> is the part of the
  database the engine's decisions depend on; everything about it survives them.
\<close>

lemma audit_record_frame [frame_simps, simp]:
  "db_znuny (audit_record env a act ac s p c d db) = db_znuny db"
  "db_lists (audit_record env a act ac s p c d db) = db_lists db"
  "db_list_members (audit_record env a act ac s p c d db) = db_list_members db"
  "db_approvals (audit_record env a act ac s p c d db) = db_approvals db"
  "db_steps (audit_record env a act ac s p c d db) = db_steps db"
  "db_approvers (audit_record env a act ac s p c d db) = db_approvers db"
  "db_votes (audit_record env a act ac s p c d db) = db_votes db"
  "db_tokens (audit_record env a act ac s p c d db) = db_tokens db"
  "db_delegations (audit_record env a act ac s p c d db) = db_delegations db"
  "db_jobs (audit_record env a act ac s p c d db) = db_jobs db"
  "seq_approval (audit_record env a act ac s p c d db) = seq_approval db"
  "seq_step (audit_record env a act ac s p c d db) = seq_step db"
  "seq_approver (audit_record env a act ac s p c d db) = seq_approver db"
  "seq_vote (audit_record env a act ac s p c d db) = seq_vote db"
  "seq_token (audit_record env a act ac s p c d db) = seq_token db"
  by (simp_all add: audit_record_def)

lemma audit_emit_frame [frame_simps, simp]:
  "db_znuny (audit_emit a e p db) = db_znuny db"
  "db_lists (audit_emit a e p db) = db_lists db"
  "db_list_members (audit_emit a e p db) = db_list_members db"
  "db_approvals (audit_emit a e p db) = db_approvals db"
  "db_steps (audit_emit a e p db) = db_steps db"
  "db_approvers (audit_emit a e p db) = db_approvers db"
  "db_votes (audit_emit a e p db) = db_votes db"
  "db_tokens (audit_emit a e p db) = db_tokens db"
  "db_delegations (audit_emit a e p db) = db_delegations db"
  "db_events (audit_emit a e p db) = db_events db"
  "db_jobs (audit_emit a e p db) = db_jobs db"
  "seq_approval (audit_emit a e p db) = seq_approval db"
  "seq_step (audit_emit a e p db) = seq_step db"
  "seq_approver (audit_emit a e p db) = seq_approver db"
  "seq_vote (audit_emit a e p db) = seq_vote db"
  "seq_token (audit_emit a e p db) = seq_token db"
  by (simp_all add: audit_emit_def Let_def)

lemma audit_history_frame [frame_simps, simp]:
  "db_znuny (audit_history env a v ac x db) = db_znuny db"
  "db_lists (audit_history env a v ac x db) = db_lists db"
  "db_list_members (audit_history env a v ac x db) = db_list_members db"
  "db_approvals (audit_history env a v ac x db) = db_approvals db"
  "db_steps (audit_history env a v ac x db) = db_steps db"
  "db_approvers (audit_history env a v ac x db) = db_approvers db"
  "db_votes (audit_history env a v ac x db) = db_votes db"
  "db_tokens (audit_history env a v ac x db) = db_tokens db"
  "db_delegations (audit_history env a v ac x db) = db_delegations db"
  "db_events (audit_history env a v ac x db) = db_events db"
  "db_jobs (audit_history env a v ac x db) = db_jobs db"
  "seq_approval (audit_history env a v ac x db) = seq_approval db"
  "seq_step (audit_history env a v ac x db) = seq_step db"
  "seq_approver (audit_history env a v ac x db) = seq_approver db"
  "seq_vote (audit_history env a v ac x db) = seq_vote db"
  "seq_token (audit_history env a v ac x db) = seq_token db"
  by (simp_all add: audit_history_def Let_def)

lemma enqueue_frame:
  assumes "enqueue env k p key db = Inr db'"
  shows "\<exists>jobs. db' = db\<lparr>db_jobs := jobs\<rparr>"
  using assms by (auto simp: enqueue_def res_bind_Inr_iff)

lemma enqueue_notification_frame:
  assumes "enqueue_notification env i k ids r db = Inr db'"
  shows "\<exists>jobs. db' = db\<lparr>db_jobs := jobs\<rparr>"
proof (cases "ids = [] \<and> \<not> r")
  case True
  with assms have "db' = db\<lparr>db_jobs := db_jobs db\<rparr>" by (auto simp: enqueue_notification_def)
  then show ?thesis by blast
next
  case False
  then have "enqueue_notification env i k ids r db =
      enqueue env JOB_MAIL (MailPayload i k ids r True) None db"
    by (auto simp: enqueue_notification_def)
  with assms show ?thesis by (metis enqueue_frame)
qed

end
