(* ===== verification/Approval_Resolve.thy ===== *)
theory Approval_Resolve
  imports Approval_Store
begin

text \<open>
  \<open>approvals/resolve.py\<close> with the core resolvers of \<open>core_types.py\<close>: approver entries become a
  de-duplicated list of principals, the ones who cannot approve with the reason, and the entries that
  name nothing. IN-list chunking is not modelled (the chunks' rows are the rows). A resolver of the
  registry is a parameter of the environment and may raise. The main theorems: who is admitted, and
  that nobody is admitted twice or lost.
\<close>

section \<open>Customer users\<close>

type_synonym customer_dict = "(string \<times> string \<times> int \<times> string) list"

definition add_customer_row ::
  "string list \<Rightarrow> customer_user_row \<Rightarrow> customer_dict \<Rightarrow> customer_dict" where
  "add_customer_row logins r out =
     (let key = lower (cu_login r) in
      if key \<in> lower ` set logins \<and> (map_of out key = None \<or> cu_login r \<in> set logins)
      then AList.update key (cu_login r, cu_valid_id r, cu_customer_id r) out else out)"

definition customer_rows :: "znuny_db \<Rightarrow> string list \<Rightarrow> customer_dict" where
  "customer_rows z logins = fold (add_customer_row logins) (z_customer_users z) []"

text \<open>\<open>_admitted\<close>: the companies of the loaded customers, the tickets' companies\<close>

definition customer_companies :: "znuny_db \<Rightarrow> customer_dict \<Rightarrow> string \<Rightarrow> string set" where
  "customer_companies z rows key =
     (case map_of rows key of
        None \<Rightarrow> {}
      | Some (_, _, cid) \<Rightarrow>
         insert cid (set (map cuc_customer_id
           (filter (\<lambda>r. lower (cuc_user_id r) = key) (z_customer_user_customers z)))))"

definition ticket_company :: "znuny_db \<Rightarrow> int \<Rightarrow> string option" where
  "ticket_company z t =
     (case find (\<lambda>r. t_id r = t) (z_tickets z) of
        None \<Rightarrow> None
      | Some r \<Rightarrow> (case t_customer_id r of None \<Rightarrow> None | Some c \<Rightarrow> if c = [] then None else Some c))"

definition admitted :: "znuny_db \<Rightarrow> customer_dict \<Rightarrow> string \<Rightarrow> int \<Rightarrow> bool" where
  "admitted z rows login t =
     (case ticket_company z t of
        None \<Rightarrow> False
      | Some company \<Rightarrow> company \<in> customer_companies z rows (lower login))"

definition customers_in_ticket_company ::
  "znuny_db \<Rightarrow> (string \<times> int) list \<Rightarrow> (string \<times> int) set" where
  "customers_in_ticket_company z pairs =
     (if pairs = [] then {}
      else let rows = customer_rows z (map fst pairs)
           in set (filter (\<lambda>p. admitted z rows (fst p) (snd p)) pairs))"

definition customer_in_ticket_company :: "znuny_db \<Rightarrow> string \<Rightarrow> int \<Rightarrow> bool" where
  "customer_in_ticket_company z login t \<longleftrightarrow>
     (login, t) \<in> customers_in_ticket_company z [(login, t)]"

definition canonical_principal :: "znuny_db \<Rightarrow> principal \<Rightarrow> principal res" where
  "canonical_principal z p =
     (case p_login p of
        None \<Rightarrow> Inr p
      | Some login \<Rightarrow>
         (case map_of (customer_rows z [login]) (lower login) of
            None \<Rightarrow> Inr p
          | Some (stored, _, _) \<Rightarrow> principal_customer stored))"

section \<open>The core resolvers\<close>

definition SYSTEM_USER_ID :: int where "SYSTEM_USER_ID = 1"

definition resolve_customer_user :: "approval_db \<Rightarrow> resolve_context \<Rightarrow> principal list res" where
  "resolve_customer_user db ctx =
     (case find (\<lambda>r. t_id r = rc_ticket_id ctx) (z_tickets (db_znuny db)) of
        None \<Rightarrow> Inr []
      | Some r \<Rightarrow> (case t_customer_user_id r of
                    None \<Rightarrow> Inr []
                  | Some l \<Rightarrow> if l = [] then Inr []
                      else res_bind (principal_customer l) (\<lambda>p. Inr [p])))"

definition resolve_owner :: "approval_db \<Rightarrow> resolve_context \<Rightarrow> principal list res" where
  "resolve_owner db ctx =
     (case find (\<lambda>r. t_id r = rc_ticket_id ctx) (z_tickets (db_znuny db)) of
        None \<Rightarrow> Inr []
      | Some r \<Rightarrow> if t_user_id r \<le> SYSTEM_USER_ID then Inr []
                  else res_bind (principal_agent (t_user_id r)) (\<lambda>p. Inr [p]))"

definition resolve_responsible :: "approval_db \<Rightarrow> resolve_context \<Rightarrow> principal list res" where
  "resolve_responsible db ctx =
     (case find (\<lambda>r. t_id r = rc_ticket_id ctx) (z_tickets (db_znuny db)) of
        None \<Rightarrow> Inr []
      | Some r \<Rightarrow> if t_responsible_user_id r \<le> SYSTEM_USER_ID then Inr []
                  else res_bind (principal_agent (t_responsible_user_id r)) (\<lambda>p. Inr [p]))"

section \<open>Candidates\<close>

record candidate =
  c_principal :: principal
  c_source_kind :: source_kind
  c_source_ref :: "string option"
  c_source_label :: "string option"

definition int_ref :: "string \<Rightarrow> int option" where
  "int_ref ref = (if all_digits ref then Some (int (read_nat ref)) else None)"

definition group_name :: "znuny_db \<Rightarrow> int \<Rightarrow> string option" where
  "group_name z i =
     map_option g_name (find (\<lambda>g. g_id g = i \<and> g_valid_id g = 1) (z_groups z))"

definition role_members :: "znuny_db \<Rightarrow> int \<Rightarrow> (string \<times> int list) option" where
  "role_members z i =
     map_option (\<lambda>r. (r_name r, sort (remdups (map ru_user_id
         (filter (\<lambda>ru. ru_role_id ru = i) (z_role_user z))))))
       (find (\<lambda>r. r_id r = i \<and> r_valid_id r = 1) (z_roles z))"

definition list_name :: "approval_db \<Rightarrow> int \<Rightarrow> string option" where
  "list_name db i = map_option al_name (find (\<lambda>l. al_id l = i \<and> al_valid l) (db_lists db))"

definition list_member_ids :: "approval_db \<Rightarrow> int \<Rightarrow> int list" where
  "list_member_ids db i =
     sort (map lm_user_id (filter (\<lambda>m. lm_list_id m = i) (db_list_members db)))"

text \<open>The agents of one entry, each with the entry's source and label.\<close>

definition agent_candidates ::
  "int list \<Rightarrow> source_kind \<Rightarrow> string \<Rightarrow> string option \<Rightarrow> candidate list res" where
  "agent_candidates uids kind ref label =
     res_fold (\<lambda>uid acc. res_bind (principal_agent uid)
       (\<lambda>p. Inr (acc @ [\<lparr>c_principal = p, c_source_kind = kind, c_source_ref = Some ref,
          c_source_label = label\<rparr>]))) uids []"

text \<open>One entry: its candidates, or \<open>None\<close> when it names nothing (\<open>unknown\<close>).\<close>

definition collect_entry ::
  "approval_env \<Rightarrow> approval_db \<Rightarrow> resolve_context \<Rightarrow> source_kind option \<Rightarrow> approver_entry \<Rightarrow>
     candidate list option res" where
  "collect_entry env db ctx override e =
     (let z = db_znuny db; ref = e_ref e; number = int_ref ref;
          kind = (\<lambda>k. case override of None \<Rightarrow> k | Some o' \<Rightarrow> o')
      in case e_kind e of
           E_user \<Rightarrow>
            (case number of
               None \<Rightarrow> Inr None
             | Some n \<Rightarrow> if n < 1 then Inr None
                 else res_bind (agent_candidates [n] (kind S_user) ref None) (\<lambda>cs. Inr (Some cs)))
         | E_group \<Rightarrow>
            (case (case number of None \<Rightarrow> None | Some n \<Rightarrow> map_option (Pair n) (group_name z n)) of
               None \<Rightarrow> Inr None
             | Some (n, name) \<Rightarrow>
                res_bind (agent_candidates (sorted_list_of_set (users_for_group_permission z n ''rw''))
                    (kind S_group) ref (Some name)) (\<lambda>cs. Inr (Some cs)))
         | E_role \<Rightarrow>
            (case (case number of None \<Rightarrow> None | Some n \<Rightarrow> role_members z n) of
               None \<Rightarrow> Inr None
             | Some (name, uids) \<Rightarrow>
                res_bind (agent_candidates uids (kind S_role) ref (Some name)) (\<lambda>cs. Inr (Some cs)))
         | E_list \<Rightarrow>
            (case (case number of None \<Rightarrow> None | Some n \<Rightarrow> map_option (Pair n) (list_name db n)) of
               None \<Rightarrow> Inr None
             | Some (n, name) \<Rightarrow>
                res_bind (agent_candidates (list_member_ids db n) (kind S_list) ref (Some name))
                  (\<lambda>cs. Inr (Some cs)))
         | E_customer_user \<Rightarrow>
            res_bind (principal_customer ref) (\<lambda>p. Inr (Some [\<lparr>c_principal = p,
              c_source_kind = kind S_customer_user, c_source_ref = Some ref, c_source_label = None\<rparr>]))
         | E_resolver \<Rightarrow>
            (case env_resolvers env ref of
               None \<Rightarrow> Inr None
             | Some rs \<Rightarrow> res_bind (rs_resolve rs db ctx) (\<lambda>ps.
                 Inr (Some (map (\<lambda>p. \<lparr>c_principal = p, c_source_kind = kind S_resolver,
                   c_source_ref = Some ref, c_source_label = None\<rparr>) ps)))))"

definition collect ::
  "approval_env \<Rightarrow> approval_db \<Rightarrow> resolve_context \<Rightarrow> source_kind option \<Rightarrow> approver_entry list \<Rightarrow>
     (candidate list \<times> approver_entry list) res" where
  "collect env db ctx override entries =
     res_fold (\<lambda>e acc. res_bind (collect_entry env db ctx override e)
       (\<lambda>r. Inr (case r of None \<Rightarrow> (fst acc, snd acc @ [e]) | Some cs \<Rightarrow> (fst acc @ cs, snd acc))))
       entries ([], [])"

section \<open>Exclusion and resolution\<close>

datatype exclusion = X_self | X_invalid | X_outside_company | X_system_user
  | X_customers_not_allowed | X_unknown

record resolved_approver =
  ra_principal :: principal
  ra_source_kind :: source_kind
  ra_source_ref :: "string option"
  ra_source_label :: "string option"

record resolution =
  rn_approvers :: "resolved_approver list"
  rn_excluded :: "(principal \<times> exclusion) list"
  rn_unresolved :: "approver_entry list"

definition agent_valid :: "znuny_db \<Rightarrow> int \<Rightarrow> int option" where
  "agent_valid z uid = map_option u_valid_id (find (\<lambda>u. u_id u = uid) (z_users z))"

text \<open>\<open>rows\<close> are the loaded customer rows (empty unless customers are allowed).\<close>

definition exclusion_reason ::
  "znuny_db \<Rightarrow> int \<Rightarrow> string set \<Rightarrow> bool \<Rightarrow> customer_dict \<Rightarrow> principal \<Rightarrow> exclusion option res" where
  "exclusion_reason z ticket excluded allow_customers rows p =
     (case p_kind p of
        Agent \<Rightarrow>
         (case p_user_id p of
            None \<Rightarrow> Inl ValueError
          | Some uid \<Rightarrow>
             if uid = SYSTEM_USER_ID then Inr (Some X_system_user)
             else (case agent_valid z uid of
                     None \<Rightarrow> Inr (Some X_unknown)
                   | Some v \<Rightarrow>
                      if v \<noteq> 1 then Inr (Some X_invalid)
                      else if principal_key p \<in> excluded then Inr (Some X_self)
                      else Inr None))
      | Customer \<Rightarrow>
         (case p_login p of
            None \<Rightarrow> Inl ValueError
          | Some login \<Rightarrow>
             if \<not> allow_customers then Inr (Some X_customers_not_allowed)
             else (case find (\<lambda>row. fst (snd row) = login) (rev rows) of
                     None \<Rightarrow> Inr (Some X_unknown)
                   | Some (_, _, v, _) \<Rightarrow>
                      if v \<noteq> 1 then Inr (Some X_invalid)
                      else if principal_key p \<in> excluded then Inr (Some X_self)
                      else if \<not> admitted z rows login ticket then Inr (Some X_outside_company)
                      else Inr None)))"

text \<open>\<open>_canonical\<close>: the login as stored\<close>

definition canonical_candidate :: "customer_dict \<Rightarrow> candidate \<Rightarrow> candidate res" where
  "canonical_candidate rows c =
     (case p_login (c_principal c) of
        None \<Rightarrow> Inr c
      | Some login \<Rightarrow>
         (case map_of rows (lower login) of
            None \<Rightarrow> Inr c
          | Some (stored, _, _) \<Rightarrow>
             res_bind (principal_customer stored) (\<lambda>p. Inr (c\<lparr>c_principal := p\<rparr>))))"

text \<open>The loop over the candidates: principals seen, approvers and excluded so far.\<close>

definition admit_candidate ::
  "(principal \<Rightarrow> exclusion option res) \<Rightarrow> candidate \<Rightarrow>
     string list \<times> resolved_approver list \<times> (principal \<times> exclusion) list \<Rightarrow>
     (string list \<times> resolved_approver list \<times> (principal \<times> exclusion) list) res" where
  "admit_candidate reason c acc =
     (case acc of (seen, approvers, excluded) \<Rightarrow>
        let p = c_principal c in
        if principal_key p \<in> set seen then Inr acc
        else res_bind (reason p) (\<lambda>r. Inr (case r of
          Some why \<Rightarrow> (seen @ [principal_key p], approvers, excluded @ [(p, why)])
        | None \<Rightarrow> (seen @ [principal_key p],
            approvers @ [\<lparr>ra_principal = p, ra_source_kind = c_source_kind c,
              ra_source_ref = c_source_ref c, ra_source_label = c_source_label c\<rparr>], excluded))))"

definition resolve_entries ::
  "approval_env \<Rightarrow> approval_db \<Rightarrow> resolve_context \<Rightarrow> string set \<Rightarrow> bool \<Rightarrow> source_kind option \<Rightarrow>
     approver_entry list \<Rightarrow> resolution res" where
  "resolve_entries env db ctx excluded allow_customers override entries =
     res_bind (collect env db ctx override entries) (\<lambda>(candidates, unresolved).
       let z = db_znuny db;
           logins = List.map_filter (\<lambda>c. p_login (c_principal c)) candidates;
           rows = (if allow_customers then customer_rows z logins else [])
       in res_bind (if allow_customers
              then res_fold (\<lambda>c acc. res_bind (canonical_candidate rows c) (\<lambda>c'. Inr (acc @ [c'])))
                     candidates []
              else Inr candidates) (\<lambda>canon.
          res_bind (res_fold (admit_candidate
              (exclusion_reason z (rc_ticket_id ctx) excluded allow_customers rows))
              canon ([], [], []))
            (\<lambda>(_, approvers, excl). Inr \<lparr>rn_approvers = approvers, rn_excluded = excl,
               rn_unresolved = unresolved\<rparr>)))"

section \<open>Who is admitted\<close>

text \<open>The login's own company or a mapped one is the ticket's, over the rows themselves.\<close>

definition in_company :: "znuny_db \<Rightarrow> string \<Rightarrow> int \<Rightarrow> bool" where
  "in_company z login t \<longleftrightarrow> (\<exists>c. ticket_company z t = Some c \<and>
     ((\<exists>r \<in> set (z_customer_users z). lower (cu_login r) = lower login \<and> cu_customer_id r = c) \<or>
      (\<exists>r \<in> set (z_customer_user_customers z). lower (cuc_user_id r) = lower login \<and>
         cuc_customer_id r = c)))"

definition valid_customer :: "znuny_db \<Rightarrow> string \<Rightarrow> bool" where
  "valid_customer z login \<longleftrightarrow>
     (\<exists>r \<in> set (z_customer_users z). cu_login r = login \<and> cu_valid_id r = 1)"

definition admissible :: "znuny_db \<Rightarrow> int \<Rightarrow> string set \<Rightarrow> bool \<Rightarrow> principal \<Rightarrow> bool" where
  "admissible z ticket excluded allow_customers p \<longleftrightarrow>
     principal_key p \<notin> excluded \<and>
     (case p_kind p of
        Agent \<Rightarrow> (\<exists>uid. p_user_id p = Some uid \<and> uid \<noteq> SYSTEM_USER_ID \<and> agent_valid z uid = Some 1)
      | Customer \<Rightarrow> allow_customers \<and>
          (\<exists>login. p_login p = Some login \<and> valid_customer z login \<and> in_company z login ticket))"

text \<open>What a dictionary of customer rows holds.\<close>

definition dict_ok :: "znuny_db \<Rightarrow> customer_dict \<Rightarrow> bool" where
  "dict_ok z d \<longleftrightarrow> (\<forall>(k, l, v, c) \<in> set d. \<exists>r \<in> set (z_customer_users z).
     l = cu_login r \<and> v = cu_valid_id r \<and> c = cu_customer_id r \<and> k = lower (cu_login r))"

lemma set_update_subset: "set (AList.update k v d) \<subseteq> insert (k, v) (set d)"
  by (induction d) auto

lemma add_customer_row_ok:
  "dict_ok z d \<Longrightarrow> r \<in> set (z_customer_users z) \<Longrightarrow> dict_ok z (add_customer_row logins r d)"
  using set_update_subset [of "lower (cu_login r)" "(cu_login r, cu_valid_id r, cu_customer_id r)" d]
  by (fastforce simp: dict_ok_def add_customer_row_def Let_def)

lemma fold_add_customer_row_ok:
  "set rs \<subseteq> set (z_customer_users z) \<Longrightarrow> dict_ok z d \<Longrightarrow> dict_ok z (fold (add_customer_row logins) rs d)"
  by (induction rs arbitrary: d) (auto intro: add_customer_row_ok)

lemma customer_rows_ok: "dict_ok z (customer_rows z logins)"
  unfolding customer_rows_def by (rule fold_add_customer_row_ok) (simp_all add: dict_ok_def)

lemma admitted_in_company: "dict_ok z rows \<Longrightarrow> admitted z rows login t \<Longrightarrow> in_company z login t"
  by (fastforce simp: admitted_def in_company_def customer_companies_def dict_ok_def
      split: option.splits dest!: map_of_SomeD)

lemma exclusion_reason_None:
  assumes "exclusion_reason z t ex allow rows p = Inr None" and "dict_ok z rows"
  shows "admissible z t ex allow p"
proof (cases "p_kind p")
  case Agent
  with assms(1) show ?thesis
    by (auto simp: exclusion_reason_def admissible_def split: option.splits if_splits)
next
  case Customer
  with assms(1) obtain login row where l: "p_login p = Some login" "allow"
      "find (\<lambda>row. fst (snd row) = login) (rev rows) = Some row" "fst (snd (snd row)) = 1"
      "principal_key p \<notin> ex" "admitted z rows login t"
    by (auto simp: exclusion_reason_def split: option.splits if_splits)
  have "valid_customer z login"
    using find_SomeD [OF l(3)] l(4) assms(2)
    by (cases row) (force simp: dict_ok_def valid_customer_def)
  with Customer l admitted_in_company [OF assms(2) l(6)] show ?thesis
    by (simp add: admissible_def)
qed

definition admit_inv ::
  "(principal \<Rightarrow> exclusion option res) \<Rightarrow>
     string list \<times> resolved_approver list \<times> (principal \<times> exclusion) list \<Rightarrow> bool" where
  "admit_inv reason acc \<longleftrightarrow>
     (case acc of (seen, approvers, excluded) \<Rightarrow>
        distinct (map (principal_key \<circ> ra_principal) approvers) \<and>
        set seen = (principal_key \<circ> ra_principal) ` set approvers \<union> (principal_key \<circ> fst) ` set excluded \<and>
        (principal_key \<circ> ra_principal) ` set approvers \<inter> (principal_key \<circ> fst) ` set excluded = {} \<and>
        (\<forall>a \<in> set approvers. reason (ra_principal a) = Inr None))"

lemma admit_candidate_inv:
  assumes "admit_candidate reason c (seen, as, xs) = Inr acc'" and inv: "admit_inv reason (seen, as, xs)"
  shows "admit_inv reason acc' \<and> set (fst acc') = insert (principal_key (c_principal c)) (set seen)"
proof (cases "principal_key (c_principal c) \<in> set seen")
  case True
  with assms show ?thesis by (auto simp: admit_candidate_def)
next
  case False
  then obtain r where r: "reason (c_principal c) = Inr r"
    using assms(1) by (auto simp: admit_candidate_def Let_def res_bind_Inr_iff)
  show ?thesis
  proof (cases r)
    case None
    with assms(1) r False have "acc' = (seen @ [principal_key (c_principal c)],
        as @ [\<lparr>ra_principal = c_principal c, ra_source_kind = c_source_kind c,
              ra_source_ref = c_source_ref c, ra_source_label = c_source_label c\<rparr>], xs)"
      by (simp add: admit_candidate_def Let_def)
    with inv r False None show ?thesis by (simp add: admit_inv_def image_Un)
  next
    case (Some why)
    with assms(1) r False have "acc' = (seen @ [principal_key (c_principal c)], as, xs @ [(c_principal c, why)])"
      by (simp add: admit_candidate_def Let_def)
    with inv False show ?thesis by (simp add: admit_inv_def)
  qed
qed

lemma admit_fold_inv:
  assumes "res_fold (admit_candidate reason) cs acc = Inr acc'" and "admit_inv reason acc"
  shows "admit_inv reason acc' \<and>
    set (fst acc') = (principal_key \<circ> c_principal) ` set cs \<union> set (fst acc)"
  using assms
proof (induction cs arbitrary: acc)
  case Nil
  then show ?case by simp
next
  case (Cons c cs)
  then obtain b where b: "admit_candidate reason c acc = Inr b" "res_fold (admit_candidate reason) cs b = Inr acc'"
    by (auto simp: res_bind_Inr_iff)
  obtain seen as xs where "acc = (seen, as, xs)" by (cases acc) auto
  with b(1) Cons.prems(2) have "admit_inv reason b \<and> set (fst b) = insert (principal_key (c_principal c)) (set (fst acc))"
    using admit_candidate_inv [of reason c seen as xs b] by simp
  with Cons.IH [OF b(2)] show ?case by auto
qed

text \<open>The shape of a resolution that does not raise.\<close>

lemma resolve_entries_fold:
  assumes "resolve_entries env db ctx excluded allow override entries = Inr r"
  obtains canon rows seen where "dict_ok (db_znuny db) rows"
    and "res_fold (admit_candidate (exclusion_reason (db_znuny db) (rc_ticket_id ctx) excluded allow rows))
      canon ([], [], []) = Inr (seen, rn_approvers r, rn_excluded r)"
proof -
  let ?reason = "exclusion_reason (db_znuny db) (rc_ticket_id ctx) excluded allow"
  from assms obtain cands unresolved where c: "collect env db ctx override entries = Inr (cands, unresolved)"
    by (auto simp: resolve_entries_def res_bind_Inr_iff)
  define rows where "rows = (if allow then customer_rows (db_znuny db)
    (List.map_filter (\<lambda>c. p_login (c_principal c)) cands) else [])"
  from assms c obtain canon out where
    out: "res_fold (admit_candidate (?reason rows)) canon ([], [], []) = Inr out"
      "r = \<lparr>rn_approvers = fst (snd out), rn_excluded = snd (snd out), rn_unresolved = unresolved\<rparr>"
    by (auto simp: resolve_entries_def res_bind_Inr_iff Let_def rows_def split: prod.splits)
  have "dict_ok (db_znuny db) rows" by (simp add: rows_def customer_rows_ok dict_ok_def [of _ "[]"])
  with out show ?thesis by (intro that [of rows canon "fst out"]) simp_all
qed

lemma resolve_entries_distinct:
  assumes "resolve_entries env db ctx excluded allow override entries = Inr r"
  shows "distinct (map (principal_key \<circ> ra_principal) (rn_approvers r))"
  using assms by (rule resolve_entries_fold) (drule admit_fold_inv, simp_all add: admit_inv_def)

text \<open>
  C9. Resolution admits only who may approve: in the resolution of any entries no principal appears
  twice, nobody is both approver and excluded, no approver is among the excluded principals (the
  requester and the creator), and each approver is a valid agent other than the system user or, only
  where customers are allowed, a valid customer user of the ticket's company.
\<close>

theorem resolve_entries_sound:
  assumes "resolve_entries env db ctx excluded allow override entries = Inr r"
  shows "distinct (map (principal_key \<circ> ra_principal) (rn_approvers r)) \<and>
    (principal_key \<circ> ra_principal) ` set (rn_approvers r) \<inter> (principal_key \<circ> fst) ` set (rn_excluded r) = {} \<and>
    (\<forall>a \<in> set (rn_approvers r).
       admissible (db_znuny db) (rc_ticket_id ctx) excluded allow (ra_principal a))"
proof -
  from assms obtain canon rows seen where ok: "dict_ok (db_znuny db) rows" and
    fold: "res_fold (admit_candidate (exclusion_reason (db_znuny db) (rc_ticket_id ctx) excluded allow rows))
      canon ([], [], []) = Inr (seen, rn_approvers r, rn_excluded r)"
    by (rule resolve_entries_fold)
  have inv: "admit_inv (exclusion_reason (db_znuny db) (rc_ticket_id ctx) excluded allow rows)
      (seen, rn_approvers r, rn_excluded r)"
    using admit_fold_inv [OF fold] by (simp add: admit_inv_def)
  have "admissible (db_znuny db) (rc_ticket_id ctx) excluded allow (ra_principal a)"
    if "a \<in> set (rn_approvers r)" for a
    using inv that exclusion_reason_None [OF _ ok] by (simp add: admit_inv_def)
  with inv show ?thesis by (simp add: admit_inv_def)
qed

section \<open>A concrete environment and database\<close>

text \<open>
  Data for the examples: the core subject type, the three core resolvers, the two job kinds the
  engine enqueues, the identity in place of the hash, and the Znuny tables of \<open>example_znuny\<close>.
\<close>

definition example_settings :: approval_settings where
  "example_settings = \<lparr>set_enabled = True, set_default_due_hours = 0, set_reminder_interval_hours = 24,
     set_reminder_max = 3, set_email_links_enabled = True, set_link_ttl_hours = 168,
     set_max_links_per_approver = 2, set_customer_approvers_enabled = False,
     set_history_entries = True, set_mail_requester_on_decision = True\<rparr>"

definition example_env :: approval_env where
  "example_env = \<lparr>env_now = 1000000000, env_settings = example_settings,
     env_subjects = (\<lambda>k. if k = ''ticket'' then Some \<lparr>sub_allow_customer_approvers = False,
        sub_agent_requestable = True, sub_available = None\<rparr> else None),
     env_resolvers = (\<lambda>k. map_of [
        (''ticket.customer_user'', \<lparr>rs_resolve = resolve_customer_user, rs_yields_customers = True\<rparr>),
        (''ticket.owner'', \<lparr>rs_resolve = resolve_owner, rs_yields_customers = False\<rparr>),
        (''ticket.responsible'', \<lparr>rs_resolve = resolve_responsible, rs_yields_customers = False\<rparr>)] k),
     env_handlers = [
        \<lparr>h_kind = JOB_HOOK, h_lane = DEFAULT_LANE, h_max_attempts = 5, h_requeue_if_interrupted = True\<rparr>,
        \<lparr>h_kind = JOB_MAIL, h_lane = ''mail'', h_max_attempts = 5, h_requeue_if_interrupted = True\<rparr>],
     env_sha256 = id\<rparr>"

definition empty_db :: approval_db where
  "empty_db = \<lparr>db_znuny = example_znuny, db_templates = [], db_lists = [], db_list_members = [], db_approvals = [],
     db_steps = [], db_approvers = [], db_votes = [], db_tokens = [], db_delegations = [],
     db_events = [], db_outbox = [], db_history = [],
     db_jobs = \<lparr>jt_rows = [], jt_next_id = 1, jt_files = []\<rparr>,
     seq_approval = 1, seq_step = 1, seq_approver = 1, seq_vote = 1, seq_token = 1,
     seq_delegation = 1, seq_event = 1, seq_template = 1, seq_list = 1\<rparr>"

definition example_ctx :: resolve_context where
  "example_ctx = \<lparr>rc_ticket_id = 100, rc_subject_type = ''ticket'', rc_subject_ref = None,
     rc_approval_id = 1\<rparr>"

text \<open>A group, an agent named twice and a resolver: two approvers, the owner excluded as requester.\<close>

definition example_entries :: "approver_entry list" where
  "example_entries = [\<lparr>e_kind = E_group, e_ref = ''3''\<rparr>, \<lparr>e_kind = E_user, e_ref = ''9''\<rparr>,
     \<lparr>e_kind = E_user, e_ref = ''7''\<rparr>, \<lparr>e_kind = E_resolver, e_ref = ''ticket.owner''\<rparr>]"

definition example_resolution :: resolution where
  "example_resolution =
     (case resolve_entries example_env empty_db example_ctx {''agent:8''} False None example_entries of
        Inr r \<Rightarrow> r | Inl _ \<Rightarrow> \<lparr>rn_approvers = [], rn_excluded = [], rn_unresolved = []\<rparr>)"

lemma example_resolution_eval:
  "resolve_entries example_env empty_db example_ctx {''agent:8''} False None example_entries =
     Inr example_resolution"
  "map (principal_key \<circ> ra_principal) (rn_approvers example_resolution) = [''agent:7'', ''agent:9'']"
  "map snd (rn_excluded example_resolution) = [X_self]"
  by code_simp+

theorem resolve_entries_sound_witness:
  "map (principal_key \<circ> ra_principal) (rn_approvers example_resolution) = [''agent:7'', ''agent:9''] \<and>
   list_all (\<lambda>a. admissible example_znuny 100 {''agent:8''} False (ra_principal a))
     (rn_approvers example_resolution)"
  using resolve_entries_sound [OF example_resolution_eval(1)] example_resolution_eval(2)
  by (simp add: empty_db_def example_ctx_def list_all_iff)

end
