(* ===== verification/Approval_Tokens.thy ===== *)
theory Approval_Tokens
  imports Approval_Resolve
begin

text \<open>
  \<open>approvals/tokens.py\<close> without the two functions that vote: issuing a decision link, looking it up,
  revoking and purging. The random secret of \<open>issue_link\<close> is an argument, the hash a parameter of the
  environment. The theorems: a link resolves to exactly the approver row it was issued for, the
  number of live links stays bounded, and the batched purge deletes what it should.
\<close>

section \<open>Digest and clock\<close>

definition link_digest :: "approval_env \<Rightarrow> string \<Rightarrow> string" where
  "link_digest env tok = env_sha256 env tok"

definition token_now :: "approval_env \<Rightarrow> instant" where
  "token_now env = trunc_sec (env_now env)"

definition DEADLINE_GRACE :: instant where "DEADLINE_GRACE = hours 24"

text \<open>Neither used nor revoked (\<open>live\<close>), and not expired either (\<open>redeemable\<close>).\<close>

definition live :: "token_row \<Rightarrow> bool" where
  "live k \<longleftrightarrow> tk_used_at k = None \<and> tk_revoked_at k = None"

definition redeemable :: "instant \<Rightarrow> token_row \<Rightarrow> bool" where
  "redeemable now k \<longleftrightarrow> live k \<and> now < tk_expires_at k"

section \<open>Revoking\<close>

definition revoke_links ::
  "approval_env \<Rightarrow> int list \<Rightarrow> int option \<Rightarrow> approval_db \<Rightarrow> int \<times> approval_db" where
  "revoke_links env ids redeemed db =
     (if ids = [] then (0, db)
      else
        let now = token_now env;
            db1 = (case redeemed of
                     None \<Rightarrow> db
                   | Some i \<Rightarrow> upd_tokens
                       (\<lambda>k. tk_id k = i \<and> tk_approver_id k \<in> set ids \<and> tk_used_at k = None)
                       (\<lambda>k. k\<lparr>tk_used_at := Some now\<rparr>) db);
            p = (\<lambda>k. tk_approver_id k \<in> set ids \<and> tk_used_at k = None \<and> tk_revoked_at k = None)
        in (int (rowcount p (db_tokens db1)), upd_tokens p (\<lambda>k. k\<lparr>tk_revoked_at := Some now\<rparr>) db1))"

definition revoke_approval_links :: "approval_env \<Rightarrow> int \<Rightarrow> approval_db \<Rightarrow> int \<times> approval_db" where
  "revoke_approval_links env i db =
     (let p = (\<lambda>k. tk_approval_id k = i \<and> tk_used_at k = None \<and> tk_revoked_at k = None)
      in (int (rowcount p (db_tokens db)),
          upd_tokens p (\<lambda>k. k\<lparr>tk_revoked_at := Some (token_now env)\<rparr>) db))"

section \<open>Issuing\<close>

definition insert_token ::
  "int \<Rightarrow> int \<Rightarrow> int \<Rightarrow> string \<Rightarrow> instant \<Rightarrow> instant \<Rightarrow> approval_db \<Rightarrow> (int \<times> approval_db) res" where
  "insert_token approval_id approver_id ticket_id digest now expires db =
     (if list_ex (\<lambda>k. tk_hash k = digest) (db_tokens db) then Inl IntegrityError
      else Inr (seq_token db, db\<lparr>db_tokens := db_tokens db @
             [\<lparr>tk_id = seq_token db, tk_approval_id = approval_id, tk_approver_id = approver_id,
               tk_ticket_id = ticket_id, tk_hash = digest, tk_created_at = now,
               tk_expires_at = expires, tk_used_at = None, tk_revoked_at = None\<rparr>],
             seq_token := seq_token db + 1\<rparr>))"

definition link_expiry :: "approval_env \<Rightarrow> step_row \<Rightarrow> instant" where
  "link_expiry env s =
     (let expires = token_now env + hours (set_link_ttl_hours (env_settings env))
      in case st_due_at s of None \<Rightarrow> expires | Some d \<Rightarrow> min expires (d + DEADLINE_GRACE))"

text \<open>The links to revoke so that one more fits: \<open>live[: max(0, len(live) + 1 - max)]\<close>, oldest first.\<close>

definition stale_links :: "approval_env \<Rightarrow> int \<Rightarrow> approval_db \<Rightarrow> int list" where
  "stale_links env approver_id db =
     (let alive = sort (map tk_id (filter
            (\<lambda>k. tk_approver_id k = approver_id \<and> redeemable (token_now env) k) (db_tokens db)))
      in take (nat (max 0 (int (length alive) + 1 - set_max_links_per_approver (env_settings env)))) alive)"

definition issue_link ::
  "approval_env \<Rightarrow> int \<Rightarrow> string \<Rightarrow> approval_db \<Rightarrow> (string \<times> approval_db) res" where
  "issue_link env approver_id tok db =
     (case get_approver db approver_id of
        None \<Rightarrow> Inl (ApprovalError not_an_approver 403)
      | Some row \<Rightarrow>
         (case lock_approval db (ar_approval_id row) of
            Inl _ \<Rightarrow> Inl (ApprovalError not_an_approver 403)
          | Inr a \<Rightarrow>
             (case get_step db (ar_step_id row) of
                None \<Rightarrow> Inl (ApprovalError not_an_approver 403)
              | Some s \<Rightarrow>
                 if ap_status a \<noteq> AP_pending \<or> ar_status row \<noteq> AR_pending \<or> st_status s \<noteq> ST_active
                 then Inl (ApprovalError not_an_approver 403)
                 else if \<not> set_email_links_enabled (env_settings env) \<or> \<not> sp_allow_email (st_spec s)
                 then Inl (ApprovalError forbidden 403)
                 else if (case ar_customer_login row of None \<Rightarrow> False | Some l \<Rightarrow>
                            l \<noteq> [] \<and> \<not> customer_in_ticket_company (db_znuny db) l (ap_ticket_id a))
                 then Inl (ApprovalError customer_approver_outside_company 403)
                 else
                   let now = token_now env;
                       stale = stale_links env approver_id db;
                       db1 = upd_tokens (\<lambda>k. tk_id k \<in> set stale)
                               (\<lambda>k. k\<lparr>tk_revoked_at := Some now\<rparr>) db
                   in res_bind (insert_token (ap_id a) approver_id (ap_ticket_id a)
                          (link_digest env tok) now (link_expiry env s) db1)
                        (\<lambda>(i, db2). Inr (tok, audit_record env a A_link_issued actor_system
                           (Some (st_id s)) (Some approver_id) None [(''token_id'', JInt i)] db2)))))"

section \<open>Looking a link up\<close>

record link_target =
  lt_token_id :: int
  lt_approval_id :: int
  lt_approver_id :: int
  lt_principal :: principal

definition find_token :: "approval_env \<Rightarrow> approval_db \<Rightarrow> string \<Rightarrow> token_row option" where
  "find_token env db tok = find (\<lambda>k. tk_hash k = link_digest env tok) (db_tokens db)"

definition resolve_link :: "approval_env \<Rightarrow> approval_db \<Rightarrow> string \<Rightarrow> link_target res" where
  "resolve_link env db tok =
     (case find_token env db tok of
        None \<Rightarrow> Inl UnknownLinkError
      | Some k \<Rightarrow>
         if tk_used_at k \<noteq> None then Inl (ApprovalError link_used 410)
         else if tk_revoked_at k \<noteq> None then Inl (ApprovalError link_invalid 410)
         else (case (get_approval db (tk_approval_id k), get_approver db (tk_approver_id k)) of
             (Some a, Some r) \<Rightarrow>
               (case get_step db (ar_step_id r) of
                  None \<Rightarrow> Inl (ApprovalError link_invalid 410)
                | Some s \<Rightarrow>
                   if ap_status a \<noteq> AP_pending \<or> ar_status r \<noteq> AR_pending \<or> st_status s \<noteq> ST_active
                   then Inl (ApprovalError link_invalid 410)
                   else if tk_expires_at k \<le> token_now env then Inl (ApprovalError link_expired 410)
                   else res_bind (parse_principal (ar_principal r)) (\<lambda>p.
                     Inr \<lparr>lt_token_id = tk_id k, lt_approval_id = tk_approval_id k,
                          lt_approver_id = tk_approver_id k, lt_principal = p\<rparr>))
           | _ \<Rightarrow> Inl (ApprovalError link_invalid 410)))"

definition require_valid_principal :: "znuny_db \<Rightarrow> principal \<Rightarrow> unit res" where
  "require_valid_principal z p =
     (case p_kind p of
        Agent \<Rightarrow>
          if (case p_user_id p of None \<Rightarrow> None | Some uid \<Rightarrow> agent_valid z uid) = Some 1
          then Inr () else Inl (ApprovalError approver_invalid 403)
      | Customer \<Rightarrow>
         (case p_login p of
            None \<Rightarrow> Inl AssertionError
          | Some login \<Rightarrow>
             (case map_of (customer_rows z [login]) (lower login) of
                None \<Rightarrow> Inl (ApprovalError approver_invalid 403)
              | Some (_, v, _) \<Rightarrow> if v = 1 then Inr () else Inl (ApprovalError approver_invalid 403))))"

section \<open>Purging\<close>

definition PURGE_BATCH :: nat where "PURGE_BATCH = 500"

definition purge_due :: "instant \<Rightarrow> token_row \<Rightarrow> bool" where
  "purge_due older k \<longleftrightarrow>
     (case tk_used_at k of None \<Rightarrow> False | Some t \<Rightarrow> t < older) \<or>
     (case tk_revoked_at k of None \<Rightarrow> False | Some t \<Rightarrow> t < older) \<or> tk_expires_at k < older"

definition purge_ids :: "instant \<Rightarrow> token_row list \<Rightarrow> int list" where
  "purge_ids older toks = take PURGE_BATCH (sort (map tk_id (filter (purge_due older) toks)))"

text \<open>Every batch that is not empty deletes a row, so the loop ends.\<close>

lemma purge_ids_progress:
  assumes "purge_ids older toks \<noteq> []"
  shows "length (filter (\<lambda>k. tk_id k \<notin> set (purge_ids older toks)) toks) < length toks"
proof -
  obtain i where i: "i \<in> set (purge_ids older toks)" using assms by (cases "purge_ids older toks") auto
  then have "i \<in> tk_id ` set toks"
    unfolding purge_ids_def using set_take_subset [of PURGE_BATCH "sort (map tk_id (filter (purge_due older) toks))"] by auto
  then obtain k where "k \<in> set toks" "tk_id k = i" by auto
  with i show ?thesis by (intro length_filter_less [of k]) auto
qed

function purge_links :: "instant \<Rightarrow> token_row list \<Rightarrow> int \<times> token_row list" where
  "purge_links older toks =
     (if purge_ids older toks = [] then (0, toks)
      else case purge_links older (filter (\<lambda>k. tk_id k \<notin> set (purge_ids older toks)) toks) of
        (n, rest) \<Rightarrow> (n + int (length (purge_ids older toks)), rest))"
  by pat_completeness auto
termination
  by (relation "measure (\<lambda>(_, toks). length toks)") (auto intro: purge_ids_progress)

declare purge_links.simps [simp del]

lemma purge_ids_subset:
  assumes "distinct (map tk_id toks)" "k \<in> set toks" "tk_id k \<in> set (purge_ids older toks)"
  shows "purge_due older k"
proof -
  from assms(3) have "tk_id k \<in> tk_id ` set (filter (purge_due older) toks)"
    unfolding purge_ids_def
    using set_take_subset [of PURGE_BATCH "sort (map tk_id (filter (purge_due older) toks))"] by auto
  with assms(1,2) show ?thesis by (auto simp: distinct_map inj_on_def)
qed

lemma distinct_purge_ids: "distinct (map tk_id toks) \<Longrightarrow> distinct (purge_ids older toks)"
  unfolding purge_ids_def by (simp add: distinct_map_filter)

lemma sort_Nil_iff: "sort xs = [] \<longleftrightarrow> xs = []"
  by (metis length_0_conv length_sort)

lemma purge_ids_empty: "purge_ids older toks = [] \<longleftrightarrow> filter (purge_due older) toks = []"
  by (simp add: purge_ids_def PURGE_BATCH_def sort_Nil_iff)

lemma count_not_in_ids:
  assumes "distinct (map tk_id toks)" "set ids \<subseteq> tk_id ` set (filter p toks)" "distinct ids"
  shows "count_where p toks = count_where p (filter (\<lambda>k. tk_id k \<notin> set ids) toks) + int (length ids)"
proof -
  let ?in = "filter (\<lambda>k. tk_id k \<in> set ids) toks"
  have inj: "inj_on tk_id (set toks)" using assms(1) by (simp add: distinct_map)
  then have all: "\<forall>k \<in> set ?in. p k" using assms(2) by (fastforce simp: inj_on_def)
  have "tk_id ` set ?in = set ids" using assms(2) by auto
  moreover have "distinct (map tk_id ?in)" using assms(1) by (rule distinct_map_filter)
  ultimately have "length ?in = length ids"
    using assms(3) by (metis distinct_card length_map list.set_map)
  moreover have "filter p ?in = ?in" using all by (simp only: filter_id_conv)
  ultimately have "length (filter p (filter (\<lambda>k. tk_id k \<in> set ids) toks)) = length ids" by simp
  moreover have "length (filter p toks) =
      length (filter p (filter (\<lambda>k. tk_id k \<in> set ids) toks)) +
      length (filter p (filter (\<lambda>k. tk_id k \<notin> set ids) toks))"
    by (induction toks) auto
  ultimately show ?thesis by (simp add: count_where_def)
qed

lemma purge_ids_covers:
  "set (purge_ids older toks) \<subseteq> tk_id ` set (filter (purge_due older) toks)"
  unfolding purge_ids_def
  using set_take_subset [of PURGE_BATCH "sort (map tk_id (filter (purge_due older) toks))"] by auto

lemma purge_links_eq:
  assumes "distinct (map tk_id toks)"
  shows "purge_links older toks =
    (count_where (purge_due older) toks, filter (\<lambda>k. \<not> purge_due older k) toks)"
  using assms
proof (induction older toks rule: purge_links.induct)
  case (1 older toks)
  show ?case
  proof (cases "purge_ids older toks = []")
    case True
    then have "filter (purge_due older) toks = []" by (simp add: purge_ids_empty)
    then have "filter (\<lambda>k. \<not> purge_due older k) toks = toks" "count_where (purge_due older) toks = 0"
      by (auto simp: filter_empty_conv filter_id_conv count_where_0_iff)
    with True show ?thesis by (simp add: purge_links.simps [of older toks])
  next
    case False
    let ?rest = "filter (\<lambda>k. tk_id k \<notin> set (purge_ids older toks)) toks"
    have "purge_links older ?rest =
        (count_where (purge_due older) ?rest, filter (\<lambda>k. \<not> purge_due older k) ?rest)"
      using 1(1) [OF False] 1(2) by (simp add: distinct_map_filter)
    moreover have "filter (\<lambda>k. \<not> purge_due older k) ?rest = filter (\<lambda>k. \<not> purge_due older k) toks"
      using purge_ids_subset [OF 1(2)] by (auto simp: filter_filter intro!: filter_cong)
    moreover have "count_where (purge_due older) toks =
        count_where (purge_due older) ?rest + int (length (purge_ids older toks))"
      by (rule count_not_in_ids [OF 1(2) purge_ids_covers distinct_purge_ids [OF 1(2)]])
    ultimately show ?thesis using False by (simp add: purge_links.simps [of older toks])
  qed
qed

text \<open>
  C33. The batched purge is the plain one: with distinct ids the loop of at most 500 rows a time ends,
  deletes exactly the links that expired, were used or were revoked before the instant, keeps the
  others in order, and returns how many it deleted.
\<close>

theorem purge_links_spec:
  assumes "distinct (map tk_id toks)"
  shows "purge_links older toks =
    (count_where (purge_due older) toks, filter (\<lambda>k. \<not> purge_due older k) toks)"
  by (rule purge_links_eq [OF assms])

definition example_token :: "int \<Rightarrow> instant \<Rightarrow> token_row" where
  "example_token i expires = \<lparr>tk_id = i, tk_approval_id = 1, tk_approver_id = 1, tk_ticket_id = 100,
     tk_hash = show_nat (nat i), tk_created_at = 0, tk_expires_at = expires, tk_used_at = None,
     tk_revoked_at = None\<rparr>"

theorem purge_links_spec_witness:
  "purge_links 10 [example_token 1 5, example_token 2 20] = (1, [example_token 2 20])"
  using purge_links_spec [of "[example_token 1 5, example_token 2 20]" 10]
  by (simp add: example_token_def purge_due_def)

section \<open>Facts about issuing\<close>

lemma find_append: "find p (xs @ ys) = (case find p xs of None \<Rightarrow> find p ys | Some x \<Rightarrow> Some x)"
  by (induction xs) auto

lemma image_ball_iff: "(\<forall>x \<in> A. f x \<noteq> c) \<longleftrightarrow> c \<notin> f ` A"
  by auto

lemma issue_link_InrE:
  assumes "issue_link env i tok db = Inr (t, db')"
  obtains row a s where "get_approver db i = Some row" "get_approval db (ar_approval_id row) = Some a"
    "get_step db (ar_step_id row) = Some s" "ap_status a = AP_pending" "ar_status row = AR_pending"
    "st_status s = ST_active" "set_email_links_enabled (env_settings env)" "sp_allow_email (st_spec s)"
    "t = tok" "\<forall>k \<in> set (db_tokens db). tk_hash k \<noteq> link_digest env tok"
    "db_tokens db' = upd_where (\<lambda>k. tk_id k \<in> set (stale_links env i db))
        (\<lambda>k. k\<lparr>tk_revoked_at := Some (token_now env)\<rparr>) (db_tokens db) @
      [\<lparr>tk_id = seq_token db, tk_approval_id = ap_id a, tk_approver_id = i,
        tk_ticket_id = ap_ticket_id a, tk_hash = link_digest env tok, tk_created_at = token_now env,
        tk_expires_at = link_expiry env s, tk_used_at = None, tk_revoked_at = None\<rparr>]"
    "db_approvals db' = db_approvals db" "db_steps db' = db_steps db"
    "db_approvers db' = db_approvers db" "db_votes db' = db_votes db" "seq_token db' = seq_token db + 1"
    "seq_approval db' = seq_approval db" "seq_step db' = seq_step db"
    "seq_approver db' = seq_approver db" "seq_vote db' = seq_vote db"
    "db_delegations db' = db_delegations db" "db_znuny db' = db_znuny db"
proof -
  from assms obtain row a s where
    found: "get_approver db i = Some row" "get_approval db (ar_approval_id row) = Some a"
      "get_step db (ar_step_id row) = Some s"
    by (auto simp: issue_link_def lock_approval_def split: option.splits if_splits)
  with assms have status: "ap_status a = AP_pending" "ar_status row = AR_pending" "st_status s = ST_active"
      "set_email_links_enabled (env_settings env)" "sp_allow_email (st_spec s)"
    by (auto simp: issue_link_def lock_approval_def split: if_splits)
  from assms found status obtain j db2 where
    ins: "insert_token (ap_id a) i (ap_ticket_id a) (link_digest env tok) (token_now env)
        (link_expiry env s) (upd_tokens (\<lambda>k. tk_id k \<in> set (stale_links env i db))
          (\<lambda>k. k\<lparr>tk_revoked_at := Some (token_now env)\<rparr>) db) = Inr (j, db2)"
    and db': "t = tok" "db' = audit_record env a A_link_issued actor_system (Some (st_id s)) (Some i) None
        [(''token_id'', JInt j)] db2"
    by (auto simp: issue_link_def lock_approval_def Let_def res_bind_Inr_iff split: if_splits)
  from ins have "\<forall>k \<in> set (upd_where (\<lambda>k. tk_id k \<in> set (stale_links env i db))
          (\<lambda>k. k\<lparr>tk_revoked_at := Some (token_now env)\<rparr>) (db_tokens db)). tk_hash k \<noteq> link_digest env tok"
    by (auto simp: insert_token_def list_ex_iff split: if_splits)
  then have "\<forall>k \<in> set (db_tokens db). tk_hash k \<noteq> link_digest env tok"
    using image_upd_where [of "db_tokens db" "\<lambda>k. tk_id k \<in> set (stale_links env i db)" tk_hash
        "\<lambda>k. k\<lparr>tk_revoked_at := Some (token_now env)\<rparr>"] by (simp add: image_ball_iff) 
  with ins db' show ?thesis
    by (intro that [OF found status])
       (auto simp: insert_token_def split: if_splits)
qed

lemma stale_links_ids:
  "set (stale_links env i db) \<subseteq> tk_id ` set (filter
     (\<lambda>k. tk_approver_id k = i \<and> redeemable (token_now env) k) (db_tokens db))"
  unfolding stale_links_def Let_def by (rule order.trans [OF set_take_subset]) auto

lemma distinct_stale_links:
  "distinct (map tk_id (db_tokens db)) \<Longrightarrow> distinct (stale_links env i db)"
  unfolding stale_links_def Let_def by (simp add: distinct_map_filter)

text \<open>
  At most \<open>max_links_per_approver\<close> redeemable links per approver row exist after one was issued
  (one, should the setting be below one), whatever the number before.
\<close>

theorem issue_link_cap:
  assumes issued: "issue_link env i tok db = Inr (t, db')"
    and ids: "distinct (map tk_id (db_tokens db))"
  shows "count_where (\<lambda>k. tk_approver_id k = i \<and> redeemable (token_now env) k) (db_tokens db')
    \<le> max 1 (set_max_links_per_approver (env_settings env))"
proof -
  let ?Q = "\<lambda>k. tk_approver_id k = i \<and> redeemable (token_now env) k"
  let ?stale = "stale_links env i db"
  have revoked: "count_where ?Q (upd_where (\<lambda>k. tk_id k \<in> set ids') (\<lambda>k. k\<lparr>tk_revoked_at := Some n\<rparr>) toks) =
      count_where ?Q (filter (\<lambda>k. tk_id k \<notin> set ids') toks)" for ids' n toks
    by (induction toks) (auto simp: redeemable_def live_def)
  have total: "count_where ?Q (db_tokens db) =
      count_where ?Q (filter (\<lambda>k. tk_id k \<notin> set ?stale) (db_tokens db)) + int (length ?stale)"
    by (rule count_not_in_ids [OF ids stale_links_ids distinct_stale_links [OF ids]])
  have "int (length ?stale) = min (count_where ?Q (db_tokens db))
      (max 0 (count_where ?Q (db_tokens db) + 1 - set_max_links_per_approver (env_settings env)))"
    by (simp add: stale_links_def Let_def count_where_def)
  with total show ?thesis
    using count_where_nonneg [of ?Q "db_tokens db"] issued
    by (elim issue_link_InrE) (auto simp: revoked)
qed

text \<open>A pending request with one active step and its approver, for the examples.\<close>

definition example_spec :: step_spec where
  "example_spec = \<lparr>sp_name = ''lead'', sp_stage = 1, sp_rule = R_any, sp_quorum = None,
     sp_approvers = [\<lparr>e_kind = E_group, e_ref = ''3''\<rparr>, \<lparr>e_kind = E_user, e_ref = ''9''\<rparr>],
     sp_due_hours = Some 48, sp_on_timeout = OT_notify, sp_escalation = [], sp_on_no_approver = NA_reject,
     sp_allow_delegation = True, sp_allow_email = True\<rparr>"

definition open_db :: approval_db where
  "open_db = empty_db\<lparr>
     db_approvals := [\<lparr>ap_id = 1, ap_ticket_id = 100, ap_subject_type = ''ticket'', ap_subject_ref = None,
       ap_approval_key = ''default'', ap_title = ''Change'', ap_description = None, ap_template_id = None,
       ap_status = AP_pending, ap_reason = None, ap_current_stage = Some 1, ap_allow_self_approval = False,
       ap_requester = ''agent:8'', ap_created_by = 8, ap_created_at = 0, ap_decided_at = None,
       ap_superseded_by = None\<rparr>],
     db_steps := [\<lparr>st_id = 1, st_approval_id = 1, st_ticket_id = 100, st_position = 1, st_stage = 1,
       st_name = ''lead'', st_rule = R_any, st_quorum = None, st_status = ST_active, st_reason = None,
       st_spec = example_spec, st_due_at = Some 172800000000, st_activated_at = Some 0,
       st_decided_at = None, st_last_reminder_at = None, st_reminder_count = 0, st_overdue_at = None\<rparr>],
     db_approvers := [\<lparr>ar_id = 1, ar_approval_id = 1, ar_step_id = 1, ar_ticket_id = 100,
       ar_principal = ''agent:7'', ar_user_id = Some 7, ar_customer_login = None, ar_source_kind = S_group,
       ar_source_ref = Some ''3'', ar_source_label = Some ''support'', ar_decisive = False,
       ar_status = AR_pending, ar_added_at = 0, ar_last_notified_at = None\<rparr>],
     db_tokens := [example_token 1 10000000000, example_token 2 10000000000],
     seq_approval := 2, seq_step := 2, seq_approver := 2, seq_token := 3\<rparr>"

definition issued_db :: approval_db where
  "issued_db = (case issue_link example_env 1 ''secret'' open_db of Inr (_, db) \<Rightarrow> db | Inl _ \<Rightarrow> empty_db)"

lemma issued_db_eval: "issue_link example_env 1 ''secret'' open_db = Inr (''secret'', issued_db)"
  by code_simp

theorem issue_link_cap_witness:
  "count_where (\<lambda>k. tk_approver_id k = 1 \<and> redeemable 1000000000 k) (db_tokens issued_db) \<le> 2"
  using issue_link_cap [OF issued_db_eval]
  by (simp add: example_env_def example_settings_def token_now_def trunc_sec_def usec_per_second_def
      open_db_def empty_db_def example_token_def)

text \<open>
  C34. A link stands for the approver row it was issued for, and for no other: until it expires,
  looking up an issued token in the resulting database finds the new token, the row's request and
  the row's own principal.
\<close>

theorem issue_link_resolves:
  assumes issued: "issue_link env i tok db = Inr (t, db')"
    and row: "get_approver db i = Some row" "get_step db (ar_step_id row) = Some s"
    and principal: "parse_principal (ar_principal row) = Inr p"
    and fresh: "token_now env < link_expiry env s"
  shows "resolve_link env db' t = Inr \<lparr>lt_token_id = seq_token db, lt_approval_id = ar_approval_id row,
      lt_approver_id = i, lt_principal = p\<rparr>"
  using issued
proof (elim issue_link_InrE)
  fix row' a s'
  assume rows: "get_approver db i = Some row'" "get_approval db (ar_approval_id row') = Some a"
      "get_step db (ar_step_id row') = Some s'" "ap_status a = AP_pending" "ar_status row' = AR_pending"
      "st_status s' = ST_active"
    and t: "t = tok" and new: "\<forall>k \<in> set (db_tokens db). tk_hash k \<noteq> link_digest env tok"
    and toks: "db_tokens db' = upd_where (\<lambda>k. tk_id k \<in> set (stale_links env i db))
        (\<lambda>k. k\<lparr>tk_revoked_at := Some (token_now env)\<rparr>) (db_tokens db) @
      [\<lparr>tk_id = seq_token db, tk_approval_id = ap_id a, tk_approver_id = i,
        tk_ticket_id = ap_ticket_id a, tk_hash = link_digest env tok, tk_created_at = token_now env,
        tk_expires_at = link_expiry env s', tk_used_at = None, tk_revoked_at = None\<rparr>]"
    and same: "db_approvals db' = db_approvals db" "db_steps db' = db_steps db" "db_approvers db' = db_approvers db"
  have eqs: "row' = row" "s' = s" "ap_id a = ar_approval_id row"
    using rows row approvals.get_SomeD [OF rows(2)] by auto
  have "find (\<lambda>k. tk_hash k = link_digest env tok) (upd_where (\<lambda>k. tk_id k \<in> set (stale_links env i db))
        (\<lambda>k. k\<lparr>tk_revoked_at := Some (token_now env)\<rparr>) (db_tokens db)) = None"
    using new by (auto simp: find_None_iff set_upd_where)
  then have "find_token env db' tok = Some \<lparr>tk_id = seq_token db, tk_approval_id = ap_id a, tk_approver_id = i,
        tk_ticket_id = ap_ticket_id a, tk_hash = link_digest env tok, tk_created_at = token_now env,
        tk_expires_at = link_expiry env s', tk_used_at = None, tk_revoked_at = None\<rparr>"
    by (simp add: find_token_def toks find_append)
  moreover have "get_approver db' i = Some row" "get_approval db' (ar_approval_id row) = Some a"
      "get_step db' (ar_step_id row) = Some s"
    using rows same by (simp_all add: eqs get_approver_def get_approval_def get_step_def)
  ultimately show ?thesis using rows principal fresh by (simp add: resolve_link_def t eqs)
qed

theorem issue_link_resolves_witness:
  "resolve_link example_env issued_db ''secret'' = Inr \<lparr>lt_token_id = 3, lt_approval_id = 1,
     lt_approver_id = 1, lt_principal = \<lparr>p_kind = Agent, p_user_id = Some 7, p_login = None\<rparr>\<rparr>"
proof -
  let ?row = "hd (db_approvers open_db)" and ?s = "hd (db_steps open_db)"
  have "get_approver open_db 1 = Some ?row" "get_step open_db (ar_step_id ?row) = Some ?s"
    "parse_principal (ar_principal ?row) = Inr \<lparr>p_kind = Agent, p_user_id = Some 7, p_login = None\<rparr>"
    "token_now example_env < link_expiry example_env ?s" "seq_token open_db = 3" "ar_approval_id ?row = 1"
    by code_simp+
  then show ?thesis using issue_link_resolves [OF issued_db_eval] by metis
qed

end
