(* ===== verification/Approval_Engine.thy ===== *)
theory Approval_Engine
  imports Approval_Tokens "HOL-Library.Product_Lexorder"
begin

text \<open>
  \<open>approvals/_engine.py\<close>: closing a request, activating steps and stages, the voters of a step,
  closing and re-evaluating steps. An operation takes the request as an ORM object (\<open>a\<close>) and reads
  its columns that may have changed through \<open>cur\<close>. The \<open>while\<close> loop of \<open>activate_next_stage\<close> is a
  terminating function: every pass activates a waiting step.
\<close>

section \<open>Who may not approve\<close>

definition excluded_keys :: "approval_db \<Rightarrow> approval \<Rightarrow> string set res" where
  "excluded_keys db a =
     (if ap_allow_self_approval a then Inr {}
      else (case creator_key db a of
              None \<Rightarrow> Inr {ap_requester a}
            | Some creator \<Rightarrow>
               res_bind (parse_principal creator) (\<lambda>p.
               res_bind (canonical_principal (db_znuny db) p) (\<lambda>q.
               Inr {ap_requester a, principal_key q}))))"

definition allow_customers :: "approval_env \<Rightarrow> approval \<Rightarrow> bool" where
  "allow_customers env a \<longleftrightarrow>
     set_customer_approvers_enabled (env_settings env) \<and>
     (case env_subjects env (ap_subject_type a) of
        None \<Rightarrow> False | Some sub \<Rightarrow> sub_allow_customer_approvers sub)"

definition check_customer_approver ::
  "approval_env \<Rightarrow> approval_db \<Rightarrow> approval \<Rightarrow> string \<Rightarrow> unit res" where
  "check_customer_approver env db a login =
     (if \<not> allow_customers env a then Inl (ApprovalError forbidden 403)
      else if \<not> customer_in_ticket_company (db_znuny db) login (ap_ticket_id a)
      then Inl (ApprovalError customer_approver_outside_company 403)
      else Inr ())"

definition outside_company :: "approval_db \<Rightarrow> approver_row list \<Rightarrow> int set" where
  "outside_company db rows =
     (let customers = List.map_filter (\<lambda>r. case ar_customer_login r of
            None \<Rightarrow> None | Some l \<Rightarrow> if l = [] then None else Some (ar_id r, l, ar_ticket_id r)) rows;
          inside = customers_in_ticket_company (db_znuny db) (map snd customers)
      in fst ` set (filter (\<lambda>c. snd c \<notin> inside) customers))"

section \<open>Closing a request\<close>

definition is_open :: "step_row \<Rightarrow> bool" where
  "is_open s \<longleftrightarrow> st_status s = ST_waiting \<or> st_status s = ST_active"

definition close_open_steps ::
  "approval_env \<Rightarrow> approval \<Rightarrow> step_row list \<Rightarrow> string \<Rightarrow> approval_db \<Rightarrow> approval_db" where
  "close_open_steps env a steps reason db =
     (let ids = map st_id (filter is_open steps) in
      if ids = [] then db
      else upd_steps (\<lambda>s. st_id s \<in> set ids)
             (\<lambda>s. s\<lparr>st_status := ST_cancelled, st_reason := Some reason,
                    st_decided_at := Some (env_now env)\<rparr>)
           (upd_approvers (\<lambda>r. ar_approval_id r = ap_id a \<and> ar_step_id r \<in> set ids \<and>
                ar_status r = AR_pending)
              (\<lambda>r. r\<lparr>ar_status := AR_not_needed\<rparr>) db))"

fun status_text :: "approval_status \<Rightarrow> string" where
  "status_text AP_pending = ''pending''"
| "status_text AP_approved = ''approved''"
| "status_text AP_rejected = ''rejected''"
| "status_text AP_cancelled = ''cancelled''"

definition EVENT_REQUESTED :: string where "EVENT_REQUESTED = ''TiqoraApprovalRequested''"
definition EVENT_VOTED :: string where "EVENT_VOTED = ''TiqoraApprovalVoted''"
definition EVENT_DECIDED :: string where "EVENT_DECIDED = ''TiqoraApprovalDecided''"
definition EVENT_CANCELLED :: string where "EVENT_CANCELLED = ''TiqoraApprovalCancelled''"
definition EVENT_ESCALATED :: string where "EVENT_ESCALATED = ''TiqoraApprovalEscalated''"

definition hook_key :: "int \<Rightarrow> approval_status \<Rightarrow> string" where
  "hook_key i status = ''approval:'' @ str_int i @ '':'' @ status_text status"

text \<open>The approvers a cancellation is mailed to: pending and notified before.\<close>

definition cancel_recipients :: "approval_db \<Rightarrow> approval \<Rightarrow> approval_status \<Rightarrow> int list" where
  "cancel_recipients db a status =
     (if status = AP_cancelled \<and> ap_status (cur db a) = AP_pending
      then map ar_id (filter (\<lambda>r. ar_status r = AR_pending \<and> ar_last_notified_at r \<noteq> None)
             (locked_approvers db (ap_id a)))
      else [])"

definition final_action :: "approval_status \<Rightarrow> string \<Rightarrow> bool \<Rightarrow> audit_action" where
  "final_action status reason auto =
     (if auto then A_auto_decided
      else if status = AP_cancelled then (if reason = ''superseded'' then A_superseded else A_cancelled)
      else A_decided)"

definition finalize ::
  "approval_env \<Rightarrow> approval \<Rightarrow> approval_status \<Rightarrow> string \<Rightarrow> actor \<Rightarrow> bool \<Rightarrow> approval_db \<Rightarrow>
     approval_db res" where
  "finalize env a status reason act auto db =
     (let notified = cancel_recipients db a status;
          db1 = close_open_steps env a (locked_steps db (ap_id a)) reason db;
          db2 = upd_approvals (\<lambda>x. ap_id x = ap_id a)
                  (\<lambda>x. x\<lparr>ap_status := status, ap_reason := Some reason,
                         ap_decided_at := Some (trunc_sec (env_now env)), ap_current_stage := None\<rparr>) db1;
          db3 = snd (revoke_approval_links env (ap_id a) db2);
          detail = [(''status'', JStatus status), (''reason'', JStr reason)] @
            (case ap_superseded_by (cur db3 a) of None \<Rightarrow> [] | Some i \<Rightarrow> [(''superseded_by'', JInt i)]);
          db4 = audit_record env a (final_action status reason auto) act None None None detail db3;
          db5 = (if status = AP_cancelled
             then audit_history env a H_cancelled act None
                    (audit_emit a EVENT_CANCELLED [(''reason'', JStr reason)] db4)
             else audit_history env a H_decided act
                    (Some (if reason \<noteq> ''votes'' then status_text status @ '' ('' @ reason @ '')''
                           else status_text status))
                    (audit_emit a EVENT_DECIDED [(''reason'', JStr reason)] db4))
      in res_bind (enqueue env JOB_HOOK (HookPayload (ap_id a) status)
             (Some (hook_key (ap_id a) status)) db5) (\<lambda>db6.
         if status = AP_cancelled
         then enqueue_notification env (ap_id a) M_cancelled notified False db6
         else if \<not> auto \<and> set_mail_requester_on_decision (env_settings env) \<and>
                 ap_requester a \<noteq> ''system''
         then enqueue_notification env (ap_id a) M_decided [] True db6
         else Inr db6))"

section \<open>Reasons\<close>

definition APPROVED_REASON_PRECEDENCE :: "string list" where
  "APPROVED_REASON_PRECEDENCE = [''timeout'', ''no_approvers'', ''auto'', ''votes'']"

text \<open>\<open>step.reason or "votes"\<close>\<close>

definition reason_or_votes :: "step_row \<Rightarrow> string" where
  "reason_or_votes s = (case st_reason s of None \<Rightarrow> ''votes'' | Some r \<Rightarrow> if r = [] then ''votes'' else r)"

definition result_reason :: "step_row list \<Rightarrow> approval_status \<Rightarrow> string" where
  "result_reason steps result =
     (if result = AP_rejected
      then (case find (\<lambda>s. st_status s = ST_rejected) steps of
              None \<Rightarrow> ''votes'' | Some s \<Rightarrow> reason_or_votes s)
      else
        let closed = map reason_or_votes
              (filter (\<lambda>s. st_status s = ST_approved \<or> st_status s = ST_rejected) steps)
        in (case find (\<lambda>r. r \<in> set closed) APPROVED_REASON_PRECEDENCE of
              None \<Rightarrow> ''votes'' | Some r \<Rightarrow> r))"

text \<open>The key of \<open>max\<close>: stage, decision (none before all), position.\<close>

definition closed_key :: "step_row \<Rightarrow> int \<times> (int \<times> instant) \<times> int" where
  "closed_key s = (st_stage s, (case st_decided_at s of None \<Rightarrow> (0, 0) | Some t \<Rightarrow> (1, t)), st_position s)"

definition last_closed_step :: "step_row list \<Rightarrow> step_row option" where
  "last_closed_step steps =
     (let rejected = filter (\<lambda>s. st_status s = ST_rejected) steps;
          closed = (if rejected \<noteq> [] then rejected else filter (\<lambda>s. st_status s = ST_approved) steps)
      in (case closed of
            [] \<Rightarrow> None
          | s # ss \<Rightarrow> Some (foldl (\<lambda>m s. if closed_key m < closed_key s then s else m) s ss)))"

section \<open>Approver rows\<close>

text \<open>The unique key \<open>(step_id, principal)\<close> refuses a second row.\<close>

definition insert_approver ::
  "approval_env \<Rightarrow> approval \<Rightarrow> step_row \<Rightarrow> resolved_approver \<Rightarrow> instant \<Rightarrow> approval_db \<Rightarrow> approval_db res" where
  "insert_approver env a s ra now db =
     (if list_ex (\<lambda>r. ar_step_id r = st_id s \<and> ar_principal r = principal_key (ra_principal ra))
           (db_approvers db)
      then Inl IntegrityError
      else Inr (db\<lparr>db_approvers := db_approvers db @
          [\<lparr>ar_id = seq_approver db, ar_approval_id = ap_id a, ar_step_id = st_id s,
            ar_ticket_id = ap_ticket_id a, ar_principal = principal_key (ra_principal ra),
            ar_user_id = p_user_id (ra_principal ra), ar_customer_login = p_login (ra_principal ra),
            ar_source_kind = ra_source_kind ra, ar_source_ref = ra_source_ref ra,
            ar_source_label = (case ra_source_label ra of None \<Rightarrow> None
               | Some l \<Rightarrow> if l = [] then None else Some (replace_non_bmp (take 200 l))),
            ar_decisive = False, ar_status = AR_pending, ar_added_at = now,
            ar_last_notified_at = None\<rparr>],
          seq_approver := seq_approver db + 1\<rparr>))"

definition add_approver ::
  "approval_env \<Rightarrow> approval \<Rightarrow> step_row \<Rightarrow> actor \<Rightarrow> instant \<Rightarrow> resolved_approver \<Rightarrow> approval_db \<Rightarrow>
     (int \<times> approval_db) res" where
  "add_approver env a s act now ra db =
     res_bind (insert_approver env a s ra now db) (\<lambda>db1.
       Inr (seq_approver db, audit_record env a A_approver_added act (Some (st_id s))
         (Some (seq_approver db)) None [(''source'', JSource (ra_source_kind ra))] db1))"

definition resolve_step ::
  "approval_env \<Rightarrow> approval_db \<Rightarrow> approval \<Rightarrow> source_kind option \<Rightarrow> approver_entry list \<Rightarrow> resolution res" where
  "resolve_step env db a override entries =
     res_bind (excluded_keys db a) (\<lambda>ex.
       resolve_entries env db
         \<lparr>rc_ticket_id = ap_ticket_id a, rc_subject_type = ap_subject_type a,
          rc_subject_ref = ap_subject_ref a, rc_approval_id = ap_id a\<rparr>
         ex (allow_customers env a) override entries)"

definition exclusion_text :: "exclusion \<Rightarrow> string" where
  "exclusion_text x = (case x of X_self \<Rightarrow> ''self'' | X_invalid \<Rightarrow> ''invalid''
     | X_outside_company \<Rightarrow> ''outside_company'' | X_system_user \<Rightarrow> ''system_user''
     | X_customers_not_allowed \<Rightarrow> ''customers_not_allowed'' | X_unknown \<Rightarrow> ''unknown'')"

definition audit_excluded ::
  "approval_env \<Rightarrow> approval \<Rightarrow> step_row \<Rightarrow> resolution \<Rightarrow> actor \<Rightarrow> approval_db \<Rightarrow> approval_db" where
  "audit_excluded env a s rn act db =
     fold (\<lambda>(p, why). audit_record env a A_approver_excluded act (Some (st_id s)) None None
         ((if p_kind p = Agent
           then [(''user_id'', case p_user_id p of None \<Rightarrow> JNull | Some u \<Rightarrow> JInt u)]
           else [(''kind'', JStr ''customer'')]) @ [(''reason'', JStr (exclusion_text why))]))
       (rn_excluded rn) db"

definition audit_unresolved ::
  "approval_env \<Rightarrow> approval \<Rightarrow> step_row \<Rightarrow> resolution \<Rightarrow> actor \<Rightarrow> approval_db \<Rightarrow> approval_db" where
  "audit_unresolved env a s rn act db =
     fold (\<lambda>e. audit_record env a A_approver_excluded act (Some (st_id s)) None None
         [(''kind'', JEntry (e_kind e)), (''ref'', JStr (e_ref e)), (''reason'', JStr ''unknown'')])
       (rn_unresolved rn) db"

section \<open>Activation\<close>

definition na_status :: "on_no_approver \<Rightarrow> step_status" where
  "na_status x = (case x of NA_approve \<Rightarrow> ST_approved | NA_reject \<Rightarrow> ST_rejected)"

definition due_hours :: "approval_env \<Rightarrow> step_spec \<Rightarrow> int" where
  "due_hours env spec = (case sp_due_hours spec of
     None \<Rightarrow> set_default_due_hours (env_settings env) | Some h \<Rightarrow> h)"

text \<open>The step becomes active and its stage the request's current one.\<close>

definition activated :: "approval_env \<Rightarrow> step_spec \<Rightarrow> step_row \<Rightarrow> step_row" where
  "activated env spec x =
     (let h = due_hours env spec in
      x\<lparr>st_status := ST_active, st_activated_at := Some (env_now env),
        st_due_at := (if h \<noteq> 0 then Some (env_now env + hours h) else None)\<rparr>)"

lemma activated_simps [simp]:
  "st_id (activated env spec x) = st_id x" "st_approval_id (activated env spec x) = st_approval_id x"
  "st_stage (activated env spec x) = st_stage x" "st_position (activated env spec x) = st_position x"
  "st_spec (activated env spec x) = st_spec x" "st_status (activated env spec x) = ST_active"
  by (simp_all add: activated_def Let_def)

definition start_step :: "approval_env \<Rightarrow> approval \<Rightarrow> step_row \<Rightarrow> approval_db \<Rightarrow> approval_db" where
  "start_step env a s db =
     upd_approvals (\<lambda>x. ap_id x = ap_id a) (\<lambda>x. x\<lparr>ap_current_stage := Some (st_stage s)\<rparr>)
       (upd_steps (\<lambda>x. st_id x = st_id s) (activated env (st_spec s)) db)"

text \<open>The loop that adds the resolved approvers; the ids of the rows in order.\<close>

definition add_approvers ::
  "approval_env \<Rightarrow> approval \<Rightarrow> step_row \<Rightarrow> actor \<Rightarrow> instant \<Rightarrow> resolved_approver list \<Rightarrow>
     approval_db \<Rightarrow> (int list \<times> approval_db) res" where
  "add_approvers env a s act now ras db =
     res_fold (\<lambda>ra (ids, db). res_bind (add_approver env a s act now ra db)
       (\<lambda>(i, db'). Inr (ids @ [i], db'))) ras ([], db)"

definition activate_step ::
  "approval_env \<Rightarrow> approval \<Rightarrow> step_row \<Rightarrow> actor \<Rightarrow> approval_db \<Rightarrow> (int list \<times> approval_db) res" where
  "activate_step env a s act db =
     res_bind (resolve_step env db a None (sp_approvers (st_spec s))) (\<lambda>rn.
       let spec = st_spec s;
           count = int (length (rn_approvers rn));
           db1 = start_step env a s db;
           db2 = audit_record env a A_step_activated act (Some (st_id s)) None None
                   [(''rule'', JRule (st_rule s)),
                    (''quorum'', case st_quorum s of None \<Rightarrow> JNull | Some q \<Rightarrow> JInt q),
                    (''approvers'', JInt count)] db1;
           db3 = audit_unresolved env a s rn act (audit_excluded env a s rn act db2)
       in if count = 0 \<or> \<not> quorum_reachable (sp_rule spec) (sp_quorum spec) count
          then let st = na_status (sp_on_no_approver spec) in
               Inr ([], audit_record env a A_step_decided act (Some (st_id s)) None None
                 [(''decision'', JStep st), (''reason'', JStr ''no_approvers''), (''valid'', JInt count)]
                 (upd_steps (\<lambda>x. st_id x = st_id s)
                    (\<lambda>x. x\<lparr>st_status := st, st_reason := Some ''no_approvers'',
                           st_decided_at := Some (env_now env)\<rparr>) db3))
          else add_approvers env a s act (env_now env) (rn_approvers rn) db3)"

text \<open>
  The \<open>for\<close> loop over the steps of a stage. \<open>activate_step\<close> writes no step but its own, so the rows
  as read say which steps of the stage are still waiting when their turn comes.
\<close>

definition activate_stage ::
  "approval_env \<Rightarrow> approval \<Rightarrow> actor \<Rightarrow> step_row list \<Rightarrow> int list \<Rightarrow> approval_db \<Rightarrow>
     (int list \<times> approval_db) res" where
  "activate_stage env a act steps added db =
     res_fold (\<lambda>s (added, db). res_bind (activate_step env a s act db)
       (\<lambda>(ids, db'). Inr (added @ ids, db'))) steps (added, db)"

definition waiting_steps :: "approval_db \<Rightarrow> int \<Rightarrow> step_row list" where
  "waiting_steps db i = filter (\<lambda>s. st_approval_id s = i \<and> st_status s = ST_waiting) (db_steps db)"

definition stage_pairs :: "step_row list \<Rightarrow> (int \<times> step_status) list" where
  "stage_pairs steps = map (\<lambda>s. (st_stage s, st_status s)) steps"

definition steps_of_stage :: "step_row list \<Rightarrow> int \<Rightarrow> step_row list" where
  "steps_of_stage steps stage = filter (\<lambda>s. st_stage s = stage \<and> st_status s = ST_waiting) steps"

subsection \<open>What one activation writes\<close>

lemma fold_frame: "(\<And>x db. x \<in> set xs \<Longrightarrow> g (f x db) = g db) \<Longrightarrow> g (fold f xs db) = g db"
  by (induction xs arbitrary: db) auto

text \<open>The tables and counters the engine's decisions rest on.\<close>

definition core ::
  "approval_db \<Rightarrow> (approval list \<times> step_row list \<times> approver_row list \<times> vote_row list \<times> token_row list) \<times>
     (int \<times> int \<times> int \<times> int \<times> int) \<times> znuny_db \<times> delegation_row list" where
  "core db = ((db_approvals db, db_steps db, db_approvers db, db_votes db, db_tokens db),
     (seq_approval db, seq_step db, seq_approver db, seq_vote db, seq_token db),
     db_znuny db, db_delegations db)"

lemma core_eqD:
  assumes "core db' = core db"
  shows "db_approvals db' = db_approvals db" "db_steps db' = db_steps db"
    "db_approvers db' = db_approvers db" "db_votes db' = db_votes db" "db_tokens db' = db_tokens db"
    "seq_approval db' = seq_approval db" "seq_step db' = seq_step db"
    "seq_approver db' = seq_approver db" "seq_vote db' = seq_vote db" "seq_token db' = seq_token db"
    "db_znuny db' = db_znuny db" "db_delegations db' = db_delegations db"
  using assms by (simp_all add: core_def)

lemma core_frames [simp]:
  "core (audit_record env a ac act s p c d db) = core db"
  "core (audit_emit a e j db) = core db"
  "core (audit_history env a v act x db) = core db"
  by (simp_all add: core_def)

lemma core_audit_folds [simp]:
  "core (audit_excluded env a s rn act db) = core db"
  "core (audit_unresolved env a s rn act db) = core db"
  by (simp_all add: audit_excluded_def audit_unresolved_def fold_frame split: prod.splits)

lemmas audit_fold_tables [simp] = core_eqD [OF core_audit_folds(1)] core_eqD [OF core_audit_folds(2)]

lemma core_enqueue:
  "enqueue env k p key db = Inr db' \<Longrightarrow> core db' = core db"
  "enqueue_notification env i m ids r db = Inr db' \<Longrightarrow> core db' = core db"
  by (auto dest!: enqueue_frame enqueue_notification_frame simp: core_def)

lemma add_approver_InrE:
  assumes "add_approver env a s act now ra db = Inr (i, db')"
  obtains row where "db_approvers db' = db_approvers db @ [row]" "i = seq_approver db" "ar_id row = i"
    "ar_approval_id row = ap_id a" "ar_step_id row = st_id s" "ar_status row = AR_pending"
    "ar_principal row = principal_key (ra_principal ra)" "ar_source_kind row = ra_source_kind ra"
    "ar_source_ref row = ra_source_ref ra" "ar_decisive row = False"
    "ar_user_id row = p_user_id (ra_principal ra)"
    "\<forall>r \<in> set (db_approvers db). \<not> (ar_step_id r = st_id s \<and> ar_principal r = ar_principal row)"
    "db_approvals db' = db_approvals db" "db_steps db' = db_steps db" "db_votes db' = db_votes db"
    "db_tokens db' = db_tokens db" "seq_approval db' = seq_approval db" "seq_step db' = seq_step db"
    "seq_approver db' = seq_approver db + 1" "seq_vote db' = seq_vote db" "seq_token db' = seq_token db"
    "db_znuny db' = db_znuny db" "db_delegations db' = db_delegations db"
  using assms
  by (auto simp: add_approver_def insert_approver_def res_bind_Inr_iff list_ex_iff split: if_splits)

lemma add_approvers_step:
  assumes "add_approvers env a s act now ras db = Inr (ids, db')"
    and "\<And>db. P db db"
    and "\<And>ra i db1 db2. ra \<in> set ras \<Longrightarrow> P db db1 \<Longrightarrow> add_approver env a s act now ra db1 = Inr (i, db2) \<Longrightarrow> P db db2"
  shows "P db db'"
proof -
  have "case (ids, db') of (_, x) \<Rightarrow> P db x"
    by (rule res_fold_invariant [OF assms(1) [unfolded add_approvers_def], where P = "\<lambda>(_, x). P db x"])
       (auto simp: assms(2) res_bind_Inr_iff intro: assms(3))
  then show ?thesis by simp
qed

lemma add_approvers_steps:
  assumes "add_approvers env a s act now ras db = Inr (ids, db')"
  shows "db_steps db' = db_steps db \<and> db_approvals db' = db_approvals db"
  by (rule add_approvers_step [OF assms, where P = "\<lambda>x y. db_steps y = db_steps x \<and> db_approvals y = db_approvals x"])
     (auto elim!: add_approver_InrE)

text \<open>The rows of steps and of the request after an activation: the step left \<open>waiting\<close>.\<close>

lemma upd_where_twice [simp]:
  "(\<And>x. p x \<Longrightarrow> p (f x)) \<Longrightarrow> upd_where p g (upd_where p f xs) = upd_where p (\<lambda>x. g (f x)) xs"
  by (induction xs) auto

lemma activate_step_steps:
  assumes "activate_step env a s act db = Inr (ids, db')"
  obtains f where "db_steps db' = upd_where (\<lambda>x. st_id x = st_id s) f (db_steps db)"
    "\<And>x. st_id (f x) = st_id x \<and> st_approval_id (f x) = st_approval_id x \<and> st_stage (f x) = st_stage x \<and>
       st_position (f x) = st_position x \<and> st_spec (f x) = st_spec x \<and>
       st_status (f x) = st_status (f s) \<and> st_status (f x) \<in> {ST_active, ST_approved, ST_rejected}"
proof -
  let ?st = "na_status (sp_on_no_approver (st_spec s))"
  let ?act = "activated env (st_spec s)"
  let ?fin = "\<lambda>x. (?act x)\<lparr>st_status := ?st, st_reason := Some ''no_approvers'',
      st_decided_at := Some (env_now env)\<rparr>"
  from assms obtain rn where rn: "resolve_step env db a None (sp_approvers (st_spec s)) = Inr rn"
    by (auto simp: activate_step_def res_bind_Inr_iff)
  define stop where "stop \<longleftrightarrow> int (length (rn_approvers rn)) = 0 \<or>
    \<not> quorum_reachable (sp_rule (st_spec s)) (sp_quorum (st_spec s)) (int (length (rn_approvers rn)))"
  show ?thesis
  proof (cases stop)
    case True
    with assms rn have "db_steps db' = upd_where (\<lambda>x. st_id x = st_id s) ?fin (db_steps db)"
      by (auto simp: activate_step_def Let_def stop_def start_step_def)
    then show ?thesis by (rule that) (simp add: na_status_def split: on_no_approver.splits)
  next
    case False
    with assms rn have "db_steps db' = upd_where (\<lambda>x. st_id x = st_id s) ?act (db_steps db)"
      by (auto simp: activate_step_def Let_def stop_def start_step_def dest!: add_approvers_steps)
    then show ?thesis by (rule that) simp
  qed
qed

lemma upd_where_id_eq: "(\<And>r. r \<in> set xs \<Longrightarrow> p r \<Longrightarrow> f r = r) \<Longrightarrow> upd_where p f xs = xs"
  by (induction xs) auto

lemma filter_upd_where_out:
  "(\<And>x. \<not> q (f x)) \<Longrightarrow> filter q (upd_where p f xs) = filter (\<lambda>x. q x \<and> \<not> p x) xs"
  by (induction xs) auto

lemma waiting_after_activate_step:
  assumes "activate_step env a s act db = Inr (ids, db')"
  shows "waiting_steps db' i = filter (\<lambda>x. st_id x \<noteq> st_id s) (waiting_steps db i)"
proof -
  from assms obtain f where "db_steps db' = upd_where (\<lambda>x. st_id x = st_id s) f (db_steps db)"
    "\<And>x. st_status (f x) \<in> {ST_active, ST_approved, ST_rejected}"
    by (rule activate_step_steps) auto
  moreover from this(2) have "st_status (f x) \<noteq> ST_waiting" for x by (metis insertE empty_iff step_status.distinct(1,3,5))
  ultimately show ?thesis
    by (simp add: waiting_steps_def filter_upd_where_out conj_commute)
qed

lemma activate_stage_Cons:
  "activate_stage env a act (s # ss) added db =
     res_bind (activate_step env a s act db)
       (\<lambda>(ids, db'). activate_stage env a act ss (added @ ids) db')"
  by (auto simp: activate_stage_def res_bind_def split: sum.splits prod.splits)

lemma waiting_after_activate_stage:
  "activate_stage env a act ss added db = Inr (ids, db') \<Longrightarrow>
     waiting_steps db' i = filter (\<lambda>x. st_id x \<notin> st_id ` set ss) (waiting_steps db i)"
proof (induction ss arbitrary: added db)
  case Nil
  then show ?case by (auto simp: activate_stage_def)
next
  case (Cons s ss)
  then show ?case
    by (auto simp: activate_stage_Cons res_bind_Inr_iff waiting_after_activate_step conj_commute)
qed

lemma next_stage_Some:
  assumes "next_stage (stage_pairs steps) = Some g"
  shows "steps_of_stage steps g \<noteq> [] \<and> (\<forall>s \<in> set steps. st_status s = ST_waiting \<longrightarrow> g \<le> st_stage s)"
proof -
  let ?w = "map fst (filter (\<lambda>s. snd s = ST_waiting) (stage_pairs steps))"
  have g: "?w \<noteq> []" "g = Min (set ?w)" using assms by (auto simp: next_stage_def Let_def split: if_splits)
  then have "g \<in> set ?w" using Min_in by blast
  then have "\<exists>s \<in> set steps. st_status s = ST_waiting \<and> st_stage s = g" by (auto simp: stage_pairs_def)
  moreover have "\<forall>s \<in> set steps. st_status s = ST_waiting \<longrightarrow> g \<le> st_stage s"
  proof (intro ballI impI)
    fix s assume "s \<in> set steps" "st_status s = ST_waiting"
    then have "st_stage s \<in> set ?w" by (force simp: stage_pairs_def)
    then show "g \<le> st_stage s" unfolding g(2) by (rule Min_le [OF finite_set])
  qed
  ultimately show ?thesis by (auto simp: steps_of_stage_def filter_empty_conv)
qed

lemma activate_stage_progress:
  assumes "next_stage (stage_pairs (locked_steps db i)) = Some g"
    and "activate_stage env a act (steps_of_stage (locked_steps db i) g) added db = Inr (ids, db')"
  shows "length (waiting_steps db' i) < length (waiting_steps db i)"
proof -
  obtain s where s: "s \<in> set (steps_of_stage (locked_steps db i) g)"
    using next_stage_Some [OF assms(1)] by (meson list.set_sel(1))
  then have "s \<in> set (waiting_steps db i)" by (auto simp: steps_of_stage_def waiting_steps_def)
  with s show ?thesis
    unfolding waiting_after_activate_stage [OF assms(2)] by (intro length_filter_less [of s]) auto
qed

subsection \<open>The loop over the stages\<close>

function activate_loop ::
  "approval_env \<Rightarrow> approval \<Rightarrow> actor \<Rightarrow> int list \<Rightarrow> approval_db \<Rightarrow> (int list \<times> approval_db) res" where
  "activate_loop env a act added db =
     (if ap_status (cur db a) \<noteq> AP_pending then Inr (added, db)
      else
        let steps = locked_steps db (ap_id a);
            pairs = stage_pairs steps;
            result = request_result pairs
        in if result = AP_rejected
           then res_bind (finalize env a AP_rejected (result_reason steps result) act False db)
                  (\<lambda>db'. Inr (added, db'))
           else if list_ex (\<lambda>s. st_status s = ST_active) steps then Inr (added, db)
           else (case next_stage pairs of
                   None \<Rightarrow>
                     if result = AP_approved
                     then res_bind (finalize env a AP_approved (result_reason steps result) act False db)
                            (\<lambda>db'. Inr (added, db'))
                     else Inr (added, db)
                 | Some stage \<Rightarrow>
                     res_bind (activate_stage env a act (steps_of_stage steps stage) added db)
                       (\<lambda>(added', db'). activate_loop env a act added' db')))"
  by pat_completeness auto
termination
  by (relation "measure (\<lambda>(env, a, act, added, db). length (waiting_steps db (ap_id a)))")
     (auto intro: activate_stage_progress)

declare activate_loop.simps [simp del]

definition activate_next_stage ::
  "approval_env \<Rightarrow> approval \<Rightarrow> actor \<Rightarrow> approval_db \<Rightarrow> (int list \<times> approval_db) res" where
  "activate_next_stage env a act db =
     res_bind (activate_loop env a act [] db) (\<lambda>(added, db').
       if added = [] then Inr ([], db')
       else let still = map ar_id (filter (\<lambda>r. ar_status r = AR_pending) (locked_approvers db' (ap_id a)))
            in Inr (filter (\<lambda>i. i \<in> set still) added, db'))"

section \<open>The voters of a step\<close>

text \<open>
  \<open>str.isdigit\<close> also holds for the superscript digits, which \<open>int()\<close> refuses. The chain of forward
  rows is followed by recursion; a chain longer than the rows at hand has a cycle, where the
  interpreter stops with a \<open>RecursionError\<close>, so the fuel is the number of rows.
\<close>

definition is_unicode_digit :: "char \<Rightarrow> bool" where
  "is_unicode_digit c \<longleftrightarrow> is_digit c \<or> (of_char c :: nat) \<in> {178, 179, 185}"

definition forward_origin :: "approver_row list \<Rightarrow> approver_row \<Rightarrow> approver_row option res" where
  "forward_origin rows r =
     (let ref = (case ar_source_ref r of None \<Rightarrow> [] | Some x \<Rightarrow> x) in
      if ref \<noteq> [] \<and> list_all is_unicode_digit ref
      then (if all_digits ref then Inr (find (\<lambda>x. ar_id x = int (read_nat ref)) rows) else Inl ValueError)
      else Inr None)"

fun in_rule :: "nat \<Rightarrow> approver_row list \<Rightarrow> approver_row \<Rightarrow> bool res" where
  "in_rule fuel rows r =
     (if \<not> ar_decisive r then Inr True
      else if ar_source_kind r = S_escalation then Inr False
      else if ar_source_kind r = S_forward
      then res_bind (forward_origin rows r) (\<lambda>origin.
        case origin of
          None \<Rightarrow> Inr True
        | Some r' \<Rightarrow> (case fuel of 0 \<Rightarrow> Inl RecursionError | Suc n \<Rightarrow> in_rule n rows r'))
      else Inr True)"

declare in_rule.simps [simp del]

definition voter_status :: "approver_status \<Rightarrow> vote_result option" where
  "voter_status s = (case s of AR_pending \<Rightarrow> Some V_pending | AR_approved \<Rightarrow> Some V_approved
     | AR_rejected \<Rightarrow> Some V_rejected | _ \<Rightarrow> None)"

text \<open>\<open>voted_at.get(id, (utc_now(), 0))\<close>: the last vote of a row, in id order, wins\<close>

definition voted_at :: "approval_env \<Rightarrow> vote_row list \<Rightarrow> int \<Rightarrow> instant \<times> int" where
  "voted_at env votes i =
     (case find (\<lambda>v. vt_approver_id v = i) (rev votes) of
        None \<Rightarrow> (env_now env, 0) | Some v \<Rightarrow> (vt_decided_at v, vt_id v))"

definition eligible_voters :: "approval_env \<Rightarrow> approval_db \<Rightarrow> int \<Rightarrow> approver_row list \<Rightarrow> approver_row list" where
  "eligible_voters env db step_id approvers =
     (let votes = sort_key vt_id (filter (\<lambda>v. vt_step_id v = step_id) (db_votes db))
      in sort_key (\<lambda>r. (ar_status r = AR_pending, voted_at env votes (ar_id r), ar_id r))
           (filter (\<lambda>r. ar_step_id r = step_id \<and> voter_status (ar_status r) \<noteq> None) approvers))"

definition step_voters ::
  "approval_env \<Rightarrow> approval_db \<Rightarrow> int \<Rightarrow> approver_row list \<Rightarrow> voter_state list res" where
  "step_voters env db step_id approvers =
     res_fold (\<lambda>r acc. res_bind (in_rule (length approvers) approvers r) (\<lambda>regular.
         Inr (acc @ [\<lparr>v_status = the (voter_status (ar_status r)), v_decisive = ar_decisive r,
           v_regular = Some regular\<rparr>])))
       (eligible_voters env db step_id approvers) []"

definition voters_in_step :: "approval_db \<Rightarrow> int \<Rightarrow> string set" where
  "voters_in_step db step_id =
     set (map vt_decided_by (filter (\<lambda>v. vt_step_id v = step_id) (db_votes db)))"

section \<open>Closing a step\<close>

fun outcome_status :: "vote_result \<Rightarrow> step_status" where
  "outcome_status V_pending = ST_active"
| "outcome_status V_approved = ST_approved"
| "outcome_status V_rejected = ST_rejected"

text \<open>What \<open>close_step\<close> writes before the next stage: step, leftover approvers, their links, audit.\<close>

definition settle_step ::
  "approval_env \<Rightarrow> approval \<Rightarrow> step_row \<Rightarrow> step_status \<Rightarrow> string \<Rightarrow> actor \<Rightarrow> instant \<Rightarrow>
     approval_db \<Rightarrow> approval_db" where
  "settle_step env a s outcome reason act now db =
     (let db1 = upd_steps (\<lambda>x. st_id x = st_id s)
             (\<lambda>x. x\<lparr>st_status := outcome, st_reason := Some reason, st_decided_at := Some now\<rparr>) db;
          leftover = map ar_id (filter (\<lambda>r. ar_status r = AR_pending)
             (locked_approvers_in db1 (ap_id a) [st_id s]));
          db2 = upd_approvers (\<lambda>r. ar_id r \<in> set leftover) (\<lambda>r. r\<lparr>ar_status := AR_not_needed\<rparr>) db1;
          db3 = snd (revoke_links env leftover None db2)
      in audit_record env a A_step_decided act (Some (st_id s)) None None
           [(''decision'', JStep outcome), (''reason'', JStr reason)] db3)"

definition close_step ::
  "approval_env \<Rightarrow> approval \<Rightarrow> step_row \<Rightarrow> step_status \<Rightarrow> string \<Rightarrow> actor \<Rightarrow> instant \<Rightarrow>
     approval_db \<Rightarrow> approval_db res" where
  "close_step env a s outcome reason act now db =
     res_bind (activate_next_stage env a act (settle_step env a s outcome reason act now db))
       (\<lambda>(new_ids, db'). if ap_status (cur db' a) = AP_pending
          then enqueue_notification env (ap_id a) M_request new_ids False db'
          else Inr db')"

text \<open>The outcome of an active step after its voters changed; no voter left: \<open>on_no_approver\<close>.\<close>

definition reevaluated :: "step_row \<Rightarrow> voter_state list \<Rightarrow> (step_status \<times> string) option res" where
  "reevaluated s voters =
     res_bind (evaluate_step (st_rule s) (st_quorum s) voters) (\<lambda>out.
       Inr (if out \<noteq> V_pending then Some (outcome_status out, ''votes'')
            else if voters = [] then Some (na_status (sp_on_no_approver (st_spec s)), ''no_approvers'')
            else None))"

definition reevaluate_steps ::
  "approval_env \<Rightarrow> approval \<Rightarrow> step_row list \<Rightarrow> actor \<Rightarrow> instant \<Rightarrow> approval_db \<Rightarrow> approval_db res" where
  "reevaluate_steps env a steps act now db =
     res_fold (\<lambda>s db.
         if ap_status (cur db a) \<noteq> AP_pending \<or> st_status (cur_step db s) \<noteq> ST_active then Inr db
         else res_bind (step_voters env db (st_id s) (locked_approvers db (ap_id a))) (\<lambda>voters.
              res_bind (reevaluated s voters) (\<lambda>out.
              case out of
                None \<Rightarrow> Inr db
              | Some (outcome, reason) \<Rightarrow> close_step env a s outcome reason act now db)))
       steps db"

end
