(* ===== verification/Approval_Invariant.thy ===== *)
theory Approval_Invariant
  imports Approval_Engine
begin

text \<open>
  What holds of the approval tables between any two operations. \<open>core_ok\<close> (keys, references, flow)
  is kept by every write of the engine; \<open>rest_ok\<close> says that a pending request is under way: it has an
  active step of its current stage, everything before is settled, everything after still waits.
  The lemmas show how each primitive write keeps \<open>core_ok\<close>; the engine's operations are built of them.
\<close>

section \<open>The invariant\<close>

definition fresh_ids :: "int list \<Rightarrow> int \<Rightarrow> bool" where
  "fresh_ids ids n \<longleftrightarrow> distinct ids \<and> (\<forall>i \<in> set ids. i < n)"

definition keys_ok :: "approval_db \<Rightarrow> bool" where
  "keys_ok db \<longleftrightarrow>
     fresh_ids (map ap_id (db_approvals db)) (seq_approval db) \<and>
     fresh_ids (map st_id (db_steps db)) (seq_step db) \<and>
     fresh_ids (map ar_id (db_approvers db)) (seq_approver db) \<and>
     fresh_ids (map tk_id (db_tokens db)) (seq_token db) \<and>
     fresh_ids (map vt_id (db_votes db)) (seq_vote db)"

lemma fresh_ids_snoc: "fresh_ids ids n \<Longrightarrow> fresh_ids (ids @ [n]) (n + 1)"
  by (auto simp: fresh_ids_def)

definition refs_ok :: "approval_db \<Rightarrow> bool" where
  "refs_ok db \<longleftrightarrow>
     (\<forall>s \<in> set (db_steps db). st_approval_id s \<in> ap_id ` set (db_approvals db)) \<and>
     (\<forall>r \<in> set (db_approvers db).
        (ar_step_id r, ar_approval_id r) \<in> (\<lambda>s. (st_id s, st_approval_id s)) ` set (db_steps db)) \<and>
     (\<forall>k \<in> set (db_tokens db).
        (tk_approver_id k, tk_approval_id k) \<in> (\<lambda>r. (ar_id r, ar_approval_id r)) ` set (db_approvers db))"

text \<open>A person has one row per step, and one vote per step, whatever row it was cast on.\<close>

definition uniq_ok :: "approval_db \<Rightarrow> bool" where
  "uniq_ok db \<longleftrightarrow>
     distinct (map (\<lambda>r. (ar_step_id r, ar_principal r)) (db_approvers db)) \<and>
     distinct (map (\<lambda>v. (vt_step_id v, vt_decided_by v)) (db_votes db)) \<and>
     distinct (map vt_approver_id (db_votes db))"

fun decided_status :: "decision \<Rightarrow> approver_status" where
  "decided_status D_approved = AR_approved"
| "decided_status D_rejected = AR_rejected"

text \<open>The vote that is on a row is the row's status.\<close>

definition votes_ok :: "approval_db \<Rightarrow> bool" where
  "votes_ok db \<longleftrightarrow>
     (\<forall>v \<in> set (db_votes db). \<exists>r \<in> set (db_approvers db). ar_id r = vt_approver_id v \<and>
        ar_step_id r = vt_step_id v \<and> ar_approval_id r = vt_approval_id v \<and>
        ar_status r = decided_status (vt_decision v))"

text \<open>
  A pending approver is on an active step, an open step belongs to a pending request, a live link to
  a pending approver.
\<close>

definition approvers_flow :: "approval_db \<Rightarrow> bool" where
  "approvers_flow db \<longleftrightarrow> (\<forall>r \<in> set (db_approvers db). ar_status r = AR_pending \<longrightarrow>
     (\<exists>s \<in> set (db_steps db). st_id s = ar_step_id r \<and> st_status s = ST_active))"

definition steps_flow :: "approval_db \<Rightarrow> bool" where
  "steps_flow db \<longleftrightarrow> (\<forall>s \<in> set (db_steps db). is_open s \<longrightarrow>
     (\<exists>a \<in> set (db_approvals db). ap_id a = st_approval_id s \<and> ap_status a = AP_pending))"

definition tokens_flow :: "approval_db \<Rightarrow> bool" where
  "tokens_flow db \<longleftrightarrow> (\<forall>k \<in> set (db_tokens db). live k \<longrightarrow>
     (\<exists>r \<in> set (db_approvers db). ar_id r = tk_approver_id k \<and> ar_status r = AR_pending))"

definition core_ok :: "approval_db \<Rightarrow> bool" where
  "core_ok db \<longleftrightarrow> keys_ok db \<and> refs_ok db \<and> uniq_ok db \<and> votes_ok db \<and>
     approvers_flow db \<and> steps_flow db \<and> tokens_flow db"

lemmas core_ok_defs = core_ok_def keys_ok_def refs_ok_def uniq_ok_def votes_ok_def
  approvers_flow_def steps_flow_def tokens_flow_def

text \<open>The steps of a request, and what they look like while it is pending.\<close>

definition steps_of :: "approval_db \<Rightarrow> int \<Rightarrow> step_row set" where
  "steps_of db i = {s \<in> set (db_steps db). st_approval_id s = i}"

text \<open>
  \<open>stages_ok\<close>: whatever is still waiting is of a later stage than everything that is not, an active
  step is of the current stage, and no step was cancelled.
\<close>

definition stages_ok :: "approval_db \<Rightarrow> approval \<Rightarrow> bool" where
  "stages_ok db a \<longleftrightarrow>
     steps_of db (ap_id a) \<noteq> {} \<and>
     (\<forall>s \<in> steps_of db (ap_id a). st_status s \<noteq> ST_cancelled \<and>
        (st_status s = ST_active \<longrightarrow> ap_current_stage a = Some (st_stage s)) \<and>
        (st_status s = ST_waiting \<longrightarrow> (\<forall>s' \<in> steps_of db (ap_id a).
            st_status s' \<noteq> ST_waiting \<longrightarrow> st_stage s' < st_stage s)))"

definition rest_ok :: "approval_db \<Rightarrow> approval \<Rightarrow> bool" where
  "rest_ok db a \<longleftrightarrow> (ap_status a = AP_pending \<longrightarrow>
     stages_ok db a \<and> (\<exists>s \<in> steps_of db (ap_id a). st_status s = ST_active) \<and>
     (\<forall>s \<in> steps_of db (ap_id a). st_status s \<noteq> ST_rejected))"

definition db_ok :: "approval_db \<Rightarrow> bool" where
  "db_ok db \<longleftrightarrow> core_ok db \<and> (\<forall>a \<in> set (db_approvals db). rest_ok db a)"

lemma core_ok_cong: "core db' = core db \<Longrightarrow> core_ok db' = core_ok db"
  by (simp add: core_def core_ok_defs)

lemma db_ok_cong: "core db' = core db \<Longrightarrow> db_ok db' = db_ok db"
  by (frule core_ok_cong) (simp add: db_ok_def rest_ok_def stages_ok_def steps_of_def core_def)

section \<open>Consequences\<close>

lemma core_ok_distinct:
  assumes "core_ok db"
  shows "distinct (map ap_id (db_approvals db))" "distinct (map st_id (db_steps db))"
    "distinct (map ar_id (db_approvers db))" "distinct (map tk_id (db_tokens db))"
  using assms by (simp_all add: core_ok_def keys_ok_def fresh_ids_def)

lemma core_ok_approver_step:
  assumes "core_ok db" "r \<in> set (db_approvers db)" "s \<in> set (db_steps db)" "st_id s = ar_step_id r"
  shows "ar_approval_id r = st_approval_id s"
proof -
  from assms(1,2) obtain s' where s': "s' \<in> set (db_steps db)" "st_id s' = ar_step_id r"
    "st_approval_id s' = ar_approval_id r"
    by (fastforce simp: core_ok_def refs_ok_def)
  have "s' = s"
    by (rule steps.same_key_same_row [OF core_ok_distinct(2) [OF assms(1)] s'(1) assms(3)]) (simp add: s' assms)
  with s' show ?thesis by simp
qed

lemma core_ok_token_approver:
  assumes "core_ok db" "k \<in> set (db_tokens db)" "r \<in> set (db_approvers db)" "ar_id r = tk_approver_id k"
  shows "tk_approval_id k = ar_approval_id r"
proof -
  from assms(1,2) obtain r' where r': "r' \<in> set (db_approvers db)" "ar_id r' = tk_approver_id k"
    "ar_approval_id r' = tk_approval_id k"
    by (fastforce simp: core_ok_def refs_ok_def)
  have "r' = r"
    by (rule approvers.same_key_same_row [OF core_ok_distinct(3) [OF assms(1)] r'(1) assms(3)]) (simp add: r' assms)
  with r' show ?thesis by simp
qed

lemma core_ok_pending_approver:
  assumes "core_ok db" "r \<in> set (db_approvers db)" "ar_status r = AR_pending"
  obtains s where "s \<in> set (db_steps db)" "st_id s = ar_step_id r" "st_status s = ST_active"
    "st_approval_id s = ar_approval_id r"
proof -
  from assms obtain s where s: "s \<in> set (db_steps db)" "st_id s = ar_step_id r" "st_status s = ST_active"
    by (auto simp: core_ok_def approvers_flow_def)
  then show ?thesis using that core_ok_approver_step [OF assms(1,2) s(1,2)] by simp
qed

lemma core_ok_open_step:
  assumes "core_ok db" "s \<in> set (db_steps db)" "is_open s" "get_approval db (st_approval_id s) = Some a"
  shows "ap_status a = AP_pending"
proof -
  from assms(1-3) obtain a' where a': "a' \<in> set (db_approvals db)" "ap_id a' = st_approval_id s"
    "ap_status a' = AP_pending"
    by (auto simp: core_ok_def steps_flow_def)
  with assms(4) have "a' = a"
    using approvals.get_Some_iff [OF core_ok_distinct(1) [OF assms(1)]] approvals.same_key_same_row
      [OF core_ok_distinct(1) [OF assms(1)]] by metis
  with a' show ?thesis by simp
qed

text \<open>A closed request is closed in every table.\<close>

definition closed_everywhere :: "approval_db \<Rightarrow> int \<Rightarrow> bool" where
  "closed_everywhere db i \<longleftrightarrow>
     (\<forall>s \<in> set (db_steps db). st_approval_id s = i \<longrightarrow> \<not> is_open s) \<and>
     (\<forall>r \<in> set (db_approvers db). ar_approval_id r = i \<longrightarrow> ar_status r \<noteq> AR_pending) \<and>
     (\<forall>k \<in> set (db_tokens db). tk_approval_id k = i \<longrightarrow> \<not> live k)"

lemma core_ok_closed:
  assumes ok: "core_ok db" and closed: "\<forall>a \<in> set (db_approvals db). ap_id a = i \<longrightarrow> ap_status a \<noteq> AP_pending"
  shows "closed_everywhere db i"
proof -
  have steps: "\<not> is_open s" if "s \<in> set (db_steps db)" "st_approval_id s = i" for s
    using ok closed that by (fastforce simp: core_ok_def steps_flow_def)
  have approvers: "ar_status r \<noteq> AR_pending" if "r \<in> set (db_approvers db)" "ar_approval_id r = i" for r
    using core_ok_pending_approver [OF ok that(1)] steps that(2) by (metis is_open_def)
  have "\<not> live k" if "k \<in> set (db_tokens db)" "tk_approval_id k = i" for k
  proof
    assume "live k"
    with ok that(1) obtain r where "r \<in> set (db_approvers db)" "ar_id r = tk_approver_id k" "ar_status r = AR_pending"
      by (auto simp: core_ok_def tokens_flow_def)
    with core_ok_token_approver [OF ok that(1)] approvers that(2) show False by auto
  qed
  with steps approvers show ?thesis by (simp add: closed_everywhere_def)
qed

section \<open>Closing a request\<close>

text \<open>What \<open>finalize\<close> writes to the core tables.\<close>

definition open_ids :: "approval_db \<Rightarrow> int \<Rightarrow> int set" where
  "open_ids db i = st_id ` {s \<in> set (db_steps db). st_approval_id s = i \<and> is_open s}"

lemma open_ids_iff:
  assumes "core_ok db" "s \<in> set (db_steps db)"
  shows "st_id s \<in> open_ids db i \<longleftrightarrow> st_approval_id s = i \<and> is_open s"
proof
  assume "st_id s \<in> open_ids db i"
  then obtain s' where s': "s' \<in> set (db_steps db)" "st_approval_id s' = i" "is_open s'" "st_id s' = st_id s"
    by (auto simp: open_ids_def)
  with steps.same_key_same_row [OF core_ok_distinct(2) [OF assms(1)] s'(1) assms(2)]
  show "st_approval_id s = i \<and> is_open s" by simp
qed (use assms in \<open>auto simp: open_ids_def\<close>)

lemma close_open_steps_tables:
  "db_steps (close_open_steps env a (locked_steps db (ap_id a)) reason db) =
     upd_where (\<lambda>s. st_id s \<in> open_ids db (ap_id a))
       (\<lambda>s. s\<lparr>st_status := ST_cancelled, st_reason := Some reason, st_decided_at := Some (env_now env)\<rparr>)
       (db_steps db)"
  "db_approvers (close_open_steps env a (locked_steps db (ap_id a)) reason db) =
     upd_where (\<lambda>r. ar_approval_id r = ap_id a \<and> ar_step_id r \<in> open_ids db (ap_id a) \<and>
       ar_status r = AR_pending) (\<lambda>r. r\<lparr>ar_status := AR_not_needed\<rparr>) (db_approvers db)"
  "core (close_open_steps env a (locked_steps db (ap_id a)) reason db) =
     core (db\<lparr>db_steps := db_steps (close_open_steps env a (locked_steps db (ap_id a)) reason db),
              db_approvers := db_approvers (close_open_steps env a (locked_steps db (ap_id a)) reason db)\<rparr>)"
proof -
  have ids: "set (map st_id (filter is_open (locked_steps db (ap_id a)))) = open_ids db (ap_id a)"
    by (auto simp: open_ids_def)
  then have empty: "map st_id (filter is_open (locked_steps db (ap_id a))) = [] \<longleftrightarrow> open_ids db (ap_id a) = {}"
    by (metis set_empty)
  show "db_steps (close_open_steps env a (locked_steps db (ap_id a)) reason db) =
     upd_where (\<lambda>s. st_id s \<in> open_ids db (ap_id a))
       (\<lambda>s. s\<lparr>st_status := ST_cancelled, st_reason := Some reason, st_decided_at := Some (env_now env)\<rparr>)
       (db_steps db)"
    unfolding close_open_steps_def Let_def ids empty by (auto simp: upd_where_none)
  show "db_approvers (close_open_steps env a (locked_steps db (ap_id a)) reason db) =
     upd_where (\<lambda>r. ar_approval_id r = ap_id a \<and> ar_step_id r \<in> open_ids db (ap_id a) \<and>
       ar_status r = AR_pending) (\<lambda>r. r\<lparr>ar_status := AR_not_needed\<rparr>) (db_approvers db)"
    unfolding close_open_steps_def Let_def ids empty by (auto simp: upd_where_none)
qed (simp add: core_def close_open_steps_def Let_def)

definition closing :: "approval_env \<Rightarrow> int \<Rightarrow> approval_status \<Rightarrow> string \<Rightarrow> approval_db \<Rightarrow> approval_db" where
  "closing env i status reason db =
     db\<lparr>db_steps := upd_where (\<lambda>s. st_id s \<in> open_ids db i)
          (\<lambda>s. s\<lparr>st_status := ST_cancelled, st_reason := Some reason, st_decided_at := Some (env_now env)\<rparr>)
          (db_steps db),
        db_approvers := upd_where (\<lambda>r. ar_approval_id r = i \<and> ar_step_id r \<in> open_ids db i \<and>
          ar_status r = AR_pending) (\<lambda>r. r\<lparr>ar_status := AR_not_needed\<rparr>) (db_approvers db),
        db_approvals := upd_where (\<lambda>x. ap_id x = i)
          (\<lambda>x. x\<lparr>ap_status := status, ap_reason := Some reason,
                 ap_decided_at := Some (trunc_sec (env_now env)), ap_current_stage := None\<rparr>) (db_approvals db),
        db_tokens := upd_where (\<lambda>k. tk_approval_id k = i \<and> live k)
          (\<lambda>k. k\<lparr>tk_revoked_at := Some (token_now env)\<rparr>) (db_tokens db)\<rparr>"

lemma finalize_core:
  assumes "finalize env a status reason act auto db = Inr db'"
  shows "core db' = core (closing env (ap_id a) status reason db)"
proof -
  let ?db1 = "close_open_steps env a (locked_steps db (ap_id a)) reason db"
  let ?db3 = "snd (revoke_approval_links env (ap_id a) (upd_approvals (\<lambda>x. ap_id x = ap_id a)
       (\<lambda>x. x\<lparr>ap_status := status, ap_reason := Some reason,
              ap_decided_at := Some (trunc_sec (env_now env)), ap_current_stage := None\<rparr>) ?db1))"
  have "core db' = core ?db3"
    using assms
    by (auto simp: finalize_def Let_def res_bind_Inr_iff dest!: core_enqueue split: if_splits)
  also have "core ?db3 = core (closing env (ap_id a) status reason db)"
    using close_open_steps_tables(3) [of env a db reason]
    by (simp add: revoke_approval_links_def Let_def closing_def live_def core_def close_open_steps_tables)
  finally show ?thesis .
qed

lemma keys_ok_upd:
  assumes "keys_ok db" "map ap_id (db_approvals db') = map ap_id (db_approvals db)"
    "map st_id (db_steps db') = map st_id (db_steps db)" "map ar_id (db_approvers db') = map ar_id (db_approvers db)"
    "map tk_id (db_tokens db') = map tk_id (db_tokens db)" "db_votes db' = db_votes db"
    "seq_approval db' = seq_approval db" "seq_step db' = seq_step db" "seq_approver db' = seq_approver db"
    "seq_token db' = seq_token db" "seq_vote db' = seq_vote db"
  shows "keys_ok db'"
  using assms by (simp add: keys_ok_def)

lemma closing_ok:
  assumes ok: "core_ok db" and status: "status \<noteq> AP_pending"
  shows "core_ok (closing env i status reason db)"
proof -
  let ?db = "closing env i status reason db"
  note iff = open_ids_iff [OF ok]
  have ids: "map ap_id (db_approvals ?db) = map ap_id (db_approvals db)"
    "map (\<lambda>s. (st_id s, st_approval_id s)) (db_steps ?db) = map (\<lambda>s. (st_id s, st_approval_id s)) (db_steps db)"
    "map st_id (db_steps ?db) = map st_id (db_steps db)"
    "map (\<lambda>r. (ar_id r, ar_approval_id r)) (db_approvers ?db) = map (\<lambda>r. (ar_id r, ar_approval_id r)) (db_approvers db)"
    "map ar_id (db_approvers ?db) = map ar_id (db_approvers db)"
    "map tk_id (db_tokens ?db) = map tk_id (db_tokens db)"
    "map (\<lambda>r. (ar_step_id r, ar_principal r)) (db_approvers ?db) = map (\<lambda>r. (ar_step_id r, ar_principal r)) (db_approvers db)"
    "db_votes ?db = db_votes db"
    by (simp_all add: closing_def map_upd_where)
  have "keys_ok ?db"
    by (rule keys_ok_upd [of db]) (use ok ids in \<open>simp_all add: core_ok_def closing_def\<close>)
  moreover have "refs_ok ?db"
    using ok by (simp add: core_ok_def refs_ok_def closing_def image_upd_where) (auto elim!: upd_whereE)
  moreover have "uniq_ok ?db" using ok ids by (simp add: core_ok_def uniq_ok_def)
  moreover have "votes_ok ?db" unfolding votes_ok_def
  proof
    fix v assume "v \<in> set (db_votes ?db)"
    with ok ids obtain r where "r \<in> set (db_approvers db)" "ar_id r = vt_approver_id v"
      "ar_step_id r = vt_step_id v" "ar_approval_id r = vt_approval_id v" "ar_status r = decided_status (vt_decision v)"
      by (auto simp: core_ok_def votes_ok_def)
    moreover from this(5) have "ar_status r \<noteq> AR_pending" by (cases "vt_decision v") auto
    ultimately show "\<exists>r \<in> set (db_approvers ?db). ar_id r = vt_approver_id v \<and> ar_step_id r = vt_step_id v \<and>
        ar_approval_id r = vt_approval_id v \<and> ar_status r = decided_status (vt_decision v)"
      by (intro bexI [of _ r]) (auto simp: closing_def intro: upd_where_kept)
  qed
  moreover have "approvers_flow ?db" unfolding approvers_flow_def
  proof (intro ballI impI)
    fix r assume "r \<in> set (db_approvers ?db)" "ar_status r = AR_pending"
    then have r: "r \<in> set (db_approvers db)" "ar_status r = AR_pending"
      "\<not> (ar_approval_id r = i \<and> ar_step_id r \<in> open_ids db i)"
      by (simp_all add: closing_def) (erule upd_whereE, simp_all)+
    obtain s where s: "s \<in> set (db_steps db)" "st_id s = ar_step_id r" "st_status s = ST_active"
      "st_approval_id s = ar_approval_id r"
      using core_ok_pending_approver [OF ok r(1,2)] by blast
    with r(3) iff [OF s(1), of i] have "st_id s \<notin> open_ids db i" by (auto simp: is_open_def)
    with s show "\<exists>s \<in> set (db_steps ?db). st_id s = ar_step_id r \<and> st_status s = ST_active"
      by (intro bexI [of _ s]) (auto simp: closing_def intro: upd_where_kept)
  qed
  moreover have "steps_flow ?db" unfolding steps_flow_def
  proof (intro ballI impI)
    fix s assume "s \<in> set (db_steps ?db)" "is_open s"
    then have s: "s \<in> set (db_steps db)" "is_open s" "st_id s \<notin> open_ids db i"
      by (simp_all add: closing_def is_open_def) (erule upd_whereE, simp_all)+
    with iff have "st_approval_id s \<noteq> i" by blast
    moreover from ok s obtain a where "a \<in> set (db_approvals db)" "ap_id a = st_approval_id s"
      "ap_status a = AP_pending" by (auto simp: core_ok_def steps_flow_def)
    ultimately show "\<exists>a \<in> set (db_approvals ?db). ap_id a = st_approval_id s \<and> ap_status a = AP_pending"
      by (intro bexI [of _ a]) (auto simp: closing_def intro: upd_where_kept)
  qed
  moreover have "tokens_flow ?db" unfolding tokens_flow_def
  proof (intro ballI impI)
    fix k assume "k \<in> set (db_tokens ?db)" "live k"
    then have k: "k \<in> set (db_tokens db)" "live k" "tk_approval_id k \<noteq> i"
      by (simp_all add: closing_def live_def) (erule upd_whereE, simp_all)+
    with ok obtain r where r: "r \<in> set (db_approvers db)" "ar_id r = tk_approver_id k" "ar_status r = AR_pending"
      by (auto simp: core_ok_def tokens_flow_def)
    with core_ok_token_approver [OF ok k(1) r(1,2)] k(3)
    show "\<exists>r \<in> set (db_approvers ?db). ar_id r = tk_approver_id k \<and> ar_status r = AR_pending"
      by (intro bexI [of _ r]) (auto simp: closing_def intro: upd_where_kept)
  qed
  ultimately show ?thesis by (simp add: core_ok_def)
qed

section \<open>Single writes\<close>

lemma bex_image_cong: "g ` A = g ` B \<Longrightarrow> (\<exists>x \<in> A. P (g x)) \<longleftrightarrow> (\<exists>x \<in> B. P (g x))"
  by (metis (no_types, lifting) image_iff)

lemma ball_image_cong: "g ` A = g ` B \<Longrightarrow> (\<forall>x \<in> A. P (g x)) \<longleftrightarrow> (\<forall>x \<in> B. P (g x))"
  by (metis (no_types, lifting) image_iff)

lemma approvals_upd_ok:
  assumes ok: "core_ok db" and same: "\<And>x. p x \<Longrightarrow> ap_id (f x) = ap_id x" "\<And>x. p x \<Longrightarrow> ap_status (f x) = ap_status x"
  shows "core_ok (upd_approvals p f db)"
proof -
  let ?db = "upd_approvals p f db"
  have pairs: "(\<lambda>a. (ap_id a, ap_status a)) ` set (db_approvals ?db) = (\<lambda>a. (ap_id a, ap_status a)) ` set (db_approvals db)"
    using same by (simp add: image_upd_where)
  have "(\<exists>a \<in> set (db_approvals ?db). ap_id a = i \<and> ap_status a = st) \<longleftrightarrow>
      (\<exists>a \<in> set (db_approvals db). ap_id a = i \<and> ap_status a = st)" for i st
    using bex_image_cong [OF pairs, of "\<lambda>(i', st'). i' = i \<and> st' = st"] by simp
  moreover have "map ap_id (db_approvals ?db) = map ap_id (db_approvals db)" "ap_id ` set (db_approvals ?db) = ap_id ` set (db_approvals db)"
    using same by (simp_all add: map_upd_where image_upd_where)
  ultimately show ?thesis using ok
    by (simp add: core_ok_def refs_ok_def uniq_ok_def votes_ok_def approvers_flow_def steps_flow_def
        tokens_flow_def keys_ok_def)
qed

lemma steps_upd_ok:
  assumes ok: "core_ok db"
    and same: "\<And>x. p x \<Longrightarrow> st_id (f x) = st_id x" "\<And>x. p x \<Longrightarrow> st_approval_id (f x) = st_approval_id x"
    and opens: "\<And>x. x \<in> set (db_steps db) \<Longrightarrow> p x \<Longrightarrow> is_open (f x) \<Longrightarrow> is_open x"
    and active: "\<And>x r. x \<in> set (db_steps db) \<Longrightarrow> p x \<Longrightarrow> st_status x = ST_active \<Longrightarrow> r \<in> set (db_approvers db) \<Longrightarrow>
      ar_step_id r = st_id x \<Longrightarrow> ar_status r = AR_pending \<Longrightarrow> st_status (f x) = ST_active"
  shows "core_ok (upd_steps p f db)"
proof -
  let ?db = "upd_steps p f db"
  have ids: "map st_id (db_steps ?db) = map st_id (db_steps db)"
    "(\<lambda>s. (st_id s, st_approval_id s)) ` set (db_steps ?db) = (\<lambda>s. (st_id s, st_approval_id s)) ` set (db_steps db)"
    "st_approval_id ` set (db_steps ?db) = st_approval_id ` set (db_steps db)"
    using same by (simp_all add: map_upd_where image_upd_where)
  have "\<forall>s \<in> set (db_steps ?db). st_approval_id s \<in> ap_id ` set (db_approvals db)"
  proof
    fix s assume "s \<in> set (db_steps ?db)"
    then have "st_approval_id s \<in> st_approval_id ` set (db_steps db)" using ids(3) by blast
    then show "st_approval_id s \<in> ap_id ` set (db_approvals db)"
      using ok by (auto simp: core_ok_def refs_ok_def)
  qed
  moreover have "approvers_flow ?db" unfolding approvers_flow_def
  proof (intro ballI impI)
    fix r assume r: "r \<in> set (db_approvers ?db)" "ar_status r = AR_pending"
    then obtain s where s: "s \<in> set (db_steps db)" "st_id s = ar_step_id r" "st_status s = ST_active"
      using core_ok_pending_approver [OF ok, of r] by auto
    show "\<exists>s \<in> set (db_steps ?db). st_id s = ar_step_id r \<and> st_status s = ST_active"
    proof (cases "p s")
      case True
      then show ?thesis using s r same(1) [OF True] active [OF s(1) True s(3)]
        by (intro bexI [of _ "f s"]) (simp_all add: upd_where_hit)
    next
      case False
      then show ?thesis using s by (intro bexI [of _ s]) (simp_all add: upd_where_kept)
    qed
  qed
  moreover have "steps_flow ?db" unfolding steps_flow_def
  proof (intro ballI impI)
    fix s assume s: "s \<in> set (db_steps ?db)" "is_open s"
    then have "s \<in> set (upd_where p f (db_steps db))" by simp
    then obtain s' where "s' \<in> set (db_steps db)" "is_open s'" "st_approval_id s' = st_approval_id s"
      using s(2) opens same(2) by (elim upd_whereE) auto
    then show "\<exists>a \<in> set (db_approvals ?db). ap_id a = st_approval_id s \<and> ap_status a = AP_pending"
      using ok unfolding core_ok_def steps_flow_def by simp (metis)
  qed
  ultimately show ?thesis using ok ids
    by (simp add: core_ok_def keys_ok_def refs_ok_def uniq_ok_def votes_ok_def tokens_flow_def)
qed

text \<open>
  Approver rows change together with the links: nobody becomes pending, a voted row stays as it is,
  and whoever still has a live link stays pending.
\<close>

lemma approvers_tokens_ok:
  assumes ok: "core_ok db"
    and same: "\<And>x. p x \<Longrightarrow> ar_id (f x) = ar_id x" "\<And>x. p x \<Longrightarrow> ar_approval_id (f x) = ar_approval_id x"
      "\<And>x. p x \<Longrightarrow> ar_step_id (f x) = ar_step_id x" "\<And>x. p x \<Longrightarrow> ar_principal (f x) = ar_principal x"
    and pending: "\<And>x. p x \<Longrightarrow> ar_status (f x) = AR_pending \<Longrightarrow> ar_status x = AR_pending"
    and voted: "\<And>x d. x \<in> set (db_approvers db) \<Longrightarrow> p x \<Longrightarrow> ar_status x = decided_status d \<Longrightarrow>
      ar_status (f x) = decided_status d"
    and toks: "map (\<lambda>k. (tk_id k, tk_approver_id k, tk_approval_id k)) toks =
      map (\<lambda>k. (tk_id k, tk_approver_id k, tk_approval_id k)) (db_tokens db)"
    and live: "\<And>k. k \<in> set toks \<Longrightarrow> live k \<Longrightarrow> k \<in> set (db_tokens db)"
      "\<And>k x. k \<in> set toks \<Longrightarrow> live k \<Longrightarrow> x \<in> set (db_approvers db) \<Longrightarrow> ar_id x = tk_approver_id k \<Longrightarrow>
        p x \<Longrightarrow> ar_status x = AR_pending \<Longrightarrow> ar_status (f x) = AR_pending"
  shows "core_ok (db\<lparr>db_approvers := upd_where p f (db_approvers db), db_tokens := toks\<rparr>)"
proof -
  let ?db = "db\<lparr>db_approvers := upd_where p f (db_approvers db), db_tokens := toks\<rparr>"
  let ?g = "\<lambda>x. if p x then f x else x"
  have g: "?g x \<in> set (db_approvers ?db)" if "x \<in> set (db_approvers db)" for x
    using that by (simp add: upd_where_hit upd_where_kept)
  have "map fst (map (\<lambda>k. (tk_id k, tk_approver_id k, tk_approval_id k)) toks) =
      map fst (map (\<lambda>k. (tk_id k, tk_approver_id k, tk_approval_id k)) (db_tokens db))"
    using toks by (rule arg_cong)
  then have tok_ids: "map tk_id toks = map tk_id (db_tokens db)" by (simp add: comp_def)
  have "map snd (map (\<lambda>k. (tk_id k, tk_approver_id k, tk_approval_id k)) toks) =
      map snd (map (\<lambda>k. (tk_id k, tk_approver_id k, tk_approval_id k)) (db_tokens db))"
    using toks by (rule arg_cong)
  then have tok_refs: "(\<lambda>k. (tk_approver_id k, tk_approval_id k)) ` set toks =
      (\<lambda>k. (tk_approver_id k, tk_approval_id k)) ` set (db_tokens db)"
    by (metis (no_types, lifting) comp_def list.map_comp list.map_cong0 list.set_map snd_conv)
  have keep: "map ar_id (db_approvers ?db) = map ar_id (db_approvers db)"
    "map (\<lambda>r. (ar_step_id r, ar_principal r)) (db_approvers ?db) = map (\<lambda>r. (ar_step_id r, ar_principal r)) (db_approvers db)"
    "(\<lambda>r. (ar_id r, ar_approval_id r)) ` set (db_approvers ?db) = (\<lambda>r. (ar_id r, ar_approval_id r)) ` set (db_approvers db)"
    "(\<lambda>r. (ar_step_id r, ar_approval_id r)) ` set (db_approvers ?db) = (\<lambda>r. (ar_step_id r, ar_approval_id r)) ` set (db_approvers db)"
    using same by (simp_all add: map_upd_where image_upd_where)
  have "refs_ok ?db" unfolding refs_ok_def
    using ok ball_image_cong [OF keep(4), of "\<lambda>x. x \<in> (\<lambda>s. (st_id s, st_approval_id s)) ` set (db_steps db)"]
      ball_image_cong [OF tok_refs, of "\<lambda>x. x \<in> (\<lambda>r. (ar_id r, ar_approval_id r)) ` set (db_approvers db)"] keep(3)
    by (simp add: core_ok_def refs_ok_def)
  moreover have "votes_ok ?db" unfolding votes_ok_def
  proof
    fix v assume "v \<in> set (db_votes ?db)"
    then obtain r where r: "r \<in> set (db_approvers db)" "ar_id r = vt_approver_id v" "ar_step_id r = vt_step_id v"
      "ar_approval_id r = vt_approval_id v" "ar_status r = decided_status (vt_decision v)"
      using ok by (auto simp: core_ok_def votes_ok_def)
    show "\<exists>r \<in> set (db_approvers ?db). ar_id r = vt_approver_id v \<and> ar_step_id r = vt_step_id v \<and>
        ar_approval_id r = vt_approval_id v \<and> ar_status r = decided_status (vt_decision v)"
      by (rule bexI [OF _ g [OF r(1)]]) (use r same voted in auto)
  qed
  moreover have "approvers_flow ?db" unfolding approvers_flow_def
  proof (intro ballI impI)
    fix r assume "r \<in> set (db_approvers ?db)" "ar_status r = AR_pending"
    then have "r \<in> set (upd_where p f (db_approvers db))" "ar_status r = AR_pending" by simp_all
    then obtain x where x: "x \<in> set (db_approvers db)" "ar_step_id r = ar_step_id x" "ar_status x = AR_pending"
      using same(3) pending by (elim upd_whereE) auto
    then show "\<exists>s \<in> set (db_steps ?db). st_id s = ar_step_id r \<and> st_status s = ST_active"
      using core_ok_pending_approver [OF ok x(1,3)] by auto
  qed
  moreover have "tokens_flow ?db" unfolding tokens_flow_def
  proof (intro ballI impI)
    fix k assume k: "k \<in> set (db_tokens ?db)" "live k"
    then have "k \<in> set (db_tokens db)" using live(1) by simp
    then obtain r where r: "r \<in> set (db_approvers db)" "ar_id r = tk_approver_id k" "ar_status r = AR_pending"
      using ok k(2) by (auto simp: core_ok_def tokens_flow_def)
    show "\<exists>r \<in> set (db_approvers ?db). ar_id r = tk_approver_id k \<and> ar_status r = AR_pending"
      by (rule bexI [OF _ g [OF r(1)]]) (use r same live(2) [of k r] k in auto)
  qed
  ultimately show ?thesis using ok keep tok_ids
    by (simp add: core_ok_def keys_ok_def uniq_ok_def steps_flow_def)
qed

text \<open>Approver rows that keep what the invariant reads of them (timestamps, \<open>decisive\<close>).\<close>

lemma approvers_upd_ok:
  assumes "core_ok db"
    and "\<And>x. p x \<Longrightarrow> ar_id (f x) = ar_id x" "\<And>x. p x \<Longrightarrow> ar_approval_id (f x) = ar_approval_id x"
      "\<And>x. p x \<Longrightarrow> ar_step_id (f x) = ar_step_id x" "\<And>x. p x \<Longrightarrow> ar_principal (f x) = ar_principal x"
      "\<And>x. p x \<Longrightarrow> ar_status (f x) = ar_status x"
  shows "core_ok (upd_approvers p f db)"
  using approvers_tokens_ok [OF assms(1), of p f "db_tokens db"] assms(2-)
  by (simp add: core_ok_cong core_def upd_approvers_def)

section \<open>Revoking and leaving\<close>

lemma revoke_links_tables:
  "map (\<lambda>k. (tk_id k, tk_approver_id k, tk_approval_id k)) (db_tokens (snd (revoke_links env ids red db))) =
     map (\<lambda>k. (tk_id k, tk_approver_id k, tk_approval_id k)) (db_tokens db)"
  "core (snd (revoke_links env ids red db)) = core (db\<lparr>db_tokens := db_tokens (snd (revoke_links env ids red db))\<rparr>)"
  by (simp_all add: revoke_links_def Let_def core_def map_upd_where split: option.splits)

lemma revoke_links_live:
  assumes "k \<in> set (db_tokens (snd (revoke_links env ids red db)))" "live k"
  shows "k \<in> set (db_tokens db) \<and> tk_approver_id k \<notin> set ids"
proof (cases "ids = []")
  case True
  with assms show ?thesis by (simp add: revoke_links_def)
next
  case False
  define toks where "toks = (case red of None \<Rightarrow> db_tokens db | Some i \<Rightarrow>
    upd_where (\<lambda>k. tk_id k = i \<and> tk_approver_id k \<in> set ids \<and> tk_used_at k = None)
      (\<lambda>k. k\<lparr>tk_used_at := Some (token_now env)\<rparr>) (db_tokens db))"
  have "k \<in> set (upd_where (\<lambda>k. tk_approver_id k \<in> set ids \<and> tk_used_at k = None \<and> tk_revoked_at k = None)
      (\<lambda>k. k\<lparr>tk_revoked_at := Some (token_now env)\<rparr>) toks)"
    using assms(1) False by (simp add: revoke_links_def Let_def toks_def split: option.splits)
  then have k: "k \<in> set toks" "tk_approver_id k \<notin> set ids"
    using assms(2) by (auto simp: live_def elim!: upd_whereE)
  have "k \<in> set (db_tokens db)"
  proof (cases red)
    case None
    with k show ?thesis by (simp add: toks_def)
  next
    case (Some i)
    with k(1) have "k \<in> set (upd_where (\<lambda>k. tk_id k = i \<and> tk_approver_id k \<in> set ids \<and> tk_used_at k = None)
      (\<lambda>k. k\<lparr>tk_used_at := Some (token_now env)\<rparr>) (db_tokens db))" by (simp add: toks_def)
    with assms(2) show ?thesis by (elim upd_whereE) (auto simp: live_def)
  qed
  with k(2) show ?thesis by simp
qed

text \<open>Pending rows leave the vote: status \<open>st\<close>, links revoked (or the one redeemed used).\<close>

definition leave :: "approval_env \<Rightarrow> int list \<Rightarrow> approver_status \<Rightarrow> int option \<Rightarrow> approval_db \<Rightarrow> approval_db" where
  "leave env ids st red db =
     snd (revoke_links env ids red (upd_approvers (\<lambda>r. ar_id r \<in> set ids) (\<lambda>r. r\<lparr>ar_status := st\<rparr>) db))"

lemma leave_tables:
  "db_approvers (leave env ids st red db) =
     upd_where (\<lambda>r. ar_id r \<in> set ids) (\<lambda>r. r\<lparr>ar_status := st\<rparr>) (db_approvers db)"
  "core (leave env ids st red db) = core (db\<lparr>db_approvers := db_approvers (leave env ids st red db),
     db_tokens := db_tokens (leave env ids st red db)\<rparr>)"
  using revoke_links_tables(2) [of env ids red "upd_approvers (\<lambda>r. ar_id r \<in> set ids) (\<lambda>r. r\<lparr>ar_status := st\<rparr>) db"]
  by (simp_all add: leave_def core_def)

lemma leave_ok:
  assumes ok: "core_ok db" and st: "st \<noteq> AR_pending"
    and ids: "\<And>r. r \<in> set (db_approvers db) \<Longrightarrow> ar_id r \<in> set ids \<Longrightarrow> ar_status r = AR_pending"
  shows "core_ok (leave env ids st red db)"
proof -
  let ?toks = "db_tokens (leave env ids st red db)"
  have live: "k \<in> set (db_tokens db) \<and> tk_approver_id k \<notin> set ids" if "k \<in> set ?toks" "live k" for k
    using revoke_links_live [OF that(1) [unfolded leave_def] that(2)] by simp
  have "core_ok (db\<lparr>db_approvers := upd_where (\<lambda>r. ar_id r \<in> set ids) (\<lambda>r. r\<lparr>ar_status := st\<rparr>) (db_approvers db),
      db_tokens := ?toks\<rparr>)"
  proof (rule approvers_tokens_ok [OF ok])
    show "map (\<lambda>k. (tk_id k, tk_approver_id k, tk_approval_id k)) ?toks =
        map (\<lambda>k. (tk_id k, tk_approver_id k, tk_approval_id k)) (db_tokens db)"
      by (simp add: leave_def revoke_links_tables(1))
    show "ar_status (r\<lparr>ar_status := st\<rparr>) = decided_status d"
      if "r \<in> set (db_approvers db)" "ar_id r \<in> set ids" "ar_status r = decided_status d" for r d
      using ids [OF that(1,2)] that(3) by (cases d) auto
  qed (use st live in auto)
  then show ?thesis by (simp add: core_ok_cong [OF leave_tables(2)] leave_tables(1))
qed

section \<open>New rows\<close>

lemma add_approver_ok:
  assumes ok: "core_ok db" and add: "add_approver env a s act now ra db = Inr (i, db')"
    and s: "s' \<in> set (db_steps db)" "st_id s' = st_id s" "st_approval_id s' = ap_id a" "st_status s' = ST_active"
  shows "core_ok db'"
  using add
proof (rule add_approver_InrE, goal_cases)
  case (1 row)
  have "keys_ok db'" using ok 1 fresh_ids_snoc by (simp add: core_ok_def keys_ok_def)
  moreover have "(st_id s, ap_id a) \<in> (\<lambda>s. (st_id s, st_approval_id s)) ` set (db_steps db)"
    using s by (intro image_eqI [of _ _ s']) simp_all
  then have "refs_ok db'" using ok 1 by (simp add: core_ok_def refs_ok_def)
  moreover have "uniq_ok db'" using ok 1 by (auto simp: core_ok_def uniq_ok_def)
  moreover have "votes_ok db'" using ok 1 unfolding core_ok_def votes_ok_def by (simp add: bex_Un)
  moreover have "approvers_flow db'" using ok 1 s by (auto simp: core_ok_def approvers_flow_def)
  moreover have "steps_flow db'" using ok 1 by (simp add: core_ok_def steps_flow_def)
  moreover have "tokens_flow db'" using ok 1 unfolding core_ok_def tokens_flow_def by (simp add: bex_Un)
  ultimately show ?case by (simp add: core_ok_def)
qed

lemma issue_link_ok:
  assumes ok: "core_ok db" and issue: "issue_link env i tok db = Inr (t, db')"
  shows "core_ok db'"
  using issue
proof (rule issue_link_InrE, goal_cases)
  case (1 row a s)
  let ?toks = "upd_where (\<lambda>k. tk_id k \<in> set (stale_links env i db))
    (\<lambda>k. k\<lparr>tk_revoked_at := Some (token_now env)\<rparr>) (db_tokens db)"
  have row: "row \<in> set (db_approvers db)" "ar_id row = i" using approvers.get_SomeD [OF 1(1)] by auto
  have a: "ap_id a = ar_approval_id row" using approvals.get_SomeD [OF 1(2)] by simp
  have ids: "map tk_id ?toks = map tk_id (db_tokens db)" by (simp add: map_upd_where)
  have refs: "(\<lambda>k. (tk_approver_id k, tk_approval_id k)) ` set ?toks =
      (\<lambda>k. (tk_approver_id k, tk_approval_id k)) ` set (db_tokens db)" by (simp add: image_upd_where)
  have live: "k \<in> set (db_tokens db)" if "k \<in> set ?toks" "live k" for k
    using that by (elim upd_whereE) (auto simp: live_def)
  have "keys_ok db'" using ok 1 fresh_ids_snoc by (simp add: core_ok_def keys_ok_def ids)
  moreover have "(i, ar_approval_id row) \<in> (\<lambda>r. (ar_id r, ar_approval_id r)) ` set (db_approvers db)"
    using row by (intro image_eqI [of _ _ row]) simp_all
  then have "refs_ok db'"
    using ok 1 a ball_image_cong [OF refs, of "\<lambda>x. x \<in> (\<lambda>r. (ar_id r, ar_approval_id r)) ` set (db_approvers db)"]
    by (simp add: core_ok_def refs_ok_def)
  moreover have "tokens_flow db'"
    using ok 1 row live unfolding core_ok_def tokens_flow_def by simp blast
  ultimately show ?case using ok 1
    by (simp add: core_ok_def uniq_ok_def votes_ok_def approvers_flow_def steps_flow_def)
qed

section \<open>The engine's operations\<close>

lemma finalize_ok:
  "core_ok db \<Longrightarrow> status \<noteq> AP_pending \<Longrightarrow> finalize env a status reason act auto db = Inr db' \<Longrightarrow> core_ok db'"
  by (metis core_ok_cong finalize_core closing_ok)

lemma start_step_ok:
  assumes ok: "core_ok db" and s: "s \<in> set (db_steps db)" "st_status s = ST_waiting"
  shows "core_ok (start_step env a s db)"
  unfolding start_step_def
proof (intro approvals_upd_ok steps_upd_ok ok)
  fix x assume "x \<in> set (db_steps db)" "st_id x = st_id s"
  then have "x = s" using steps.same_key_same_row [OF core_ok_distinct(2) [OF ok] _ s(1)] by blast
  with s show "is_open x" by (simp add: is_open_def)
qed simp_all

text \<open>Nobody is pending on a step that is waiting.\<close>

lemma waiting_step_unvoted:
  assumes ok: "core_ok db" and s: "s \<in> set (db_steps db)" "st_status s = ST_waiting"
    and r: "r \<in> set (db_approvers db)" "ar_step_id r = st_id s"
  shows "ar_status r \<noteq> AR_pending"
proof
  assume "ar_status r = AR_pending"
  then obtain s' where s': "s' \<in> set (db_steps db)" "st_id s' = ar_step_id r" "st_status s' = ST_active"
    using core_ok_pending_approver [OF ok r(1)] by blast
  with steps.same_key_same_row [OF core_ok_distinct(2) [OF ok] s'(1) s(1)] s(2) r(2) show False by simp
qed

lemma add_approvers_ok:
  assumes "core_ok db" and "add_approvers env a s act now ras db = Inr (ids, db')"
    and "s' \<in> set (db_steps db)" "st_id s' = st_id s" "st_approval_id s' = ap_id a" "st_status s' = ST_active"
  shows "core_ok db'"
proof -
  have "core_ok db \<longrightarrow> core_ok db' \<and> db_steps db' = db_steps db"
  proof (rule add_approvers_step [OF assms(2)])
    fix ra i db1 db2
    assume "core_ok db \<longrightarrow> core_ok db1 \<and> db_steps db1 = db_steps db" "add_approver env a s act now ra db1 = Inr (i, db2)"
    with assms add_approver_ok [of db1 env a s act now ra i db2 s']
    show "core_ok db \<longrightarrow> core_ok db2 \<and> db_steps db2 = db_steps db" by (auto elim: add_approver_InrE)
  qed simp
  with assms(1) show ?thesis by simp
qed

text \<open>An activation: the step starts, and then ends at once or gets its approvers.\<close>

definition ended :: "approval_env \<Rightarrow> step_spec \<Rightarrow> step_row \<Rightarrow> step_row" where
  "ended env spec x = x\<lparr>st_status := na_status (sp_on_no_approver spec), st_reason := Some ''no_approvers'',
     st_decided_at := Some (env_now env)\<rparr>"

lemma ended_simps [simp]:
  "st_id (ended env spec x) = st_id x" "st_approval_id (ended env spec x) = st_approval_id x"
  "st_stage (ended env spec x) = st_stage x" "st_status (ended env spec x) = na_status (sp_on_no_approver spec)"
  by (simp_all add: ended_def)

lemma na_status_closed [simp]:
  "na_status x \<noteq> ST_active" "na_status x \<noteq> ST_waiting" "na_status x \<noteq> ST_cancelled"
  by (simp_all add: na_status_def split: on_no_approver.splits)

lemma activate_stepE:
  assumes act: "activate_step env a s act db = Inr (ids, db')"
  obtains (stop) d where "core d = core (start_step env a s db)" "ids = []"
      "core db' = core (upd_steps (\<lambda>x. st_id x = st_id s) (ended env (st_spec s)) d)"
  | (go) d rn where "core d = core (start_step env a s db)" "rn_approvers rn \<noteq> []"
      "resolve_step env db a None (sp_approvers (st_spec s)) = Inr rn"
      "add_approvers env a s act (env_now env) (rn_approvers rn) d = Inr (ids, db')"
proof -
  from act obtain rn where rn: "resolve_step env db a None (sp_approvers (st_spec s)) = Inr rn"
    by (auto simp: activate_step_def res_bind_Inr_iff)
  let ?n = "int (length (rn_approvers rn))"
  let ?stop = "?n = 0 \<or> \<not> quorum_reachable (sp_rule (st_spec s)) (sp_quorum (st_spec s)) ?n"
  define d where "d = audit_unresolved env a s rn act (audit_excluded env a s rn act
     (audit_record env a A_step_activated act (Some (st_id s)) None None
        [(''rule'', JRule (st_rule s)), (''quorum'', case st_quorum s of None \<Rightarrow> JNull | Some q \<Rightarrow> JInt q),
         (''approvers'', JInt ?n)] (start_step env a s db)))"
  have d: "core d = core (start_step env a s db)" by (simp add: d_def)
  have res: "Inr (ids, db') = (if ?stop
       then Inr ([], audit_record env a A_step_decided act (Some (st_id s)) None None
         [(''decision'', JStep (na_status (sp_on_no_approver (st_spec s)))), (''reason'', JStr ''no_approvers''),
          (''valid'', JInt ?n)] (upd_steps (\<lambda>x. st_id x = st_id s) (ended env (st_spec s)) d))
       else add_approvers env a s act (env_now env) (rn_approvers rn) d)"
    unfolding act [symmetric] activate_step_def rn res_bind_simps Let_def d_def ended_def ..
  show ?thesis
  proof (cases ?stop)
    case True
    with res show ?thesis by (intro stop [OF d]) (simp_all only: if_True sum.inject prod.inject core_frames)
  next
    case False
    with res have "add_approvers env a s act (env_now env) (rn_approvers rn) d = Inr (ids, db')" by (simp only: if_False)
    moreover from False have "rn_approvers rn \<noteq> []" by simp
    ultimately show ?thesis by (intro go [OF d _ rn])
  qed
qed

lemma activate_step_ok:
  assumes ok: "core_ok db" and act: "activate_step env a s act db = Inr (ids, db')"
    and s: "s \<in> set (db_steps db)" "st_status s = ST_waiting" "st_approval_id s = ap_id a"
  shows "core_ok db'"
  using act
proof (cases rule: activate_stepE)
  case (stop d)
  have "core_ok d" using start_step_ok [OF ok s(1,2)] core_ok_cong [OF stop(1)] by simp
  have "core_ok (upd_steps (\<lambda>x. st_id x = st_id s) (ended env (st_spec s)) d)"
  proof (rule steps_upd_ok [OF \<open>core_ok d\<close>])
    show "st_status (ended env (st_spec s) x) = ST_active"
      if "st_id x = st_id s" "r \<in> set (db_approvers d)" "ar_step_id r = st_id x" "ar_status r = AR_pending" for x r
      using waiting_step_unvoted [OF ok s(1,2), of r] that core_eqD(3) [OF stop(1)] by (simp add: start_step_def)
  qed (auto simp: is_open_def)
  then show ?thesis using core_ok_cong [OF stop(3)] by simp
next
  case (go d rn)
  have "core_ok d" using start_step_ok [OF ok s(1,2)] core_ok_cong [OF go(1)] by simp
  then show ?thesis
  proof (rule add_approvers_ok [OF _ go(4)])
    show "activated env (st_spec s) s \<in> set (db_steps d)"
      using s(1) core_eqD(2) [OF go(1)] by (simp add: start_step_def upd_where_hit)
  qed (use s in simp_all)
qed

lemma activate_step_keeps:
  assumes "activate_step env a s act db = Inr (ids, db')" "x \<in> set (db_steps db)" "st_id x \<noteq> st_id s"
  shows "x \<in> set (db_steps db')"
  using assms(1) by (rule activate_step_steps) (use assms(2,3) upd_where_kept in auto)

lemma activate_stage_ok:
  assumes "activate_stage env a act ss added db = Inr (ids, db')" and "core_ok db"
    and "\<forall>s \<in> set ss. s \<in> set (db_steps db) \<and> st_status s = ST_waiting \<and> st_approval_id s = ap_id a"
    and "distinct (map st_id ss)"
  shows "core_ok db'"
  using assms
proof (induction ss arbitrary: added db)
  case Nil
  then show ?case by (auto simp: activate_stage_def)
next
  case (Cons s ss)
  then obtain js db1 where step: "activate_step env a s act db = Inr (js, db1)"
    and rest: "activate_stage env a act ss (added @ js) db1 = Inr (ids, db')"
    by (auto simp: activate_stage_Cons res_bind_Inr_iff)
  have "core_ok db1" using activate_step_ok [OF Cons.prems(2) step] Cons.prems(3) by simp
  moreover have "\<forall>s' \<in> set ss. s' \<in> set (db_steps db1) \<and> st_status s' = ST_waiting \<and> st_approval_id s' = ap_id a"
    using Cons.prems(3,4) activate_step_keeps [OF step] by (metis image_eqI list.set_map distinct.simps(2) list.simps(9) list.set_intros(2))
  ultimately show ?case using Cons.IH [OF rest] Cons.prems(4) by simp
qed

lemma steps_of_stage_ready:
  assumes "core_ok db"
  shows "\<forall>s \<in> set (steps_of_stage (locked_steps db i) g). s \<in> set (db_steps db) \<and> st_status s = ST_waiting \<and>
      st_approval_id s = i"
    and "distinct (map st_id (steps_of_stage (locked_steps db i) g))"
proof -
  have "distinct (map st_id (locked_steps db i))"
    using core_ok_distinct(2) [OF assms] unfolding locked_steps_def
    by (simp add: distinct_map inj_on_def)
  then show "distinct (map st_id (steps_of_stage (locked_steps db i) g))"
    by (simp add: steps_of_stage_def distinct_map_filter)
qed (simp add: steps_of_stage_def)

lemma activate_loop_ok:
  "activate_loop env a act added db = Inr (ids, db') \<Longrightarrow> core_ok db \<Longrightarrow> core_ok db'"
proof (induction env a act added db rule: activate_loop.induct)
  case (1 env a act added db)
  let ?steps = "locked_steps db (ap_id a)"
  consider (closed) "ap_status (cur db a) \<noteq> AP_pending"
    | (fin) st where "finalize env a st (result_reason ?steps (request_result (stage_pairs ?steps))) act False db = Inr db'"
        "st \<noteq> AP_pending"
    | (stop) "db' = db"
    | (next_) stage added1 db1 where "ap_status (cur db a) = AP_pending"
        "request_result (stage_pairs ?steps) \<noteq> AP_rejected" "\<not> list_ex (\<lambda>s. st_status s = ST_active) ?steps"
        "next_stage (stage_pairs ?steps) = Some stage"
        "activate_stage env a act (steps_of_stage ?steps stage) added db = Inr (added1, db1)"
        "activate_loop env a act added1 db1 = Inr (ids, db')"
    using 1(2) unfolding activate_loop.simps [of env a act added db]
    by (auto simp: Let_def res_bind_Inr_iff split: if_splits option.splits)
  then show ?case
  proof cases
    case closed
    then show ?thesis using 1 by (simp add: activate_loop.simps [of env a act added db])
  next
    case fin
    then show ?thesis using finalize_ok [OF 1(3) fin(2,1)] by simp
  next
    case stop
    then show ?thesis using 1 by simp
  next
    case next_
    then have "core_ok db1"
      using activate_stage_ok [OF next_(5) 1(3)] steps_of_stage_ready [OF 1(3)] by blast
    with next_ show ?thesis using 1(1) [OF _ refl refl refl] by blast
  qed
qed

lemma activate_next_stage_ok:
  "activate_next_stage env a act db = Inr (ids, db') \<Longrightarrow> core_ok db \<Longrightarrow> core_ok db'"
  by (auto simp: activate_next_stage_def res_bind_Inr_iff Let_def split: if_splits intro: activate_loop_ok)

definition leftover :: "approval_db \<Rightarrow> int \<Rightarrow> int \<Rightarrow> int list" where
  "leftover db i step_id =
     map ar_id (filter (\<lambda>r. ar_status r = AR_pending) (locked_approvers_in db i [step_id]))"

lemma settle_step_core:
  "core (settle_step env a s outcome reason act now db) =
     core (upd_steps (\<lambda>x. st_id x = st_id s)
       (\<lambda>x. x\<lparr>st_status := outcome, st_reason := Some reason, st_decided_at := Some now\<rparr>)
       (leave env (leftover db (ap_id a) (st_id s)) AR_not_needed None db))"
proof -
  have left: "map ar_id (filter (\<lambda>r. ar_status r = AR_pending) (locked_approvers_in (upd_steps p f db) i [sid])) =
      leftover db i sid" for p f i sid
    by (simp add: locked_approvers_in_def locked_approvers_def leftover_def)
  have commute: "snd (revoke_links env ids red (upd_approvers q g (upd_steps p f db))) =
      upd_steps p f (snd (revoke_links env ids red (upd_approvers q g db)))" for ids red p f q g
    by (simp add: revoke_links_def Let_def upd_defs split: option.splits)
  show ?thesis unfolding settle_step_def Let_def left commute leave_def by simp
qed

lemma leftover_pending:
  assumes "core_ok db" "r \<in> set (db_approvers db)"
  shows "ar_id r \<in> set (leftover db i sid) \<longleftrightarrow> ar_approval_id r = i \<and> ar_step_id r = sid \<and> ar_status r = AR_pending"
proof
  assume "ar_id r \<in> set (leftover db i sid)"
  then obtain r' where r': "r' \<in> set (db_approvers db)" "ar_approval_id r' = i" "ar_step_id r' = sid"
    "ar_status r' = AR_pending" "ar_id r' = ar_id r" by (auto simp: leftover_def)
  with approvers.same_key_same_row [OF core_ok_distinct(3) [OF assms(1)] r'(1) assms(2)]
  show "ar_approval_id r = i \<and> ar_step_id r = sid \<and> ar_status r = AR_pending" by simp
qed (use assms in \<open>auto simp: leftover_def\<close>)

lemma settle_step_ok:
  assumes ok: "core_ok db" and s: "s' \<in> set (db_steps db)" "st_id s' = st_id s" "st_approval_id s' = ap_id a"
    and out: "outcome = ST_approved \<or> outcome = ST_rejected"
  shows "core_ok (settle_step env a s outcome reason act now db)"
proof -
  let ?ids = "leftover db (ap_id a) (st_id s)"
  let ?f = "\<lambda>x. x\<lparr>st_status := outcome, st_reason := Some reason, st_decided_at := Some now\<rparr>"
  note left = leftover_pending [OF ok, of _ "ap_id a" "st_id s"]
  have ok1: "core_ok (leave env ?ids AR_not_needed None db)"
    by (rule leave_ok [OF ok]) (simp_all add: left)
  have gone: False if r: "r \<in> set (db_approvers (leave env ?ids AR_not_needed None db))" "ar_step_id r = st_id s"
    "ar_status r = AR_pending" for r
    using r(1) unfolding leave_tables(1)
  proof (cases rule: upd_whereE)
    case kept
    then have "ar_approval_id r = ap_id a" using core_ok_approver_step [OF ok kept(1) s(1)] s r(2) by simp
    with kept left [of r] r show False by simp
  qed (use r(3) in simp)
  have "core_ok (upd_steps (\<lambda>x. st_id x = st_id s) ?f (leave env ?ids AR_not_needed None db))"
  proof (rule steps_upd_ok [OF ok1])
    show "st_status (?f x) = ST_active"
      if "st_id x = st_id s" "r \<in> set (db_approvers (leave env ?ids AR_not_needed None db))" "ar_step_id r = st_id x"
        "ar_status r = AR_pending" for x r
      using gone that by metis
  qed (use out in \<open>auto simp: is_open_def\<close>)
  then show ?thesis using core_ok_cong [OF settle_step_core, of env a s outcome reason act now db] by simp
qed

lemma close_step_ok:
  assumes "core_ok db" "s' \<in> set (db_steps db)" "st_id s' = st_id s" "st_approval_id s' = ap_id a"
    and "outcome = ST_approved \<or> outcome = ST_rejected"
    and "close_step env a s outcome reason act now db = Inr db'"
  shows "core_ok db'"
proof -
  from assms(6) obtain ids d where d: "activate_next_stage env a act (settle_step env a s outcome reason act now db) = Inr (ids, d)"
    and "core db' = core d"
    by (auto simp: close_step_def res_bind_Inr_iff dest!: core_enqueue split: if_splits)
  moreover have "core_ok d"
    using activate_next_stage_ok [OF d] settle_step_ok [OF assms(1-5)] by blast
  ultimately show ?thesis using core_ok_cong by blast
qed

section \<open>Pending requests are under way\<close>

text \<open>What the other requests see of an operation on request \<open>i\<close>: nothing.\<close>

definition others_same :: "int \<Rightarrow> approval_db \<Rightarrow> approval_db \<Rightarrow> bool" where
  "others_same i db db' \<longleftrightarrow>
     filter (\<lambda>a. ap_id a \<noteq> i) (db_approvals db') = filter (\<lambda>a. ap_id a \<noteq> i) (db_approvals db) \<and>
     filter (\<lambda>s. st_approval_id s \<noteq> i) (db_steps db') = filter (\<lambda>s. st_approval_id s \<noteq> i) (db_steps db) \<and>
     filter (\<lambda>r. ar_approval_id r \<noteq> i) (db_approvers db') = filter (\<lambda>r. ar_approval_id r \<noteq> i) (db_approvers db) \<and>
     filter (\<lambda>v. vt_approval_id v \<noteq> i) (db_votes db') = filter (\<lambda>v. vt_approval_id v \<noteq> i) (db_votes db) \<and>
     filter (\<lambda>k. tk_approval_id k \<noteq> i) (db_tokens db') = filter (\<lambda>k. tk_approval_id k \<noteq> i) (db_tokens db)"

lemma others_same_refl [simp]: "others_same i db db"
  by (simp add: others_same_def)

lemma others_same_trans: "others_same i db db1 \<Longrightarrow> others_same i db1 db2 \<Longrightarrow> others_same i db db2"
  by (simp add: others_same_def)

lemma others_same_core: "core db1 = core db1' \<Longrightarrow> core db2 = core db2' \<Longrightarrow> others_same i db1 db2 = others_same i db1' db2'"
  by (simp add: others_same_def core_def)

lemma others_same_upd:
  "(\<And>x. p1 x \<Longrightarrow> ap_id x = i \<and> ap_id (f1 x) = i) \<Longrightarrow> others_same i db (upd_approvals p1 f1 db)"
  "(\<And>x. p2 x \<Longrightarrow> st_approval_id x = i \<and> st_approval_id (f2 x) = i) \<Longrightarrow> others_same i db (upd_steps p2 f2 db)"
  "(\<And>x. p3 x \<Longrightarrow> ar_approval_id x = i \<and> ar_approval_id (f3 x) = i) \<Longrightarrow> others_same i db (upd_approvers p3 f3 db)"
  "(\<And>x. p4 x \<Longrightarrow> tk_approval_id x = i \<and> tk_approval_id (f4 x) = i) \<Longrightarrow> others_same i db (upd_tokens p4 f4 db)"
  by (simp_all add: others_same_def filter_upd_where_disjoint)

text \<open>A pending request's condition reads only its own rows.\<close>

lemma others_same_rest_ok:
  assumes "others_same i db db'" "a \<in> set (db_approvals db')" "ap_id a \<noteq> i"
    and "\<forall>a \<in> set (db_approvals db). ap_id a \<noteq> i \<longrightarrow> rest_ok db a"
  shows "rest_ok db' a"
proof -
  have "a \<in> set (filter (\<lambda>a. ap_id a \<noteq> i) (db_approvals db'))" using assms by simp
  then have "a \<in> set (filter (\<lambda>a. ap_id a \<noteq> i) (db_approvals db))" using assms(1) by (simp only: others_same_def)
  then have "a \<in> set (db_approvals db)" by simp
  moreover have "steps_of db' (ap_id a) = steps_of db (ap_id a)"
  proof -
    have "steps_of d (ap_id a) = {s \<in> set (filter (\<lambda>s. st_approval_id s \<noteq> i) (db_steps d)). st_approval_id s = ap_id a}" for d
      using assms(3) by (auto simp: steps_of_def)
    then show ?thesis using assms(1) by (simp only: others_same_def)
  qed
  ultimately show ?thesis using assms(3,4) by (simp add: rest_ok_def stages_ok_def)
qed

lemma filter_upd_where_members:
  "(\<And>r. r \<in> set xs \<Longrightarrow> p r \<Longrightarrow> \<not> q r \<and> \<not> q (f r)) \<Longrightarrow> filter q (upd_where p f xs) = filter q xs"
  by (induction xs) auto

lemma closing_others: "core_ok db \<Longrightarrow> others_same i db (closing env i status reason db)"
  by (auto simp: others_same_def closing_def open_ids_iff intro!: filter_upd_where_members)

lemma finalize_others:
  "core_ok db \<Longrightarrow> finalize env a status reason act auto db = Inr db' \<Longrightarrow> others_same (ap_id a) db db'"
  using others_same_core [OF refl [of "core db"] finalize_core] closing_others by blast

lemma step_id_approval:
  assumes "core_ok db" "s \<in> set (db_steps db)" "x \<in> set (db_steps db)" "st_id x = st_id s"
  shows "x = s"
  using steps.same_key_same_row [OF core_ok_distinct(2) [OF assms(1)] assms(3,2)] assms(4) by simp

lemma step_upd_others:
  assumes "core_ok db" "s \<in> set (db_steps db)" "st_approval_id s = i" "\<And>x. st_approval_id (f x) = st_approval_id x"
  shows "others_same i db (upd_steps (\<lambda>x. st_id x = st_id s) f db)"
  using assms step_id_approval [OF assms(1,2)]
  by (auto simp: others_same_def intro!: filter_upd_where_members)

lemma start_step_others:
  assumes "core_ok db" "s \<in> set (db_steps db)" "st_approval_id s = ap_id a"
  shows "others_same (ap_id a) db (start_step env a s db)"
  unfolding start_step_def
  by (rule others_same_trans [OF step_upd_others [OF assms] others_same_upd(1)]) simp_all

lemma add_approver_others:
  "add_approver env a s act now ra db = Inr (i, db') \<Longrightarrow> others_same (ap_id a) db db'"
  by (erule add_approver_InrE) (simp add: others_same_def)

lemma add_approvers_others:
  "add_approvers env a s act now ras db = Inr (ids, db') \<Longrightarrow> others_same (ap_id a) db db'"
  by (erule add_approvers_step) (auto intro: others_same_trans add_approver_others)

lemma activate_step_others:
  assumes ok: "core_ok db" and act: "activate_step env a s act db = Inr (ids, db')"
    and s: "s \<in> set (db_steps db)" "st_status s = ST_waiting" "st_approval_id s = ap_id a"
  shows "others_same (ap_id a) db db'"
  using act
proof (cases rule: activate_stepE)
  case (stop d)
  have d: "others_same (ap_id a) db d"
    using start_step_others [OF ok s(1,3)] others_same_core [OF refl stop(1)] by blast
  have "core_ok d" using start_step_ok [OF ok s(1,2)] core_ok_cong [OF stop(1)] by simp
  moreover have "activated env (st_spec s) s \<in> set (db_steps d)"
    using s(1) core_eqD(2) [OF stop(1)] by (simp add: start_step_def upd_where_hit)
  ultimately have "others_same (ap_id a) d (upd_steps (\<lambda>x. st_id x = st_id s) (ended env (st_spec s)) d)"
    using step_upd_others [of d "activated env (st_spec s) s"] s(3) by simp
  with d show ?thesis using others_same_core [OF refl stop(3)] others_same_trans by blast
next
  case (go d rn)
  have "others_same (ap_id a) db d"
    using start_step_others [OF ok s(1,3)] others_same_core [OF refl go(1)] by blast
  then show ?thesis using add_approvers_others [OF go(4)] others_same_trans by blast
qed

lemma activate_stage_others:
  assumes "activate_stage env a act ss added db = Inr (ids, db')" and "core_ok db"
    and "\<forall>s \<in> set ss. s \<in> set (db_steps db) \<and> st_status s = ST_waiting \<and> st_approval_id s = ap_id a"
    and "distinct (map st_id ss)"
  shows "others_same (ap_id a) db db'"
  using assms
proof (induction ss arbitrary: added db)
  case Nil
  then show ?case by (auto simp: activate_stage_def)
next
  case (Cons s ss)
  then obtain js db1 where step: "activate_step env a s act db = Inr (js, db1)"
    and rest: "activate_stage env a act ss (added @ js) db1 = Inr (ids, db')"
    by (auto simp: activate_stage_Cons res_bind_Inr_iff)
  have "core_ok db1" "others_same (ap_id a) db db1"
    using activate_step_ok [OF Cons.prems(2) step] activate_step_others [OF Cons.prems(2) step] Cons.prems(3) by simp_all
  moreover have "\<forall>s' \<in> set ss. s' \<in> set (db_steps db1) \<and> st_status s' = ST_waiting \<and> st_approval_id s' = ap_id a"
    using Cons.prems(3,4) activate_step_keeps [OF step] by (metis image_eqI list.set_map distinct.simps(2) list.simps(9) list.set_intros(2))
  ultimately show ?case using Cons.IH [OF rest] Cons.prems(4) others_same_trans by auto
qed

text \<open>The four ways the loop goes on.\<close>

lemma activate_loop_cases:
  assumes "activate_loop env a act added db = Inr (ids, db')"
  obtains (closed) "ap_status (cur db a) \<noteq> AP_pending" "db' = db"
  | (fin) st where "finalize env a st (result_reason (locked_steps db (ap_id a)) st) act False db = Inr db'"
      "st = request_result (stage_pairs (locked_steps db (ap_id a)))" "st \<noteq> AP_pending" "ids = added"
  | (stop) "db' = db" "ap_status (cur db a) = AP_pending"
      "request_result (stage_pairs (locked_steps db (ap_id a))) \<noteq> AP_rejected"
      "list_ex (\<lambda>s. st_status s = ST_active) (locked_steps db (ap_id a)) \<or>
       next_stage (stage_pairs (locked_steps db (ap_id a))) = None \<and>
       request_result (stage_pairs (locked_steps db (ap_id a))) \<noteq> AP_approved"
  | (go) stage added1 db1 where "ap_status (cur db a) = AP_pending"
      "request_result (stage_pairs (locked_steps db (ap_id a))) \<noteq> AP_rejected"
      "\<not> list_ex (\<lambda>s. st_status s = ST_active) (locked_steps db (ap_id a))"
      "next_stage (stage_pairs (locked_steps db (ap_id a))) = Some stage"
      "activate_stage env a act (steps_of_stage (locked_steps db (ap_id a)) stage) added db = Inr (added1, db1)"
      "activate_loop env a act added1 db1 = Inr (ids, db')"
proof -
  let ?steps = "locked_steps db (ap_id a)"
  let ?result = "request_result (stage_pairs ?steps)"
  note unfolded = assms [unfolded activate_loop.simps [of env a act added db] Let_def]
  show ?thesis
  proof (cases "ap_status (cur db a) = AP_pending")
    case False
    with unfolded have "db' = db" by simp
    with False show ?thesis by (rule closed)
  next
    case pending: True
    show ?thesis
    proof (cases "?result = AP_rejected")
      case True
      with pending unfolded have "finalize env a ?result (result_reason ?steps ?result) act False db = Inr db'" "ids = added"
        by (auto simp: res_bind_Inr_iff)
      with True show ?thesis by (intro fin [OF _ refl]) simp_all
    next
      case run: False
      note unfolded' = unfolded [unfolded if_not_P [OF run]]
      show ?thesis
      proof (cases "list_ex (\<lambda>s. st_status s = ST_active) ?steps")
        case True
        with pending unfolded' have "db' = db" by simp
        with pending run True show ?thesis by (intro stop disjI1)
      next
        case idle: False
        show ?thesis
        proof (cases "next_stage (stage_pairs ?steps)")
          case None
          show ?thesis
          proof (cases "?result = AP_approved")
            case True
            with pending idle None unfolded' have "finalize env a ?result (result_reason ?steps ?result) act False db = Inr db'" "ids = added"
              by (auto simp: res_bind_Inr_iff)
            with True show ?thesis by (intro fin [OF _ refl]) simp_all
          next
            case False
            with pending idle None unfolded' have "db' = db" by simp
            with pending run None False show ?thesis by (intro stop disjI2 conjI)
          qed
        next
          case (Some stage)
          with pending idle unfolded' obtain added1 db1 where
            "activate_stage env a act (steps_of_stage ?steps stage) added db = Inr (added1, db1)"
            "activate_loop env a act added1 db1 = Inr (ids, db')"
            by (auto simp: res_bind_Inr_iff)
          then show ?thesis by (rule go [OF pending run idle Some])
        qed
      qed
    qed
  qed
qed

lemma activate_loop_others:
  "activate_loop env a act added db = Inr (ids, db') \<Longrightarrow> core_ok db \<Longrightarrow> others_same (ap_id a) db db'"
proof (induction env a act added db rule: activate_loop.induct)
  case (1 env a act added db)
  from 1(2) show ?case
  proof (cases rule: activate_loop_cases)
    case (fin st)
    then show ?thesis using finalize_others [OF 1(3)] by blast
  next
    case (go stage added1 db1)
    note ready = steps_of_stage_ready [OF 1(3)]
    have "core_ok db1" "others_same (ap_id a) db db1"
      using activate_stage_ok [OF go(5) 1(3) ready] activate_stage_others [OF go(5) 1(3) ready] by blast+
    with go show ?thesis using 1(1) [OF _ refl refl refl] others_same_trans by blast
  qed simp_all
qed

section \<open>The next stage\<close>

lemma activate_step_approvals:
  assumes "activate_step env a s act db = Inr (ids, db')"
  shows "db_approvals db' = upd_where (\<lambda>x. ap_id x = ap_id a) (\<lambda>x. x\<lparr>ap_current_stage := Some (st_stage s)\<rparr>) (db_approvals db)"
  using assms
proof (cases rule: activate_stepE)
  case (stop d)
  then show ?thesis using core_eqD(1) [OF stop(1)] core_eqD(1) [OF stop(3)] by (simp add: start_step_def)
next
  case (go d rn)
  then show ?thesis using core_eqD(1) [OF go(1)] add_approvers_steps [OF go(4)] by (simp add: start_step_def)
qed

lemma activate_step_row:
  assumes ok: "core_ok db" and act: "activate_step env a s act db = Inr (ids, db')" and s: "s \<in> set (db_steps db)"
    and x: "x \<in> set (db_steps db')"
  shows "x \<in> set (db_steps db) \<and> st_id x \<noteq> st_id s \<or>
    st_id x = st_id s \<and> st_stage x = st_stage s \<and> st_status x \<in> {ST_active, ST_approved, ST_rejected}"
  using act
proof (rule activate_step_steps)
  fix f assume f: "db_steps db' = upd_where (\<lambda>x. st_id x = st_id s) f (db_steps db)"
    "\<And>x. st_id (f x) = st_id x \<and> st_approval_id (f x) = st_approval_id x \<and> st_stage (f x) = st_stage x \<and>
       st_position (f x) = st_position x \<and> st_spec (f x) = st_spec x \<and>
       st_status (f x) = st_status (f s) \<and> st_status (f x) \<in> {ST_active, ST_approved, ST_rejected}"
  from x [unfolded f(1)] show ?thesis
  proof (cases rule: upd_whereE)
    case (hit y)
    then show ?thesis using f(2) step_id_approval [OF ok s hit(1)] by blast
  qed simp
qed

lemma activate_stage_rows:
  assumes "activate_stage env a act ss added db = Inr (ids, db')" and "core_ok db"
    and "\<forall>s \<in> set ss. s \<in> set (db_steps db) \<and> st_status s = ST_waiting \<and> st_approval_id s = ap_id a \<and> st_stage s = g"
    and "distinct (map st_id ss)" and "x \<in> set (db_steps db')"
  shows "x \<in> set (db_steps db) \<and> st_id x \<notin> st_id ` set ss \<or>
    st_id x \<in> st_id ` set ss \<and> st_stage x = g \<and> st_status x \<in> {ST_active, ST_approved, ST_rejected}"
  using assms
proof (induction ss arbitrary: added db)
  case Nil
  then show ?case by (auto simp: activate_stage_def)
next
  case (Cons s ss)
  then obtain js db1 where step: "activate_step env a s act db = Inr (js, db1)"
    and rest: "activate_stage env a act ss (added @ js) db1 = Inr (ids, db')"
    by (auto simp: activate_stage_Cons res_bind_Inr_iff)
  have s: "s \<in> set (db_steps db)" "st_stage s = g" using Cons.prems(3) by simp_all
  have "core_ok db1" using activate_step_ok [OF Cons.prems(2) step] Cons.prems(3) by simp
  moreover have "\<forall>s' \<in> set ss. s' \<in> set (db_steps db1) \<and> st_status s' = ST_waiting \<and> st_approval_id s' = ap_id a \<and> st_stage s' = g"
    using Cons.prems(3,4) activate_step_keeps [OF step] by (metis image_eqI list.set_map distinct.simps(2) list.simps(9) list.set_intros(2))
  ultimately have "x \<in> set (db_steps db1) \<and> st_id x \<notin> st_id ` set ss \<or>
      st_id x \<in> st_id ` set ss \<and> st_stage x = g \<and> st_status x \<in> {ST_active, ST_approved, ST_rejected}"
    using Cons.IH [OF rest] Cons.prems(4,5) by simp
  then show ?case using activate_step_row [OF Cons.prems(2) step s(1)] s(2) by fastforce
qed

lemma activate_stage_approvals:
  assumes "activate_stage env a act ss added db = Inr (ids, db')" and "\<forall>s \<in> set ss. st_stage s = g" and "ss \<noteq> []"
  shows "db_approvals db' = upd_where (\<lambda>x. ap_id x = ap_id a) (\<lambda>x. x\<lparr>ap_current_stage := Some g\<rparr>) (db_approvals db)"
  using assms
proof (induction ss arbitrary: added db)
  case (Cons s ss)
  then obtain js db1 where step: "activate_step env a s act db = Inr (js, db1)"
    and rest: "activate_stage env a act ss (added @ js) db1 = Inr (ids, db')"
    by (auto simp: activate_stage_Cons res_bind_Inr_iff)
  note first = activate_step_approvals [OF step]
  show ?case
  proof (cases "ss = []")
    case True
    with rest first Cons.prems(2) show ?thesis by (simp add: activate_stage_def)
  next
    case False
    with Cons.IH [OF rest] first Cons.prems(2) show ?thesis by simp
  qed
qed simp

lemma cur_eq:
  assumes "core_ok db" "x \<in> set (db_approvals db)" "ap_id x = ap_id a"
  shows "cur db a = x"
  using approvals.get_member [OF core_ok_distinct(1) [OF assms(1)] assms(2)] assms(3) by (simp add: cur_def)

lemma request_result_steps:
  "request_result (stage_pairs (locked_steps db i)) =
     (if \<exists>s \<in> steps_of db i. st_status s = ST_rejected then AP_rejected
      else if steps_of db i \<noteq> {} \<and> (\<forall>s \<in> steps_of db i. st_status s = ST_approved) then AP_approved
      else AP_pending)"
proof -
  have set: "set (locked_steps db i) = steps_of db i" by (auto simp: steps_of_def)
  have nil: "locked_steps db i = [] \<longleftrightarrow> steps_of db i = {}" by (metis set set_empty)
  have "ST_rejected \<in> set (map snd (stage_pairs (locked_steps db i))) \<longleftrightarrow> (\<exists>s \<in> steps_of db i. st_status s = ST_rejected)"
    unfolding set [symmetric] by (force simp: stage_pairs_def)
  moreover have "list_all (\<lambda>s. s = ST_approved) (map snd (stage_pairs (locked_steps db i))) \<longleftrightarrow>
      (\<forall>s \<in> steps_of db i. st_status s = ST_approved)"
    unfolding set [symmetric] by (auto simp: stage_pairs_def list_all_iff)
  ultimately show ?thesis using nil by (simp add: request_result_def Let_def stage_pairs_def)
qed

lemma next_stage_None:
  "next_stage (stage_pairs (locked_steps db i)) = None \<longleftrightarrow> (\<forall>s \<in> steps_of db i. st_status s \<noteq> ST_waiting)"
  by (auto simp: next_stage_def Let_def stage_pairs_def filter_empty_conv steps_of_def)

lemma steps_of_nonempty: "steps_of db i \<noteq> {} \<longleftrightarrow> i \<in> st_approval_id ` set (db_steps db)"
  by (auto simp: steps_of_def)

lemma activate_stage_owners:
  "activate_stage env a act ss added db = Inr (ids, db') \<Longrightarrow>
     st_approval_id ` set (db_steps db') = st_approval_id ` set (db_steps db)"
proof (induction ss arbitrary: added db)
  case Nil
  then show ?case by (auto simp: activate_stage_def)
next
  case (Cons s ss)
  then obtain js db1 where step: "activate_step env a s act db = Inr (js, db1)"
    and rest: "activate_stage env a act ss (added @ js) db1 = Inr (ids, db')"
    by (auto simp: activate_stage_Cons res_bind_Inr_iff)
  have "st_approval_id ` set (db_steps db1) = st_approval_id ` set (db_steps db)"
    using step by (rule activate_step_steps) (simp add: image_upd_where)
  with Cons.IH [OF rest] show ?case by simp
qed

lemma stages_ok_advance:
  assumes ok: "core_ok db" and a: "stages_ok db (cur db a)" "ap_status (cur db a) = AP_pending"
    and present: "y \<in> set (db_approvals db)" "ap_id y = ap_id a"
    and idle: "\<forall>s \<in> steps_of db (ap_id a). st_status s \<noteq> ST_active"
    and g: "next_stage (stage_pairs (locked_steps db (ap_id a))) = Some g"
    and act: "activate_stage env a act (steps_of_stage (locked_steps db (ap_id a)) g) added db = Inr (ids, db')"
  shows "stages_ok db' (cur db' a)" "ap_status (cur db' a) = AP_pending" "\<exists>y \<in> set (db_approvals db'). ap_id y = ap_id a"
proof -
  let ?ss = "steps_of_stage (locked_steps db (ap_id a)) g"
  note ready = steps_of_stage_ready [OF ok, of "ap_id a" g]
  have ready_g: "\<forall>s \<in> set ?ss. s \<in> set (db_steps db) \<and> st_status s = ST_waiting \<and> st_approval_id s = ap_id a \<and> st_stage s = g"
    using ready(1) by (auto simp: steps_of_stage_def)
  have ss: "?ss \<noteq> []" and least: "\<forall>s \<in> steps_of db (ap_id a). st_status s = ST_waiting \<longrightarrow> g \<le> st_stage s"
    using next_stage_Some [OF g] by (auto simp: steps_of_def)
  have curdb: "cur db a = y" using cur_eq [OF ok present] .
  let ?y = "y\<lparr>ap_current_stage := Some g\<rparr>"
  have apps: "db_approvals db' = upd_where (\<lambda>x. ap_id x = ap_id a) (\<lambda>x. x\<lparr>ap_current_stage := Some g\<rparr>) (db_approvals db)"
    using activate_stage_approvals [OF act _ ss] ready_g by blast
  have y': "?y \<in> set (db_approvals db')" unfolding apps
    using present by (rule_tac upd_where_hit [where f = "\<lambda>x. x\<lparr>ap_current_stage := Some g\<rparr>"]) simp_all
  then show "\<exists>y \<in> set (db_approvals db'). ap_id y = ap_id a" using present(2) by (intro bexI [of _ ?y]) simp_all
  have ok': "core_ok db'" using activate_stage_ok [OF act ok ready] .
  have cur': "cur db' a = ?y" using cur_eq [OF ok' y'] present(2) by simp
  then show "ap_status (cur db' a) = AP_pending" using a(2) curdb by simp
  have rows: "x \<in> steps_of db (ap_id a) \<and> (st_status x = ST_waiting \<longrightarrow> g < st_stage x) \<or>
      st_stage x = g \<and> st_status x \<in> {ST_active, ST_approved, ST_rejected}" if x: "x \<in> steps_of db' (ap_id a)" for x
  proof -
    have "x \<in> set (db_steps db')" using x by (simp add: steps_of_def)
    from activate_stage_rows [OF act ok ready_g ready(2) this] show ?thesis
  proof (elim disjE)
    assume old: "x \<in> set (db_steps db) \<and> st_id x \<notin> st_id ` set ?ss"
    with x have "x \<in> steps_of db (ap_id a)" by (simp add: steps_of_def)
    moreover have "st_stage x \<noteq> g" if "st_status x = ST_waiting"
      using old x that by (auto simp: steps_of_stage_def steps_of_def)
    ultimately show ?thesis using least by force
  qed auto
  qed
  have old: "s \<in> steps_of db (ap_id a) \<Longrightarrow> st_status s \<noteq> ST_cancelled"
      "s \<in> steps_of db (ap_id a) \<Longrightarrow> st_status s = ST_waiting \<Longrightarrow> s' \<in> steps_of db (ap_id a) \<Longrightarrow>
        st_status s' \<noteq> ST_waiting \<Longrightarrow> st_stage s' < st_stage s" for s s'
    using a(1) present(2) by (simp_all add: stages_ok_def curdb)
  have "steps_of db' (ap_id a) \<noteq> {}"
    using a(1) present(2) steps_of_nonempty [of db] steps_of_nonempty [of db'] activate_stage_owners [OF act]
    by (simp add: stages_ok_def curdb)
  moreover have "st_stage s' < st_stage s" if "s \<in> steps_of db' (ap_id a)" "st_status s = ST_waiting"
      "s' \<in> steps_of db' (ap_id a)" "st_status s' \<noteq> ST_waiting" for s s'
    using rows [OF that(1)] rows [OF that(3)] old(2) [of s s'] that(2,4) by auto
  moreover have "st_status s \<noteq> ST_cancelled" "st_status s = ST_active \<longrightarrow> st_stage s = g"
    if "s \<in> steps_of db' (ap_id a)" for s
    using rows [OF that] old(1) [of s] idle by auto
  ultimately show "stages_ok db' (cur db' a)"
    using present(2) by (auto simp: stages_ok_def cur')
qed

lemma activate_loop_rest:
  "activate_loop env a act added db = Inr (ids, db') \<Longrightarrow> core_ok db \<Longrightarrow>
     \<exists>y \<in> set (db_approvals db). ap_id y = ap_id a \<Longrightarrow>
     (ap_status (cur db a) = AP_pending \<longrightarrow> stages_ok db (cur db a)) \<Longrightarrow>
     x \<in> set (db_approvals db') \<Longrightarrow> ap_id x = ap_id a \<Longrightarrow> rest_ok db' x"
proof (induction env a act added db rule: activate_loop.induct)
  case (1 env a act added db)
  have ok': "core_ok db'" by (rule activate_loop_ok [OF 1(2,3)])
  from 1(2) show ?case
  proof (cases rule: activate_loop_cases)
    case closed
    then show ?thesis using cur_eq [OF 1(3), of x a] 1(6,7) by (simp add: rest_ok_def)
  next
    case (fin st)
    have "ap_status x = st"
    proof -
      have "x \<in> set (db_approvals (closing env (ap_id a) st (result_reason (locked_steps db (ap_id a)) st) db))"
        using core_eqD(1) [OF finalize_core [OF fin(1)]] 1(6) by simp
      then have "x \<in> set (upd_where (\<lambda>x. ap_id x = ap_id a) (\<lambda>x. x\<lparr>ap_status := st,
          ap_reason := Some (result_reason (locked_steps db (ap_id a)) st),
          ap_decided_at := Some (trunc_sec (env_now env)), ap_current_stage := None\<rparr>) (db_approvals db))"
        by (simp add: closing_def)
      then show ?thesis using 1(7) by (elim upd_whereE) auto
    qed
    then show ?thesis using fin(3) by (simp add: rest_ok_def)
  next
    case stop
    have x: "cur db a = x" using cur_eq [OF 1(3)] 1(6,7) stop(1) by simp
    have st: "stages_ok db x" using 1(5) stop(2) x by simp
    have set: "list_ex P (locked_steps db (ap_id a)) \<longleftrightarrow> (\<exists>s \<in> steps_of db (ap_id a). P s)" for P
      by (auto simp: list_ex_iff steps_of_def)
    have no_rejected: "\<forall>s \<in> steps_of db (ap_id a). st_status s \<noteq> ST_rejected"
      using stop(3) unfolding request_result_steps by (auto split: if_splits)
    have "\<exists>s \<in> steps_of db (ap_id a). st_status s = ST_active"
      using stop(4) unfolding set
    proof (elim disjE conjE)
      assume none: "next_stage (stage_pairs (locked_steps db (ap_id a))) = None"
        and unfinished: "request_result (stage_pairs (locked_steps db (ap_id a))) \<noteq> AP_approved"
      obtain s where s: "s \<in> steps_of db (ap_id a)" "st_status s \<noteq> ST_approved"
        using unfinished no_rejected st 1(7) unfolding request_result_steps by (auto simp: stages_ok_def split: if_splits)
      with none no_rejected st 1(7) have "st_status s = ST_active"
        unfolding next_stage_None by (cases "st_status s") (auto simp: stages_ok_def)
      with s show ?thesis by blast
    qed
    with st no_rejected show ?thesis using stop(1) 1(7) by (simp add: rest_ok_def)
  next
    case (go stage added1 db1)
    note ready = steps_of_stage_ready [OF 1(3)]
    obtain y where y: "y \<in> set (db_approvals db)" "ap_id y = ap_id a" using 1(4) by blast
    have idle: "\<forall>s \<in> steps_of db (ap_id a). st_status s \<noteq> ST_active"
      using go(3) by (auto simp: list_ex_iff steps_of_def)
    have "stages_ok db (cur db a)" using 1(5) go(1) by blast
    note advance = stages_ok_advance [OF 1(3) this go(1) y idle go(4,5)]
    have "core_ok db1" using activate_stage_ok [OF go(5) 1(3) ready] .
    with advance go show ?thesis using 1(1) [OF _ refl refl refl go(2-5) refl go(6)] 1(6,7)
      by blast
  qed
qed

section \<open>What the engine leaves alone\<close>

text \<open>No engine operation deletes or adds a request or a step, casts a vote, or writes a Znuny table.\<close>

definition engine_keeps :: "approval_db \<Rightarrow> approval_db \<Rightarrow> bool" where
  "engine_keeps db db' \<longleftrightarrow>
     map ap_id (db_approvals db') = map ap_id (db_approvals db) \<and>
     map (\<lambda>s. (st_id s, st_approval_id s)) (db_steps db') = map (\<lambda>s. (st_id s, st_approval_id s)) (db_steps db) \<and>
     db_votes db' = db_votes db \<and> seq_vote db' = seq_vote db \<and> seq_approval db' = seq_approval db \<and>
     seq_step db' = seq_step db \<and> db_znuny db' = db_znuny db \<and> db_delegations db' = db_delegations db"

lemma engine_keeps_refl [simp]: "engine_keeps db db"
  by (simp add: engine_keeps_def)

lemma engine_keeps_trans: "engine_keeps db db1 \<Longrightarrow> engine_keeps db1 db2 \<Longrightarrow> engine_keeps db db2"
  by (simp add: engine_keeps_def)

lemma engine_keeps_core: "core db2 = core db2' \<Longrightarrow> engine_keeps db1 db2 = engine_keeps db1 db2'"
  by (simp add: engine_keeps_def core_def)

lemma finalize_keeps: "finalize env a status reason act auto db = Inr db' \<Longrightarrow> engine_keeps db db'"
  using engine_keeps_core [OF finalize_core] by (simp add: engine_keeps_def closing_def map_upd_where)

lemma start_step_keeps [simp]: "engine_keeps db (start_step env a s db)"
  by (simp add: engine_keeps_def start_step_def map_upd_where)

lemma upd_steps_keeps:
  "(\<And>x. st_id (f x) = st_id x \<and> st_approval_id (f x) = st_approval_id x) \<Longrightarrow> engine_keeps db (upd_steps p f db)"
  by (simp add: engine_keeps_def map_upd_where)

lemma add_approvers_keeps: "add_approvers env a s act now ras db = Inr (ids, db') \<Longrightarrow> engine_keeps db db'"
  by (erule add_approvers_step) (auto elim!: add_approver_InrE simp: engine_keeps_def)

lemma activate_step_engine_keeps: "activate_step env a s act db = Inr (ids, db') \<Longrightarrow> engine_keeps db db'"
proof (erule activate_stepE, goal_cases)
  case (1 d)
  then show ?case
    using engine_keeps_core [OF 1(1), of db] engine_keeps_core [OF 1(3), of db]
      engine_keeps_trans [OF _ upd_steps_keeps, of db d "ended env (st_spec s)"] by simp
next
  case (2 d rn)
  then show ?case
    using engine_keeps_core [OF 2(1), of db] add_approvers_keeps [OF 2(4)] engine_keeps_trans by simp
qed

lemma activate_stage_keeps: "activate_stage env a act ss added db = Inr (ids, db') \<Longrightarrow> engine_keeps db db'"
proof (induction ss arbitrary: added db)
  case Nil
  then show ?case by (auto simp: activate_stage_def)
next
  case (Cons s ss)
  then show ?case
    by (auto simp: activate_stage_Cons res_bind_Inr_iff intro: engine_keeps_trans activate_step_engine_keeps)
qed

lemma activate_loop_keeps: "activate_loop env a act added db = Inr (ids, db') \<Longrightarrow> engine_keeps db db'"
proof (induction env a act added db rule: activate_loop.induct)
  case (1 env a act added db)
  from 1(2) show ?case
  proof (cases rule: activate_loop_cases)
    case (go stage added1 db1)
    with 1(1) [OF _ refl refl refl go(2-5) refl go(6)] show ?thesis
      using activate_stage_keeps [OF go(5)] engine_keeps_trans by blast
  qed (auto intro: finalize_keeps)
qed

lemma leave_keeps: "engine_keeps db (leave env ids st red db)"
  using engine_keeps_core [OF leave_tables(2)] by (simp add: engine_keeps_def)

lemma settle_step_keeps: "engine_keeps db (settle_step env a s outcome reason act now db)"
  using engine_keeps_core [OF settle_step_core] engine_keeps_trans [OF leave_keeps upd_steps_keeps] by simp

section \<open>Operations on one request\<close>

lemma db_okI:
  assumes "core_ok db'" "others_same i db db'"
    and "\<forall>a \<in> set (db_approvals db). ap_id a \<noteq> i \<longrightarrow> rest_ok db a"
    and "\<And>x. x \<in> set (db_approvals db') \<Longrightarrow> ap_id x = i \<Longrightarrow> rest_ok db' x"
  shows "db_ok db'"
  unfolding db_ok_def
proof (intro conjI ballI)
  fix a assume "a \<in> set (db_approvals db')"
  then show "rest_ok db' a" using others_same_rest_ok [OF assms(2)] assms(3,4) by (cases "ap_id a = i") auto
qed (rule assms(1))

lemma leave_others:
  assumes ok: "core_ok db"
    and ids: "\<And>j. j \<in> set ids \<Longrightarrow> \<exists>r \<in> set (db_approvers db). ar_id r = j \<and> ar_approval_id r = i"
  shows "others_same i db (leave env ids st red db)"
proof -
  have row: "ar_approval_id r = i" if "r \<in> set (db_approvers db)" "ar_id r \<in> set ids" for r
  proof -
    from ids [OF that(2)] obtain r' where r': "r' \<in> set (db_approvers db)" "ar_id r' = ar_id r"
      "ar_approval_id r' = i" by blast
    then show ?thesis
      using approvers.same_key_same_row [OF core_ok_distinct(3) [OF ok] that(1) r'(1)] by simp
  qed
  have tok: "tk_approval_id k = i" if "k \<in> set (db_tokens db)" "tk_approver_id k \<in> set ids" for k
  proof -
    from ids [OF that(2)] obtain r where "r \<in> set (db_approvers db)" "ar_id r = tk_approver_id k"
      "ar_approval_id r = i" by blast
    then show ?thesis using core_ok_token_approver [OF ok that(1)] by simp
  qed
  have toks: "filter (\<lambda>k. tk_approval_id k \<noteq> i) (db_tokens (leave env ids st red db)) =
      filter (\<lambda>k. tk_approval_id k \<noteq> i) (db_tokens db)"
  proof -
    define used where "used j = upd_where (\<lambda>k. tk_id k = j \<and> tk_approver_id k \<in> set ids \<and> tk_used_at k = None)
      (\<lambda>k. k\<lparr>tk_used_at := Some (token_now env)\<rparr>) (db_tokens db)" for j
    have filtered: "filter (\<lambda>k. tk_approval_id k \<noteq> i) (used j) = filter (\<lambda>k. tk_approval_id k \<noteq> i) (db_tokens db)" for j
      unfolding used_def using tok by (intro filter_upd_where_members) auto
    have owner: "tk_approval_id k = i" if "k \<in> set (used j)" "tk_approver_id k \<in> set ids" for j k
      using that(1) unfolding used_def by (cases rule: upd_whereE) (use tok that(2) in auto)
    have revoked: "filter (\<lambda>k. tk_approval_id k \<noteq> i) (upd_where
        (\<lambda>k. tk_approver_id k \<in> set ids \<and> tk_used_at k = None \<and> tk_revoked_at k = None)
        (\<lambda>k. k\<lparr>tk_revoked_at := Some n\<rparr>) toks) = filter (\<lambda>k. tk_approval_id k \<noteq> i) toks"
      if "\<And>k. k \<in> set toks \<Longrightarrow> tk_approver_id k \<in> set ids \<Longrightarrow> tk_approval_id k = i" for n toks
      using that by (intro filter_upd_where_members) auto
    show ?thesis
    proof (cases red)
      case None
      then show ?thesis using revoked [OF tok] by (simp add: leave_def revoke_links_def Let_def)
    next
      case (Some j)
      then show ?thesis using revoked [OF owner [of _ j]] filtered [of j]
        by (simp add: leave_def revoke_links_def Let_def used_def)
    qed
  qed
  have rows: "filter (\<lambda>r. ar_approval_id r \<noteq> i) (db_approvers (leave env ids st red db)) =
      filter (\<lambda>r. ar_approval_id r \<noteq> i) (db_approvers db)"
    unfolding leave_tables(1) using row by (intro filter_upd_where_members) auto
  show ?thesis
    using leave_tables(2) [of env ids st red db] rows toks by (simp add: others_same_def core_def)
qed

lemma activate_next_stage_loop:
  assumes "activate_next_stage env a act db = Inr (ids, db')"
  obtains added where "activate_loop env a act [] db = Inr (added, db')"
  using assms by (auto simp: activate_next_stage_def res_bind_Inr_iff Let_def split: if_splits)

text \<open>Activating the next stage brings a request whose stages are in order to rest.\<close>

lemma activate_next_stage_db_ok:
  assumes act: "activate_next_stage env a act db = Inr (ids, db')" and ok: "core_ok db"
    and others: "\<forall>x \<in> set (db_approvals db). ap_id x \<noteq> ap_id a \<longrightarrow> rest_ok db x"
    and y: "y \<in> set (db_approvals db)" "ap_id y = ap_id a" "ap_status y = AP_pending \<longrightarrow> stages_ok db y"
  shows "db_ok db' \<and> others_same (ap_id a) db db' \<and> engine_keeps db db'"
proof -
  obtain added where loop: "activate_loop env a act [] db = Inr (added, db')"
    using act by (rule activate_next_stage_loop)
  have cur: "cur db a = y" using cur_eq [OF ok y(1,2)] .
  have ex: "\<exists>y \<in> set (db_approvals db). ap_id y = ap_id a" using y(1,2) by blast
  have "db_ok db'"
    by (rule db_okI [OF activate_loop_ok [OF loop ok] activate_loop_others [OF loop ok] others])
       (rule activate_loop_rest [OF loop ok ex], use y(3) cur in simp_all)
  then show ?thesis using activate_loop_others [OF loop ok] activate_loop_keeps [OF loop] by blast
qed

lemma settle_step_others:
  assumes ok: "core_ok db" and s: "s' \<in> set (db_steps db)" "st_id s' = st_id s" "st_approval_id s' = ap_id a"
  shows "others_same (ap_id a) db (settle_step env a s outcome reason act now db)"
proof -
  let ?d = "leave env (leftover db (ap_id a) (st_id s)) AR_not_needed None db"
  have "others_same (ap_id a) db ?d" by (rule leave_others [OF ok]) (auto simp: leftover_def)
  moreover have "core_ok ?d" by (rule leave_ok [OF ok]) (simp_all add: leftover_pending [OF ok])
  then have "others_same (ap_id a) ?d (upd_steps (\<lambda>x. st_id x = st_id s')
      (\<lambda>x. x\<lparr>st_status := outcome, st_reason := Some reason, st_decided_at := Some now\<rparr>) ?d)"
    by (rule step_upd_others) (use s core_eqD(2) [OF leave_tables(2)] in simp_all)
  then have "others_same (ap_id a) ?d (upd_steps (\<lambda>x. st_id x = st_id s)
      (\<lambda>x. x\<lparr>st_status := outcome, st_reason := Some reason, st_decided_at := Some now\<rparr>) ?d)"
    by (simp only: s(2))
  ultimately show ?thesis
    unfolding others_same_core [OF refl settle_step_core] by (rule others_same_trans)
qed

text \<open>The settled step no longer counts as active; the order of the stages stays.\<close>

lemma settle_step_stages:
  assumes ok: "core_ok db" and s: "s' \<in> set (db_steps db)" "st_id s' = st_id s" "st_approval_id s' = ap_id y"
      "st_status s' = ST_active"
    and out: "outcome = ST_approved \<or> outcome = ST_rejected" and y: "stages_ok db y"
  shows "stages_ok (settle_step env a s outcome reason act now db) y"
proof -
  let ?d = "settle_step env a s outcome reason act now db"
  let ?f = "\<lambda>x. x\<lparr>st_status := outcome, st_reason := Some reason, st_decided_at := Some now\<rparr>"
  have steps: "db_steps ?d = upd_where (\<lambda>x. st_id x = st_id s) ?f (db_steps db)"
    using core_eqD(2) [OF settle_step_core] core_eqD(2) [OF leave_tables(2)] by simp
  have row: "x \<in> steps_of db (ap_id y) \<or> st_stage x = st_stage s' \<and> st_status x = outcome"
    if "x \<in> steps_of ?d (ap_id y)" for x
  proof -
    from that have "x \<in> set (upd_where (\<lambda>x. st_id x = st_id s) ?f (db_steps db))" by (simp add: steps_of_def steps)
    then show ?thesis
    proof (cases rule: upd_whereE)
      case (hit z)
      then have "z = s'" using step_id_approval [OF ok s(1)] s(2) by simp
      with hit show ?thesis by simp
    qed (use that in \<open>simp add: steps_of_def\<close>)
  qed
  have s': "s' \<in> steps_of db (ap_id y)" using s by (simp add: steps_of_def)
  have "steps_of ?d (ap_id y) \<noteq> {}"
  proof -
    have "?f s' \<in> set (db_steps ?d)" unfolding steps using s(1,2) by (rule_tac upd_where_hit) simp_all
    then show ?thesis using s(3) by (auto simp: steps_of_def)
  qed
  moreover have "st_status x \<noteq> ST_cancelled \<and> (st_status x = ST_active \<longrightarrow> ap_current_stage y = Some (st_stage x))"
    if "x \<in> steps_of ?d (ap_id y)" for x
    using row [OF that] y out by (auto simp: stages_ok_def)
  moreover have "st_stage x' < st_stage x" if x: "x \<in> steps_of ?d (ap_id y)" "st_status x = ST_waiting"
      "x' \<in> steps_of ?d (ap_id y)" "st_status x' \<noteq> ST_waiting" for x x'
  proof -
    have old: "x \<in> steps_of db (ap_id y)" using row [OF x(1)] x(2) out by auto
    show ?thesis using row [OF x(3)]
    proof
      assume "x' \<in> steps_of db (ap_id y)"
      with old x(2,4) y show ?thesis by (simp add: stages_ok_def)
    next
      assume "st_stage x' = st_stage s' \<and> st_status x' = outcome"
      with old x(2) y s' s(4) show ?thesis by (simp add: stages_ok_def)
    qed
  qed
  ultimately show ?thesis by (simp add: stages_ok_def)
qed

lemma close_step_db_ok:
  assumes db: "db_ok db" and s: "s' \<in> set (db_steps db)" "st_id s' = st_id s" "st_approval_id s' = ap_id a"
      "st_status s' = ST_active"
    and out: "outcome = ST_approved \<or> outcome = ST_rejected"
    and close: "close_step env a s outcome reason act now db = Inr db'"
  shows "db_ok db' \<and> others_same (ap_id a) db db' \<and> engine_keeps db db'"
proof -
  have ok: "core_ok db" using db by (simp add: db_ok_def)
  let ?d = "settle_step env a s outcome reason act now db"
  obtain ids d' where act: "activate_next_stage env a act ?d = Inr (ids, d')" and core: "core db' = core d'"
    using close by (auto simp: close_step_def res_bind_Inr_iff dest!: core_enqueue split: if_splits)
  obtain y where y: "y \<in> set (db_approvals db)" "ap_id y = ap_id a" "ap_status y = AP_pending"
    using ok s by (auto simp: core_ok_def steps_flow_def is_open_def)
  have same: "db_approvals ?d = db_approvals db"
    using core_eqD(1) [OF settle_step_core] core_eqD(1) [OF leave_tables(2)] by simp
  have others: "others_same (ap_id a) db ?d" by (rule settle_step_others [OF ok s(1-3)])
  have "\<forall>x \<in> set (db_approvals ?d). ap_id x \<noteq> ap_id a \<longrightarrow> rest_ok ?d x"
    using others_same_rest_ok [OF others] db by (simp add: db_ok_def)
  moreover have "stages_ok ?d y"
    by (rule settle_step_stages [OF ok s(1,2) _ s(4) out]) (use s(3) y db in \<open>auto simp: db_ok_def rest_ok_def\<close>)
  ultimately have "db_ok d' \<and> others_same (ap_id a) ?d d' \<and> engine_keeps ?d d'"
    using activate_next_stage_db_ok [OF act settle_step_ok [OF ok s(1-3) out], of y] y same by simp
  then show ?thesis
    using others others_same_trans engine_keeps_trans [OF settle_step_keeps] core_ok_cong [OF core]
      others_same_core [OF refl core] engine_keeps_core [OF core] db_ok_cong [OF core] by blast
qed

text \<open>A step of the request, by its key: no engine operation takes it away.\<close>

definition owns_step :: "approval_db \<Rightarrow> int \<Rightarrow> int \<Rightarrow> bool" where
  "owns_step db i sid \<longleftrightarrow> (sid, i) \<in> set (map (\<lambda>s. (st_id s, st_approval_id s)) (db_steps db))"

lemma owns_step_keeps: "engine_keeps db db' \<Longrightarrow> owns_step db' i sid = owns_step db i sid"
  by (simp only: owns_step_def engine_keeps_def)

lemma owns_stepE:
  assumes "owns_step db i sid"
  obtains s where "s \<in> set (db_steps db)" "st_id s = sid" "st_approval_id s = i"
  using assms by (auto simp: owns_step_def)

lemma cur_step_row:
  assumes ok: "core_ok db" and own: "owns_step db i (st_id s)"
  shows "cur_step db s \<in> set (db_steps db)" "st_id (cur_step db s) = st_id s" "st_approval_id (cur_step db s) = i"
proof -
  from own obtain x where x: "x \<in> set (db_steps db)" "st_id x = st_id s" "st_approval_id x = i" by (rule owns_stepE)
  then have "get_step db (st_id s) = Some x" using steps.get_member [OF core_ok_distinct(2) [OF ok] x(1)] by simp
  with x show "cur_step db s \<in> set (db_steps db)" "st_id (cur_step db s) = st_id s" "st_approval_id (cur_step db s) = i"
    by (simp_all add: cur_step_def)
qed

lemma reevaluated_closed:
  assumes "reevaluated s voters = Inr (Some (out, reason))"
  shows "out = ST_approved \<or> out = ST_rejected"
proof -
  from assms obtain v where v: "evaluate_step (st_rule s) (st_quorum s) voters = Inr v"
    and out: "out = (if v \<noteq> V_pending then outcome_status v else na_status (sp_on_no_approver (st_spec s)))"
    by (auto simp: reevaluated_def res_bind_Inr_iff split: if_splits)
  then show ?thesis
    by (cases v; cases "sp_on_no_approver (st_spec s)") (auto simp: na_status_def)
qed

lemma reevaluate_steps_db_ok:
  assumes "reevaluate_steps env a ss act now db = Inr db'" and "db_ok db"
    and "\<forall>s \<in> set ss. owns_step db (ap_id a) (st_id s)"
  shows "db_ok db' \<and> others_same (ap_id a) db db' \<and> engine_keeps db db'"
proof (rule res_fold_invariant [OF assms(1) [unfolded reevaluate_steps_def], where
      P = "\<lambda>d. db_ok d \<and> others_same (ap_id a) db d \<and> engine_keeps db d"])
  fix s d d'
  assume s: "s \<in> set ss" and d: "db_ok d \<and> others_same (ap_id a) db d \<and> engine_keeps db d"
    and step: "(if ap_status (cur d a) \<noteq> AP_pending \<or> st_status (cur_step d s) \<noteq> ST_active then Inr d
         else res_bind (step_voters env d (st_id s) (locked_approvers d (ap_id a))) (\<lambda>voters.
              res_bind (reevaluated s voters) (\<lambda>out. case out of None \<Rightarrow> Inr d
              | Some (outcome, reason) \<Rightarrow> close_step env a s outcome reason act now d))) = Inr d'"
  have ok: "core_ok d" using d by (simp add: db_ok_def)
  have "owns_step d (ap_id a) (st_id s)" using owns_step_keeps d assms(3) s by blast
  note row = cur_step_row [OF ok this]
  show "db_ok d' \<and> others_same (ap_id a) db d' \<and> engine_keeps db d'"
  proof (cases "d' = d")
    case False
    with step obtain voters out reason where "reevaluated s voters = Inr (Some (out, reason))"
      "st_status (cur_step d s) = ST_active" "close_step env a s out reason act now d = Inr d'"
      by (auto simp: res_bind_Inr_iff split: if_splits option.splits)
    then show ?thesis
      using close_step_db_ok [OF _ row _ reevaluated_closed] d others_same_trans engine_keeps_trans by blast
  qed (use d in simp)
qed (use assms(2) in simp)

end
