(* ===== verification/Approval_Access.thy ===== *)
theory Approval_Access
  imports Approval_Invariant
begin

text \<open>
  \<open>approvals/delegation.py\<close>, \<open>availability.py\<close> and \<open>access.py\<close>: who votes for whom and when, which subject
  types stand still, who may see, cancel, refresh or request. The theorems: delegations of one agent
  never overlap, so at any instant an agent has at most one substitute; and whoever may cancel a request
  of an existing ticket may also see it.
\<close>

section \<open>Delegations\<close>

text \<open>A \<open>datetime\<close> argument: naive (UTC by convention) or with its offset from UTC.\<close>

datatype datetime_arg = Naive instant | Aware instant instant

fun naive_utc :: "datetime_arg \<Rightarrow> instant" where
  "naive_utc (Naive t) = trunc_sec t"
| "naive_utc (Aware t offset) = trunc_sec (t - offset)"

definition delegation_active :: "instant \<Rightarrow> delegation_row \<Rightarrow> bool" where
  "delegation_active at d \<longleftrightarrow> dg_revoked_at d = None \<and> dg_valid_from d \<le> at \<and>
     (case dg_valid_until d of None \<Rightarrow> True | Some u \<Rightarrow> at < u)"

text \<open>\<open>limit\<close> with \<open>offset\<close>; without a limit the offset does not apply\<close>

definition list_delegations ::
  "approval_env \<Rightarrow> int option \<Rightarrow> int option \<Rightarrow> bool \<Rightarrow> nat option \<Rightarrow> nat \<Rightarrow> approval_db \<Rightarrow> delegation_row list" where
  "list_delegations env user substitute include_ended limit offset db =
     (let rows = filter (\<lambda>d.
            (case user of None \<Rightarrow> True | Some u \<Rightarrow> dg_user_id d = u) \<and>
            (case substitute of None \<Rightarrow> True | Some u \<Rightarrow> dg_substitute_user_id d = u) \<and>
            (include_ended \<or> dg_revoked_at d = None \<and>
              (case dg_valid_until d of None \<Rightarrow> True | Some u \<Rightarrow> env_now env < u)))
            (sort_key dg_id (db_delegations db))
      in (case limit of None \<Rightarrow> rows | Some n \<Rightarrow> take n (drop offset rows)))"

definition delegation_clash :: "int \<Rightarrow> instant \<Rightarrow> instant option \<Rightarrow> delegation_row \<Rightarrow> bool" where
  "delegation_clash user start fin d \<longleftrightarrow> dg_user_id d = user \<and> dg_revoked_at d = None \<and>
     (case dg_valid_until d of None \<Rightarrow> True | Some u \<Rightarrow> start < u) \<and>
     (case fin of None \<Rightarrow> True | Some e \<Rightarrow> dg_valid_from d < e)"

definition create_delegation ::
  "approval_env \<Rightarrow> int \<Rightarrow> int \<Rightarrow> datetime_arg \<Rightarrow> datetime_arg option \<Rightarrow> int \<Rightarrow> approval_db \<Rightarrow>
     (delegation_row \<times> approval_db) res" where
  "create_delegation env user substitute valid_from valid_until created_by db =
     (let start = naive_utc valid_from; fin = map_option naive_utc valid_until; z = db_znuny db in
      if substitute = user \<or> substitute = SYSTEM_USER_ID
      then Inl (ApprovalError forward_target_invalid 422)
      else if agent_valid z substitute \<noteq> Some 1 then Inl (ApprovalError forward_target_invalid 422)
      else if user = SYSTEM_USER_ID \<or> agent_valid z user \<noteq> Some 1
      then Inl (ApprovalError invalid_member 422)
      else if (case fin of None \<Rightarrow> False | Some e \<Rightarrow> e \<le> start)
      then Inl (ApprovalError invalid_definition 422)
      else if list_ex (delegation_clash user start fin) (db_delegations db)
      then Inl (ApprovalError delegation_overlap 409)
      else
        let row = \<lparr>dg_id = seq_delegation db, dg_user_id = user, dg_substitute_user_id = substitute,
              dg_valid_from = start, dg_valid_until = fin, dg_revoked_at = None,
              dg_created_by = created_by, dg_created_at = naive_utc (Naive (env_now env))\<rparr>
        in Inr (row, db\<lparr>db_delegations := db_delegations db @ [row], seq_delegation := seq_delegation db + 1\<rparr>))"

definition get_delegation :: "approval_db \<Rightarrow> int \<Rightarrow> delegation_row option" where
  "get_delegation db i = find (\<lambda>d. dg_id d = i) (db_delegations db)"

definition may_revoke_delegation :: "znuny_db \<Rightarrow> delegation_row \<Rightarrow> actor \<Rightarrow> bool" where
  "may_revoke_delegation z row act =
     (case a_principal act of
        None \<Rightarrow> True
      | Some p \<Rightarrow> (case p_user_id p of
          None \<Rightarrow> False
        | Some uid \<Rightarrow> p_kind p = Agent \<and> (uid = dg_user_id row \<or> is_admin z uid)))"

definition revoke_delegation :: "approval_env \<Rightarrow> int \<Rightarrow> actor \<Rightarrow> approval_db \<Rightarrow> approval_db res" where
  "revoke_delegation env i act db =
     (case get_delegation db i of
        None \<Rightarrow> Inl (ApprovalError delegation_not_active 403)
      | Some row \<Rightarrow>
         if \<not> may_revoke_delegation (db_znuny db) row act then Inl (ApprovalError forbidden 403)
         else if dg_revoked_at row \<noteq> None \<or>
                 (case dg_valid_until row of None \<Rightarrow> False | Some u \<Rightarrow> u \<le> env_now env)
         then Inl (ApprovalError delegation_not_active 403)
         else Inr (db\<lparr>db_delegations := upd_where (\<lambda>d. dg_id d = i)
                (\<lambda>d. d\<lparr>dg_revoked_at := Some (naive_utc (Naive (env_now env)))\<rparr>) (db_delegations db)\<rparr>))"

definition active_delegators :: "approval_db \<Rightarrow> int \<Rightarrow> instant \<Rightarrow> int set" where
  "active_delegators db substitute at = set (map dg_user_id
     (filter (\<lambda>d. dg_substitute_user_id d = substitute \<and> delegation_active at d) (db_delegations db)))"

text \<open>A dictionary: a delegator without a substitute has no entry.\<close>

definition active_substitutes :: "approval_db \<Rightarrow> int list \<Rightarrow> instant \<Rightarrow> int \<Rightarrow> int set option" where
  "active_substitutes db user_ids at user =
     (let subs = map dg_substitute_user_id
            (filter (\<lambda>d. dg_user_id d = user \<and> delegation_active at d) (db_delegations db))
      in if user \<in> set user_ids \<and> subs \<noteq> [] then Some (set subs) else None)"

section \<open>Subject types that stand still\<close>

definition subject_frozen :: "approval_env \<Rightarrow> approval_db \<Rightarrow> string \<Rightarrow> bool" where
  "subject_frozen env db key =
     (case env_subjects env key of
        None \<Rightarrow> False
      | Some sub \<Rightarrow> (case sub_available sub of None \<Rightarrow> False | Some available \<Rightarrow> \<not> available db))"

definition frozen_subject_types :: "approval_env \<Rightarrow> approval_db \<Rightarrow> string list \<Rightarrow> string set" where
  "frozen_subject_types env db keys = set (filter (subject_frozen env db) keys)"

definition require_subject_available :: "approval_env \<Rightarrow> approval_db \<Rightarrow> string \<Rightarrow> unit res" where
  "require_subject_available env db key =
     (if subject_frozen env db key then Inl (ApprovalError subject_unavailable 409) else Inr ())"

section \<open>Access\<close>

definition queue_id :: "znuny_db \<Rightarrow> int \<Rightarrow> int option" where
  "queue_id z t = map_option t_queue_id (find (\<lambda>r. t_id r = t) (z_tickets z))"

text \<open>The user id of an agent; customers and the system have none.\<close>

definition agent_of :: "actor \<Rightarrow> int option" where
  "agent_of act = (case a_principal act of
     None \<Rightarrow> None | Some p \<Rightarrow> if p_kind p = Agent then p_user_id p else None)"

definition agent_may :: "znuny_db \<Rightarrow> actor \<Rightarrow> int \<Rightarrow> string \<Rightarrow> bool" where
  "agent_may z act ticket perm =
     (case agent_of act of
        None \<Rightarrow> False
      | Some uid \<Rightarrow> (case queue_id z ticket of
          None \<Rightarrow> False | Some q \<Rightarrow> is_admin z uid \<or> check z uid q perm))"

definition can_cancel :: "approval_db \<Rightarrow> approval \<Rightarrow> actor \<Rightarrow> bool" where
  "can_cancel db a act =
     (if a_principal act = None then True
      else (case agent_of act of
              None \<Rightarrow> False
            | Some uid \<Rightarrow>
               if actor_key act = ap_requester a \<or> Some (actor_key act) = creator_key db a then True
               else if is_admin (db_znuny db) uid then True
               else (case queue_id (db_znuny db) (ap_ticket_id a) of
                       None \<Rightarrow> False | Some q \<Rightarrow> check (db_znuny db) uid q ''rw'')))"

definition can_refresh :: "approval_db \<Rightarrow> approval \<Rightarrow> actor \<Rightarrow> bool" where
  "can_refresh db a act =
     (if a_principal act = None then True else agent_may (db_znuny db) act (ap_ticket_id a) ''rw'')"

definition can_view :: "approval_env \<Rightarrow> approval_db \<Rightarrow> approval \<Rightarrow> actor \<Rightarrow> bool res" where
  "can_view env db a act =
     (case a_principal act of
        None \<Rightarrow> Inr True
      | Some p \<Rightarrow> res_bind (canonical_principal (db_znuny db) p) (\<lambda>c.
          let key = principal_key c;
              rows = filter (\<lambda>r. ar_approval_id r = ap_id a) (db_approvers db)
          in Inr (if p_kind p = Agent \<and>
                    (key = ap_requester a \<or> Some key = creator_key db a \<or>
                     agent_may (db_znuny db) act (ap_ticket_id a) ''ro'') then True
             else if list_ex (\<lambda>r. ar_principal r = key) rows then True
             else (case agent_of act of
                     None \<Rightarrow> False
                   | Some uid \<Rightarrow> list_ex (\<lambda>r. case ar_user_id r of None \<Rightarrow> False
                       | Some u \<Rightarrow> u \<in> active_delegators db uid (env_now env)) rows))))"

definition can_request :: "approval_db \<Rightarrow> int \<Rightarrow> actor \<Rightarrow> bool" where
  "can_request db ticket act = agent_may (db_znuny db) act ticket ''rw''"

definition ticket_link_allowed :: "approval_db \<Rightarrow> int \<Rightarrow> actor \<Rightarrow> bool" where
  "ticket_link_allowed db ticket act = agent_may (db_znuny db) act ticket ''ro''"

section \<open>Facts\<close>

text \<open>Two delegations of one delegator that are both in force share no instant.\<close>

definition no_overlap :: "delegation_row list \<Rightarrow> bool" where
  "no_overlap ds \<longleftrightarrow> (\<forall>d \<in> set ds. \<forall>d' \<in> set ds. \<forall>t.
     dg_user_id d = dg_user_id d' \<and> delegation_active t d \<and> delegation_active t d' \<longrightarrow> d = d')"

definition one_substitute :: "approval_db \<Rightarrow> bool" where
  "one_substitute db \<longleftrightarrow> no_overlap (db_delegations db)"

lemma create_delegation_no_overlap:
  assumes ok: "no_overlap (db_delegations db)"
    and new: "create_delegation env u s from till c db = Inr (row, db')"
  shows "no_overlap (db_delegations db')"
proof -
  from new have row: "db_delegations db' = db_delegations db @ [row]" "dg_user_id row = u"
    "dg_valid_from row = naive_utc from" "dg_valid_until row = map_option naive_utc till" "dg_revoked_at row = None"
    and free: "\<forall>d \<in> set (db_delegations db). \<not> delegation_clash u (naive_utc from) (map_option naive_utc till) d"
    by (auto simp: create_delegation_def Let_def list_ex_iff split: if_splits)
  have apart: False if "d \<in> set (db_delegations db)" "dg_user_id d = u" "delegation_active t d" "delegation_active t row" for d t
    using free that row by (fastforce simp: delegation_clash_def delegation_active_def split: option.splits)
  show ?thesis using ok apart row(1,2) unfolding no_overlap_def by fastforce
qed

lemma revoke_delegation_no_overlap:
  assumes "no_overlap (db_delegations db)" and revoke: "revoke_delegation env i act db = Inr db'"
  shows "no_overlap (db_delegations db')"
proof -
  from revoke have db': "db_delegations db' = upd_where (\<lambda>d. dg_id d = i)
      (\<lambda>d. d\<lparr>dg_revoked_at := Some (naive_utc (Naive (env_now env)))\<rparr>) (db_delegations db)"
    by (auto simp: revoke_delegation_def split: option.splits if_splits)
  have kept: "d \<in> set (db_delegations db)" if "d \<in> set (db_delegations db')" "delegation_active t d" for d t
    using that(1) unfolding db' by (cases rule: upd_whereE) (use that(2) in \<open>auto simp: delegation_active_def\<close>)
  show ?thesis unfolding no_overlap_def
  proof (intro ballI allI impI)
    fix d d' t assume d: "d \<in> set (db_delegations db')" "d' \<in> set (db_delegations db')"
      and same: "dg_user_id d = dg_user_id d' \<and> delegation_active t d \<and> delegation_active t d'"
    have old: "d \<in> set (db_delegations db)" "d' \<in> set (db_delegations db)"
      using kept [OF d(1), of t] kept [OF d(2), of t] same by simp_all
    show "d = d'" using assms(1) [unfolded no_overlap_def, rule_format, OF old, of t] same by simp
  qed
qed

text \<open>Delegations come and go through the two operations, each at its own instant.\<close>

inductive delegation_step :: "approval_db \<Rightarrow> approval_db \<Rightarrow> bool" where
  create: "create_delegation env u s from till c db = Inr (row, db') \<Longrightarrow> delegation_step db db'"
| revoke: "revoke_delegation env i act db = Inr db' \<Longrightarrow> delegation_step db db'"

lemma delegation_steps_no_overlap:
  "delegation_step\<^sup>*\<^sup>* db db' \<Longrightarrow> no_overlap (db_delegations db) \<Longrightarrow> no_overlap (db_delegations db')"
  by (induction rule: rtranclp_induct)
     (auto elim!: delegation_step.cases intro: create_delegation_no_overlap revoke_delegation_no_overlap)

text \<open>
  C25. An agent has at most one substitute at any instant: from a database without delegations, however
  they are created and revoked, whoever is found among the delegators of two substitutes at one instant
  is delegated to the same substitute, and the mail lookup of substitutes returns exactly that one.
\<close>

theorem one_substitute_at_a_time:
  assumes "delegation_step\<^sup>*\<^sup>* db0 db" and "db_delegations db0 = []"
    and "u \<in> active_delegators db s t" and "u \<in> active_delegators db s' t"
  shows "s = s' \<and> (u \<in> set ids \<longrightarrow> active_substitutes db ids t u = Some {s})"
proof -
  have no: "no_overlap (db_delegations db)"
    using delegation_steps_no_overlap [OF assms(1)] assms(2) by (simp add: no_overlap_def)
  from assms(3,4) obtain d d' where d: "d \<in> set (db_delegations db)" "dg_user_id d = u" "dg_substitute_user_id d = s"
      "delegation_active t d"
    and d': "d' \<in> set (db_delegations db)" "dg_user_id d' = u" "dg_substitute_user_id d' = s'" "delegation_active t d'"
    by (auto simp: active_delegators_def)
  have same: "x = d" if "x \<in> set (db_delegations db)" "dg_user_id x = u" "delegation_active t x" for x
    using no [unfolded no_overlap_def, rule_format, OF that(1) d(1), of t] d(2,4) that(2,3) by simp
  let ?mine = "filter (\<lambda>x. dg_user_id x = u \<and> delegation_active t x) (db_delegations db)"
  have "set ?mine = {d}"
  proof (intro equalityI subsetI)
    fix x assume "x \<in> set ?mine"
    then have "x \<in> set (db_delegations db)" "dg_user_id x = u" "delegation_active t x" by simp_all
    then show "x \<in> {d}" using same by simp
  qed (simp add: d)
  then have "set (map dg_substitute_user_id ?mine) = {s}" using d(3) by (simp only: set_map image_insert image_empty)
  moreover from this have "map dg_substitute_user_id ?mine \<noteq> []" by (metis empty_set insert_not_empty)
  ultimately have subs: "set (map dg_substitute_user_id ?mine) = {s}" "map dg_substitute_user_id ?mine \<noteq> []" .
  have "active_substitutes db ids t u = Some {s}" if "u \<in> set ids"
    unfolding active_substitutes_def Let_def subs(1) using that subs(2) by (simp only: simp_thms if_True)
  with same [OF d'(1,2,4)] d(3) d'(3) show ?thesis by simp
qed

definition delegated_db :: approval_db where
  "delegated_db = (case create_delegation example_env 7 9 (Naive 0) None 7 empty_db of Inr (_, db) \<Rightarrow> db | Inl _ \<Rightarrow> empty_db)"

theorem one_substitute_at_a_time_witness:
  "active_substitutes delegated_db [7] 5000000 7 = Some {9}"
proof -
  have "create_delegation example_env 7 9 (Naive 0) None 7 empty_db = Inr (hd (db_delegations delegated_db), delegated_db)"
    by code_simp
  then have "delegation_step\<^sup>*\<^sup>* empty_db delegated_db" by (intro r_into_rtranclp delegation_step.create)
  moreover have "db_delegations empty_db = []" by (simp add: empty_db_def)
  moreover have "7 \<in> active_delegators delegated_db 9 5000000" by code_simp
  ultimately show ?thesis using one_substitute_at_a_time [of empty_db delegated_db 7 9 5000000 9 "[7]"] by simp
qed

text \<open>
  Whoever may cancel a request may see it, as long as its ticket exists: requesters, creators,
  writers on the queue and administrators all pass \<open>can_view\<close>. (Without a ticket an administrator may
  still cancel, but no longer sees the request.)
\<close>

theorem cancel_implies_view:
  assumes "can_cancel db a act" and "queue_id (db_znuny db) (ap_ticket_id a) \<noteq> None"
    and "\<And>p. a_principal act = Some p \<Longrightarrow> principal_ok p"
  shows "can_view env db a act = Inr True"
proof (cases "a_principal act")
  case None
  then show ?thesis by (simp add: can_view_def)
next
  case (Some p)
  obtain uid where uid: "agent_of act = Some uid" using assms(1) Some by (auto simp: can_cancel_def split: option.splits)
  then have agent: "p_kind p = Agent" "p_user_id p = Some uid" using Some by (auto simp: agent_of_def split: if_splits)
  then have "p_login p = None" using assms(3) [OF Some] by (simp add: principal_ok_def)
  then have canon: "canonical_principal (db_znuny db) p = Inr p" by (simp add: canonical_principal_def)
  have key: "actor_key act = principal_key p" using Some by (simp add: actor_key_def)
  obtain q where q: "queue_id (db_znuny db) (ap_ticket_id a) = Some q" using assms(2) by blast
  have "principal_key p = ap_requester a \<or> Some (principal_key p) = creator_key db a \<or>
      is_admin (db_znuny db) uid \<or> check (db_znuny db) uid q ''rw''"
    using assms(1) Some uid q key by (auto simp: can_cancel_def split: if_splits)
  then have "principal_key p = ap_requester a \<or> Some (principal_key p) = creator_key db a \<or>
      agent_may (db_znuny db) act (ap_ticket_id a) ''ro''"
    using permissions.writer_reads [of "db_znuny db" uid q] uid q by (auto simp: agent_may_def)
  then show ?thesis using Some canon agent by (simp add: can_view_def Let_def)
qed

theorem cancel_implies_view_witness:
  "can_view example_env open_db (hd (db_approvals open_db)) \<lparr>a_principal = Some \<lparr>p_kind = Agent, p_user_id = Some 7,
     p_login = None\<rparr>, a_write_user_id = 7\<rparr> = Inr True"
proof -
  let ?act = "\<lparr>a_principal = Some \<lparr>p_kind = Agent, p_user_id = Some 7, p_login = None\<rparr>, a_write_user_id = 7\<rparr>"
  have "can_cancel open_db (hd (db_approvals open_db)) ?act" by code_simp
  moreover have "queue_id (db_znuny open_db) (ap_ticket_id (hd (db_approvals open_db))) = Some 20" by code_simp
  ultimately show ?thesis using cancel_implies_view [of open_db "hd (db_approvals open_db)" ?act example_env]
    by (simp add: principal_ok_def)
qed

end
