(* ===== verification/Approval_Templates.thy ===== *)
theory Approval_Templates
  imports Approval_Resolve
begin

text \<open>
  \<open>approvals/lists.py\<close> and \<open>templates.py\<close>: the named approver lists and the stored definitions, with
  the checks of what a definition points at. The registry is \<open>env_subjects\<close>/\<open>env_resolvers\<close>. A row is
  inserted in a savepoint; transactions are serial here, so a key found free stays free. The theorems:
  the reference check accepts exactly the definitions whose entries are well formed, names and keys stay
  unique, seeding a template twice changes nothing, a list in use is not deleted.
\<close>

section \<open>Approver lists\<close>

record approval_list_info =
  li_id :: int
  li_name :: string
  li_description :: "string option"
  li_valid :: bool
  li_members :: "int list"

definition clean_text :: "nat \<Rightarrow> string \<Rightarrow> string res" where
  "clean_text maximum raw =
     (let t = strip (replace_non_bmp raw) in
      if t = [] \<or> maximum < length t then Inl (ApprovalError invalid_definition 422) else Inr t)"

definition clean_list_name :: "string \<Rightarrow> string res" where
  "clean_list_name = clean_text 190"

definition valid_agent_ids :: "znuny_db \<Rightarrow> int list \<Rightarrow> int set" where
  "valid_agent_ids z ids =
     set (map u_id (filter (\<lambda>u. u_valid_id u = 1 \<and> u_id u \<in> set ids) (z_users z)))"

definition check_members :: "znuny_db \<Rightarrow> int list \<Rightarrow> int list res" where
  "check_members z ids =
     (let ordered = sort (remdups ids) in
      if list_all (\<lambda>i. i \<in> valid_agent_ids z ordered) ordered then Inr ordered
      else Inl (ApprovalError invalid_member 422))"

definition name_taken :: "approval_db \<Rightarrow> string \<Rightarrow> int option \<Rightarrow> bool" where
  "name_taken db name except =
     list_ex (\<lambda>l. al_name l = name \<and> (case except of None \<Rightarrow> True | Some i \<Rightarrow> al_id l \<noteq> i)) (db_lists db)"

definition get_approver_list :: "approval_db \<Rightarrow> int \<Rightarrow> approver_list_row option" where
  "get_approver_list db i = find (\<lambda>l. al_id l = i) (db_lists db)"

definition list_info :: "approver_list_row \<Rightarrow> int list \<Rightarrow> approval_list_info" where
  "list_info l members = \<lparr>li_id = al_id l, li_name = al_name l, li_description = al_description l,
     li_valid = al_valid l, li_members = members\<rparr>"

definition get_list :: "approval_db \<Rightarrow> int \<Rightarrow> approval_list_info res" where
  "get_list db i = (case get_approver_list db i of
     None \<Rightarrow> Inl (ApprovalError list_not_found 404)
   | Some l \<Rightarrow> Inr (list_info l (list_member_ids db i)))"

definition list_lists :: "approval_db \<Rightarrow> bool \<Rightarrow> approval_list_info list" where
  "list_lists db include_invalid =
     map (\<lambda>l. list_info l (list_member_ids db (al_id l)))
       (filter (\<lambda>l. include_invalid \<or> al_valid l) (sort_key al_name (sort_key al_id (db_lists db))))"

text \<open>The unique key on the name refuses the row.\<close>

definition insert_list :: "approver_list_row \<Rightarrow> approval_db \<Rightarrow> approval_db option" where
  "insert_list l db = (if name_taken db (al_name l) None then None
     else Some (db\<lparr>db_lists := db_lists db @ [l], seq_list := seq_list db + 1\<rparr>))"

definition add_members :: "int \<Rightarrow> int list \<Rightarrow> approval_db \<Rightarrow> approval_db" where
  "add_members i members db = db\<lparr>db_list_members := db_list_members db @
     map (\<lambda>u. \<lparr>lm_list_id = i, lm_user_id = u\<rparr>) members\<rparr>"

definition create_list ::
  "approval_env \<Rightarrow> string \<Rightarrow> string option \<Rightarrow> int list \<Rightarrow> int \<Rightarrow> approval_db \<Rightarrow>
     (approval_list_info \<times> approval_db) res" where
  "create_list env name description members actor db =
     res_bind (clean_list_name name) (\<lambda>name.
     res_bind (check_members (db_znuny db) members) (\<lambda>members.
       if name_taken db name None then Inl (ApprovalError list_name_taken 409)
       else
         let l = \<lparr>al_id = seq_list db, al_name = name, al_description = map_option replace_non_bmp description,
               al_valid = True, al_create_time = env_now env, al_create_by = actor,
               al_change_time = env_now env, al_change_by = actor\<rparr>
         in (case insert_list l db of
               None \<Rightarrow> Inl (ApprovalError list_name_taken 409)
             | Some db' \<Rightarrow> Inr (list_info l members, add_members (al_id l) members db'))))"

text \<open>The optional arguments of \<open>update_list\<close>.\<close>

record list_changes =
  lc_name :: "string option"
  lc_description :: "string option"
  lc_clear_description :: bool
  lc_members :: "int list option"
  lc_valid :: "bool option"

definition update_list_row ::
  "approval_env \<Rightarrow> list_changes \<Rightarrow> string option \<Rightarrow> int \<Rightarrow> approver_list_row \<Rightarrow> approver_list_row" where
  "update_list_row env c name actor l =
     l\<lparr>al_name := (case name of None \<Rightarrow> al_name l | Some n \<Rightarrow> n),
       al_description := (if lc_clear_description c then None
          else case lc_description c of None \<Rightarrow> al_description l | Some d \<Rightarrow> Some (replace_non_bmp d)),
       al_valid := (case lc_valid c of None \<Rightarrow> al_valid l | Some v \<Rightarrow> v),
       al_change_time := env_now env, al_change_by := actor\<rparr>"

definition cleaned_name :: "approval_db \<Rightarrow> approver_list_row \<Rightarrow> string option \<Rightarrow> string option res" where
  "cleaned_name db l name =
     (case name of
        None \<Rightarrow> Inr None
      | Some raw \<Rightarrow> res_bind (clean_list_name raw) (\<lambda>n.
          if n \<noteq> al_name l \<and> name_taken db n (Some (al_id l))
          then Inl (ApprovalError list_name_taken 409) else Inr (Some n)))"

definition replaced_members :: "znuny_db \<Rightarrow> int list option \<Rightarrow> int list option res" where
  "replaced_members z ids =
     (case ids of None \<Rightarrow> Inr None | Some is' \<Rightarrow> res_bind (check_members z is') (\<lambda>ms. Inr (Some ms)))"

definition update_list ::
  "approval_env \<Rightarrow> int \<Rightarrow> int \<Rightarrow> list_changes \<Rightarrow> approval_db \<Rightarrow> (approval_list_info \<times> approval_db) res" where
  "update_list env i actor c db =
     (case get_approver_list db i of
        None \<Rightarrow> Inl (ApprovalError list_not_found 404)
      | Some l \<Rightarrow>
         res_bind (cleaned_name db l (lc_name c)) (\<lambda>name.
         res_bind (replaced_members (db_znuny db) (lc_members c)) (\<lambda>members.
           let l' = update_list_row env c name actor l;
               db1 = (case members of
                        None \<Rightarrow> db
                      | Some ms \<Rightarrow> add_members i ms
                          (db\<lparr>db_list_members := filter (\<lambda>m. lm_list_id m \<noteq> i) (db_list_members db)\<rparr>));
               db2 = db1\<lparr>db_lists := upd_where (\<lambda>x. al_id x = i) (update_list_row env c name actor) (db_lists db1)\<rparr>
           in Inr (list_info l' (list_member_ids db2 i), db2))))"

text \<open>All entries of a definition, step by step: approvers, then escalation.\<close>

definition all_entries :: "approval_definition \<Rightarrow> approver_entry list" where
  "all_entries d = concat (map (\<lambda>s. sp_approvers s @ sp_escalation s) (d_steps d))"

definition definition_list_refs :: "approval_definition \<Rightarrow> int set" where
  "definition_list_refs d =
     set (List.map_filter (\<lambda>e. if e_kind e = E_list then int_ref (e_ref e) else None) (all_entries d))"

definition templates_using_list :: "approval_db \<Rightarrow> int \<Rightarrow> string list" where
  "templates_using_list db i =
     sort (map tp_key (filter (\<lambda>t. case tp_definition t of
        None \<Rightarrow> False | Some d \<Rightarrow> i \<in> definition_list_refs d) (db_templates db)))"

definition delete_list :: "int \<Rightarrow> approval_db \<Rightarrow> approval_db res" where
  "delete_list i db =
     (if get_approver_list db i = None then Inl (ApprovalError list_not_found 404)
      else if templates_using_list db i \<noteq> [] then Inl (ApprovalError list_in_use 409)
      else Inr (db\<lparr>db_list_members := filter (\<lambda>m. lm_list_id m \<noteq> i) (db_list_members db),
             db_lists := filter (\<lambda>l. al_id l \<noteq> i) (db_lists db)\<rparr>))"

section \<open>What a definition points at\<close>

definition kind_text :: "entry_kind \<Rightarrow> string" where
  "kind_text k = (case k of E_user \<Rightarrow> ''user'' | E_group \<Rightarrow> ''group'' | E_role \<Rightarrow> ''role''
     | E_list \<Rightarrow> ''list'' | E_customer_user \<Rightarrow> ''customer_user'' | E_resolver \<Rightarrow> ''resolver'')"

definition entry_errors :: "approval_env \<Rightarrow> bool \<Rightarrow> approver_entry \<Rightarrow> string list" where
  "entry_errors env customers_allowed e =
     (case e_kind e of
        E_resolver \<Rightarrow>
          (case env_resolvers env (e_ref e) of
             None \<Rightarrow> [''unknown_resolver:'' @ e_ref e]
           | Some r \<Rightarrow> if rs_yields_customers r \<and> \<not> customers_allowed
                       then [''customer_entry_not_allowed''] else [])
      | E_customer_user \<Rightarrow> if \<not> customers_allowed then [''customer_entry_not_allowed''] else []
      | k \<Rightarrow> (case int_ref (e_ref e) of
                None \<Rightarrow> [''invalid_ref:'' @ kind_text k @ '':'' @ e_ref e] | Some _ \<Rightarrow> []))"

text \<open>The ids of one kind a definition names.\<close>

definition wanted_ids :: "entry_kind \<Rightarrow> approver_entry list \<Rightarrow> int list" where
  "wanted_ids k entries =
     sort (remdups (List.map_filter (\<lambda>e. if e_kind e = k then int_ref (e_ref e) else None) entries))"

definition present_ids :: "approval_db \<Rightarrow> entry_kind \<Rightarrow> int set" where
  "present_ids db k = (let z = db_znuny db in case k of
     E_user \<Rightarrow> set (map u_id (filter (\<lambda>u. u_valid_id u = 1) (z_users z)))
   | E_group \<Rightarrow> set (map g_id (filter (\<lambda>g. g_valid_id g = 1) (z_groups z)))
   | E_role \<Rightarrow> set (map r_id (filter (\<lambda>r. r_valid_id r = 1) (z_roles z)))
   | E_list \<Rightarrow> set (map al_id (filter al_valid (db_lists db)))
   | _ \<Rightarrow> {})"

record ref_check =
  rf_errors :: "string list"
  rf_warnings :: "string list"

definition validate_definition_refs ::
  "approval_env \<Rightarrow> approval_db \<Rightarrow> approval_definition \<Rightarrow> string list \<Rightarrow> ref_check" where
  "validate_definition_refs env db d subject_types =
     (let customers_allowed = \<not> list_ex (\<lambda>k. case env_subjects env k of
            None \<Rightarrow> False | Some sub \<Rightarrow> \<not> sub_allow_customer_approvers sub) subject_types;
          entries = all_entries d;
          logins = sort (remdups (map e_ref (filter (\<lambda>e. e_kind e = E_customer_user) entries)));
          have = map cu_login (filter (\<lambda>c. cu_valid_id c = 1) (z_customer_users (db_znuny db)))
      in \<lparr>rf_errors = sort (remdups (concat (map (entry_errors env customers_allowed) entries))),
          rf_warnings =
            concat (map (\<lambda>k. map (\<lambda>i. ''missing_'' @ kind_text k @ '':'' @ str_int i)
                (filter (\<lambda>i. i \<notin> present_ids db k) (wanted_ids k entries))) [E_user, E_group, E_role, E_list])
            @ map (\<lambda>l. ''missing_customer:'' @ l) (filter (\<lambda>l. l \<notin> set have) logins)\<rparr>)"

section \<open>Templates\<close>

record template_view =
  ti_id :: int
  ti_key :: string
  ti_name :: string
  ti_description :: "string option"
  ti_subject_types :: "string list"
  ti_definition :: approval_definition
  ti_origin :: string
  ti_valid :: bool
  ti_change_time :: instant

text \<open>\<open>_row\<close>: an unreadable definition raises\<close>

definition template_info :: "template_row \<Rightarrow> template_view res" where
  "template_info t = (case tp_definition t of
     None \<Rightarrow> Inl ValueError
   | Some d \<Rightarrow> Inr \<lparr>ti_id = tp_id t, ti_key = tp_key t, ti_name = tp_name t,
       ti_description = tp_description t, ti_subject_types = tp_subject_types t, ti_definition = d,
       ti_origin = tp_origin t, ti_valid = tp_valid t, ti_change_time = trunc_sec (tp_change_time t)\<rparr>)"

definition check_subject_types :: "approval_env \<Rightarrow> string list \<Rightarrow> string list res" where
  "check_subject_types env types =
     (let ordered = sort (remdups types) in
      if list_ex (\<lambda>k. env_subjects env k = None) ordered
      then Inl (ApprovalError unknown_subject_type 422) else Inr ordered)"

text \<open>A definition given as a model instance, or as raw JSON that the model still has to accept.\<close>

datatype definition_arg = Instance approval_definition | Raw approval_definition

fun parse_definition :: "definition_arg \<Rightarrow> approval_definition res" where
  "parse_definition (Instance d) = Inr d"
| "parse_definition (Raw d) =
     (if approval_definition_ok d then Inr d else Inl (ApprovalError invalid_definition 422))"

definition find_template :: "approval_db \<Rightarrow> string \<Rightarrow> template_row option" where
  "find_template db key = find (\<lambda>t. tp_key t = replace_non_bmp key) (db_templates db)"

definition clean_key :: "string \<Rightarrow> string res" where
  "clean_key = clean_text 100"

definition clean_template_name :: "string \<Rightarrow> string res" where
  "clean_template_name = clean_text 200"

definition get_template_row :: "approval_db \<Rightarrow> int \<Rightarrow> template_row option" where
  "get_template_row db i = find (\<lambda>t. tp_id t = i) (db_templates db)"

definition get_template :: "approval_db \<Rightarrow> int \<Rightarrow> template_view res" where
  "get_template db i = (case get_template_row db i of
     None \<Rightarrow> Inl (ApprovalError template_not_found 404) | Some t \<Rightarrow> template_info t)"

definition get_template_by_key :: "approval_db \<Rightarrow> string \<Rightarrow> template_view res" where
  "get_template_by_key db key = (case find_template db key of
     None \<Rightarrow> Inl (ApprovalError template_not_found 404) | Some t \<Rightarrow> template_info t)"

definition list_templates :: "approval_db \<Rightarrow> string option \<Rightarrow> bool \<Rightarrow> template_view list" where
  "list_templates db subject_type include_invalid =
     (let rows = List.map_filter (\<lambda>t. case template_info t of Inl _ \<Rightarrow> None | Inr i \<Rightarrow> Some i)
            (filter (\<lambda>t. include_invalid \<or> tp_valid t) (sort_key tp_name (sort_key tp_id (db_templates db))))
      in (case subject_type of
            None \<Rightarrow> rows
          | Some k \<Rightarrow> filter (\<lambda>r. ti_subject_types r = [] \<or> k \<in> set (ti_subject_types r)) rows))"

text \<open>\<open>_insert\<close>: the unique key on \<open>template_key\<close>; \<open>None\<close> when it is taken\<close>

definition insert_template :: "template_row \<Rightarrow> approval_db \<Rightarrow> approval_db option" where
  "insert_template t db = (if list_ex (\<lambda>x. tp_key x = tp_key t) (db_templates db) then None
     else Some (db\<lparr>db_templates := db_templates db @ [t], seq_template := seq_template db + 1\<rparr>))"

definition create_template ::
  "approval_env \<Rightarrow> string \<Rightarrow> string \<Rightarrow> definition_arg \<Rightarrow> string list \<Rightarrow> string option \<Rightarrow> int \<Rightarrow> approval_db \<Rightarrow>
     (template_view \<times> approval_db) res" where
  "create_template env key name darg types description actor db =
     res_bind (clean_key key) (\<lambda>key.
     res_bind (clean_template_name name) (\<lambda>name.
     res_bind (check_subject_types env types) (\<lambda>types.
     res_bind (parse_definition darg) (\<lambda>d.
       if rf_errors (validate_definition_refs env db d types) \<noteq> []
       then Inl (ApprovalError invalid_definition 422)
       else if find_template db key \<noteq> None then Inl (ApprovalError template_key_taken 409)
       else
         let now = trunc_sec (env_now env);
             t = \<lparr>tp_id = seq_template db, tp_key = key, tp_name = name,
               tp_description = map_option replace_non_bmp description, tp_subject_types = types,
               tp_definition = Some d, tp_origin = ''admin'', tp_valid = True, tp_create_time = now,
               tp_create_by = actor, tp_change_time = now, tp_change_by = actor\<rparr>
         in (case insert_template t db of
               None \<Rightarrow> Inl (ApprovalError template_key_taken 409)
             | Some db' \<Rightarrow> res_bind (template_info t) (\<lambda>i. Inr (i, db')))))))"

record template_changes =
  tc_name :: "string option"
  tc_description :: "string option"
  tc_definition :: "definition_arg option"
  tc_clear_description :: bool
  tc_subject_types :: "string list option"
  tc_valid :: "bool option"
  tc_expected :: "instant option"

definition update_template_row ::
  "approval_env \<Rightarrow> template_changes \<Rightarrow> string option \<Rightarrow> string list \<Rightarrow> approval_definition \<Rightarrow> int \<Rightarrow>
     template_row \<Rightarrow> template_row" where
  "update_template_row env c name types d actor t =
     t\<lparr>tp_name := (case name of None \<Rightarrow> tp_name t | Some n \<Rightarrow> n),
       tp_description := (if tc_clear_description c then None
          else case tc_description c of None \<Rightarrow> tp_description t | Some x \<Rightarrow> Some (replace_non_bmp x)),
       tp_valid := (case tc_valid c of None \<Rightarrow> tp_valid t | Some v \<Rightarrow> v),
       tp_subject_types := sort (remdups types), tp_definition := Some d,
       tp_change_time := trunc_sec (env_now env), tp_change_by := actor\<rparr>"

definition update_template ::
  "approval_env \<Rightarrow> int \<Rightarrow> int \<Rightarrow> template_changes \<Rightarrow> approval_db \<Rightarrow> (template_view \<times> approval_db) res" where
  "update_template env i actor c db =
     (case get_template_row db i of
        None \<Rightarrow> Inl (ApprovalError template_not_found 404)
      | Some t \<Rightarrow> res_bind (template_info t) (\<lambda>current.
         if (case tc_expected c of None \<Rightarrow> False | Some e \<Rightarrow> trunc_sec e \<noteq> ti_change_time current)
         then Inl (ApprovalError template_changed 409)
         else
         res_bind (case tc_subject_types c of None \<Rightarrow> Inr (ti_subject_types current)
                     | Some ts \<Rightarrow> check_subject_types env ts) (\<lambda>types.
         res_bind (case tc_definition c of None \<Rightarrow> Inr (ti_definition current)
                     | Some darg \<Rightarrow> parse_definition darg) (\<lambda>d.
           if (tc_definition c \<noteq> None \<or> tc_subject_types c \<noteq> None) \<and>
              rf_errors (validate_definition_refs env db d types) \<noteq> []
           then Inl (ApprovalError invalid_definition 422)
           else
           res_bind (case tc_name c of None \<Rightarrow> Inr None
                       | Some raw \<Rightarrow> res_bind (clean_template_name raw) (\<lambda>n. Inr (Some n))) (\<lambda>name.
             res_bind (template_info (update_template_row env c name types d actor t)) (\<lambda>info.
               Inr (info, db\<lparr>db_templates := upd_where (\<lambda>x. tp_id x = i)
                 (update_template_row env c name types d actor) (db_templates db)\<rparr>)))))))"

text \<open>Deleting a template empties the reference of the requests made from it.\<close>

definition delete_template :: "int \<Rightarrow> approval_db \<Rightarrow> approval_db res" where
  "delete_template i db =
     (if get_template_row db i = None then Inl (ApprovalError template_not_found 404)
      else Inr (db\<lparr>db_templates := filter (\<lambda>t. tp_id t \<noteq> i) (db_templates db),
             db_approvals := upd_where (\<lambda>a. ap_template_id a = Some i)
               (\<lambda>a. a\<lparr>ap_template_id := None\<rparr>) (db_approvals db)\<rparr>))"

definition ORIGIN_MAX :: nat where "ORIGIN_MAX = 16"

definition ensure_template ::
  "approval_env \<Rightarrow> string \<Rightarrow> string \<Rightarrow> approval_definition \<Rightarrow> string \<Rightarrow> string list \<Rightarrow> string option \<Rightarrow>
     approval_db \<Rightarrow> (template_view \<times> approval_db) res" where
  "ensure_template env key name d origin types description db =
     res_bind (clean_key key) (\<lambda>key.
       if origin = [] \<or> ORIGIN_MAX < length origin then Inl (ApprovalError invalid_definition 422)
       else (case find_template db key of
           Some t \<Rightarrow> res_bind (template_info t) (\<lambda>i. Inr (i, db))
         | None \<Rightarrow>
            res_bind (clean_template_name name) (\<lambda>name.
              let now = trunc_sec (env_now env);
                  t = \<lparr>tp_id = seq_template db, tp_key = key, tp_name = name,
                    tp_description = map_option replace_non_bmp description,
                    tp_subject_types = sort (remdups types), tp_definition = Some d, tp_origin = origin,
                    tp_valid = True, tp_create_time = now, tp_create_by = 1, tp_change_time = now,
                    tp_change_by = 1\<rparr>
              in (case insert_template t db of
                    Some db' \<Rightarrow> res_bind (template_info t) (\<lambda>i. Inr (i, db'))
                  | None \<Rightarrow> (case find_template db key of
                        None \<Rightarrow> Inl (ApprovalError template_key_taken 409)
                      | Some w \<Rightarrow> res_bind (template_info w) (\<lambda>i. Inr (i, db)))))))"

section \<open>Facts\<close>

lemma template_info_Inr: "template_info t = Inr i \<Longrightarrow> tp_definition t = Some (ti_definition i)"
  by (auto simp: template_info_def split: option.splits)

lemma find_template_inserted:
  assumes "insert_template t db = Some db'"
  shows "find_template db' (tp_key t) = Some t \<and> db_templates db' = db_templates db @ [t]"
proof -
  have none: "find (\<lambda>x. tp_key x = tp_key t) (db_templates db) = None"
    using assms by (auto simp: insert_template_def list_ex_iff find_None_iff split: if_splits)
  have "find p (xs @ ys) = (case find p xs of None \<Rightarrow> find p ys | Some x \<Rightarrow> Some x)" for p :: "template_row \<Rightarrow> bool" and xs ys
    by (induction xs) auto
  with none assms show ?thesis by (auto simp: insert_template_def find_template_def split: if_splits)
qed

text \<open>
  Seeding never overwrites: after \<open>ensure_template\<close> returned a template, calling it again for the
  same key, whatever the other arguments, returns that same template and changes nothing.
\<close>

theorem ensure_template_idempotent:
  assumes first: "ensure_template env key name d origin types description db = Inr (i, db')"
    and origin: "origin' \<noteq> []" "length origin' \<le> ORIGIN_MAX"
  shows "ensure_template env' key name' d' origin' types' description' db' = Inr (i, db')"
proof -
  from first obtain k where k: "clean_key key = Inr k" by (auto simp: ensure_template_def res_bind_Inr_iff)
  have "\<exists>t. find_template db' k = Some t \<and> template_info t = Inr i"
  proof (cases "find_template db k")
    case (Some t)
    with first k show ?thesis by (auto simp: ensure_template_def res_bind_Inr_iff split: if_splits)
  next
    case None
    from first k None obtain n where n: "clean_template_name name = Inr n"
      by (auto simp: ensure_template_def res_bind_Inr_iff Let_def split: if_splits)
    define t where "t = \<lparr>tp_id = seq_template db, tp_key = k, tp_name = n,
      tp_description = map_option replace_non_bmp description, tp_subject_types = sort (remdups types),
      tp_definition = Some d, tp_origin = origin, tp_valid = True, tp_create_time = trunc_sec (env_now env),
      tp_create_by = 1, tp_change_time = trunc_sec (env_now env), tp_change_by = 1\<rparr>"
    have "tp_key t = k" by (simp add: t_def)
    have "insert_template t db = Some db' \<and> template_info t = Inr i"
      using first k None n
      by (cases "insert_template t db")
         (auto simp: ensure_template_def Let_def t_def [symmetric] res_bind_Inr_iff split: if_splits)
    with find_template_inserted [of t db db'] \<open>tp_key t = k\<close> show ?thesis by auto
  qed
  with k origin show ?thesis by (auto simp: ensure_template_def)
qed

definition seed_definition :: approval_definition where
  "seed_definition = \<lparr>d_steps = [\<lparr>sp_name = ''lead'', sp_stage = 1, sp_rule = R_any, sp_quorum = None,
     sp_approvers = [\<lparr>e_kind = E_list, e_ref = ''4''\<rparr>], sp_due_hours = None, sp_on_timeout = OT_notify,
     sp_escalation = [], sp_on_no_approver = NA_reject, sp_allow_delegation = True, sp_allow_email = True\<rparr>]\<rparr>"

definition seeded_row :: template_row where
  "seeded_row = \<lparr>tp_id = 1, tp_key = ''std'', tp_name = ''Standard'', tp_description = None,
     tp_subject_types = [''ticket''], tp_definition = Some seed_definition, tp_origin = ''itsm'', tp_valid = True,
     tp_create_time = 1000000000, tp_create_by = 1, tp_change_time = 1000000000, tp_change_by = 1\<rparr>"

definition seeded_db :: approval_db where
  "seeded_db = empty_db\<lparr>db_templates := [seeded_row], seq_template := 2\<rparr>"

definition seeded_info :: template_view where
  "seeded_info = \<lparr>ti_id = 1, ti_key = ''std'', ti_name = ''Standard'', ti_description = None,
     ti_subject_types = [''ticket''], ti_definition = seed_definition, ti_origin = ''itsm'', ti_valid = True,
     ti_change_time = 1000000000\<rparr>"

lemma clean_ascii_key: "clean_key ''std'' = Inr ''std''" "clean_template_name ''Standard'' = Inr ''Standard''"
  by (simp_all add: clean_key_def clean_template_name_def clean_text_def strip_def is_space_def)

lemma seeded_eval:
  "ensure_template example_env ''std'' ''Standard'' seed_definition ''itsm'' [''ticket''] None empty_db =
     Inr (seeded_info, seeded_db)"
  by (simp add: ensure_template_def clean_ascii_key find_template_def empty_db_def insert_template_def
      template_info_def ORIGIN_MAX_def example_env_def trunc_sec_def usec_per_second_def seeded_db_def
      seeded_row_def seeded_info_def)

theorem ensure_template_idempotent_witness:
  "ensure_template example_env ''std'' ''Other'' seed_definition ''core'' [] None seeded_db =
     Inr (seeded_info, seeded_db)"
  by (rule ensure_template_idempotent [OF seeded_eval]) (simp_all add: ORIGIN_MAX_def)

text \<open>Lists have distinct names and ids, and every member was a valid agent.\<close>

definition lists_ok :: "approval_db \<Rightarrow> bool" where
  "lists_ok db \<longleftrightarrow> distinct (map al_name (db_lists db)) \<and> distinct (map al_id (db_lists db)) \<and>
     (\<forall>l \<in> set (db_lists db). al_id l < seq_list db) \<and>
     (\<forall>m \<in> set (db_list_members db). lm_list_id m < seq_list db \<and> user_is_valid (db_znuny db) (lm_user_id m))"

lemma check_members_valid:
  assumes "check_members z ids = Inr ms"
  shows "set ms = set ids" "sorted ms" "distinct ms" "\<forall>u \<in> set ms. user_is_valid z u"
proof -
  from assms have ms: "ms = sort (remdups ids)" "\<forall>u \<in> set ms. u \<in> valid_agent_ids z ms"
    by (auto simp: check_members_def Let_def list_all_iff split: if_splits)
  then show "set ms = set ids" "sorted ms" "distinct ms" by simp_all
  show "\<forall>u \<in> set ms. user_is_valid z u"
    using ms(2) by (auto simp: valid_agent_ids_def user_is_valid_def list_ex_iff)
qed

lemma create_list_ok:
  assumes ok: "lists_ok db" and new: "create_list env name desc members actor db = Inr (i, db')"
  shows "lists_ok db'"
proof -
  from new obtain n ms where n: "check_members (db_znuny db) members = Inr ms" "\<not> name_taken db n None"
    and db': "db_lists db' = db_lists db @ [\<lparr>al_id = seq_list db, al_name = n,
        al_description = map_option replace_non_bmp desc, al_valid = True, al_create_time = env_now env,
        al_create_by = actor, al_change_time = env_now env, al_change_by = actor\<rparr>]"
      "seq_list db' = seq_list db + 1" "db_znuny db' = db_znuny db"
      "db_list_members db' = db_list_members db @ map (\<lambda>u. \<lparr>lm_list_id = seq_list db, lm_user_id = u\<rparr>) ms"
    by (auto simp: create_list_def res_bind_Inr_iff Let_def insert_list_def add_members_def split: if_splits)
  have "n \<notin> al_name ` set (db_lists db)" using n(2) by (auto simp: name_taken_def list_ex_iff)
  moreover have "seq_list db \<notin> al_id ` set (db_lists db)" using ok by (auto simp: lists_ok_def)
  ultimately show ?thesis using ok check_members_valid(4) [OF n(1)] unfolding lists_ok_def db' by (auto simp: ball_Un)
qed

lemma update_list_ok:
  assumes ok: "lists_ok db" and upd: "update_list env i actor c db = Inr (info, db')"
  shows "lists_ok db'"
proof -
  from upd obtain l where l: "get_approver_list db i = Some l" by (auto simp: update_list_def split: option.splits)
  from upd l obtain name members where name: "cleaned_name db l (lc_name c) = Inr name"
    and members: "replaced_members (db_znuny db) (lc_members c) = Inr members"
    by (auto simp: update_list_def res_bind_Inr_iff)
  with upd l have db': "db_lists db' = upd_where (\<lambda>x. al_id x = i) (update_list_row env c name actor) (db_lists db)"
      "db_list_members db' = (case members of None \<Rightarrow> db_list_members db | Some ms \<Rightarrow>
         filter (\<lambda>m. lm_list_id m \<noteq> i) (db_list_members db) @ map (\<lambda>u. \<lparr>lm_list_id = i, lm_user_id = u\<rparr>) ms)"
      "seq_list db' = seq_list db" "db_znuny db' = db_znuny db"
    by (cases members; auto simp: update_list_def Let_def add_members_def)+
  have row: "l \<in> set (db_lists db)" "al_id l = i" using l find_SomeD by (fastforce simp: get_approver_list_def)+
  let ?f = "update_list_row env c name actor"
  have ids: "map al_id (db_lists db') = map al_id (db_lists db)" unfolding db'
    by (rule map_upd_where) (simp add: update_list_row_def)
  have only: "x = l" if "x \<in> set (db_lists db)" "al_id x = i" for x
    using ok row that by (auto simp: lists_ok_def distinct_map inj_on_def)
  have fresh: "al_name (?f l) \<noteq> al_name x" if "x \<in> set (db_lists db)" "al_id x \<noteq> i" for x
  proof (cases name)
    case None
    then have "al_name (?f l) = al_name l" by (simp add: update_list_row_def)
    with ok row that show ?thesis by (auto simp: lists_ok_def distinct_map inj_on_def)
  next
    case (Some n)
    then have "al_name (?f l) = n" by (simp add: update_list_row_def)
    moreover from name Some have "n = al_name l \<or> \<not> name_taken db n (Some i)"
      using row by (auto simp: cleaned_name_def res_bind_Inr_iff split: option.splits if_splits)
    ultimately show ?thesis using ok row that
      by (auto simp: lists_ok_def distinct_map inj_on_def name_taken_def list_ex_iff)
  qed
  have "inj_on al_name (set (db_lists db'))"
  proof (rule inj_onI)
    fix x y assume xy: "x \<in> set (db_lists db')" "y \<in> set (db_lists db')" "al_name x = al_name y"
    have cases: "z = ?f l \<or> z \<in> set (db_lists db) \<and> al_id z \<noteq> i" if "z \<in> set (db_lists db')" for z
      using that only unfolding db' by (elim upd_whereE) auto
    show "x = y"
      using cases [OF xy(1)]
    proof
      assume x: "x = ?f l"
      show ?thesis using cases [OF xy(2)] fresh [of y] xy(3) x by auto
    next
      assume x: "x \<in> set (db_lists db) \<and> al_id x \<noteq> i"
      show ?thesis using cases [OF xy(2)]
      proof
        assume "y = ?f l"
        with fresh [of x] x xy(3) show ?thesis by simp
      next
        assume "y \<in> set (db_lists db) \<and> al_id y \<noteq> i"
        with ok x xy(3) show ?thesis by (simp add: lists_ok_def distinct_map inj_on_def)
      qed
    qed
  qed
  moreover have "distinct (db_lists db')" using ok ids by (metis distinct_map lists_ok_def)
  ultimately have "distinct (map al_name (db_lists db'))" by (simp add: distinct_map)
  moreover have "\<forall>x \<in> set (db_lists db'). al_id x < seq_list db"
  proof -
    have "al_id ` set (db_lists db') = al_id ` set (db_lists db)" using ids by (metis list.set_map)
    then show ?thesis using ok by (force simp: lists_ok_def)
  qed
  moreover have "\<forall>m \<in> set (db_list_members db'). lm_list_id m < seq_list db \<and> user_is_valid (db_znuny db) (lm_user_id m)"
  proof (cases members)
    case None
    with ok db'(2) show ?thesis by (simp add: lists_ok_def)
  next
    case (Some ms)
    with members have "\<forall>u \<in> set ms. user_is_valid (db_znuny db) u"
      using check_members_valid(4) by (auto simp: replaced_members_def res_bind_Inr_iff split: option.splits)
    with Some ok db'(2) row show ?thesis by (auto simp: lists_ok_def)
  qed
  ultimately show ?thesis using ok ids db'(3,4) by (simp add: lists_ok_def)
qed

lemma delete_list_ok: "lists_ok db \<Longrightarrow> delete_list i db = Inr db' \<Longrightarrow> lists_ok db'"
  by (auto simp: delete_list_def lists_ok_def distinct_map_filter split: if_splits)

inductive list_step :: "approval_db \<Rightarrow> approval_db \<Rightarrow> bool" where
  create: "create_list env name desc members actor db = Inr (i, db') \<Longrightarrow> list_step db db'"
| update: "update_list env i actor c db = Inr (info, db') \<Longrightarrow> list_step db db'"
| delete: "delete_list i db = Inr db' \<Longrightarrow> list_step db db'"

lemma list_steps_ok: "list_step\<^sup>*\<^sup>* db db' \<Longrightarrow> lists_ok db \<Longrightarrow> lists_ok db'"
  by (induction rule: rtranclp_induct)
     (auto elim!: list_step.cases intro: create_list_ok update_list_ok delete_list_ok)

text \<open>
  C35. However lists are created, changed and deleted, no two of them have the same name or id, and
  every member is a valid agent as long as the agents do not change.
\<close>

theorem list_names_unique:
  assumes "list_step\<^sup>*\<^sup>* db db'" and "lists_ok db"
  shows "distinct (map al_name (db_lists db')) \<and> distinct (map al_id (db_lists db')) \<and>
    (\<forall>m \<in> set (db_list_members db'). user_is_valid (db_znuny db') (lm_user_id m))"
  using list_steps_ok [OF assms] by (simp add: lists_ok_def)

definition listed_row :: approver_list_row where
  "listed_row = \<lparr>al_id = 1, al_name = ''CAB'', al_description = None, al_valid = True,
     al_create_time = 1000000000, al_create_by = 7, al_change_time = 1000000000, al_change_by = 7\<rparr>"

definition listed_db :: approval_db where
  "listed_db = empty_db\<lparr>db_lists := [listed_row], seq_list := 2,
     db_list_members := [\<lparr>lm_list_id = 1, lm_user_id = 7\<rparr>, \<lparr>lm_list_id = 1, lm_user_id = 9\<rparr>]\<rparr>"

lemma listed_db_eval:
  "create_list example_env ''CAB'' None [9, 7, 9] 7 empty_db = Inr (list_info listed_row [7, 9], listed_db)"
proof -
  have "clean_list_name ''CAB'' = Inr ''CAB''"
    by (simp add: clean_list_name_def clean_text_def strip_def is_space_def)
  moreover have "check_members (db_znuny empty_db) [9, 7, 9] = Inr [7, 9]" by code_simp
  ultimately show ?thesis
    by (simp add: create_list_def name_taken_def insert_list_def add_members_def listed_db_def listed_row_def
        empty_db_def example_env_def list_info_def)
qed

theorem list_names_unique_witness:
  "distinct (map al_name (db_lists listed_db)) \<and>
   list_all (\<lambda>m. user_is_valid (db_znuny listed_db) (lm_user_id m)) (db_list_members listed_db)"
proof -
  have "list_step\<^sup>*\<^sup>* empty_db listed_db" using listed_db_eval by (intro r_into_rtranclp list_step.create)
  moreover have "lists_ok empty_db" by (simp add: lists_ok_def empty_db_def)
  ultimately show ?thesis using list_names_unique [of empty_db listed_db] by (simp add: list_all_iff)
qed

text \<open>
  A list is deleted only while no stored template names it, and then completely: no readable
  template definition refers to it, its members are gone, reading it fails, and every other list reads
  as before.
\<close>

theorem delete_list_unreferenced:
  assumes "delete_list i db = Inr db'"
  shows "(\<forall>t \<in> set (db_templates db'). \<forall>d. tp_definition t = Some d \<longrightarrow> i \<notin> definition_list_refs d) \<and>
    get_list db' i = Inl (ApprovalError list_not_found 404) \<and> list_member_ids db' i = [] \<and>
    (\<forall>j. j \<noteq> i \<longrightarrow> get_list db' j = get_list db j)"
proof -
  from assms have free: "templates_using_list db i = []"
    and db': "db' = db\<lparr>db_list_members := filter (\<lambda>m. lm_list_id m \<noteq> i) (db_list_members db),
       db_lists := filter (\<lambda>l. al_id l \<noteq> i) (db_lists db)\<rparr>"
    by (auto simp: delete_list_def split: if_splits)
  have "map tp_key (filter (\<lambda>t. case tp_definition t of None \<Rightarrow> False | Some d \<Rightarrow> i \<in> definition_list_refs d)
      (db_templates db)) = []"
    using free by (metis templates_using_list_def length_0_conv length_sort)
  then have "\<forall>t \<in> set (db_templates db). \<forall>d. tp_definition t = Some d \<longrightarrow> i \<notin> definition_list_refs d"
    by (fastforce simp: filter_empty_conv)
  moreover have "find (\<lambda>l. al_id l = j) (filter (\<lambda>l. al_id l \<noteq> i) ls) =
      (if j = i then None else find (\<lambda>l. al_id l = j) ls)" for j and ls :: "approver_list_row list"
    by (induction ls) auto
  moreover have "filter (\<lambda>m. lm_list_id m = j \<and> lm_list_id m \<noteq> i) ms =
      (if j = i then [] else filter (\<lambda>m. lm_list_id m = j) ms)" for j and ms :: "list_member_row list"
    by (induction ms) auto
  ultimately show ?thesis
    by (auto simp: db' get_list_def get_approver_list_def list_member_ids_def conj_commute split: option.splits)
qed

theorem delete_list_unreferenced_witness:
  "get_list (case delete_list 1 listed_db of Inr db \<Rightarrow> db | Inl _ \<Rightarrow> empty_db) 1 = Inl (ApprovalError list_not_found 404)"
proof -
  have "delete_list 1 listed_db = Inr (empty_db\<lparr>seq_list := 2\<rparr>)"
    by (simp add: delete_list_def listed_db_def listed_row_def empty_db_def get_approver_list_def templates_using_list_def)
  with delete_list_unreferenced [of 1 listed_db] show ?thesis by simp
qed

end
