(* ===== verification/Approval_Service.thy ===== *)
theory Approval_Service
  imports Approval_Access Approval_Templates
begin

text \<open>
  \<open>approvals/service.py\<close>: the operations consumers and surfaces call. Each takes the database of its
  transaction and returns the result with the new database, or the exception it lets through (the caller
  then rolls back). The keyword \<open>lock_held\<close>, which has no effect, is left out.
\<close>

section \<open>Reads\<close>

record approval_info =
  ai_approval_id :: int
  ai_ticket_id :: int
  ai_subject_type :: string
  ai_subject_ref :: "string option"
  ai_approval_key :: string
  ai_status :: approval_status
  ai_reason :: "string option"
  ai_current_stage :: "int option"
  ai_created_at :: instant
  ai_decided_at :: "instant option"

definition info :: "approval \<Rightarrow> approval_info" where
  "info a = \<lparr>ai_approval_id = ap_id a, ai_ticket_id = ap_ticket_id a, ai_subject_type = ap_subject_type a,
     ai_subject_ref = ap_subject_ref a, ai_approval_key = ap_approval_key a, ai_status = ap_status a,
     ai_reason = ap_reason a, ai_current_stage = ap_current_stage a, ai_created_at = ap_created_at a,
     ai_decided_at = ap_decided_at a\<rparr>"

definition get_info :: "approval_db \<Rightarrow> int \<Rightarrow> approval_info res" where
  "get_info db i = (case get_approval db i of
     None \<Rightarrow> Inl (ApprovalError approval_not_found 404) | Some a \<Rightarrow> Inr (info a))"

text \<open>The newest request (highest id) of a key.\<close>

definition approval_status_of :: "approval_db \<Rightarrow> int \<Rightarrow> string \<Rightarrow> approval_status option" where
  "approval_status_of db ticket key =
     (case rev (sort_key ap_id (filter (\<lambda>a. ap_ticket_id a = ticket \<and> ap_approval_key a = replace_non_bmp key)
         (db_approvals db))) of
        [] \<Rightarrow> None | a # _ \<Rightarrow> Some (ap_status a))"

text \<open>A dictionary filled in ascending id order: the last write per key wins.\<close>

definition approval_statuses :: "approval_db \<Rightarrow> int \<Rightarrow> string \<Rightarrow> approval_status option" where
  "approval_statuses db ticket =
     fold (\<lambda>a m. m(ap_approval_key a \<mapsto> ap_status a))
       (sort_key ap_id (filter (\<lambda>a. ap_ticket_id a = ticket) (db_approvals db))) (\<lambda>_. None)"

definition list_for_ticket :: "approval_db \<Rightarrow> int \<Rightarrow> approval_info list" where
  "list_for_ticket db ticket =
     map info (rev (sort_key ap_id (filter (\<lambda>a. ap_ticket_id a = ticket) (db_approvals db))))"

section \<open>Requests\<close>

definition TITLE_MAX :: nat where "TITLE_MAX = 250"
definition KEY_MAX :: nat where "KEY_MAX = 100"
definition SUBJECT_REF_MAX :: nat where "SUBJECT_REF_MAX = 190"

definition check_text ::
  "string \<Rightarrow> string \<Rightarrow> string option \<Rightarrow> (string \<times> string \<times> string option) res" where
  "check_text title key ref =
     (let title = strip (replace_non_bmp title);
          key = strip (replace_non_bmp key);
          ref = map_option replace_non_bmp ref
      in if title = [] \<or> TITLE_MAX < length title then Inl (ApprovalError invalid_definition 422)
         else if key = [] \<or> KEY_MAX < length key then Inl (ApprovalError invalid_definition 422)
         else if (case ref of None \<Rightarrow> False | Some r \<Rightarrow> SUBJECT_REF_MAX < length r)
         then Inl (ApprovalError invalid_definition 422)
         else Inr (title, key, ref))"

definition require_subject_and_ticket :: "approval_env \<Rightarrow> approval_db \<Rightarrow> string \<Rightarrow> int \<Rightarrow> unit res" where
  "require_subject_and_ticket env db subject ticket =
     (if env_subjects env subject = None then Inl (ApprovalError unknown_subject_type 422)
      else if \<not> ticket_exists db ticket then Inl (ApprovalError ticket_not_found 404)
      else Inr ())"

definition customer_entries :: "approval_env \<Rightarrow> approval_definition \<Rightarrow> approver_entry list" where
  "customer_entries env d =
     filter (\<lambda>e. case e_kind e of
         E_customer_user \<Rightarrow> True
       | E_resolver \<Rightarrow> (case env_resolvers env (e_ref e) of None \<Rightarrow> False | Some r \<Rightarrow> rs_yields_customers r)
       | _ \<Rightarrow> False) (all_entries d)"

text \<open>The answer for the first of the sorted errors.\<close>

definition ref_error :: "string \<Rightarrow> error" where
  "ref_error e =
     (if e = ''customer_entry_not_allowed'' then ApprovalError customer_approvers_not_allowed 422
      else if take (length ''unknown_resolver:'') e = ''unknown_resolver:'' then ApprovalError unknown_resolver 422
      else ApprovalError invalid_definition 422)"

definition chosen_definition ::
  "approval_db \<Rightarrow> string \<Rightarrow> approval_definition option \<Rightarrow> string option \<Rightarrow>
     (approval_definition \<times> int option) res" where
  "chosen_definition db subject defn template_key =
     (if (defn = None) = (template_key = None) then Inl (ApprovalError invalid_definition 422)
      else (case template_key of
          None \<Rightarrow> (case defn of None \<Rightarrow> Inl AssertionError | Some d \<Rightarrow> Inr (d, None))
        | Some key \<Rightarrow> res_bind (get_template_by_key db key) (\<lambda>t.
            if \<not> ti_valid t then Inl (ApprovalError template_not_found 404)
            else if ti_subject_types t \<noteq> [] \<and> subject \<notin> set (ti_subject_types t)
            then Inl (ApprovalError invalid_definition 422)
            else Inr (ti_definition t, Some (ti_id t)))))"

definition validated_definition ::
  "approval_env \<Rightarrow> approval_db \<Rightarrow> string \<Rightarrow> approval_definition option \<Rightarrow> string option \<Rightarrow>
     (approval_definition \<times> int option) res" where
  "validated_definition env db subject defn template_key =
     res_bind (chosen_definition db subject defn template_key) (\<lambda>(d, template_id).
     res_bind (validate_definition d) (\<lambda>_.
       case rf_errors (validate_definition_refs env db d [subject]) of
         e # _ \<Rightarrow> Inl (ref_error e)
       | [] \<Rightarrow>
          if \<not> set_customer_approvers_enabled (env_settings env) \<and> customer_entries env d \<noteq> []
          then Inl (ApprovalError customer_approvers_not_allowed 422)
          else Inr (d, template_id)))"

definition lock_pending_same_key :: "approval_db \<Rightarrow> int \<Rightarrow> string \<Rightarrow> approval list" where
  "lock_pending_same_key db ticket key =
     sort_key ap_id (filter (\<lambda>a. ap_ticket_id a = ticket \<and> ap_approval_key a = key \<and>
       ap_status a = AP_pending) (db_approvals db))"

definition supersede ::
  "approval_env \<Rightarrow> approval list \<Rightarrow> int \<Rightarrow> actor \<Rightarrow> approval_db \<Rightarrow> approval_db res" where
  "supersede env olds new_id act db =
     res_fold (\<lambda>old db. finalize env old AP_cancelled ''superseded'' act False
         (upd_approvals (\<lambda>a. ap_id a = ap_id old) (\<lambda>a. a\<lparr>ap_superseded_by := Some new_id\<rparr>) db))
       olds db"

definition requester_key :: "znuny_db \<Rightarrow> principal option \<Rightarrow> actor \<Rightarrow> string res" where
  "requester_key z requester act =
     (case (case requester of None \<Rightarrow> a_principal act | Some p \<Rightarrow> Some p) of
        None \<Rightarrow> Inr ''system''
      | Some p \<Rightarrow> res_bind (canonical_principal z p) (\<lambda>c. Inr (principal_key c)))"

definition require_module_on :: "approval_env \<Rightarrow> approval_db \<Rightarrow> string \<Rightarrow> unit res" where
  "require_module_on env db subject =
     (if \<not> set_enabled (env_settings env) then Inl (ApprovalError approvals_disabled 404)
      else require_subject_available env db subject)"

text \<open>The new request's row and, from its definition, the rows of its steps.\<close>

definition new_approval ::
  "approval_env \<Rightarrow> approval_db \<Rightarrow> int \<Rightarrow> string \<Rightarrow> string option \<Rightarrow> string \<Rightarrow> string \<Rightarrow> string option \<Rightarrow>
     int option \<Rightarrow> bool \<Rightarrow> string \<Rightarrow> actor \<Rightarrow> approval" where
  "new_approval env db ticket subject ref key title description template_id self requester act =
     \<lparr>ap_id = seq_approval db, ap_ticket_id = ticket, ap_subject_type = subject, ap_subject_ref = ref,
      ap_approval_key = key, ap_title = title, ap_description = description, ap_template_id = template_id,
      ap_status = AP_pending, ap_reason = None, ap_current_stage = None, ap_allow_self_approval = self,
      ap_requester = requester, ap_created_by = a_write_user_id act,
      ap_created_at = trunc_sec (env_now env), ap_decided_at = None, ap_superseded_by = None\<rparr>"

definition insert_approval :: "approval \<Rightarrow> approval_db \<Rightarrow> approval_db" where
  "insert_approval a db = db\<lparr>db_approvals := db_approvals db @ [a], seq_approval := seq_approval db + 1\<rparr>"

definition new_step :: "approval \<Rightarrow> int \<Rightarrow> int \<Rightarrow> step_spec \<Rightarrow> step_row" where
  "new_step a sid position spec =
     \<lparr>st_id = sid, st_approval_id = ap_id a, st_ticket_id = ap_ticket_id a, st_position = position,
      st_stage = sp_stage spec, st_name = replace_non_bmp (sp_name spec), st_rule = sp_rule spec,
      st_quorum = sp_quorum spec, st_status = ST_waiting, st_reason = None, st_spec = spec,
      st_due_at = None, st_activated_at = None, st_decided_at = None, st_last_reminder_at = None,
      st_reminder_count = 0, st_overdue_at = None\<rparr>"

fun insert_steps :: "approval \<Rightarrow> int \<Rightarrow> step_spec list \<Rightarrow> approval_db \<Rightarrow> approval_db" where
  "insert_steps a position [] db = db"
| "insert_steps a position (spec # specs) db =
     insert_steps a (position + 1) specs
       (db\<lparr>db_steps := db_steps db @ [new_step a (seq_step db) position spec], seq_step := seq_step db + 1\<rparr>)"

record approval_request =
  rq_ticket_id :: int
  rq_subject_type :: string
  rq_title :: string
  rq_requester :: "principal option"
  rq_subject_ref :: "string option"
  rq_approval_key :: string
  rq_description :: "string option"
  rq_definition :: "approval_definition option"
  rq_template_key :: "string option"
  rq_allow_self_approval :: bool
  rq_supersede :: bool

text \<open>From the flushed rows on: supersede, audit, events, the first stage, the mails.\<close>

definition start_request ::
  "approval_env \<Rightarrow> approval \<Rightarrow> approval list \<Rightarrow> nat \<Rightarrow> actor \<Rightarrow> approval_db \<Rightarrow> approval_db res" where
  "start_request env a olds n act db =
     res_bind (supersede env olds (ap_id a) act db) (\<lambda>db1.
       let db2 = audit_history env a H_requested act None
             (audit_emit a EVENT_REQUESTED []
               (audit_record env a A_requested act None None None
                 [(''steps'', JInt (int n)),
                  (''template_id'', case ap_template_id a of None \<Rightarrow> JNull | Some i \<Rightarrow> JInt i)] db1))
       in res_bind (activate_next_stage env a act db2) (\<lambda>(new_ids, db3).
          if ap_status (cur db3 a) = AP_pending
          then enqueue_notification env (ap_id a) M_request new_ids False db3 else Inr db3))"

definition request_approval ::
  "approval_env \<Rightarrow> approval_request \<Rightarrow> actor \<Rightarrow> approval_db \<Rightarrow> (approval_info \<times> approval_db) res" where
  "request_approval env rq act db =
     res_bind (require_module_on env db (rq_subject_type rq)) (\<lambda>_.
     res_bind (check_text (rq_title rq) (rq_approval_key rq) (rq_subject_ref rq)) (\<lambda>(title, key, ref).
     res_bind (require_subject_and_ticket env db (rq_subject_type rq) (rq_ticket_id rq)) (\<lambda>_.
     res_bind (validated_definition env db (rq_subject_type rq) (rq_definition rq) (rq_template_key rq))
       (\<lambda>(d, template_id).
     res_bind (requester_key (db_znuny db) (rq_requester rq) act) (\<lambda>requester.
       let olds = (if rq_supersede rq then lock_pending_same_key db (rq_ticket_id rq) key else []);
           a = new_approval env db (rq_ticket_id rq) (rq_subject_type rq) ref key title
                 (map_option replace_non_bmp (rq_description rq)) template_id (rq_allow_self_approval rq)
                 requester act;
           db1 = insert_steps a 1 (d_steps d) (insert_approval a db)
       in res_bind (start_request env a olds (length (d_steps d)) act db1) (\<lambda>db2.
          Inr (info (cur db2 a), db2)))))))"

text \<open>\<open>_REASON_RE\<close>: a lower-case letter, then at most 31 lower-case letters, digits or underscores\<close>

definition reason_ok :: "string \<Rightarrow> bool" where
  "reason_ok r =
     (let lower_letter = (\<lambda>c. 97 \<le> (of_char c :: nat) \<and> (of_char c :: nat) \<le> 122) in
      case r of [] \<Rightarrow> False
      | c # cs \<Rightarrow> lower_letter c \<and> length cs \<le> 31 \<and>
          list_all (\<lambda>c. lower_letter c \<or> is_digit c \<or> c = CHR ''_'') cs)"

definition record_auto_decision ::
  "approval_env \<Rightarrow> approval_request \<Rightarrow> approval_status \<Rightarrow> string \<Rightarrow> actor \<Rightarrow> approval_db \<Rightarrow>
     (approval_info \<times> approval_db) res" where
  "record_auto_decision env rq status reason act db =
     res_bind (require_module_on env db (rq_subject_type rq)) (\<lambda>_.
       if status \<noteq> AP_approved \<and> status \<noteq> AP_rejected then Inl (ApprovalError invalid_definition 422)
       else if \<not> reason_ok reason then Inl (ApprovalError invalid_definition 422)
       else
     res_bind (check_text (rq_title rq) (rq_approval_key rq) (rq_subject_ref rq)) (\<lambda>(title, key, ref).
     res_bind (require_subject_and_ticket env db (rq_subject_type rq) (rq_ticket_id rq)) (\<lambda>_.
     res_bind (requester_key (db_znuny db) None act) (\<lambda>requester.
       let olds = (if rq_supersede rq then lock_pending_same_key db (rq_ticket_id rq) key else []);
           a = new_approval env db (rq_ticket_id rq) (rq_subject_type rq) ref key title
                 (map_option replace_non_bmp (rq_description rq)) None False requester act
       in res_bind (supersede env olds (ap_id a) act (insert_approval a db)) (\<lambda>db1.
          res_bind (finalize env a status reason act True db1) (\<lambda>db2.
          Inr (info (cur db2 a), db2)))))))"

definition CANCEL_REASONS :: "string list" where
  "CANCEL_REASONS = [''cancelled'', ''superseded'', ''ticket_deleted'']"

definition cancel_approval ::
  "approval_env \<Rightarrow> int \<Rightarrow> actor \<Rightarrow> string \<Rightarrow> bool \<Rightarrow> approval_db \<Rightarrow> (approval_info \<times> approval_db) res" where
  "cancel_approval env i act reason check_permission db =
     (if reason \<notin> set CANCEL_REASONS then Inl ValueError
      else res_bind (lock_approval db i) (\<lambda>a.
        res_bind (if check_permission then require_subject_available env db (ap_subject_type a) else Inr ()) (\<lambda>_.
          if check_permission \<and> \<not> can_cancel db a act then Inl (ApprovalError forbidden 403)
          else if ap_status a \<noteq> AP_pending then Inl (ApprovalError approval_closed 409)
          else res_bind (finalize env a AP_cancelled reason act False db) (\<lambda>db'.
            Inr (info (cur db' a), db')))))"

section \<open>Voting\<close>

record decision_result =
  dr_info :: approval_info
  dr_vote_id :: int
  dr_step_status :: step_status
  dr_on_behalf :: bool
  dr_affected :: "int set"

definition refusal :: "approver_row list \<Rightarrow> error" where
  "refusal candidates =
     (if list_ex (\<lambda>r. ar_status r \<in> {AR_approved, AR_rejected, AR_forwarded}) candidates
      then ApprovalError already_decided 409
      else if list_ex (\<lambda>r. ar_status r \<in> {AR_pending, AR_not_needed}) candidates
      then ApprovalError step_not_active 409
      else ApprovalError not_an_approver 403)"

text \<open>Whose rows the actor may vote: delegators now, only in steps that allow delegation.\<close>

definition delegated_row ::
  "approval_env \<Rightarrow> approval_db \<Rightarrow> step_row list \<Rightarrow> principal \<Rightarrow> approver_row \<Rightarrow> bool" where
  "delegated_row env db steps p r =
     (let delegators = (case p_user_id p of
            None \<Rightarrow> {} | Some uid \<Rightarrow> active_delegators db uid (env_now env) - {uid});
          delegable = set (map st_id (filter (\<lambda>s. sp_allow_delegation (st_spec s)) steps))
      in (case ar_user_id r of None \<Rightarrow> False | Some u \<Rightarrow> u \<in> delegators) \<and> ar_step_id r \<in> delegable)"

definition candidate_rows ::
  "approval_env \<Rightarrow> approval_db \<Rightarrow> approver_row list \<Rightarrow> step_row list \<Rightarrow> principal \<Rightarrow> string \<Rightarrow> int option \<Rightarrow>
     approver_row list" where
  "candidate_rows env db rows steps p key approver_id =
     filter (\<lambda>r. (case approver_id of None \<Rightarrow> True | Some i \<Rightarrow> ar_id r = i) \<and>
        (ar_principal r = key \<or> delegated_row env db steps p r)) rows"

definition usable_rows :: "step_row list \<Rightarrow> approver_row list \<Rightarrow> approver_row list" where
  "usable_rows steps candidates =
     (let active = set (map st_id (filter (\<lambda>s. st_status s = ST_active) steps))
      in filter (\<lambda>r. ar_status r = AR_pending \<and> ar_step_id r \<in> active) candidates)"

definition pick_approver ::
  "approval_env \<Rightarrow> approval_db \<Rightarrow> approver_row list \<Rightarrow> step_row list \<Rightarrow> actor \<Rightarrow> string \<Rightarrow> int option \<Rightarrow>
     int set \<Rightarrow> (approver_row \<times> bool) res" where
  "pick_approver env db rows steps act key approver_id voted_steps =
     (case a_principal act of
        None \<Rightarrow> Inl (ApprovalError not_an_approver 403)
      | Some p \<Rightarrow>
         (let own = (\<lambda>r. ar_principal r = key);
              candidates = candidate_rows env db rows steps p key approver_id;
              usable = usable_rows steps candidates;
              free = sort_key (\<lambda>r. (\<not> own r, ar_id r)) (filter (\<lambda>r. ar_step_id r \<notin> voted_steps) usable)
          in (case free of
                [] \<Rightarrow> Inl (if usable \<noteq> [] then ApprovalError already_decided 409 else refusal candidates)
              | r # _ \<Rightarrow> Inr (r, \<not> own r))))"

text \<open>The unique key on \<open>approver_id\<close> refuses a second vote of a row.\<close>

definition insert_vote :: "vote_row \<Rightarrow> approval_db \<Rightarrow> approval_db res" where
  "insert_vote v db =
     (if list_ex (\<lambda>x. vt_approver_id x = vt_approver_id v) (db_votes db) then Inl IntegrityError
      else Inr (db\<lparr>db_votes := db_votes db @ [v], seq_vote := seq_vote db + 1\<rparr>))"

text \<open>The vote itself: vote row, approver status, its links, audit, event and history.\<close>

definition cast_vote ::
  "approval_env \<Rightarrow> approval \<Rightarrow> approver_row \<Rightarrow> string \<Rightarrow> bool \<Rightarrow> actor \<Rightarrow> decision \<Rightarrow> channel \<Rightarrow>
     string option \<Rightarrow> int option \<Rightarrow> approval_db \<Rightarrow> approval_db res" where
  "cast_vote env a row key on_behalf act d ch comment token_id db =
     res_bind (insert_vote \<lparr>vt_id = seq_vote db, vt_approval_id = ap_id a, vt_step_id = ar_step_id row,
         vt_approver_id = ar_id row, vt_ticket_id = ap_ticket_id a, vt_decision = d, vt_comment = comment,
         vt_decided_by = key, vt_on_behalf = on_behalf, vt_channel = ch,
         vt_decided_at = trunc_sec (env_now env)\<rparr> db) (\<lambda>db1.
       let db2 = upd_approvers (\<lambda>r. ar_id r = ar_id row) (\<lambda>r. r\<lparr>ar_status := decided_status d\<rparr>) db1;
           db3 = snd (revoke_links env [ar_id row] token_id db2);
           db4 = audit_record env a A_voted act (Some (ar_step_id row)) (Some (ar_id row)) (Some ch)
                   [(''decision'', JDecision d), (''on_behalf'', JBool on_behalf)] db3;
           db5 = audit_emit a EVENT_VOTED [(''step_id'', JInt (ar_step_id row)),
                   (''decision'', JDecision d), (''channel'', JChannel ch)] db4
       in Inr (audit_history env a H_voted act
            (Some (case d of D_approved \<Rightarrow> ''approved'' | D_rejected \<Rightarrow> ''rejected'')) db5))"

text \<open>The voter's other pending rows of the step can never be voted: \<open>not_needed\<close>.\<close>

definition dead_rows :: "approval_db \<Rightarrow> approver_row list \<Rightarrow> int \<Rightarrow> string \<Rightarrow> int list" where
  "dead_rows db rows step_id key =
     map ar_id (filter (\<lambda>r. ar_step_id r = step_id \<and> ar_status r = AR_pending \<and> ar_principal r = key)
       (map (cur_approver db) rows))"

definition drop_dead_rows ::
  "approval_env \<Rightarrow> approval \<Rightarrow> approver_row list \<Rightarrow> int \<Rightarrow> string \<Rightarrow> actor \<Rightarrow> approval_db \<Rightarrow> approval_db" where
  "drop_dead_rows env a rows step_id key act db =
     (let dead = dead_rows db rows step_id key in
      if dead = [] then db
      else fold (\<lambda>i. audit_record env a A_approver_removed act (Some step_id) (Some i) None
               [(''reason'', JStr ''already_voted'')]) dead
             (snd (revoke_links env dead None
               (upd_approvers (\<lambda>r. ar_id r \<in> set dead) (\<lambda>r. r\<lparr>ar_status := AR_not_needed\<rparr>) db))))"

text \<open>The step's outcome with the vote counted; a decided step is closed.\<close>

definition settle_vote ::
  "approval_env \<Rightarrow> approval \<Rightarrow> step_row \<Rightarrow> approver_row list \<Rightarrow> actor \<Rightarrow> approval_db \<Rightarrow> approval_db res" where
  "settle_vote env a s rows act db =
     res_bind (step_voters env db (st_id s) (map (cur_approver db) rows)) (\<lambda>voters.
     res_bind (evaluate_step (st_rule s) (st_quorum s) voters) (\<lambda>out.
       if out = V_pending then Inr db
       else close_step env a s (outcome_status out) ''votes'' act (trunc_sec (env_now env)) db))"

definition affected_users ::
  "approval_db \<Rightarrow> approval_db \<Rightarrow> int \<Rightarrow> principal \<Rightarrow> int set" where
  "affected_users db db' i p =
     (case p_user_id p of None \<Rightarrow> {} | Some u \<Rightarrow> {u}) \<union>
     set (List.map_filter (\<lambda>r.
        if map_option ar_status (find (\<lambda>b. ar_id b = ar_id r) (locked_approvers db i)) \<noteq> Some (ar_status r)
        then ar_user_id r else None) (locked_approvers db' i))"

text \<open>The key a vote is recorded under, and the steps of the request it is recorded in.\<close>

definition voter_key :: "znuny_db \<Rightarrow> actor \<Rightarrow> string res" where
  "voter_key z act = (case a_principal act of
     None \<Rightarrow> Inr (actor_key act)
   | Some p \<Rightarrow> res_bind (canonical_principal z p) (\<lambda>c. Inr (principal_key c)))"

definition voted_steps :: "approval_db \<Rightarrow> int \<Rightarrow> string \<Rightarrow> int set" where
  "voted_steps db i key =
     set (map vt_step_id (filter (\<lambda>v. vt_approval_id v = i \<and> vt_decided_by v = key) (db_votes db)))"

text \<open>What must hold before a vote on a row: nobody excluded, customer and channel allowed.\<close>

definition check_vote ::
  "approval_env \<Rightarrow> approval_db \<Rightarrow> approval \<Rightarrow> actor \<Rightarrow> channel \<Rightarrow> string \<Rightarrow> approver_row \<Rightarrow> bool \<Rightarrow> step_row \<Rightarrow>
     principal res" where
  "check_vote env db a act ch key row on_behalf s =
     res_bind (excluded_keys db a) (\<lambda>excluded.
       if key \<in> excluded \<or> on_behalf \<and> ar_principal row \<in> excluded
       then Inl (ApprovalError self_approval_forbidden 403)
       else (case a_principal act of
           None \<Rightarrow> Inl AssertionError
         | Some p \<Rightarrow>
            res_bind (if p_kind p = Customer
              then (case p_login p of None \<Rightarrow> Inl AssertionError
                      | Some login \<Rightarrow> check_customer_approver env db a login)
              else Inr ()) (\<lambda>_.
              if ch = Ch_email \<and> \<not> sp_allow_email (st_spec s) then Inl (ApprovalError forbidden 403)
              else Inr p)))"

definition vote_target ::
  "approval_env \<Rightarrow> approval \<Rightarrow> actor \<Rightarrow> channel \<Rightarrow> int option \<Rightarrow> approval_db \<Rightarrow>
     (approver_row \<times> bool \<times> step_row \<times> string \<times> principal) res" where
  "vote_target env a act ch approver_id db =
     (let steps = locked_steps db (ap_id a); rows = locked_approvers db (ap_id a) in
      res_bind (voter_key (db_znuny db) act) (\<lambda>key.
      res_bind (pick_approver env db rows steps act key approver_id (voted_steps db (ap_id a) key)) (\<lambda>(row, on_behalf).
        case find (\<lambda>s. st_id s = ar_step_id row) steps of
          None \<Rightarrow> Inl RuntimeError
        | Some s \<Rightarrow> res_bind (check_vote env db a act ch key row on_behalf s) (\<lambda>p.
            Inr (row, on_behalf, s, key, p)))))"

definition decide ::
  "approval_env \<Rightarrow> int \<Rightarrow> actor \<Rightarrow> decision \<Rightarrow> channel \<Rightarrow> string option \<Rightarrow> int option \<Rightarrow> int option \<Rightarrow>
     approval_db \<Rightarrow> (decision_result \<times> approval_db) res" where
  "decide env i act d ch comment approver_id token_id db =
     (let text = map_option (\<lambda>c. replace_non_bmp (strip c)) comment in
      if (case text of None \<Rightarrow> False | Some t \<Rightarrow> COMMENT_MAX < length t)
      then Inl (ApprovalError comment_too_long 422)
      else res_bind (lock_approval db i) (\<lambda>a.
        res_bind (require_subject_available env db (ap_subject_type a)) (\<lambda>_.
          if ap_status a \<noteq> AP_pending then Inl (ApprovalError approval_closed 409)
          else
          res_bind (vote_target env a act ch approver_id db) (\<lambda>(row, on_behalf, s, key, p).
          res_bind (cast_vote env a row key on_behalf act d ch
              (case text of None \<Rightarrow> None | Some t \<Rightarrow> if t = [] then None else Some t) token_id db) (\<lambda>db1.
          res_bind (settle_vote env a s (locked_approvers db (ap_id a)) act
              (drop_dead_rows env a (locked_approvers db (ap_id a)) (st_id s) key act db1)) (\<lambda>db2.
          Inr (\<lparr>dr_info = info (cur db2 a), dr_vote_id = seq_vote db,
                dr_step_status = st_status (cur_step db2 s), dr_on_behalf = on_behalf,
                dr_affected = affected_users db db2 (ap_id a) p\<rparr>, db2)))))))"

section \<open>Forwarding\<close>

definition forward_target ::
  "approval_env \<Rightarrow> approval \<Rightarrow> int \<Rightarrow> actor \<Rightarrow> int \<Rightarrow> int \<Rightarrow> approval_db \<Rightarrow>
     (approver_row \<times> step_row \<times> principal) res" where
  "forward_target env a approver_id act uid to_user db =
     (let steps = locked_steps db (ap_id a); rows = locked_approvers db (ap_id a) in
      case find (\<lambda>r. ar_id r = approver_id) rows of
        None \<Rightarrow> Inl (ApprovalError not_an_approver 403)
      | Some row \<Rightarrow>
         if ar_principal row \<noteq> actor_key act then Inl (ApprovalError not_an_approver 403)
         else if ar_status row \<in> {AR_approved, AR_rejected, AR_forwarded}
         then Inl (ApprovalError already_decided 409)
         else (case find (\<lambda>s. st_id s = ar_step_id row) steps of
             None \<Rightarrow> Inl RuntimeError
           | Some s \<Rightarrow>
              if ar_status row \<noteq> AR_pending \<or> st_status s \<noteq> ST_active
              then Inl (ApprovalError step_not_active 409)
              else if ar_source_kind row = S_forward \<or> \<not> sp_allow_delegation (st_spec s)
              then Inl (ApprovalError forward_not_allowed 409)
              else if to_user = uid \<or> to_user = SYSTEM_USER_ID
              then Inl (ApprovalError forward_target_invalid 422)
              else if agent_valid (db_znuny db) to_user \<noteq> Some 1
              then Inl (ApprovalError forward_target_invalid 422)
              else res_bind (principal_agent to_user) (\<lambda>target.
                res_bind (excluded_keys db a) (\<lambda>excluded.
                  if principal_key target \<in> excluded then Inl (ApprovalError self_approval_forbidden 403)
                  else if list_ex (\<lambda>r. ar_step_id r = st_id s \<and> ar_principal r = principal_key target) rows
                  then Inl (ApprovalError forward_target_invalid 422)
                  else if principal_key target \<in> voters_in_step db (st_id s)
                  then Inl (ApprovalError forward_target_invalid 422)
                  else Inr (row, s, target)))))"

definition forward ::
  "approval_env \<Rightarrow> int \<Rightarrow> int \<Rightarrow> actor \<Rightarrow> int \<Rightarrow> approval_db \<Rightarrow> (int \<times> approval_db) res" where
  "forward env i approver_id act to_user db =
     (case agent_of act of
        None \<Rightarrow> Inl (ApprovalError forbidden 403)
      | Some uid \<Rightarrow>
         res_bind (lock_approval db i) (\<lambda>a.
         res_bind (require_subject_available env db (ap_subject_type a)) (\<lambda>_.
           if ap_status a \<noteq> AP_pending then Inl (ApprovalError approval_closed 409)
           else
           res_bind (forward_target env a approver_id act uid to_user db) (\<lambda>(row, s, target).
           res_bind (add_approver env a s act (env_now env)
               \<lparr>ra_principal = target, ra_source_kind = S_forward, ra_source_ref = Some (str_int (ar_id row)),
                ra_source_label = None\<rparr> db) (\<lambda>(new_id, db1).
             let db2 = upd_approvers (\<lambda>r. ar_id r = new_id) (\<lambda>r. r\<lparr>ar_decisive := ar_decisive row\<rparr>) db1;
                 db3 = upd_approvers (\<lambda>r. ar_id r = ar_id row) (\<lambda>r. r\<lparr>ar_status := AR_forwarded\<rparr>) db2;
                 db4 = snd (revoke_links env [ar_id row] None db3);
                 db5 = audit_record env a A_forwarded act (Some (st_id s)) (Some (ar_id row)) None
                   [(''to_user_id'', JInt to_user), (''new_approver_id'', JInt new_id)] db4
             in res_bind (enqueue_notification env (ap_id a) M_forwarded [new_id] False db5)
                  (\<lambda>db6. Inr (new_id, db6)))))))"

section \<open>Refreshing\<close>

fun source_of :: "entry_kind \<Rightarrow> source_kind" where
  "source_of E_user = S_user"
| "source_of E_group = S_group"
| "source_of E_role = S_role"
| "source_of E_list = S_list"
| "source_of E_customer_user = S_customer_user"
| "source_of E_resolver = S_resolver"

text \<open>The pending rows of a step that no longer qualify; one that an entry naming nothing gave stays.\<close>

definition departed_rows :: "resolution \<Rightarrow> approver_row list \<Rightarrow> approver_row list" where
  "departed_rows rn rows =
     filter (\<lambda>r. ar_status r = AR_pending \<and> ar_source_kind r \<notin> {S_escalation, S_forward} \<and>
       ar_principal r \<notin> set (map (principal_key \<circ> ra_principal) (rn_approvers rn)) \<and>
       (ar_source_kind r, ar_source_ref r) \<notin>
         set (map (\<lambda>e. (source_of (e_kind e), Some (e_ref e))) (rn_unresolved rn))) rows"

definition remove_departed ::
  "approval_env \<Rightarrow> approval \<Rightarrow> step_row \<Rightarrow> actor \<Rightarrow> approver_row \<Rightarrow> approval_db \<Rightarrow> approval_db" where
  "remove_departed env a s act row db =
     audit_record env a A_approver_removed act (Some (st_id s)) (Some (ar_id row)) None
       [(''reason'', JStr ''departed'')]
       (snd (revoke_links env [ar_id row] None
         (upd_approvers (\<lambda>r. ar_id r = ar_id row) (\<lambda>r. r\<lparr>ar_status := AR_removed\<rparr>) db)))"

text \<open>The resolved approvers without a row or a vote in the step get a row, each principal once.\<close>

definition add_missing ::
  "approval_env \<Rightarrow> approval \<Rightarrow> step_row \<Rightarrow> actor \<Rightarrow> resolved_approver list \<Rightarrow> string set \<Rightarrow> approval_db \<Rightarrow>
     (int list \<times> approval_db) res" where
  "add_missing env a s act ras have_keys db =
     res_bind (res_fold (\<lambda>ra (keys, ids, db).
         if principal_key (ra_principal ra) \<in> keys then Inr (keys, ids, db)
         else res_bind (add_approver env a s act (env_now env) ra db) (\<lambda>(i, db').
           Inr (insert (principal_key (ra_principal ra)) keys, ids @ [i], db')))
       ras (have_keys, [], db)) (\<lambda>(_, ids, db'). Inr (ids, db'))"

definition refresh_step ::
  "approval_env \<Rightarrow> approval \<Rightarrow> actor \<Rightarrow> approver_row list \<Rightarrow> step_row \<Rightarrow>
     int list \<times> nat \<times> approval_db \<Rightarrow> (int list \<times> nat \<times> approval_db) res" where
  "refresh_step env a act approvers s acc =
     (case acc of (added, removed, db) \<Rightarrow>
        res_bind (resolve_step env db a None (sp_approvers (st_spec s))) (\<lambda>rn.
          let rows = filter (\<lambda>r. ar_step_id r = st_id s) approvers;
              departed = departed_rows rn rows;
              db1 = fold (remove_departed env a s act) departed (audit_unresolved env a s rn act db)
          in res_bind (add_missing env a s act (rn_approvers rn)
               (set (map ar_principal rows) \<union> voters_in_step db1 (st_id s)) db1) (\<lambda>(ids, db2).
             Inr (added @ ids, removed + length departed, db2))))"

definition refresh_approvers ::
  "approval_env \<Rightarrow> int \<Rightarrow> actor \<Rightarrow> approval_db \<Rightarrow> ((nat \<times> nat) \<times> approval_db) res" where
  "refresh_approvers env i act db =
     res_bind (lock_approval db i) (\<lambda>a.
     res_bind (require_subject_available env db (ap_subject_type a)) (\<lambda>_.
       if \<not> can_refresh db a act then Inl (ApprovalError forbidden 403)
       else if ap_status a \<noteq> AP_pending then Inl (ApprovalError approval_closed 409)
       else
         let steps = filter (\<lambda>s. st_status s = ST_active) (locked_steps db (ap_id a));
             approvers = locked_approvers db (ap_id a)
         in res_bind (res_fold (refresh_step env a act approvers) steps ([], 0, db))
              (\<lambda>(added, removed, db1).
              let db2 = audit_record env a A_refreshed act None None None
                    [(''added'', JInt (int (length added))), (''removed'', JInt (int removed))] db1
              in res_bind (reevaluate_steps env a steps act (env_now env) db2) (\<lambda>db3.
                 res_bind (if ap_status (cur db3 a) = AP_pending \<and> added \<noteq> []
                   then enqueue_notification env (ap_id a) M_request
                     (map ar_id (filter (\<lambda>r. ar_id r \<in> set added \<and> ar_status r = AR_pending)
                       (locked_approvers db3 (ap_id a)))) False db3
                   else Inr db3) (\<lambda>db4. Inr ((length added, removed), db4))))))"

end
