(* ===== verification/Approval_Correct.thy ===== *)
theory Approval_Correct
  imports Approval_Service
begin

text \<open>
  The service keeps the invariant: every operation on one request turns a database that is \<open>db_ok\<close> into
  one that is, and touches no other request. The contract is stated once, as a locale, and every
  operation is an interpretation of it; the theorems about sequences of operations are its lemmas.
\<close>

section \<open>The contract of an operation on one request\<close>

text \<open>The rows of one request, in every table.\<close>

definition untouched :: "int \<Rightarrow> approval_db \<Rightarrow> approval_db \<Rightarrow> bool" where
  "untouched i db db' \<longleftrightarrow>
     filter (\<lambda>a. ap_id a = i) (db_approvals db') = filter (\<lambda>a. ap_id a = i) (db_approvals db) \<and>
     filter (\<lambda>s. st_approval_id s = i) (db_steps db') = filter (\<lambda>s. st_approval_id s = i) (db_steps db) \<and>
     filter (\<lambda>r. ar_approval_id r = i) (db_approvers db') = filter (\<lambda>r. ar_approval_id r = i) (db_approvers db) \<and>
     filter (\<lambda>v. vt_approval_id v = i) (db_votes db') = filter (\<lambda>v. vt_approval_id v = i) (db_votes db) \<and>
     filter (\<lambda>k. tk_approval_id k = i) (db_tokens db') = filter (\<lambda>k. tk_approval_id k = i) (db_tokens db)"

lemma untouched_refl [simp]: "untouched i db db"
  by (simp add: untouched_def)

lemma untouched_trans: "untouched i db db1 \<Longrightarrow> untouched i db1 db2 \<Longrightarrow> untouched i db db2"
  by (simp add: untouched_def)

lemma filter_sub: "filter p xs = filter p ys \<Longrightarrow> (\<And>x. q x \<Longrightarrow> p x) \<Longrightarrow> filter q xs = filter q ys"
proof -
  assume eq: "filter p xs = filter p ys" and sub: "\<And>x. q x \<Longrightarrow> p x"
  have "filter q zs = filter q (filter p zs)" for zs
    using sub by (induction zs) auto
  with eq show ?thesis by metis
qed

lemma others_same_untouched:
  assumes "others_same j db db'" and "j \<noteq> i"
  shows "untouched i db db'"
  unfolding untouched_def
  using assms
    filter_sub [of "\<lambda>a. ap_id a \<noteq> j" "db_approvals db'" "db_approvals db" "\<lambda>a. ap_id a = i"]
    filter_sub [of "\<lambda>s. st_approval_id s \<noteq> j" "db_steps db'" "db_steps db" "\<lambda>s. st_approval_id s = i"]
    filter_sub [of "\<lambda>r. ar_approval_id r \<noteq> j" "db_approvers db'" "db_approvers db" "\<lambda>r. ar_approval_id r = i"]
    filter_sub [of "\<lambda>v. vt_approval_id v \<noteq> j" "db_votes db'" "db_votes db" "\<lambda>v. vt_approval_id v = i"]
    filter_sub [of "\<lambda>k. tk_approval_id k \<noteq> j" "db_tokens db'" "db_tokens db" "\<lambda>k. tk_approval_id k = i"]
  unfolding others_same_def by blast

text \<open>A request's own rows decide whether it is at rest, and a request that is gone or closed stays so.\<close>

lemma untouched_get: "untouched i db db' \<Longrightarrow> get_approval db' i = get_approval db i"
proof -
  assume u: "untouched i db db'"
  have find_filter: "find p xs = (case filter p xs of [] \<Rightarrow> None | x # _ \<Rightarrow> Some x)" for p :: "approval \<Rightarrow> bool" and xs
    by (induction xs) auto
  show ?thesis using u by (simp add: get_approval_def find_filter untouched_def)
qed

text \<open>
  An operation that, called with arguments it admits (\<open>pre\<close>), keeps the invariant and writes no request
  but the ones it touches; and the special case of an operation on one request.
\<close>

locale service_operation =
  fixes op :: "'x \<Rightarrow> approval_db \<Rightarrow> ('r \<times> approval_db) res"
    and pre :: "'x \<Rightarrow> approval_db \<Rightarrow> bool"
    and touches :: "'x \<Rightarrow> approval_db \<Rightarrow> int set"
  assumes keeps: "db_ok db \<Longrightarrow> pre x db \<Longrightarrow> op x db = Inr (r, db') \<Longrightarrow> db_ok db'"
    and frame: "db_ok db \<Longrightarrow> pre x db \<Longrightarrow> op x db = Inr (r, db') \<Longrightarrow> i \<notin> touches x db \<Longrightarrow> untouched i db db'"
begin

text \<open>A sequence of operations, each in its own transaction that was committed.\<close>

lemma run_keeps:
  assumes "res_fold (\<lambda>x db. res_bind (op x db) (\<lambda>(_, db'). Inr db')) xs db = Inr db'" and "db_ok db"
    and "\<And>x d. x \<in> set xs \<Longrightarrow> pre x d" and "\<And>x d. x \<in> set xs \<Longrightarrow> i \<notin> touches x d"
  shows "db_ok db' \<and> untouched i db db'"
proof (rule res_fold_invariant [OF assms(1), where P = "\<lambda>d. db_ok d \<and> untouched i db d"])
  fix x d d'
  assume x: "x \<in> set xs" and d: "db_ok d \<and> untouched i db d"
    and step: "res_bind (op x d) (\<lambda>(_, db'). Inr db') = Inr d'"
  from step obtain r where op: "op x d = Inr (r, d')" by (auto simp: res_bind_Inr_iff)
  have "db_ok d'" using keeps [OF _ assms(3) [OF x] op] d by blast
  moreover have "untouched i d d'" using frame [OF _ assms(3) [OF x] op assms(4) [OF x]] d by blast
  ultimately show "db_ok d' \<and> untouched i db d'" using d untouched_trans by blast
qed (use assms(2) in simp)

end

locale request_operation =
  fixes op :: "'x \<Rightarrow> approval_db \<Rightarrow> ('r \<times> approval_db) res"
    and target :: "'x \<Rightarrow> int"
  assumes keeps_one: "db_ok db \<Longrightarrow> op x db = Inr (r, db') \<Longrightarrow> db_ok db'"
    and frame_one: "db_ok db \<Longrightarrow> op x db = Inr (r, db') \<Longrightarrow> others_same (target x) db db'"

sublocale request_operation \<subseteq> service_operation op "\<lambda>_ _. True" "\<lambda>x _. {target x}"
proof
  fix db db' :: approval_db and x r i
  assume db: "db_ok db" and op: "op x db = Inr (r, db')"
  show "db_ok db'" using keeps_one [OF db op] .
  show "untouched i db db'" if "i \<notin> {target x}"
    using others_same_untouched [OF frame_one [OF db op]] that by simp
qed

section \<open>Cancelling\<close>

lemma lock_approval_row:
  assumes "lock_approval db i = Inr a"
  shows "a \<in> set (db_approvals db)" "ap_id a = i"
  using assms approvals.get_SomeD by (fastforce simp: lock_approval_def split: option.splits)+

lemma closing_status:
  assumes "x \<in> set (db_approvals (closing env i status reason db))" "ap_id x = i"
  shows "ap_status x = status"
proof -
  from assms(1) have "x \<in> set (upd_where (\<lambda>x. ap_id x = i) (\<lambda>x. x\<lparr>ap_status := status, ap_reason := Some reason,
      ap_decided_at := Some (trunc_sec (env_now env)), ap_current_stage := None\<rparr>) (db_approvals db))"
    by (simp add: closing_def)
  then show ?thesis using assms(2) by (elim upd_whereE) auto
qed

lemma finalize_status:
  assumes "finalize env a status reason act auto db = Inr db'" "x \<in> set (db_approvals db')" "ap_id x = ap_id a"
  shows "ap_status x = status"
  using assms closing_status core_eqD(1) [OF finalize_core [OF assms(1)]] by metis

lemma finalize_db_ok:
  assumes fin: "finalize env a status reason act auto db = Inr db'" and ok: "core_ok db" and st: "status \<noteq> AP_pending"
    and others: "\<forall>x \<in> set (db_approvals db). ap_id x \<noteq> ap_id a \<longrightarrow> rest_ok db x"
  shows "db_ok db'"
proof (rule db_okI [OF finalize_ok [OF ok st fin] finalize_others [OF ok fin] others])
  show "rest_ok db' x" if "x \<in> set (db_approvals db')" "ap_id x = ap_id a" for x
    using finalize_status [OF fin that] st by (simp add: rest_ok_def)
qed

lemma cancel_finalizes:
  assumes "cancel_approval env i act reason chk db = Inr (r, db')"
  obtains a where "a \<in> set (db_approvals db)" "ap_id a = i" "ap_status a = AP_pending"
    "finalize env a AP_cancelled reason act False db = Inr db'" "r = info (cur db' a)"
proof -
  from assms obtain a where a: "lock_approval db i = Inr a"
    by (auto simp: cancel_approval_def res_bind_Inr_iff split: if_splits)
  with assms have "ap_status a = AP_pending" "finalize env a AP_cancelled reason act False db = Inr db'"
    "r = info (cur db' a)"
    by (auto simp: cancel_approval_def res_bind_Inr_iff split: if_splits)
  with that lock_approval_row [OF a] show ?thesis by blast
qed

interpretation cancel_op: request_operation
  "\<lambda>(env, i, act, reason, chk). cancel_approval env i act reason chk" "\<lambda>(env, i, act, reason, chk). i"
proof
  fix db db' :: approval_db and x r
  assume db: "db_ok db" and op: "(\<lambda>(env, i, act, reason, chk). cancel_approval env i act reason chk) x db = Inr (r, db')"
  obtain env i act reason chk where x: "x = (env, i, act, reason, chk)" by (metis prod_cases5)
  from op x obtain a where a: "ap_id a = i" "finalize env a AP_cancelled reason act False db = Inr db'"
    by (auto elim: cancel_finalizes)
  from db have ok: "core_ok db" and rest: "\<forall>x \<in> set (db_approvals db). ap_id x \<noteq> ap_id a \<longrightarrow> rest_ok db x"
    by (simp_all add: db_ok_def)
  show "db_ok db'" using finalize_db_ok [OF a(2) ok _ rest] by simp
  show "others_same ((\<lambda>(env, i, act, reason, chk). i) x) db db'" using finalize_others [OF ok a(2)] a(1) x by simp
qed

end
