(* ===== verification/Approval_Voting.thy ===== *)
theory Approval_Voting
  imports Approval_Correct
begin

text \<open>
  Voting and forwarding keep the invariant. A vote is three writes: the approver's row leaves the open
  rows with its status, the vote row is added, and the voter's other rows of the step are dropped;
  then the step is settled by the engine. A forward is a new row and a row that leaves.
\<close>

section \<open>Writes that leave steps and requests alone\<close>

lemma db_ok_same_steps:
  assumes "db_ok db" "core_ok db'" "db_approvals db' = db_approvals db" "db_steps db' = db_steps db"
  shows "db_ok db'"
  using assms by (simp add: db_ok_def rest_ok_def stages_ok_def steps_of_def)

lemma leave_steps [simp]:
  "db_steps (leave env ids st red db) = db_steps db"
  "db_approvals (leave env ids st red db) = db_approvals db"
  "db_votes (leave env ids st red db) = db_votes db"
  "seq_vote (leave env ids st red db) = seq_vote db"
  using core_eqD [OF leave_tables(2) [of env ids st red db]] by simp_all

lemma leave_db_ok:
  assumes "db_ok db" and "st \<noteq> AR_pending"
    and "\<And>r. r \<in> set (db_approvers db) \<Longrightarrow> ar_id r \<in> set ids \<Longrightarrow> ar_status r = AR_pending"
  shows "db_ok (leave env ids st red db)"
  using assms by (intro db_ok_same_steps [OF assms(1)] leave_ok) (simp_all add: db_ok_def)

lemma leave_row:
  assumes "x \<in> set (db_approvers (leave env ids st red db))"
  obtains (kept) "x \<in> set (db_approvers db)" "ar_id x \<notin> set ids"
  | (left) r where "r \<in> set (db_approvers db)" "ar_id r \<in> set ids" "x = r\<lparr>ar_status := st\<rparr>"
  using assms unfolding leave_tables(1) by (elim upd_whereE) auto

lemma leave_owners:
  "map (\<lambda>r. (ar_id r, ar_approval_id r)) (db_approvers (leave env ids st red db)) =
     map (\<lambda>r. (ar_id r, ar_approval_id r)) (db_approvers db)"
  unfolding leave_tables(1) by (rule map_upd_where) simp

section \<open>The vote row\<close>

definition with_vote :: "vote_row \<Rightarrow> approval_db \<Rightarrow> approval_db" where
  "with_vote v db = db\<lparr>db_votes := db_votes db @ [v], seq_vote := seq_vote db + 1\<rparr>"

lemma with_vote_ok:
  assumes ok: "core_ok db" and v: "vt_id v = seq_vote db"
    and r: "r \<in> set (db_approvers db)" "ar_id r = vt_approver_id v" "ar_step_id r = vt_step_id v"
      "ar_approval_id r = vt_approval_id v" "ar_status r = decided_status (vt_decision v)"
    and new: "\<forall>x \<in> set (db_votes db). vt_approver_id x \<noteq> vt_approver_id v \<and>
      (vt_step_id x, vt_decided_by x) \<noteq> (vt_step_id v, vt_decided_by v)"
  shows "core_ok (with_vote v db)"
proof -
  have "keys_ok (with_vote v db)"
    using ok v fresh_ids_snoc [of "map vt_id (db_votes db)" "seq_vote db"]
    by (simp add: core_ok_def keys_ok_def with_vote_def)
  moreover have "uniq_ok (with_vote v db)"
    using ok new by (auto simp: core_ok_def uniq_ok_def with_vote_def)
  moreover have "votes_ok (with_vote v db)"
    using ok r by (auto simp: core_ok_def votes_ok_def with_vote_def)
  ultimately show ?thesis
    using ok by (simp add: core_ok_defs with_vote_def)
qed

lemma with_vote_others: "vt_approval_id v = i \<Longrightarrow> others_same i db (with_vote v db)"
  by (simp add: others_same_def with_vote_def)

lemma with_vote_tables [simp]:
  "db_steps (with_vote v db) = db_steps db" "db_approvals (with_vote v db) = db_approvals db"
  "db_approvers (with_vote v db) = db_approvers db" "db_votes (with_vote v db) = db_votes db @ [v]"
  by (simp_all add: with_vote_def)

text \<open>What a vote that was cast has written.\<close>

lemma cast_voteE:
  assumes "cast_vote env a row key on_behalf act d ch comment token_id db = Inr db'"
  obtains v where "core db' = core (with_vote v (leave env [ar_id row] (decided_status d) token_id db))"
    "vt_id v = seq_vote db" "vt_approval_id v = ap_id a" "vt_step_id v = ar_step_id row"
    "vt_approver_id v = ar_id row" "vt_decision v = d" "vt_decided_by v = key" "vt_on_behalf v = on_behalf"
    "\<forall>x \<in> set (db_votes db). vt_approver_id x \<noteq> ar_id row"
proof -
  define v where "v = \<lparr>vt_id = seq_vote db, vt_approval_id = ap_id a, vt_step_id = ar_step_id row,
         vt_approver_id = ar_id row, vt_ticket_id = ap_ticket_id a, vt_decision = d, vt_comment = comment,
         vt_decided_by = key, vt_on_behalf = on_behalf, vt_channel = ch,
         vt_decided_at = trunc_sec (env_now env)\<rparr>"
  from assms have new: "\<forall>x \<in> set (db_votes db). vt_approver_id x \<noteq> ar_id row"
    by (auto simp: cast_vote_def insert_vote_def res_bind_Inr_iff list_ex_iff split: if_splits)
  have "core db' = core (with_vote v (leave env [ar_id row] (decided_status d) token_id db))"
    using assms
    by (auto simp: cast_vote_def insert_vote_def res_bind_Inr_iff v_def [symmetric] Let_def core_def with_vote_def
        leave_def revoke_links_def upd_defs split: if_splits option.splits)
  with new show ?thesis by (intro that [of v]) (simp_all add: v_def)
qed

lemma cast_vote_db_ok:
  assumes db: "db_ok db" and cast: "cast_vote env a row key on_behalf act d ch comment token_id db = Inr db'"
    and row: "row \<in> set (db_approvers db)" "ar_approval_id row = ap_id a" "ar_status row = AR_pending"
    and fresh: "\<forall>v \<in> set (db_votes db). vt_approval_id v = ap_id a \<longrightarrow> vt_decided_by v = key \<longrightarrow>
      vt_step_id v \<noteq> ar_step_id row"
  shows "db_ok db' \<and> others_same (ap_id a) db db' \<and> db_steps db' = db_steps db \<and>
    map (\<lambda>r. (ar_id r, ar_approval_id r)) (db_approvers db') = map (\<lambda>r. (ar_id r, ar_approval_id r)) (db_approvers db)"
proof -
  have ok: "core_ok db" using db by (simp add: db_ok_def)
  let ?l = "leave env [ar_id row] (decided_status d) token_id db"
  from cast obtain v where v: "core db' = core (with_vote v ?l)" "vt_id v = seq_vote db" "vt_approval_id v = ap_id a"
      "vt_step_id v = ar_step_id row" "vt_approver_id v = ar_id row" "vt_decision v = d" "vt_decided_by v = key"
      and unvoted: "\<forall>x \<in> set (db_votes db). vt_approver_id x \<noteq> ar_id row"
    by (rule cast_voteE)
  have same: "r = row" if "r \<in> set (db_approvers db)" "ar_id r = ar_id row" for r
    using approvers.same_key_same_row [OF core_ok_distinct(3) [OF ok] that(1) row(1) that(2)] .
  have l: "db_ok ?l" using db row(3) same by (intro leave_db_ok) (cases d; auto)+
  have hit: "row\<lparr>ar_status := decided_status d\<rparr> \<in> set (db_approvers ?l)"
    using row(1) unfolding leave_tables(1) using upd_where_hit by fastforce
  have step: "vt_approval_id x = ap_id a" if "x \<in> set (db_votes db)" "vt_step_id x = ar_step_id row" for x
  proof -
    from ok that obtain r where r: "r \<in> set (db_approvers db)" "ar_step_id r = ar_step_id row"
        "ar_approval_id r = vt_approval_id x"
      by (fastforce simp: core_ok_def votes_ok_def)
    obtain s where s: "s \<in> set (db_steps db)" "st_id s = ar_step_id row"
      using core_ok_pending_approver [OF ok row(1,3)] by metis
    show ?thesis
      using core_ok_approver_step [OF ok r(1) s(1)] core_ok_approver_step [OF ok row(1) s] r s row(2) by simp
  qed
  have "core_ok (with_vote v ?l)"
    using l hit row(2) v(2-7) unvoted fresh step by (intro with_vote_ok [OF _ _ hit]) (auto simp: db_ok_def)
  moreover from this have "db_ok (with_vote v ?l)" by (intro db_ok_same_steps [OF l]) simp_all
  moreover have "others_same (ap_id a) db (with_vote v ?l)"
    using leave_others [OF ok, of "[ar_id row]"] row(1,2) with_vote_others [OF v(3)] others_same_trans by fastforce
  ultimately show ?thesis
    using v(1) db_ok_cong [OF v(1)] others_same_core [OF refl v(1)] core_eqD [OF v(1)] leave_owners by simp
qed

section \<open>The voter's other rows\<close>

text \<open>A row reread from the database is a row of it, or its id is not there any more.\<close>

lemma dead_rows_pending:
  assumes ok: "core_ok db" and r: "r \<in> set (db_approvers db)" "ar_id r \<in> set (dead_rows db rows sid key)"
  shows "ar_status r = AR_pending \<and> (\<exists>b \<in> set rows. ar_id b = ar_id r)"
proof -
  from r(2) obtain b where b: "b \<in> set rows" "ar_id (cur_approver db b) = ar_id r"
      "ar_status (cur_approver db b) = AR_pending"
    by (auto simp: dead_rows_def)
  show ?thesis
  proof (cases "get_approver db (ar_id b)")
    case None
    then have "ar_id (cur_approver db b) = ar_id b" by (simp add: cur_approver_def)
    with b(2) None r(1) show ?thesis by (auto simp: get_approver_def dest!: find_NoneD)
  next
    case (Some x)
    then have x: "x \<in> set (db_approvers db)" "ar_id x = ar_id b" using approvers.get_SomeD by blast+
    moreover have "cur_approver db b = x" using Some by (simp add: cur_approver_def)
    ultimately show ?thesis
      using b approvers.same_key_same_row [OF core_ok_distinct(3) [OF ok] x(1) r(1)] by auto
  qed
qed

lemma drop_dead_rows_core:
  "core (drop_dead_rows env a rows sid key act db) = core (leave env (dead_rows db rows sid key) AR_not_needed None db)"
proof (cases "dead_rows db rows sid key = []")
  case True
  moreover have "core (leave env [] AR_not_needed None db) = core db"
    by (simp add: leave_def revoke_links_def upd_defs core_def upd_where_none)
  ultimately show ?thesis by (simp add: drop_dead_rows_def)
next
  case False
  then show ?thesis by (simp add: drop_dead_rows_def Let_def leave_def fold_frame)
qed

lemma drop_dead_rows_db_ok:
  assumes db: "db_ok db" and rows: "\<forall>b \<in> set rows. (ar_id b, i) \<in> (\<lambda>r. (ar_id r, ar_approval_id r)) ` set (db_approvers db)"
  shows "db_ok (drop_dead_rows env a rows sid key act db) \<and>
    others_same i db (drop_dead_rows env a rows sid key act db) \<and>
    db_steps (drop_dead_rows env a rows sid key act db) = db_steps db"
proof -
  have ok: "core_ok db" using db by (simp add: db_ok_def)
  let ?d = "dead_rows db rows sid key"
  have l: "db_ok (leave env ?d AR_not_needed None db)"
    using db dead_rows_pending [OF ok] by (intro leave_db_ok) auto
  have own: "\<exists>r \<in> set (db_approvers db). ar_id r = j \<and> ar_approval_id r = i" if j: "j \<in> set ?d" for j
  proof -
    from j obtain b where b: "b \<in> set rows" "ar_id (cur_approver db b) = j" by (auto simp: dead_rows_def)
    from rows b(1) obtain r where r: "r \<in> set (db_approvers db)" "ar_id r = ar_id b" "ar_approval_id r = i" by fastforce
    then have "get_approver db (ar_id b) = Some r"
      using approvers.get_Some_iff [OF core_ok_distinct(3) [OF ok]] by metis
    then have "cur_approver db b = r" by (simp add: cur_approver_def)
    with b(2) r show ?thesis by auto
  qed
  note core = drop_dead_rows_core [of env a rows sid key act db]
  show ?thesis
    using l leave_others [OF ok own] db_ok_cong [OF core] others_same_core [OF refl core] core_eqD(2) [OF core] by simp
qed

section \<open>Deciding\<close>

text \<open>Who may vote with which row: the reading \<open>pick_approver\<close> and \<open>vote_target\<close> are used by.\<close>

lemma pick_approver_InrE:
  assumes "pick_approver env db rows steps act key approver_id taken = Inr (row, on_behalf)"
  obtains p where "a_principal act = Some p" "row \<in> set rows" "ar_status row = AR_pending"
    "ar_step_id row \<in> st_id ` {s \<in> set steps. st_status s = ST_active}" "ar_step_id row \<notin> taken"
    "on_behalf = (ar_principal row \<noteq> key)" "ar_principal row = key \<or> delegated_row env db steps p row"
    "case approver_id of None \<Rightarrow> True | Some i \<Rightarrow> ar_id row = i"
proof -
  from assms obtain p where p: "a_principal act = Some p" by (auto simp: pick_approver_def split: option.splits)
  let ?free = "filter (\<lambda>r. ar_step_id r \<notin> taken) (usable_rows steps (candidate_rows env db rows steps p key approver_id))"
  let ?sorted = "sort_key (\<lambda>r. (ar_principal r \<noteq> key, ar_id r)) ?free"
  have cases: "(case ?sorted of [] \<Rightarrow> Inl e | r # _ \<Rightarrow> Inr (r, ar_principal r \<noteq> key)) = Inr (row, on_behalf) \<Longrightarrow>
      row \<in> set ?sorted \<and> on_behalf = (ar_principal row \<noteq> key)" for e
    by (cases ?sorted) auto
  have "row \<in> set ?sorted \<and> on_behalf = (ar_principal row \<noteq> key)"
    using assms unfolding pick_approver_def Let_def p option.case by (rule cases)
  then have beh: "on_behalf = (ar_principal row \<noteq> key)" and "row \<in> set ?free" by simp_all
  then have row: "row \<in> set rows" "ar_status row = AR_pending" "ar_step_id row \<notin> taken"
      "ar_step_id row \<in> st_id ` {s \<in> set steps. st_status s = ST_active}"
      "case approver_id of None \<Rightarrow> True | Some i \<Rightarrow> ar_id row = i"
      "ar_principal row = key \<or> delegated_row env db steps p row"
    by (simp_all add: usable_rows_def candidate_rows_def Let_def)
  show ?thesis by (rule that [OF p row(1,2,4,3) beh row(6,5)])
qed

lemma check_vote_InrE:
  assumes "check_vote env db a act ch key row on_behalf s = Inr p"
  obtains excluded where "excluded_keys db a = Inr excluded" "key \<notin> excluded"
    "on_behalf \<longrightarrow> ar_principal row \<notin> excluded" "a_principal act = Some p"
    "ch = Ch_email \<longrightarrow> sp_allow_email (st_spec s)"
    "p_kind p = Customer \<longrightarrow> (\<exists>login. p_login p = Some login \<and> check_customer_approver env db a login = Inr ())"
  using assms by (auto simp: check_vote_def res_bind_Inr_iff split: if_splits option.splits)

lemma vote_target_InrE:
  assumes "vote_target env a act ch approver_id db = Inr (row, on_behalf, s, key, p)"
  shows "pick_approver env db (locked_approvers db (ap_id a)) (locked_steps db (ap_id a)) act key approver_id
      (voted_steps db (ap_id a) key) = Inr (row, on_behalf)"
    and "voter_key (db_znuny db) act = Inr key"
    and "s \<in> set (locked_steps db (ap_id a))" and "st_id s = ar_step_id row"
    and "check_vote env db a act ch key row on_behalf s = Inr p"
  using assms find_SomeD [of "\<lambda>s. st_id s = ar_step_id row" "locked_steps db (ap_id a)" s]
  by (auto simp: vote_target_def Let_def res_bind_Inr_iff split: option.splits)

lemma vote_target_rows:
  assumes t: "vote_target env a act ch approver_id db = Inr (row, on_behalf, s, key, p)" and ok: "core_ok db"
  shows "row \<in> set (db_approvers db)" "ar_approval_id row = ap_id a" "ar_status row = AR_pending"
    "s \<in> set (db_steps db)" "st_approval_id s = ap_id a" "st_id s = ar_step_id row" "st_status s = ST_active"
    "\<forall>v \<in> set (db_votes db). vt_approval_id v = ap_id a \<longrightarrow> vt_decided_by v = key \<longrightarrow> vt_step_id v \<noteq> ar_step_id row"
proof -
  note T = vote_target_InrE [OF t]
  show s: "s \<in> set (db_steps db)" "st_approval_id s = ap_id a" "st_id s = ar_step_id row" using T(3,4) by simp_all
  have row: "row \<in> set (db_approvers db)" "ar_approval_id row = ap_id a" "ar_status row = AR_pending"
      "ar_step_id row \<notin> voted_steps db (ap_id a) key" "\<exists>x \<in> set (db_steps db). st_id x = ar_step_id row \<and> st_status x = ST_active"
    by (rule pick_approver_InrE [OF T(1)], force)+
  show "row \<in> set (db_approvers db)" "ar_approval_id row = ap_id a" "ar_status row = AR_pending" by (fact row)+
  show "st_status s = ST_active" using step_id_approval [OF ok s(1)] row(5) s(3) by metis
  show "\<forall>v \<in> set (db_votes db). vt_approval_id v = ap_id a \<longrightarrow> vt_decided_by v = key \<longrightarrow> vt_step_id v \<noteq> ar_step_id row"
    using row(4) unfolding voted_steps_def by (auto simp: image_iff)
qed

lemma decide_InrE:
  assumes "decide env i act d ch comment approver_id token_id db = Inr (r, db')"
  obtains a row on_behalf s key p cmt db1 where "lock_approval db i = Inr a" "ap_status a = AP_pending"
    "vote_target env a act ch approver_id db = Inr (row, on_behalf, s, key, p)"
    "cast_vote env a row key on_behalf act d ch cmt token_id db = Inr db1"
    "settle_vote env a s (locked_approvers db (ap_id a)) act
       (drop_dead_rows env a (locked_approvers db (ap_id a)) (st_id s) key act db1) = Inr db'"
    "r = \<lparr>dr_info = info (cur db' a), dr_vote_id = seq_vote db, dr_step_status = st_status (cur_step db' s),
       dr_on_behalf = on_behalf, dr_affected = affected_users db db' (ap_id a) p\<rparr>"
  using assms by (auto simp: decide_def Let_def res_bind_Inr_iff split: if_splits)

lemma outcome_status_closed: "out \<noteq> V_pending \<Longrightarrow> outcome_status out = ST_approved \<or> outcome_status out = ST_rejected"
  by (cases out) auto

lemma settle_vote_db_ok:
  assumes settle: "settle_vote env a s rows act db = Inr db'" and db: "db_ok db"
    and s: "s \<in> set (db_steps db)" "st_approval_id s = ap_id a" "st_status s = ST_active"
  shows "db_ok db' \<and> others_same (ap_id a) db db' \<and> engine_keeps db db'"
proof -
  from settle obtain out where "out = V_pending \<and> db' = db \<or>
      out \<noteq> V_pending \<and> close_step env a s (outcome_status out) ''votes'' act (trunc_sec (env_now env)) db = Inr db'"
    by (auto simp: settle_vote_def res_bind_Inr_iff split: if_splits)
  then show ?thesis
    using db close_step_db_ok [OF db s(1) refl s(2,3) outcome_status_closed] by auto
qed

text \<open>A decision in its three writes: the vote, the voter's dead rows, the outcome of the step.\<close>

lemma decide_parts:
  assumes dec: "decide env i act d ch comment approver_id token_id db = Inr (r, db')" and db: "db_ok db"
  obtains a row on_behalf s key p v db1 db2 where "lock_approval db i = Inr a" "ap_status a = AP_pending"
    "vote_target env a act ch approver_id db = Inr (row, on_behalf, s, key, p)"
    "core db1 = core (with_vote v (leave env [ar_id row] (decided_status d) token_id db))"
    "vt_approval_id v = ap_id a" "vt_step_id v = ar_step_id row" "vt_approver_id v = ar_id row" "vt_decision v = d"
    "vt_decided_by v = key" "vt_on_behalf v = on_behalf"
    "db_ok db1" "others_same (ap_id a) db db1" "db_steps db1 = db_steps db"
    "\<forall>b \<in> set (locked_approvers db (ap_id a)). (ar_id b, ap_id a) \<in> (\<lambda>r. (ar_id r, ar_approval_id r)) ` set (db_approvers db1)"
    "core db2 = core (leave env (dead_rows db1 (locked_approvers db (ap_id a)) (st_id s) key) AR_not_needed None db1)"
    "db_ok db2" "others_same (ap_id a) db1 db2" "db_steps db2 = db_steps db"
    "settle_vote env a s (locked_approvers db (ap_id a)) act db2 = Inr db'"
proof -
  from dec obtain a row on_behalf s key p cmt db1 where a: "lock_approval db i = Inr a" "ap_status a = AP_pending"
      and t: "vote_target env a act ch approver_id db = Inr (row, on_behalf, s, key, p)"
      and cast: "cast_vote env a row key on_behalf act d ch cmt token_id db = Inr db1"
      and settle: "settle_vote env a s (locked_approvers db (ap_id a)) act
        (drop_dead_rows env a (locked_approvers db (ap_id a)) (st_id s) key act db1) = Inr db'"
    by (rule decide_InrE)
  have ok: "core_ok db" using db by (simp add: db_ok_def)
  note T = vote_target_rows [OF t ok]
  from cast obtain v where v: "core db1 = core (with_vote v (leave env [ar_id row] (decided_status d) token_id db))"
      "vt_approval_id v = ap_id a" "vt_step_id v = ar_step_id row" "vt_approver_id v = ar_id row" "vt_decision v = d"
      "vt_decided_by v = key" "vt_on_behalf v = on_behalf"
    by (rule cast_voteE)
  let ?db2 = "drop_dead_rows env a (locked_approvers db (ap_id a)) (st_id s) key act db1"
  from cast_vote_db_ok [OF db cast T(1-3,8)] have db1: "db_ok db1" "others_same (ap_id a) db db1"
      "db_steps db1 = db_steps db" "map (\<lambda>r. (ar_id r, ar_approval_id r)) (db_approvers db1) =
        map (\<lambda>r. (ar_id r, ar_approval_id r)) (db_approvers db)"
    by blast+
  have own: "\<forall>b \<in> set (locked_approvers db (ap_id a)). (ar_id b, ap_id a) \<in> (\<lambda>r. (ar_id r, ar_approval_id r)) ` set (db_approvers db1)"
    using arg_cong [OF db1(4), of set] by (auto simp: image_iff)
  from drop_dead_rows_db_ok [OF db1(1) this] have db2: "db_ok ?db2" "others_same (ap_id a) db1 ?db2"
      "db_steps ?db2 = db_steps db" using db1(3) by simp_all
  show thesis by (rule that [OF a t v db1(1-3) own drop_dead_rows_core db2 settle])
qed

lemma decide_db_ok:
  assumes dec: "decide env i act d ch comment approver_id token_id db = Inr (r, db')" and db: "db_ok db"
  shows "db_ok db' \<and> others_same i db db'"
  using dec db
proof (rule decide_parts)
  fix a row on_behalf s key p db1 db2
  assume a: "lock_approval db i = Inr a" and t: "vote_target env a act ch approver_id db = Inr (row, on_behalf, s, key, p)"
    and same: "others_same (ap_id a) db db1" "others_same (ap_id a) db1 db2" and db2: "db_ok db2" "db_steps db2 = db_steps db"
    and settle: "settle_vote env a s (locked_approvers db (ap_id a)) act db2 = Inr db'"
  note T = vote_target_rows [OF t]
  have "db_ok db' \<and> others_same (ap_id a) db2 db' \<and> engine_keeps db2 db'"
    using settle_vote_db_ok [OF settle db2(1)] T(4,5,7) db2(2) db by (simp add: db_ok_def)
  then show ?thesis
    using others_same_trans [OF others_same_trans [OF same]] lock_approval_row(2) [OF a] by simp
qed

interpretation decide_op: request_operation
  "\<lambda>(env, i, act, d, ch, comment, approver_id, token_id). decide env i act d ch comment approver_id token_id"
  "\<lambda>(env, i, act, d, ch, comment, approver_id, token_id). i"
  by unfold_locales (auto dest: decide_db_ok)

section \<open>Forwarding\<close>

lemma forward_target_InrE:
  assumes "forward_target env a approver_id act uid to_user db = Inr (row, s, target)"
  shows "row \<in> set (db_approvers db)" "ar_approval_id row = ap_id a" "ar_id row = approver_id"
    "ar_principal row = actor_key act" "ar_status row = AR_pending" "ar_source_kind row \<noteq> S_forward"
    "s \<in> set (db_steps db)" "st_approval_id s = ap_id a" "st_id s = ar_step_id row" "st_status s = ST_active"
    "sp_allow_delegation (st_spec s)" "to_user \<noteq> uid" "to_user \<noteq> SYSTEM_USER_ID"
    "agent_valid (db_znuny db) to_user = Some 1" "principal_agent to_user = Inr target"
    "\<exists>excluded. excluded_keys db a = Inr excluded \<and> principal_key target \<notin> excluded"
    "principal_key target \<notin> voters_in_step db (st_id s)"
proof -
  from assms have row: "find (\<lambda>r. ar_id r = approver_id) (locked_approvers db (ap_id a)) = Some row"
      and s: "find (\<lambda>s. st_id s = ar_step_id row) (locked_steps db (ap_id a)) = Some s"
    by (auto simp: forward_target_def Let_def res_bind_Inr_iff split: option.splits if_splits)
  show "row \<in> set (db_approvers db)" "ar_approval_id row = ap_id a" "ar_id row = approver_id"
    "s \<in> set (db_steps db)" "st_approval_id s = ap_id a" "st_id s = ar_step_id row"
    using find_SomeD [OF row] find_SomeD [OF s] by simp_all
  show "ar_principal row = actor_key act" "ar_status row = AR_pending" "ar_source_kind row \<noteq> S_forward"
    "st_status s = ST_active" "sp_allow_delegation (st_spec s)" "to_user \<noteq> uid" "to_user \<noteq> SYSTEM_USER_ID"
    "agent_valid (db_znuny db) to_user = Some 1" "principal_agent to_user = Inr target"
    "\<exists>excluded. excluded_keys db a = Inr excluded \<and> principal_key target \<notin> excluded"
    "principal_key target \<notin> voters_in_step db (st_id s)"
    using assms row s by (auto simp: forward_target_def Let_def res_bind_Inr_iff split: option.splits if_splits)
qed

lemma forward_InrE:
  assumes "forward env i approver_id act to_user db = Inr (new_id, db')"
  obtains a uid row s target db1 where "agent_of act = Some uid" "lock_approval db i = Inr a" "ap_status a = AP_pending"
    "forward_target env a approver_id act uid to_user db = Inr (row, s, target)"
    "add_approver env a s act (env_now env) \<lparr>ra_principal = target, ra_source_kind = S_forward,
       ra_source_ref = Some (str_int (ar_id row)), ra_source_label = None\<rparr> db = Inr (new_id, db1)"
    "core db' = core (leave env [ar_id row] AR_forwarded None
       (upd_approvers (\<lambda>r. ar_id r = new_id) (\<lambda>r. r\<lparr>ar_decisive := ar_decisive row\<rparr>) db1))"
proof -
  from assms obtain a uid row s target db1 where "agent_of act = Some uid" "lock_approval db i = Inr a" "ap_status a = AP_pending"
    "forward_target env a approver_id act uid to_user db = Inr (row, s, target)"
    "add_approver env a s act (env_now env) \<lparr>ra_principal = target, ra_source_kind = S_forward,
       ra_source_ref = Some (str_int (ar_id row)), ra_source_label = None\<rparr> db = Inr (new_id, db1)"
    and mail: "enqueue_notification env (ap_id a) M_forwarded [new_id] False
       (audit_record env a A_forwarded act (Some (st_id s)) (Some (ar_id row)) None
          [(''to_user_id'', JInt to_user), (''new_approver_id'', JInt new_id)]
          (snd (revoke_links env [ar_id row] None
            (upd_approvers (\<lambda>r. ar_id r = ar_id row) (\<lambda>r. r\<lparr>ar_status := AR_forwarded\<rparr>)
              (upd_approvers (\<lambda>r. ar_id r = new_id) (\<lambda>r. r\<lparr>ar_decisive := ar_decisive row\<rparr>) db1))))) = Inr db'"
    by (auto simp: forward_def Let_def res_bind_Inr_iff split: if_splits option.splits)
  with core_enqueue(2) [OF mail] show ?thesis by (intro that) (simp_all add: leave_def)
qed

text \<open>A new row on an active step keeps the invariant; what it is marked with does not matter.\<close>

lemma add_approver_db_ok:
  assumes db: "db_ok db" and add: "add_approver env a s act now ra db = Inr (j, db')"
    and s: "s' \<in> set (db_steps db)" "st_id s' = st_id s" "st_approval_id s' = ap_id a" "st_status s' = ST_active"
  shows "db_ok db' \<and> others_same (ap_id a) db db' \<and> db_steps db' = db_steps db \<and> db_approvals db' = db_approvals db \<and>
    db_votes db' = db_votes db \<and> (\<forall>r \<in> set (db_approvers db'). r \<in> set (db_approvers db) \<or>
      ar_id r = j \<and> ar_approval_id r = ap_id a \<and> ar_step_id r = st_id s \<and> ar_status r = AR_pending \<and>
      ar_principal r = principal_key (ra_principal ra)) \<and> set (db_approvers db) \<subseteq> set (db_approvers db') \<and>
    j \<notin> ar_id ` set (db_approvers db)"
proof -
  have ok: "core_ok db" using db by (simp add: db_ok_def)
  have ok': "core_ok db'" by (rule add_approver_ok [OF ok add s])
  from add show ?thesis
  proof (rule add_approver_InrE)
    fix row assume rows: "db_approvers db' = db_approvers db @ [row]" "j = seq_approver db" "ar_id row = j"
      "ar_approval_id row = ap_id a" "ar_step_id row = st_id s" "ar_status row = AR_pending"
      "ar_principal row = principal_key (ra_principal ra)"
      "db_approvals db' = db_approvals db" "db_steps db' = db_steps db" "db_votes db' = db_votes db"
    have "j \<notin> ar_id ` set (db_approvers db)"
      using ok rows(2) by (auto simp: core_ok_def keys_ok_def fresh_ids_def)
    then show ?thesis
      using rows db_ok_same_steps [OF db ok' rows(8,9)] add_approver_others [OF add] by auto
  qed
qed

lemma forward_db_ok:
  assumes fwd: "forward env i approver_id act to_user db = Inr (new_id, db')" and db: "db_ok db"
  shows "db_ok db' \<and> others_same i db db'"
proof -
  have ok: "core_ok db" using db by (simp add: db_ok_def)
  from fwd obtain a uid row s target db1 where a: "lock_approval db i = Inr a"
    and t: "forward_target env a approver_id act uid to_user db = Inr (row, s, target)"
    and add: "add_approver env a s act (env_now env) \<lparr>ra_principal = target, ra_source_kind = S_forward,
       ra_source_ref = Some (str_int (ar_id row)), ra_source_label = None\<rparr> db = Inr (new_id, db1)"
    and core: "core db' = core (leave env [ar_id row] AR_forwarded None
       (upd_approvers (\<lambda>r. ar_id r = new_id) (\<lambda>r. r\<lparr>ar_decisive := ar_decisive row\<rparr>) db1))"
    by (rule forward_InrE)
  note T = forward_target_InrE [OF t]
  note A = add_approver_db_ok [OF db add T(7) refl T(8,10)]
  let ?db2 = "upd_approvers (\<lambda>r. ar_id r = new_id) (\<lambda>r. r\<lparr>ar_decisive := ar_decisive row\<rparr>) db1"
  have ok1: "core_ok db1" using A by (simp add: db_ok_def)
  have new: "ar_approval_id x = ap_id a" if "x \<in> set (db_approvers db1)" "ar_id x = new_id" for x
    using A that by blast
  have ok2: "core_ok ?db2" by (rule approvers_upd_ok [OF ok1]) simp_all
  have db2: "db_ok ?db2" by (rule db_ok_same_steps [OF A [THEN conjunct1] ok2]) simp_all
  have others2: "others_same (ap_id a) db1 ?db2"
    using new filter_upd_where_members [of "db_approvers db1" "\<lambda>r. ar_id r = new_id" "\<lambda>r. ar_approval_id r \<noteq> ap_id a"
        "\<lambda>r. r\<lparr>ar_decisive := ar_decisive row\<rparr>"]
    by (simp add: others_same_def)
  have differ: "new_id \<noteq> ar_id row" using A T(1) by blast
  have row2: "row \<in> set (db_approvers ?db2)"
    using A T(1) differ upd_where_kept [of row "db_approvers db1" "\<lambda>r. ar_id r = new_id"] by auto
  have pend: "ar_status r = AR_pending \<and> r = row" if "r \<in> set (db_approvers ?db2)" "ar_id r \<in> set [ar_id row]" for r
    using approvers.same_key_same_row [OF core_ok_distinct(3) [OF ok2] that(1) row2] that(2) T(5) by simp
  have l: "db_ok (leave env [ar_id row] AR_forwarded None ?db2)"
    using pend by (intro leave_db_ok [OF db2]) auto
  have "others_same (ap_id a) ?db2 (leave env [ar_id row] AR_forwarded None ?db2)"
    using row2 T(2) by (intro leave_others [OF ok2]) auto
  then show ?thesis
    using l db_ok_cong [OF core] others_same_core [OF refl core, of "ap_id a" db] lock_approval_row(2) [OF a]
      others_same_trans [OF others_same_trans [OF A [THEN conjunct2, THEN conjunct1] others2]] by simp
qed

interpretation forward_op: request_operation
  "\<lambda>(env, i, approver_id, act, to_user). forward env i approver_id act to_user"
  "\<lambda>(env, i, approver_id, act, to_user). i"
  by unfold_locales (auto dest: forward_db_ok)

end
