(* ===== verification/Approval_Lifecycle.thy ===== *)
theory Approval_Lifecycle
  imports Approval_Voting
begin

text \<open>
  The operations that change who may vote and which requests there are: refreshing the approvers,
  requesting, superseding, recording an automatic decision. Each keeps the invariant.
\<close>

section \<open>Refreshing\<close>

lemma remove_departed_core:
  "core (remove_departed env a s act row db) = core (leave env [ar_id row] AR_removed None db)"
  by (simp add: remove_departed_def leave_def)

lemma leave_one:
  assumes db: "db_ok db" and row: "row \<in> set (db_approvers db)" "ar_approval_id row = i" "ar_status row = AR_pending"
    and st: "st \<noteq> AR_pending"
  shows "db_ok (leave env [ar_id row] st red db)" "others_same i db (leave env [ar_id row] st red db)"
    "x \<in> set (db_approvers db) \<Longrightarrow> ar_id x \<noteq> ar_id row \<Longrightarrow> x \<in> set (db_approvers (leave env [ar_id row] st red db))"
proof -
  have ok: "core_ok db" using db by (simp add: db_ok_def)
  have same: "r = row" if "r \<in> set (db_approvers db)" "ar_id r = ar_id row" for r
    using approvers.same_key_same_row [OF core_ok_distinct(3) [OF ok] that(1) row(1) that(2)] .
  show "db_ok (leave env [ar_id row] st red db)" using row(3) same by (intro leave_db_ok [OF db st]) auto
  show "others_same i db (leave env [ar_id row] st red db)" using row(1,2) by (intro leave_others [OF ok]) auto
  show "x \<in> set (db_approvers db) \<Longrightarrow> ar_id x \<noteq> ar_id row \<Longrightarrow> x \<in> set (db_approvers (leave env [ar_id row] st red db))"
    unfolding leave_tables(1) by (intro upd_where_kept) simp_all
qed

lemma remove_all_departed:
  assumes "db_ok db" and "\<forall>r \<in> set rs. r \<in> set (db_approvers db) \<and> ar_approval_id r = ap_id a \<and> ar_status r = AR_pending"
    and "distinct (map ar_id rs)"
  shows "db_ok (fold (remove_departed env a s act) rs db) \<and>
    others_same (ap_id a) db (fold (remove_departed env a s act) rs db) \<and>
    db_steps (fold (remove_departed env a s act) rs db) = db_steps db \<and>
    (\<forall>x \<in> set (db_approvers db). ar_id x \<notin> ar_id ` set rs \<longrightarrow>
      x \<in> set (db_approvers (fold (remove_departed env a s act) rs db)))"
  using assms
proof (induction rs arbitrary: db)
  case Nil
  then show ?case by simp
next
  case (Cons r rs)
  let ?db1 = "remove_departed env a s act r db"
  note core = remove_departed_core [of env a s act r db]
  note l = leave_one [OF Cons.prems(1), where row = r and i = "ap_id a" and st = AR_removed and env = env and red = None]
  have db1: "db_ok ?db1" "others_same (ap_id a) db ?db1" "db_steps ?db1 = db_steps db"
      "\<And>x. x \<in> set (db_approvers db) \<Longrightarrow> ar_id x \<noteq> ar_id r \<Longrightarrow> x \<in> set (db_approvers ?db1)"
    using l Cons.prems(2) db_ok_cong [OF core] others_same_core [OF refl core, of "ap_id a" db] core_eqD(2,3) [OF core]
    by simp_all
  have rs: "\<forall>x \<in> set rs. x \<in> set (db_approvers ?db1) \<and> ar_approval_id x = ap_id a \<and> ar_status x = AR_pending"
    using Cons.prems(2,3) db1(4) by (auto simp: image_iff)
  have "distinct (map ar_id rs)" using Cons.prems(3) by simp
  note IH = Cons.IH [OF db1(1) rs this]
  then show ?case
    using others_same_trans [OF db1(2)] db1(3,4) by simp
qed

lemma add_missing_db_ok:
  assumes add: "add_missing env a s act ras keys db = Inr (ids, db')" and db: "db_ok db"
    and s: "s \<in> set (db_steps db)" "st_approval_id s = ap_id a" "st_status s = ST_active"
  shows "db_ok db' \<and> others_same (ap_id a) db db' \<and> db_steps db' = db_steps db \<and>
    set (db_approvers db) \<subseteq> set (db_approvers db')"
proof -
  let ?P = "\<lambda>d. db_ok d \<and> others_same (ap_id a) db d \<and> db_steps d = db_steps db \<and> set (db_approvers db) \<subseteq> set (db_approvers d)"
  from add obtain ks where fold: "res_fold (\<lambda>ra (keys, ids, db).
         if principal_key (ra_principal ra) \<in> keys then Inr (keys, ids, db)
         else res_bind (add_approver env a s act (env_now env) ra db) (\<lambda>(i, db').
           Inr (insert (principal_key (ra_principal ra)) keys, ids @ [i], db')))
       ras (keys, [], db) = Inr (ks, ids, db')"
    by (auto simp: add_missing_def res_bind_Inr_iff)
  have "case (ks, ids, db') of (_, _, d) \<Rightarrow> ?P d"
  proof (rule res_fold_invariant [OF fold, where P = "\<lambda>(_, _, d). ?P d"])
    show "case (keys, [], db) of (_, _, d) \<Rightarrow> ?P d" using db by simp
  next
    fix ra acc acc'
    assume P: "case acc of (_, _, d) \<Rightarrow> ?P d"
      and step: "(case acc of (keys, ids, db) \<Rightarrow>
         if principal_key (ra_principal ra) \<in> keys then Inr (keys, ids, db)
         else res_bind (add_approver env a s act (env_now env) ra db) (\<lambda>(i, db').
           Inr (insert (principal_key (ra_principal ra)) keys, ids @ [i], db'))) = Inr acc'"
    obtain ks js d where acc: "acc = (ks, js, d)" by (cases acc)
    from step acc consider "acc' = acc" | j d' where "add_approver env a s act (env_now env) ra d = Inr (j, d')"
        "acc' = (insert (principal_key (ra_principal ra)) ks, js @ [j], d')"
      by (auto simp: res_bind_Inr_iff split: if_splits)
    then show "case acc' of (_, _, d) \<Rightarrow> ?P d"
    proof cases
      case 1
      then show ?thesis using P by simp
    next
      case (2 j d')
      have d: "db_ok d" "others_same (ap_id a) db d" "db_steps d = db_steps db" "set (db_approvers db) \<subseteq> set (db_approvers d)"
        using P acc by simp_all
      have sd: "s \<in> set (db_steps d)" using s(1) d(3) by simp
      from add_approver_db_ok [OF d(1) 2(1) sd refl s(2,3)] d(2-4) show ?thesis
        unfolding 2(2) prod.case using others_same_trans [OF d(2)] by (elim conjE) (intro conjI; (assumption | simp | blast))
    qed
  qed
  then show ?thesis by simp
qed

lemma refresh_step_InrE:
  assumes "refresh_step env a act approvers s (added, n, db) = Inr (added', n', db')"
  obtains rn db1 ids where "resolve_step env db a None (sp_approvers (st_spec s)) = Inr rn"
    "db1 = fold (remove_departed env a s act) (departed_rows rn (filter (\<lambda>r. ar_step_id r = st_id s) approvers))
       (audit_unresolved env a s rn act db)"
    "add_missing env a s act (rn_approvers rn)
       (set (map ar_principal (filter (\<lambda>r. ar_step_id r = st_id s) approvers)) \<union> voters_in_step db1 (st_id s)) db1 =
     Inr (ids, db')"
    "added' = added @ ids"
  using assms by (auto simp: refresh_step_def res_bind_Inr_iff Let_def)

lemma refresh_step_db_ok:
  assumes step: "refresh_step env a act approvers s (added, n, db) = Inr (added', n', db')" and db: "db_ok db"
    and s: "s \<in> set (db_steps db)" "st_approval_id s = ap_id a" "st_status s = ST_active"
    and rows: "distinct (map ar_id approvers)" "\<forall>r \<in> set approvers. ar_approval_id r = ap_id a"
      "\<forall>r \<in> set approvers. ar_step_id r = st_id s \<longrightarrow> r \<in> set (db_approvers db)"
  shows "db_ok db' \<and> others_same (ap_id a) db db' \<and> db_steps db' = db_steps db \<and>
    (\<forall>r \<in> set approvers. ar_step_id r \<noteq> st_id s \<longrightarrow> r \<in> set (db_approvers db) \<longrightarrow> r \<in> set (db_approvers db'))"
proof -
  from step obtain rn db1 ids where db1: "db1 = fold (remove_departed env a s act)
        (departed_rows rn (filter (\<lambda>r. ar_step_id r = st_id s) approvers)) (audit_unresolved env a s rn act db)"
      and add: "add_missing env a s act (rn_approvers rn)
        (set (map ar_principal (filter (\<lambda>r. ar_step_id r = st_id s) approvers)) \<union> voters_in_step db1 (st_id s)) db1 =
        Inr (ids, db')"
    by (rule refresh_step_InrE)
  let ?dep = "departed_rows rn (filter (\<lambda>r. ar_step_id r = st_id s) approvers)"
  let ?db0 = "audit_unresolved env a s rn act db"
  have core0: "core ?db0 = core db" by simp
  have dep: "\<forall>r \<in> set ?dep. r \<in> set (db_approvers ?db0) \<and> ar_approval_id r = ap_id a \<and> ar_status r = AR_pending"
    using rows(2,3) by (simp add: departed_rows_def)
  have "distinct (map ar_id ?dep)"
    using rows(1) by (simp add: departed_rows_def distinct_map_filter)
  from remove_all_departed [OF _ dep this, of env s act] db have R: "db_ok db1" "others_same (ap_id a) ?db0 db1"
      "db_steps db1 = db_steps db" "\<forall>x \<in> set (db_approvers db). ar_id x \<notin> ar_id ` set ?dep \<longrightarrow> x \<in> set (db_approvers db1)"
    using db_ok_cong [OF core0] by (simp_all add: db1)
  have others1: "others_same (ap_id a) db db1" using R(2) others_same_core [OF core0 refl] by simp
  have "s \<in> set (db_steps db1)" using s(1) R(3) by simp
  note A = add_missing_db_ok [OF add R(1) this s(2,3)]
  have "r \<in> set (db_approvers db')" if r: "r \<in> set approvers" "ar_step_id r \<noteq> st_id s" "r \<in> set (db_approvers db)" for r
  proof -
    have "ar_id r \<notin> ar_id ` set ?dep"
    proof
      assume "ar_id r \<in> ar_id ` set ?dep"
      then obtain d where d: "d \<in> set approvers" "ar_step_id d = st_id s" "ar_id d = ar_id r"
        by (auto simp: departed_rows_def)
      have "d = r" using rows(1) d(1,3) r(1) by (metis distinct_map inj_onD)
      with d(2) r(2) show False by simp
    qed
    then show ?thesis using R(4) A r(3) by blast
  qed
  then show ?thesis using A others_same_trans [OF others1] R(3) by auto
qed

lemma refresh_steps_db_ok:
  assumes "res_fold (refresh_step env a act approvers) ss (added, n, db) = Inr (added', n', db')" and "db_ok db"
    and "\<forall>s \<in> set ss. s \<in> set (db_steps db) \<and> st_approval_id s = ap_id a \<and> st_status s = ST_active"
    and "distinct (map st_id ss)"
    and "distinct (map ar_id approvers)" "\<forall>r \<in> set approvers. ar_approval_id r = ap_id a"
      "\<forall>r \<in> set approvers. ar_step_id r \<in> st_id ` set ss \<longrightarrow> r \<in> set (db_approvers db)"
  shows "db_ok db' \<and> others_same (ap_id a) db db' \<and> db_steps db' = db_steps db"
  using assms
proof (induction ss arbitrary: added n db)
  case Nil
  then show ?case by simp
next
  case (Cons s ss)
  from Cons.prems(1) obtain added1 n1 db1 where
      step: "refresh_step env a act approvers s (added, n, db) = Inr (added1, n1, db1)"
      and rest: "res_fold (refresh_step env a act approvers) ss (added1, n1, db1) = Inr (added', n', db')"
    by (auto simp: res_bind_Inr_iff)
  have s: "s \<in> set (db_steps db)" "st_approval_id s = ap_id a" "st_status s = ST_active" using Cons.prems(3) by simp_all
  have "\<forall>r \<in> set approvers. ar_step_id r = st_id s \<longrightarrow> r \<in> set (db_approvers db)" using Cons.prems(7) by auto
  note S = refresh_step_db_ok [OF step Cons.prems(2) s Cons.prems(5,6) this]
  have "\<forall>x \<in> set ss. x \<in> set (db_steps db1) \<and> st_approval_id x = ap_id a \<and> st_status x = ST_active"
    using S Cons.prems(3) by simp
  moreover have "\<forall>r \<in> set approvers. ar_step_id r \<in> st_id ` set ss \<longrightarrow> r \<in> set (db_approvers db1)"
    using S Cons.prems(4,7) by auto
  ultimately have "db_ok db' \<and> others_same (ap_id a) db1 db' \<and> db_steps db' = db_steps db1"
    using Cons.IH [OF rest] S Cons.prems(4-6) by simp
  then show ?case using S others_same_trans by metis
qed

lemma refresh_approvers_InrE:
  assumes "refresh_approvers env i act db = Inr (r, db')"
  obtains a added removed db1 db3 where "lock_approval db i = Inr a" "can_refresh db a act" "ap_status a = AP_pending"
    "res_fold (refresh_step env a act (locked_approvers db (ap_id a)))
       (filter (\<lambda>s. st_status s = ST_active) (locked_steps db (ap_id a))) ([], 0, db) = Inr (added, removed, db1)"
    "reevaluate_steps env a (filter (\<lambda>s. st_status s = ST_active) (locked_steps db (ap_id a))) act (env_now env)
       (audit_record env a A_refreshed act None None None
          [(''added'', JInt (int (length added))), (''removed'', JInt (int removed))] db1) = Inr db3"
    "core db' = core db3" "r = (length added, removed)"
proof -
  from assms obtain a where a: "lock_approval db i = Inr a" "can_refresh db a act" "ap_status a = AP_pending"
    by (auto simp: refresh_approvers_def res_bind_Inr_iff split: if_splits)
  with assms obtain added removed db1 db3 where
    1: "res_fold (refresh_step env a act (locked_approvers db (ap_id a)))
       (filter (\<lambda>s. st_status s = ST_active) (locked_steps db (ap_id a))) ([], 0, db) = Inr (added, removed, db1)"
    and 2: "reevaluate_steps env a (filter (\<lambda>s. st_status s = ST_active) (locked_steps db (ap_id a))) act (env_now env)
       (audit_record env a A_refreshed act None None None
          [(''added'', JInt (int (length added))), (''removed'', JInt (int removed))] db1) = Inr db3"
    and 3: "(if ap_status (cur db3 a) = AP_pending \<and> added \<noteq> []
                   then enqueue_notification env (ap_id a) M_request
                     (map ar_id (filter (\<lambda>r. ar_id r \<in> set added \<and> ar_status r = AR_pending)
                       (locked_approvers db3 (ap_id a)))) False db3
                   else Inr db3) = Inr db'"
    and 4: "r = (length added, removed)"
    by (auto simp: refresh_approvers_def res_bind_Inr_iff Let_def)
  have "core db' = core db3" using 3 core_enqueue(2) by (auto split: if_splits)
  from that [OF a 1 2 this 4] show ?thesis .
qed

lemma locked_distinct:
  assumes "core_ok db"
  shows "distinct (map ar_id (locked_approvers db i))" "distinct (map st_id (locked_steps db i))"
  using core_ok_distinct [OF assms]
  by (auto simp: locked_approvers_def locked_steps_def distinct_map intro: inj_on_subset)

lemma refresh_db_ok:
  assumes ref: "refresh_approvers env i act db = Inr (r, db')" and db: "db_ok db"
  shows "db_ok db' \<and> others_same i db db'"
proof -
  have ok: "core_ok db" using db by (simp add: db_ok_def)
  from ref obtain a added removed db1 db3 where a: "lock_approval db i = Inr a"
    and fold: "res_fold (refresh_step env a act (locked_approvers db (ap_id a)))
       (filter (\<lambda>s. st_status s = ST_active) (locked_steps db (ap_id a))) ([], 0, db) = Inr (added, removed, db1)"
    and reev: "reevaluate_steps env a (filter (\<lambda>s. st_status s = ST_active) (locked_steps db (ap_id a))) act (env_now env)
       (audit_record env a A_refreshed act None None None
          [(''added'', JInt (int (length added))), (''removed'', JInt (int removed))] db1) = Inr db3"
    and core: "core db' = core db3"
    by (rule refresh_approvers_InrE)
  let ?ss = "filter (\<lambda>s. st_status s = ST_active) (locked_steps db (ap_id a))"
  let ?db2 = "audit_record env a A_refreshed act None None None
          [(''added'', JInt (int (length added))), (''removed'', JInt (int removed))] db1"
  have dist: "distinct (map st_id ?ss)" using locked_distinct(2) [OF ok] by (simp add: distinct_map_filter)
  have ready: "\<forall>s \<in> set ?ss. s \<in> set (db_steps db) \<and> st_approval_id s = ap_id a \<and> st_status s = ST_active"
      "\<forall>r \<in> set (locked_approvers db (ap_id a)). ar_approval_id r = ap_id a"
      "\<forall>r \<in> set (locked_approvers db (ap_id a)). ar_step_id r \<in> st_id ` set ?ss \<longrightarrow> r \<in> set (db_approvers db)"
    by simp_all
  note db1 = refresh_steps_db_ok [OF fold db ready(1) dist locked_distinct(1) [OF ok] ready(2,3)]
  then have db1: "db_ok db1" "others_same (ap_id a) db db1" "db_steps db1 = db_steps db" by simp_all
  have core2: "core ?db2 = core db1" by simp
  have db2: "db_ok ?db2" "others_same (ap_id a) db ?db2"
    using db1 db_ok_cong [OF core2] others_same_core [OF refl core2] by simp_all
  have own: "\<forall>s \<in> set ?ss. owns_step ?db2 (ap_id a) (st_id s)"
    using db1(3) core_eqD(2) [OF core2] by (auto simp: owns_step_def)
  from reevaluate_steps_db_ok [OF reev db2(1) own] have "db_ok db3" "others_same (ap_id a) ?db2 db3" by blast+
  then show ?thesis
    using db_ok_cong [OF core] others_same_core [OF refl core, of "ap_id a" db] others_same_trans [OF db2(2)]
      lock_approval_row(2) [OF a] by simp
qed

interpretation refresh_op: request_operation
  "\<lambda>(env, i, act). refresh_approvers env i act" "\<lambda>(env, i, act). i"
  by unfold_locales (auto dest: refresh_db_ok)

section \<open>Requesting\<close>

lemma insert_approval_ok:
  assumes "core_ok db" "ap_id a = seq_approval db"
  shows "core_ok (insert_approval a db)" "others_same (ap_id a) db (insert_approval a db)"
  using assms fresh_ids_snoc [of "map ap_id (db_approvals db)" "seq_approval db"]
  by (auto simp: core_ok_defs insert_approval_def others_same_def)

lemma new_step_simps [simp]:
  "st_id (new_step a i p spec) = i" "st_approval_id (new_step a i p spec) = ap_id a"
  "st_status (new_step a i p spec) = ST_waiting" "st_stage (new_step a i p spec) = sp_stage spec"
  by (simp_all add: new_step_def)

lemma insert_steps_ok:
  assumes "core_ok db" and "\<exists>x \<in> set (db_approvals db). ap_id x = ap_id a \<and> ap_status x = AP_pending"
  shows "core_ok (insert_steps a p specs db) \<and> others_same (ap_id a) db (insert_steps a p specs db) \<and>
    db_approvals (insert_steps a p specs db) = db_approvals db \<and>
    (\<forall>s \<in> steps_of (insert_steps a p specs db) (ap_id a). s \<in> steps_of db (ap_id a) \<or> st_status s = ST_waiting) \<and>
    (specs \<noteq> [] \<or> steps_of db (ap_id a) \<noteq> {} \<longrightarrow> steps_of (insert_steps a p specs db) (ap_id a) \<noteq> {})"
  using assms
proof (induction specs arbitrary: p db)
  case Nil
  then show ?case by simp
next
  case (Cons spec specs)
  let ?db1 = "db\<lparr>db_steps := db_steps db @ [new_step a (seq_step db) p spec], seq_step := seq_step db + 1\<rparr>"
  have own: "ap_id a \<in> ap_id ` set (db_approvals db)" using Cons.prems(2) by (metis imageI)
  have ok1: "core_ok ?db1"
    using own Cons.prems fresh_ids_snoc [of "map st_id (db_steps db)" "seq_step db"]
    by (auto simp: core_ok_defs is_open_def)
  have steps1: "steps_of ?db1 (ap_id a) = insert (new_step a (seq_step db) p spec) (steps_of db (ap_id a))"
    by (auto simp: steps_of_def)
  have others1: "others_same (ap_id a) db ?db1" by (simp add: others_same_def)
  have "\<exists>x \<in> set (db_approvals ?db1). ap_id x = ap_id a \<and> ap_status x = AP_pending" using Cons.prems(2) by simp
  note IH = Cons.IH [OF ok1 this, of "p + 1"]
  then show ?case using steps1 others_same_trans [OF others1] by auto
qed

lemma waiting_stages_ok:
  "steps_of db (ap_id a) \<noteq> {} \<Longrightarrow> \<forall>s \<in> steps_of db (ap_id a). st_status s = ST_waiting \<Longrightarrow> stages_ok db a"
  by (simp add: stages_ok_def)

lemma untouched_steps_of: "untouched i db db' \<Longrightarrow> steps_of db' i = steps_of db i"
  by (auto simp: untouched_def steps_of_def filter_eq_Cons_iff dest!: arg_cong [where f = set])

lemma fresh_steps_of:
  assumes "core_ok db" shows "steps_of db (seq_approval db) = {}"
  using assms by (fastforce simp: steps_of_def core_ok_def refs_ok_def keys_ok_def fresh_ids_def)

text \<open>Superseding closes the old requests one by one; the new request and all others stay as they are.\<close>

lemma supersede_ok:
  assumes sup: "supersede env olds n act db = Inr db'" and ok: "core_ok db"
    and rest: "\<forall>x \<in> set (db_approvals db). ap_id x \<noteq> j \<longrightarrow> rest_ok db x" and j: "\<forall>x \<in> set olds. ap_id x \<noteq> j"
  shows "core_ok db' \<and> (\<forall>x \<in> set (db_approvals db'). ap_id x \<noteq> j \<longrightarrow> rest_ok db' x) \<and>
    (\<forall>i. i \<notin> ap_id ` set olds \<longrightarrow> untouched i db db')"
proof (rule res_fold_invariant [OF sup [unfolded supersede_def], where P = "\<lambda>d. core_ok d \<and>
    (\<forall>x \<in> set (db_approvals d). ap_id x \<noteq> j \<longrightarrow> rest_ok d x) \<and> (\<forall>i. i \<notin> ap_id ` set olds \<longrightarrow> untouched i db d)"])
  show "core_ok db \<and> (\<forall>x \<in> set (db_approvals db). ap_id x \<noteq> j \<longrightarrow> rest_ok db x) \<and>
    (\<forall>i. i \<notin> ap_id ` set olds \<longrightarrow> untouched i db db)" using ok rest by simp
next
  fix old d d'
  assume old: "old \<in> set olds" and d: "core_ok d \<and> (\<forall>x \<in> set (db_approvals d). ap_id x \<noteq> j \<longrightarrow> rest_ok d x) \<and>
      (\<forall>i. i \<notin> ap_id ` set olds \<longrightarrow> untouched i db d)"
    and step: "finalize env old AP_cancelled ''superseded'' act False
      (upd_approvals (\<lambda>a. ap_id a = ap_id old) (\<lambda>a. a\<lparr>ap_superseded_by := Some n\<rparr>) d) = Inr d'"
  let ?d1 = "upd_approvals (\<lambda>a. ap_id a = ap_id old) (\<lambda>a. a\<lparr>ap_superseded_by := Some n\<rparr>) d"
  have ok1: "core_ok ?d1" using d by (intro approvals_upd_ok) simp_all
  have o: "others_same (ap_id old) d d'"
    using others_same_trans [OF others_same_upd(1) finalize_others [OF ok1 step]] by simp
  have "rest_ok d' x" if x: "x \<in> set (db_approvals d')" "ap_id x \<noteq> j" for x
  proof (cases "ap_id x = ap_id old")
    case True
    then show ?thesis using finalize_status [OF step x(1)] by (simp add: rest_ok_def)
  next
    case False
    from o have "x \<in> set (db_approvals d)"
      using x(1) False by (auto simp: others_same_def dest!: arg_cong [where f = set])
    with d x(2) have "rest_ok d x" by blast
    moreover have "steps_of d' (ap_id x) = steps_of d (ap_id x)"
      using untouched_steps_of [OF others_same_untouched [OF o]] False by metis
    ultimately show ?thesis by (simp add: rest_ok_def stages_ok_def)
  qed
  moreover have "untouched i db d'" if "i \<notin> ap_id ` set olds" for i
    using d that old others_same_untouched [OF o, of i] untouched_trans by blast
  ultimately show "core_ok d' \<and> (\<forall>x \<in> set (db_approvals d'). ap_id x \<noteq> j \<longrightarrow> rest_ok d' x) \<and>
      (\<forall>i. i \<notin> ap_id ` set olds \<longrightarrow> untouched i db d')"
    using finalize_ok [OF ok1 _ step] by simp
qed

text \<open>The rows of a new request: its own, pending, and its steps, waiting; nothing else changes.\<close>

lemma new_request_ok:
  assumes db: "db_ok db" and a: "ap_id a = seq_approval db" "ap_status a = AP_pending" and steps: "specs \<noteq> []"
  defines "db1 \<equiv> insert_steps a 1 specs (insert_approval a db)"
  shows "core_ok db1" "others_same (ap_id a) db db1" "db_approvals db1 = db_approvals db @ [a]" "stages_ok db1 a"
    "\<forall>x \<in> set (db_approvals db1). ap_id x \<noteq> ap_id a \<longrightarrow> rest_ok db1 x"
proof -
  have ok: "core_ok db" and rest: "\<forall>x \<in> set (db_approvals db). ap_id x \<noteq> ap_id a \<longrightarrow> rest_ok db x"
    using db by (simp_all add: db_ok_def)
  note I = insert_approval_ok [OF ok a(1)]
  have "\<exists>x \<in> set (db_approvals (insert_approval a db)). ap_id x = ap_id a \<and> ap_status x = AP_pending"
    using a(2) by (simp add: insert_approval_def)
  note S = insert_steps_ok [OF I(1) this, of 1 specs]
  show ok1: "core_ok db1" and others: "others_same (ap_id a) db db1" and "db_approvals db1 = db_approvals db @ [a]"
    using S others_same_trans [OF I(2)] by (simp_all add: db1_def insert_approval_def)
  have "steps_of (insert_approval a db) (ap_id a) = {}"
    using fresh_steps_of [OF ok] a(1) by (simp add: steps_of_def insert_approval_def)
  then show "stages_ok db1 a" using S steps by (intro waiting_stages_ok) (auto simp: db1_def)
  show "\<forall>x \<in> set (db_approvals db1). ap_id x \<noteq> ap_id a \<longrightarrow> rest_ok db1 x"
    using others_same_rest_ok [OF others _ _ rest] by blast
qed

lemma untouched_row:
  assumes "untouched i db db'" shows "{x \<in> set (db_approvals db'). ap_id x = i} = {x \<in> set (db_approvals db). ap_id x = i}"
  using arg_cong [OF assms [unfolded untouched_def, THEN conjunct1], of set] by simp

text \<open>Starting a request: what it supersedes goes, then, after the entries of the audit, its first stage is activated.\<close>

lemma start_request_parts:
  assumes start: "start_request env a olds n act db1 = Inr db'"
  obtains db2 db3 ids db4 where "supersede env olds (ap_id a) act db1 = Inr db2" "core db3 = core db2"
    "activate_next_stage env a act db3 = Inr (ids, db4)" "core db' = core db4"
proof -
  from start obtain db2 where sup: "supersede env olds (ap_id a) act db1 = Inr db2"
    by (auto simp: start_request_def res_bind_Inr_iff)
  define db3 where "db3 = audit_history env a H_requested act None (audit_emit a EVENT_REQUESTED []
      (audit_record env a A_requested act None None None
        [(''steps'', JInt (int n)), (''template_id'', case ap_template_id a of None \<Rightarrow> JNull | Some i \<Rightarrow> JInt i)] db2))"
  have core3: "core db3 = core db2" by (simp add: db3_def)
  from start sup obtain ids db4 where act: "activate_next_stage env a act db3 = Inr (ids, db4)"
      and mail: "(if ap_status (cur db4 a) = AP_pending then enqueue_notification env (ap_id a) M_request ids False db4
        else Inr db4) = Inr db'"
    by (auto simp: start_request_def res_bind_Inr_iff db3_def Let_def)
  have "core db' = core db4" using mail core_enqueue(2) by (auto split: if_splits)
  then show ?thesis by (rule that [OF sup core3 act])
qed

lemma start_request_db_ok:
  assumes start: "start_request env a olds n act db1 = Inr db'" and ok: "core_ok db1"
    and rest: "\<forall>x \<in> set (db_approvals db1). ap_id x \<noteq> ap_id a \<longrightarrow> rest_ok db1 x" and stages: "stages_ok db1 a"
    and row: "a \<in> set (db_approvals db1)" and olds: "\<forall>x \<in> set olds. ap_id x \<noteq> ap_id a"
  shows "db_ok db'" "\<And>i. i \<noteq> ap_id a \<Longrightarrow> i \<notin> ap_id ` set olds \<Longrightarrow> untouched i db1 db'"
    "\<exists>db2. supersede env olds (ap_id a) act db1 = Inr db2 \<and> others_same (ap_id a) db2 db'"
proof -
  from start obtain db2 db3 ids db4 where sup: "supersede env olds (ap_id a) act db1 = Inr db2"
      and core3: "core db3 = core db2" and act: "activate_next_stage env a act db3 = Inr (ids, db4)"
      and core4: "core db' = core db4"
    by (rule start_request_parts)
  note S = supersede_ok [OF sup ok rest olds]
  have own: "untouched (ap_id a) db1 db2"
  proof -
    have "ap_id a \<notin> ap_id ` set olds" using olds by (metis imageE)
    then show ?thesis using S by blast
  qed
  have row2: "a \<in> set (db_approvals db2)" using untouched_row [OF own] row by blast
  have stages2: "stages_ok db2 a" using stages untouched_steps_of [OF own] by (simp add: stages_ok_def)
  have ok3: "core_ok db3" using S core_ok_cong [OF core3] by simp
  have same: "db_approvals db3 = db_approvals db2" "db_steps db3 = db_steps db2" using core_eqD(1,2) [OF core3] .
  have rest3: "\<forall>x \<in> set (db_approvals db3). ap_id x \<noteq> ap_id a \<longrightarrow> rest_ok db3 x"
    using S same by (simp add: rest_ok_def stages_ok_def steps_of_def)
  have stages3: "ap_status a = AP_pending \<longrightarrow> stages_ok db3 a" using stages2 same by (simp add: stages_ok_def steps_of_def)
  note A = activate_next_stage_db_ok [OF act ok3 rest3 row2 [folded same(1)] refl stages3]
  show "db_ok db'" using A db_ok_cong [OF core4] by simp
  have others: "others_same (ap_id a) db2 db'" using A others_same_core [OF core3 [symmetric] core4] by simp
  show "untouched i db1 db'" if "i \<noteq> ap_id a" "i \<notin> ap_id ` set olds" for i
    using untouched_trans [OF S [THEN conjunct2, THEN conjunct2, rule_format, OF that(2)]
        others_same_untouched [OF others that(1) [symmetric]]] .
  show "\<exists>db2. supersede env olds (ap_id a) act db1 = Inr db2 \<and> others_same (ap_id a) db2 db'"
    using sup others by blast
qed

text \<open>What the validators of the definition guarantee of a request: it has a step.\<close>

definition has_steps :: "approval_definition option \<Rightarrow> bool" where
  "has_steps d = (case d of None \<Rightarrow> True | Some x \<Rightarrow> d_steps x \<noteq> [])"

definition templates_ok :: "approval_db \<Rightarrow> bool" where
  "templates_ok db \<longleftrightarrow> list_all (\<lambda>t. has_steps (tp_definition t)) (db_templates db)"

lemma validated_definition_steps:
  assumes "validated_definition env db subject d key = Inr (d', i)" "has_steps d" "templates_ok db"
  shows "d_steps d' \<noteq> []"
proof -
  from assms(1) have "chosen_definition db subject d key = Inr (d', i)"
  proof -
    from assms(1) obtain x j where "chosen_definition db subject d key = Inr (x, j)"
        and rest: "(case rf_errors (validate_definition_refs env db x [subject]) of e # _ \<Rightarrow> Inl (ref_error e)
          | [] \<Rightarrow> if \<not> set_customer_approvers_enabled (env_settings env) \<and> customer_entries env x \<noteq> []
             then Inl (ApprovalError customer_approvers_not_allowed 422) else Inr (x, j)) = Inr (d', i)"
      by (auto simp: validated_definition_def res_bind_Inr_iff)
    from rest show ?thesis using \<open>chosen_definition db subject d key = Inr (x, j)\<close>
      by (cases "rf_errors (validate_definition_refs env db x [subject])") (auto split: if_splits)
  qed
  then show ?thesis
    using assms(2,3)
    by (auto simp: chosen_definition_def res_bind_Inr_iff get_template_by_key_def find_template_def template_info_def
        has_steps_def templates_ok_def list_all_iff split: if_splits option.splits dest!: find_SomeD)
qed

lemma request_approval_InrE:
  assumes "request_approval env rq act db = Inr (r, db')"
  obtains title key ref d template_id requester a olds where
    "check_text (rq_title rq) (rq_approval_key rq) (rq_subject_ref rq) = Inr (title, key, ref)"
    "validated_definition env db (rq_subject_type rq) (rq_definition rq) (rq_template_key rq) = Inr (d, template_id)"
    "olds = (if rq_supersede rq then lock_pending_same_key db (rq_ticket_id rq) key else [])"
    "a = new_approval env db (rq_ticket_id rq) (rq_subject_type rq) ref key title
       (map_option replace_non_bmp (rq_description rq)) template_id (rq_allow_self_approval rq) requester act"
    "start_request env a olds (length (d_steps d)) act (insert_steps a 1 (d_steps d) (insert_approval a db)) = Inr db'"
    "r = info (cur db' a)"
  using assms by (auto simp: request_approval_def res_bind_Inr_iff Let_def)

lemma record_auto_decision_InrE:
  assumes "record_auto_decision env rq status reason act db = Inr (r, db')"
  obtains title key ref requester a olds db1 where
    "check_text (rq_title rq) (rq_approval_key rq) (rq_subject_ref rq) = Inr (title, key, ref)"
    "status = AP_approved \<or> status = AP_rejected"
    "olds = (if rq_supersede rq then lock_pending_same_key db (rq_ticket_id rq) key else [])"
    "a = new_approval env db (rq_ticket_id rq) (rq_subject_type rq) ref key title
       (map_option replace_non_bmp (rq_description rq)) None False requester act"
    "supersede env olds (ap_id a) act (insert_approval a db) = Inr db1"
    "finalize env a status reason act True db1 = Inr db'" "r = info (cur db' a)"
proof -
  from assms have st: "status = AP_approved \<or> status = AP_rejected" and reason: "reason_ok reason"
    by (auto simp: record_auto_decision_def res_bind_Inr_iff split: if_splits)
  from assms obtain title key ref u v requester where
      mod: "require_module_on env db (rq_subject_type rq) = Inr u"
      and ct: "check_text (rq_title rq) (rq_approval_key rq) (rq_subject_ref rq) = Inr (title, key, ref)"
      and tk: "require_subject_and_ticket env db (rq_subject_type rq) (rq_ticket_id rq) = Inr v"
      and rk: "requester_key (db_znuny db) None act = Inr requester"
    by (auto simp: record_auto_decision_def res_bind_Inr_iff split: if_splits)
  define olds where "olds = (if rq_supersede rq then lock_pending_same_key db (rq_ticket_id rq) key else [])"
  define a where "a = new_approval env db (rq_ticket_id rq) (rq_subject_type rq) ref key title
       (map_option replace_non_bmp (rq_description rq)) None False requester act"
  have "record_auto_decision env rq status reason act db =
      res_bind (supersede env olds (ap_id a) act (insert_approval a db)) (\<lambda>db1.
      res_bind (finalize env a status reason act True db1) (\<lambda>db2. Inr (info (cur db2 a), db2)))"
    using st reason mod ct tk rk
    by (elim disjE) (simp_all add: record_auto_decision_def Let_def olds_def [symmetric] a_def [symmetric])
  with assms obtain db1 where "supersede env olds (ap_id a) act (insert_approval a db) = Inr db1"
      "finalize env a status reason act True db1 = Inr db'" "r = info (cur db' a)"
    by (auto simp: res_bind_Inr_iff)
  then show ?thesis by (rule that [OF ct st olds_def a_def])
qed

lemma new_approval_simps [simp]:
  "ap_id (new_approval env db t sub ref key title descr tid self rq act) = seq_approval db"
  "ap_status (new_approval env db t sub ref key title descr tid self rq act) = AP_pending"
  "ap_ticket_id (new_approval env db t sub ref key title descr tid self rq act) = t"
  "ap_approval_key (new_approval env db t sub ref key title descr tid self rq act) = key"
  by (simp_all add: new_approval_def)

text \<open>The requests a new one may supersede, and itself.\<close>

definition request_touches :: "approval_request \<Rightarrow> approval_db \<Rightarrow> int set" where
  "request_touches rq db = insert (seq_approval db)
     (if rq_supersede rq then ap_id ` {x \<in> set (db_approvals db). ap_ticket_id x = rq_ticket_id rq \<and> ap_status x = AP_pending}
      else {})"

lemma olds_ids:
  assumes "core_ok db" "olds = (if rq_supersede rq then lock_pending_same_key db (rq_ticket_id rq) key else [])"
  shows "\<forall>x \<in> set olds. ap_id x \<noteq> seq_approval db" "ap_id ` set olds \<subseteq> request_touches rq db"
  using assms by (auto simp: lock_pending_same_key_def request_touches_def core_ok_def keys_ok_def fresh_ids_def)

lemma request_db_ok:
  assumes req: "request_approval env rq act db = Inr (r, db')" and db: "db_ok db"
    and wf: "has_steps (rq_definition rq)" "templates_ok db"
  shows "db_ok db'" "i \<notin> request_touches rq db \<Longrightarrow> untouched i db db'"
proof -
  from req obtain title key ref d template_id requester a olds where
      d: "validated_definition env db (rq_subject_type rq) (rq_definition rq) (rq_template_key rq) = Inr (d, template_id)"
      and olds: "olds = (if rq_supersede rq then lock_pending_same_key db (rq_ticket_id rq) key else [])"
      and a: "a = new_approval env db (rq_ticket_id rq) (rq_subject_type rq) ref key title
       (map_option replace_non_bmp (rq_description rq)) template_id (rq_allow_self_approval rq) requester act"
      and start: "start_request env a olds (length (d_steps d)) act (insert_steps a 1 (d_steps d) (insert_approval a db)) = Inr db'"
    by (rule request_approval_InrE)
  have ids: "ap_id a = seq_approval db" "ap_status a = AP_pending" by (simp_all add: a)
  have ok: "core_ok db" using db by (simp add: db_ok_def)
  note N = new_request_ok [OF db ids validated_definition_steps [OF d wf]]
  have row: "a \<in> set (db_approvals (insert_steps a 1 (d_steps d) (insert_approval a db)))" using N(3) by simp
  note O = olds_ids [OF ok olds]
  note S = start_request_db_ok [OF start N(1,5,4) row O(1) [folded ids(1)]]
  show "db_ok db'" by (rule S(1))
  assume i: "i \<notin> request_touches rq db"
  have out: "i \<noteq> ap_id a" "i \<notin> ap_id ` set olds" using i O(2) ids(1) by (auto simp: request_touches_def)
  show "untouched i db db'"
    using untouched_trans [OF others_same_untouched [OF N(2)] S(2)] out by metis
qed

lemma auto_decision_db_ok:
  assumes rec: "record_auto_decision env rq status reason act db = Inr (r, db')" and db: "db_ok db"
  shows "db_ok db'" "i \<notin> request_touches rq db \<Longrightarrow> untouched i db db'"
proof -
  from rec obtain title key ref requester a olds db1 where st: "status = AP_approved \<or> status = AP_rejected"
      and olds: "olds = (if rq_supersede rq then lock_pending_same_key db (rq_ticket_id rq) key else [])"
      and a: "a = new_approval env db (rq_ticket_id rq) (rq_subject_type rq) ref key title
        (map_option replace_non_bmp (rq_description rq)) None False requester act"
      and sup: "supersede env olds (ap_id a) act (insert_approval a db) = Inr db1"
      and fin: "finalize env a status reason act True db1 = Inr db'"
    by (rule record_auto_decision_InrE)
  have ids: "ap_id a = seq_approval db" by (simp add: a)
  have ok: "core_ok db" and rest: "\<forall>x \<in> set (db_approvals db). ap_id x \<noteq> ap_id a \<longrightarrow> rest_ok db x"
    using db by (simp_all add: db_ok_def)
  note I = insert_approval_ok [OF ok ids]
  have rest1: "\<forall>x \<in> set (db_approvals (insert_approval a db)). ap_id x \<noteq> ap_id a \<longrightarrow> rest_ok (insert_approval a db) x"
    using others_same_rest_ok [OF I(2) _ _ rest] by blast
  note O = olds_ids [OF ok olds]
  note S = supersede_ok [OF sup I(1) rest1 O(1) [folded ids]]
  have closed: "status \<noteq> AP_pending" using st by auto
  show "db_ok db'" using finalize_db_ok [OF fin _ closed] S by blast
  assume i: "i \<notin> request_touches rq db"
  have out: "i \<noteq> ap_id a" "i \<notin> ap_id ` set olds" using i O(2) ids by (auto simp: request_touches_def)
  have "untouched i (insert_approval a db) db1" using S out(2) by blast
  moreover have "untouched i db1 db'" using S others_same_untouched [OF finalize_others [OF _ fin]] out(1) by metis
  ultimately show "untouched i db db'"
    using others_same_untouched [OF I(2)] out(1) untouched_trans by metis
qed

interpretation request_op: service_operation
  "\<lambda>(env, rq, act). request_approval env rq act"
  "\<lambda>(env, rq, act) db. has_steps (rq_definition rq) \<and> templates_ok db" "\<lambda>(env, rq, act) db. request_touches rq db"
  by unfold_locales (auto dest: request_db_ok)

interpretation auto_op: service_operation
  "\<lambda>(env, rq, status, reason, act). record_auto_decision env rq status reason act" "\<lambda>_ _. True"
  "\<lambda>(env, rq, status, reason, act) db. request_touches rq db"
  by unfold_locales (auto dest: auto_decision_db_ok)

end
