(* ===== verification/Approval_History.thy ===== *)
theory Approval_History
  imports Approval_Lifecycle "HOL-Library.Sublist"
begin

text \<open>
  What is settled stays: from one database to a later one, closed requests, ended steps and the approver
  rows that left the open ones are kept as they are, votes are only added, and a link that was used or
  revoked stays dead. Every operation of the engine and of the service moves the database forward in
  this order.
\<close>

section \<open>The order\<close>

text \<open>Token rows keep their id and hash; what is used stays as it is, what is revoked stays revoked.\<close>

definition link_later :: "token_row \<Rightarrow> token_row \<Rightarrow> bool" where
  "link_later k k' \<longleftrightarrow> tk_id k' = tk_id k \<and> tk_hash k' = tk_hash k \<and>
     (tk_used_at k \<noteq> None \<longrightarrow> tk_used_at k' = tk_used_at k) \<and>
     (tk_revoked_at k \<noteq> None \<longrightarrow> tk_revoked_at k' \<noteq> None)"

definition links_later :: "approval_db \<Rightarrow> approval_db \<Rightarrow> bool" where
  "links_later db db' \<longleftrightarrow> seq_token db \<le> seq_token db' \<and>
     (\<forall>k' \<in> set (db_tokens db'). tk_id k' < seq_token db \<longrightarrow> (\<exists>k \<in> set (db_tokens db). link_later k k'))"

definition later :: "approval_db \<Rightarrow> approval_db \<Rightarrow> bool" where
  "later db db' \<longleftrightarrow>
     (\<forall>a \<in> set (db_approvals db). ap_status a \<noteq> AP_pending \<longrightarrow> a \<in> set (db_approvals db')) \<and>
     (\<forall>s \<in> set (db_steps db). \<not> is_open s \<longrightarrow> s \<in> set (db_steps db')) \<and>
     (\<forall>r \<in> set (db_approvers db). ar_status r \<noteq> AR_pending \<longrightarrow> r \<in> set (db_approvers db')) \<and>
     prefix (db_votes db) (db_votes db') \<and> links_later db db'"

lemma link_later_refl [simp]: "link_later k k"
  by (simp add: link_later_def)

lemma links_later_refl [simp]: "links_later db db"
  unfolding links_later_def using link_later_refl by blast

lemma links_later_same: "db_tokens db' = db_tokens db \<Longrightarrow> seq_token db' = seq_token db \<Longrightarrow> links_later db db'"
  unfolding links_later_def using link_later_refl by fastforce

lemma links_later_trans: "links_later db db1 \<Longrightarrow> links_later db1 db2 \<Longrightarrow> links_later db db2"
proof -
  assume a: "links_later db db1" "links_later db1 db2"
  have tr: "link_later k k1 \<Longrightarrow> link_later k1 k2 \<Longrightarrow> link_later k k2" for k k1 k2 by (auto simp: link_later_def)
  have "\<exists>k \<in> set (db_tokens db). link_later k k'" if k': "k' \<in> set (db_tokens db2)" "tk_id k' < seq_token db" for k'
  proof -
    from a k' obtain k1 where k1: "k1 \<in> set (db_tokens db1)" "link_later k1 k'" by (auto simp: links_later_def)
    then have "tk_id k1 < seq_token db" using k'(2) by (simp add: link_later_def)
    with a(1) k1(1) obtain k where "k \<in> set (db_tokens db)" "link_later k k1" by (auto simp: links_later_def)
    with tr k1(2) show ?thesis by blast
  qed
  with a show ?thesis by (auto simp: links_later_def)
qed

lemma later_refl [simp]: "later db db"
  by (simp add: later_def)

lemma later_trans: "later db db1 \<Longrightarrow> later db1 db2 \<Longrightarrow> later db db2"
  unfolding later_def by (auto intro: prefix_order.trans links_later_trans)

lemma later_core: "core db1' = core db1 \<Longrightarrow> core db2' = core db2 \<Longrightarrow> later db1' db2' = later db1 db2"
  by (simp add: later_def links_later_def core_def)

lemma later_links: "later db db' \<Longrightarrow> links_later db db'"
  by (simp add: later_def)

section \<open>The primitive writes\<close>

lemma upd_steps_later:
  assumes "\<And>s. s \<in> set (db_steps db) \<Longrightarrow> p s \<Longrightarrow> is_open s" shows "later db (upd_steps p f db)"
  using assms by (auto simp: later_def intro!: upd_where_kept links_later_same)

lemma upd_approvers_later:
  assumes "\<And>r. r \<in> set (db_approvers db) \<Longrightarrow> p r \<Longrightarrow> ar_status r = AR_pending" shows "later db (upd_approvers p f db)"
  using assms by (auto simp: later_def intro!: upd_where_kept links_later_same)

lemma upd_approvals_later:
  assumes "\<And>a. a \<in> set (db_approvals db) \<Longrightarrow> p a \<Longrightarrow> ap_status a = AP_pending" shows "later db (upd_approvals p f db)"
  using assms by (auto simp: later_def intro!: upd_where_kept links_later_same)

lemma upd_tokens_later:
  assumes "\<And>k. p k \<Longrightarrow> link_later k (f k)" shows "later db (upd_tokens p f db)"
proof -
  have "\<exists>k \<in> set ks. link_later k k'" if "k' \<in> set (upd_where p f ks)" for ks k'
    using that assms by (auto elim!: upd_whereE intro: bexI [of _ k'])
  then show ?thesis by (simp add: later_def links_later_def)
qed

text \<open>Revoking a link, and using it, are writes of this kind.\<close>

lemma revoke_links_later: "later db (snd (revoke_links env ids red db))"
proof -
  have rev: "later d (upd_tokens (\<lambda>k. tk_approver_id k \<in> set ids \<and> tk_used_at k = None \<and> tk_revoked_at k = None)
      (\<lambda>k. k\<lparr>tk_revoked_at := Some n\<rparr>) d)" for d n
    by (rule upd_tokens_later) (simp add: link_later_def)
  have used: "later db (upd_tokens (\<lambda>k. tk_id k = i \<and> tk_approver_id k \<in> set ids \<and> tk_used_at k = None)
      (\<lambda>k. k\<lparr>tk_used_at := Some n\<rparr>) db)" for i n
    by (rule upd_tokens_later) (simp add: link_later_def)
  show ?thesis
    using rev later_trans [OF used rev] by (auto simp: revoke_links_def Let_def split: option.splits)
qed

lemma leave_later:
  assumes "\<And>r. r \<in> set (db_approvers db) \<Longrightarrow> ar_id r \<in> set ids \<Longrightarrow> ar_status r = AR_pending"
  shows "later db (leave env ids st red db)"
  unfolding leave_def by (rule later_trans [OF upd_approvers_later revoke_links_later]) (rule assms)

lemma with_vote_later: "later db (with_vote v db)"
  by (auto simp: later_def with_vote_def intro!: links_later_same)

lemma add_approver_later: "add_approver env a s act now ra db = Inr (i, db') \<Longrightarrow> later db db'"
  by (erule add_approver_InrE) (auto simp: later_def intro!: links_later_same)

lemma add_approvers_later: "add_approvers env a s act now ras db = Inr (ids, db') \<Longrightarrow> later db db'"
  by (erule add_approvers_step [where P = later]) (auto intro: later_trans add_approver_later)

section \<open>The engine\<close>

lemma pending_rows:
  assumes "core_ok db" "ap_status (cur db a) = AP_pending"
  shows "\<forall>x \<in> set (db_approvals db). ap_id x = ap_id a \<longrightarrow> ap_status x = AP_pending"
  using assms cur_eq by metis

lemma finalize_later:
  assumes fin: "finalize env a status reason act auto db = Inr db'" and ok: "core_ok db"
    and pend: "\<forall>x \<in> set (db_approvals db). ap_id x = ap_id a \<longrightarrow> ap_status x = AP_pending"
  shows "later db db'"
proof -
  let ?c = "closing env (ap_id a) status reason db"
  have "later db ?c"
    unfolding later_def
  proof (intro conjI ballI impI)
    show "x \<in> set (db_approvals ?c)" if "x \<in> set (db_approvals db)" "ap_status x \<noteq> AP_pending" for x
      using that pend unfolding closing_def by (auto intro!: upd_where_kept)
    show "s \<in> set (db_steps ?c)" if "s \<in> set (db_steps db)" "\<not> is_open s" for s
      using that open_ids_iff [OF ok that(1)] unfolding closing_def by (auto intro!: upd_where_kept)
    show "r \<in> set (db_approvers ?c)" if "r \<in> set (db_approvers db)" "ar_status r \<noteq> AR_pending" for r
      using that unfolding closing_def by (auto intro!: upd_where_kept)
    have "later db (upd_tokens (\<lambda>k. tk_approval_id k = ap_id a \<and> live k)
        (\<lambda>k. k\<lparr>tk_revoked_at := Some (token_now env)\<rparr>) db)"
      by (rule upd_tokens_later) (simp add: link_later_def live_def)
    then show "links_later db ?c" by (simp add: later_def links_later_def closing_def)
  qed (simp add: closing_def)
  then show ?thesis using later_core [OF refl finalize_core [OF fin]] by simp
qed

lemma start_step_later:
  assumes ok: "core_ok db" and s: "s \<in> set (db_steps db)" "st_status s = ST_waiting"
    and pend: "\<forall>x \<in> set (db_approvals db). ap_id x = ap_id a \<longrightarrow> ap_status x = AP_pending"
  shows "later db (start_step env a s db)"
  unfolding start_step_def
proof (rule later_trans [OF upd_steps_later upd_approvals_later])
  fix x assume "x \<in> set (db_steps db)" "st_id x = st_id s"
  then have "x = s" using steps.same_key_same_row [OF core_ok_distinct(2) [OF ok] _ s(1)] by blast
  with s show "is_open x" by (simp add: is_open_def)
qed (use pend in simp)

lemma activate_step_later:
  assumes act: "activate_step env a s act db = Inr (ids, db')" and ok: "core_ok db"
    and s: "s \<in> set (db_steps db)" "st_status s = ST_waiting"
    and pend: "\<forall>x \<in> set (db_approvals db). ap_id x = ap_id a \<longrightarrow> ap_status x = AP_pending"
  shows "later db db'"
  using act
proof (cases rule: activate_stepE)
  case (stop d)
  have "later db d" using start_step_later [OF ok s pend] later_core [OF refl stop(1)] by blast
  moreover have "later d (upd_steps (\<lambda>x. st_id x = st_id s) (ended env (st_spec s)) d)"
  proof (rule upd_steps_later)
    fix x assume "x \<in> set (db_steps d)" "st_id x = st_id s"
    then show "is_open x"
      using core_eqD(2) [OF stop(1)] by (auto simp: start_step_def is_open_def elim!: upd_whereE)
  qed
  ultimately show ?thesis using later_trans later_core [OF refl stop(3)] by blast
next
  case (go d rn)
  then show ?thesis
    using start_step_later [OF ok s pend] later_core [OF refl go(1)] later_trans add_approvers_later by blast
qed

lemma activate_stage_later:
  assumes "activate_stage env a act ss added db = Inr (ids, db')" and "core_ok db"
    and "\<forall>s \<in> set ss. s \<in> set (db_steps db) \<and> st_status s = ST_waiting \<and> st_approval_id s = ap_id a"
    and "distinct (map st_id ss)"
    and "\<forall>x \<in> set (db_approvals db). ap_id x = ap_id a \<longrightarrow> ap_status x = AP_pending"
  shows "later db db'"
  using assms
proof (induction ss arbitrary: added db)
  case Nil
  then show ?case by (simp add: activate_stage_def)
next
  case (Cons s ss)
  then obtain js db1 where step: "activate_step env a s act db = Inr (js, db1)"
    and rest: "activate_stage env a act ss (added @ js) db1 = Inr (ids, db')"
    by (auto simp: activate_stage_Cons res_bind_Inr_iff)
  have s: "s \<in> set (db_steps db)" "st_status s = ST_waiting" "st_approval_id s = ap_id a" using Cons.prems(3) by simp_all
  have "\<forall>s' \<in> set ss. s' \<in> set (db_steps db1) \<and> st_status s' = ST_waiting \<and> st_approval_id s' = ap_id a"
    using Cons.prems(3,4) activate_step_keeps [OF step] by (metis image_eqI list.set_map distinct.simps(2) list.simps(9) list.set_intros(2))
  moreover have "\<forall>x \<in> set (db_approvals db1). ap_id x = ap_id a \<longrightarrow> ap_status x = AP_pending"
    using Cons.prems(5) by (auto simp: activate_step_approvals [OF step] elim!: upd_whereE)
  ultimately have "later db1 db'"
    using Cons.IH [OF rest activate_step_ok [OF Cons.prems(2) step s]] Cons.prems(4) by simp
  then show ?case using activate_step_later [OF step Cons.prems(2) s(1,2) Cons.prems(5)] later_trans by blast
qed

lemma activate_loop_later:
  "activate_loop env a act added db = Inr (ids, db') \<Longrightarrow> core_ok db \<Longrightarrow> later db db'"
proof (induction env a act added db rule: activate_loop.induct)
  case (1 env a act added db)
  from 1(2) show ?case
  proof (cases rule: activate_loop_cases)
    case (go stage added1 db1)
    note ready = steps_of_stage_ready [OF 1(3)]
    have "core_ok db1" by (rule activate_stage_ok [OF go(5) 1(3) ready])
    then have "later db1 db'" using 1(1) [OF _ refl refl refl go(2-5) refl go(6)] go(1) by simp
    then show ?thesis using activate_stage_later [OF go(5) 1(3) ready pending_rows [OF 1(3) go(1)]] later_trans by blast
  next
    case (fin st)
    show ?thesis
    proof (cases "ap_status (cur db a) = AP_pending")
      case True
      then show ?thesis using finalize_later [OF fin(1) 1(3)] pending_rows [OF 1(3)] by blast
    next
      case False
      then have "db' = db" using 1(2) by (simp add: activate_loop.simps [of env a])
      then show ?thesis by simp
    qed
  qed simp_all
qed

lemma settle_step_later:
  assumes ok: "core_ok db" and s: "s' \<in> set (db_steps db)" "st_id s' = st_id s" "st_status s' = ST_active"
  shows "later db (settle_step env a s outcome reason act now db)"
proof -
  let ?l = "leave env (leftover db (ap_id a) (st_id s)) AR_not_needed None db"
  have "later db ?l" by (rule leave_later) (simp add: leftover_pending [OF ok])
  moreover have "later ?l (upd_steps (\<lambda>x. st_id x = st_id s)
      (\<lambda>x. x\<lparr>st_status := outcome, st_reason := Some reason, st_decided_at := Some now\<rparr>) ?l)"
  proof (rule upd_steps_later)
    fix x assume "x \<in> set (db_steps ?l)" "st_id x = st_id s"
    then show "is_open x" using step_id_approval [OF ok s(1)] s(2,3) by (auto simp: is_open_def)
  qed
  ultimately show ?thesis using later_trans later_core [OF refl settle_step_core] by blast
qed

lemma close_step_later:
  assumes close: "close_step env a s outcome reason act now db = Inr db'" and db: "db_ok db"
    and s: "s' \<in> set (db_steps db)" "st_id s' = st_id s" "st_approval_id s' = ap_id a" "st_status s' = ST_active"
    and out: "outcome = ST_approved \<or> outcome = ST_rejected"
  shows "later db db'"
proof -
  have ok: "core_ok db" using db by (simp add: db_ok_def)
  let ?d = "settle_step env a s outcome reason act now db"
  obtain ids d' where act: "activate_next_stage env a act ?d = Inr (ids, d')" and core: "core db' = core d'"
    using close by (auto simp: close_step_def res_bind_Inr_iff dest!: core_enqueue split: if_splits)
  obtain added where "activate_loop env a act [] ?d = Inr (added, d')" using act by (rule activate_next_stage_loop)
  then have "later ?d d'" using activate_loop_later settle_step_ok [OF ok s(1-3) out] by blast
  then show ?thesis using settle_step_later [OF ok s(1,2,4)] later_trans later_core [OF refl core] by blast
qed

lemma reevaluate_steps_later:
  assumes "reevaluate_steps env a ss act now db = Inr db'" and "db_ok db"
    and "\<forall>s \<in> set ss. owns_step db (ap_id a) (st_id s)"
  shows "later db db'"
proof -
  have "db_ok db' \<and> engine_keeps db db' \<and> later db db'"
  proof (rule res_fold_invariant [OF assms(1) [unfolded reevaluate_steps_def], where
      P = "\<lambda>d. db_ok d \<and> engine_keeps db d \<and> later db d"])
    fix s d d'
    assume s: "s \<in> set ss" and d: "db_ok d \<and> engine_keeps db d \<and> later db d"
      and step: "(if ap_status (cur d a) \<noteq> AP_pending \<or> st_status (cur_step d s) \<noteq> ST_active then Inr d
         else res_bind (step_voters env d (st_id s) (locked_approvers d (ap_id a))) (\<lambda>voters.
              res_bind (reevaluated s voters) (\<lambda>out. case out of None \<Rightarrow> Inr d
              | Some (outcome, reason) \<Rightarrow> close_step env a s outcome reason act now d))) = Inr d'"
    have ok: "core_ok d" using d by (simp add: db_ok_def)
    have "owns_step d (ap_id a) (st_id s)" using owns_step_keeps d assms(3) s by blast
    note row = cur_step_row [OF ok this]
    show "db_ok d' \<and> engine_keeps db d' \<and> later db d'"
    proof (cases "d' = d")
      case False
      with step obtain voters out reason where "reevaluated s voters = Inr (Some (out, reason))"
        and active: "st_status (cur_step d s) = ST_active" and close: "close_step env a s out reason act now d = Inr d'"
        by (auto simp: res_bind_Inr_iff split: if_splits option.splits)
      note out = reevaluated_closed [OF this(1)]
      show ?thesis
        using close_step_db_ok [OF _ row active out close] close_step_later [OF close _ row active out] d
          engine_keeps_trans later_trans by blast
    qed (use d in simp)
  qed (use assms(2) in simp)
  then show ?thesis by blast
qed

section \<open>The service\<close>

lemma cancel_later:
  assumes cancel: "cancel_approval env i act reason chk db = Inr (r, db')" and db: "db_ok db"
  shows "later db db'"
proof -
  have ok: "core_ok db" using db by (simp add: db_ok_def)
  from cancel obtain a where a: "a \<in> set (db_approvals db)" "ap_id a = i" "ap_status a = AP_pending"
      and fin: "finalize env a AP_cancelled reason act False db = Inr db'"
    by (rule cancel_finalizes)
  show ?thesis
    using approvals.same_key_same_row [OF core_ok_distinct(1) [OF ok] _ a(1)] a(3)
    by (intro finalize_later [OF fin ok]) metis
qed

lemma decide_later:
  assumes dec: "decide env i act d ch comment approver_id token_id db = Inr (r, db')" and db: "db_ok db"
  shows "later db db'"
  using dec db
proof (rule decide_parts)
  fix a row on_behalf s key p v db1 db2
  assume t: "vote_target env a act ch approver_id db = Inr (row, on_behalf, s, key, p)"
    and v: "core db1 = core (with_vote v (leave env [ar_id row] (decided_status d) token_id db))" and db1: "db_ok db1"
    and dead: "core db2 = core (leave env (dead_rows db1 (locked_approvers db (ap_id a)) (st_id s) key) AR_not_needed None db1)"
    and db2: "db_ok db2" "db_steps db2 = db_steps db"
    and settle: "settle_vote env a s (locked_approvers db (ap_id a)) act db2 = Inr db'"
  have ok: "core_ok db" "core_ok db1" using db db1 by (simp_all add: db_ok_def)
  note T = vote_target_rows [OF t ok(1)]
  have "later db (leave env [ar_id row] (decided_status d) token_id db)"
    using T(3) approvers.same_key_same_row [OF core_ok_distinct(3) [OF ok(1)] _ T(1)] by (intro leave_later) auto
  then have "later db db1" using with_vote_later later_trans later_core [OF refl v] by blast
  moreover have "later db1 db2"
    using leave_later dead_rows_pending [OF ok(2)] later_core [OF refl dead] by blast
  moreover have "later db2 db'"
  proof -
    from settle obtain out where "out = V_pending \<and> db' = db2 \<or>
        out \<noteq> V_pending \<and> close_step env a s (outcome_status out) ''votes'' act (trunc_sec (env_now env)) db2 = Inr db'"
      by (auto simp: settle_vote_def res_bind_Inr_iff split: if_splits)
    then show ?thesis
      using close_step_later [OF _ db2(1) _ refl T(5,7)] outcome_status_closed T(4) db2(2) by auto
  qed
  ultimately show ?thesis using later_trans by blast
qed

lemma forward_later:
  assumes fwd: "forward env i approver_id act to_user db = Inr (new_id, db')" and db: "db_ok db"
  shows "later db db'"
proof -
  have ok: "core_ok db" using db by (simp add: db_ok_def)
  from fwd obtain a uid row s target db1 where t: "forward_target env a approver_id act uid to_user db = Inr (row, s, target)"
    and add: "add_approver env a s act (env_now env) \<lparr>ra_principal = target, ra_source_kind = S_forward,
       ra_source_ref = Some (str_int (ar_id row)), ra_source_label = None\<rparr> db = Inr (new_id, db1)"
    and core: "core db' = core (leave env [ar_id row] AR_forwarded None
       (upd_approvers (\<lambda>r. ar_id r = new_id) (\<lambda>r. r\<lparr>ar_decisive := ar_decisive row\<rparr>) db1))"
    by (rule forward_InrE)
  note T = forward_target_InrE [OF t]
  note A = add_approver_db_ok [OF db add T(7) refl T(8,10)]
  let ?db2 = "upd_approvers (\<lambda>r. ar_id r = new_id) (\<lambda>r. r\<lparr>ar_decisive := ar_decisive row\<rparr>) db1"
  have "later db db1" by (rule add_approver_later [OF add])
  moreover have "later db1 ?db2"
    using A by (intro upd_approvers_later) blast
  moreover have "later ?db2 (leave env [ar_id row] AR_forwarded None ?db2)"
  proof (rule leave_later)
    fix r assume "r \<in> set (db_approvers ?db2)" "ar_id r \<in> set [ar_id row]"
    then have r: "ar_id r = ar_id row" "r \<in> set (db_approvers db1) \<or> (\<exists>y \<in> set (db_approvers db1). r = y\<lparr>ar_decisive := ar_decisive row\<rparr>)"
      by (auto elim!: upd_whereE)
    have ok1: "core_ok db1" using A by (simp add: db_ok_def)
    have same: "ar_status y = AR_pending" if "y \<in> set (db_approvers db1)" "ar_id y = ar_id row" for y
      using approvers.same_key_same_row [OF core_ok_distinct(3) [OF ok1] that(1) _ that(2)] A T(1,5) by blast
    from r(2) show "ar_status r = AR_pending" using same r(1) by (elim disjE bexE) simp_all
  qed
  ultimately show ?thesis using later_trans later_core [OF refl core] by blast
qed

section \<open>Refreshing\<close>

lemma remove_all_departed_later:
  assumes "db_ok db" and "\<forall>r \<in> set rs. r \<in> set (db_approvers db) \<and> ar_approval_id r = ap_id a \<and> ar_status r = AR_pending"
    and "distinct (map ar_id rs)"
  shows "later db (fold (remove_departed env a s act) rs db)"
  using assms
proof (induction rs arbitrary: db)
  case (Cons r rs)
  let ?db1 = "remove_departed env a s act r db"
  have ok: "core_ok db" using Cons.prems(1) by (simp add: db_ok_def)
  have r: "r \<in> set (db_approvers db)" "ar_status r = AR_pending" using Cons.prems(2) by simp_all
  have one: "\<forall>x \<in> set [r]. x \<in> set (db_approvers db) \<and> ar_approval_id x = ap_id a \<and> ar_status x = AR_pending"
    using Cons.prems(2) by simp
  have "db_ok ?db1" "\<forall>x \<in> set (db_approvers db). ar_id x \<notin> ar_id ` set [r] \<longrightarrow> x \<in> set (db_approvers ?db1)"
    using remove_all_departed [OF Cons.prems(1) one, of env s act] by simp_all
  then have "later ?db1 (fold (remove_departed env a s act) rs ?db1)"
    using Cons.prems(2,3) by (intro Cons.IH) (auto simp: image_iff)
  moreover have "later db (leave env [ar_id r] AR_removed None db)"
    using approvers.same_key_same_row [OF core_ok_distinct(3) [OF ok] _ r(1)] r(2) by (intro leave_later) auto
  then have "later db ?db1" using later_core [OF refl remove_departed_core] by blast
  ultimately show ?case using later_trans by simp
qed simp

lemma add_missing_later:
  assumes "add_missing env a s act ras keys db = Inr (ids, db')" shows "later db db'"
proof -
  from assms obtain ks where fold: "res_fold (\<lambda>ra (keys, ids, db).
         if principal_key (ra_principal ra) \<in> keys then Inr (keys, ids, db)
         else res_bind (add_approver env a s act (env_now env) ra db) (\<lambda>(i, db').
           Inr (insert (principal_key (ra_principal ra)) keys, ids @ [i], db')))
       ras (keys, [], db) = Inr (ks, ids, db')"
    by (auto simp: add_missing_def res_bind_Inr_iff)
  have "case (ks, ids, db') of (_, _, d) \<Rightarrow> later db d"
    by (rule res_fold_invariant [OF fold, where P = "\<lambda>(_, _, d). later db d"])
       (auto simp: res_bind_Inr_iff split: if_splits intro: later_trans [OF _ add_approver_later])
  then show ?thesis by simp
qed

lemma refresh_step_later:
  assumes step: "refresh_step env a act approvers s (added, n, db) = Inr (added', n', db')" and db: "db_ok db"
    and rows: "distinct (map ar_id approvers)" "\<forall>r \<in> set approvers. ar_approval_id r = ap_id a"
      "\<forall>r \<in> set approvers. ar_step_id r = st_id s \<longrightarrow> r \<in> set (db_approvers db)"
  shows "later db db'"
proof -
  from step obtain rn db1 ids where db1: "db1 = fold (remove_departed env a s act)
        (departed_rows rn (filter (\<lambda>r. ar_step_id r = st_id s) approvers)) (audit_unresolved env a s rn act db)"
      and add: "add_missing env a s act (rn_approvers rn)
        (set (map ar_principal (filter (\<lambda>r. ar_step_id r = st_id s) approvers)) \<union> voters_in_step db1 (st_id s)) db1 =
        Inr (ids, db')"
    by (rule refresh_step_InrE)
  let ?dep = "departed_rows rn (filter (\<lambda>r. ar_step_id r = st_id s) approvers)"
  let ?db0 = "audit_unresolved env a s rn act db"
  have dep: "\<forall>r \<in> set ?dep. r \<in> set (db_approvers ?db0) \<and> ar_approval_id r = ap_id a \<and> ar_status r = AR_pending"
    using rows(2,3) by (simp add: departed_rows_def)
  have "distinct (map ar_id ?dep)" using rows(1) by (simp add: departed_rows_def distinct_map_filter)
  from remove_all_departed_later [OF _ dep this, of env s act] db have "later ?db0 db1"
    using db_ok_cong [of ?db0 db] by (simp add: db1)
  then show ?thesis using add_missing_later [OF add] later_trans later_core [of ?db0 db db1 db1] by simp
qed

lemma refresh_steps_later:
  assumes "res_fold (refresh_step env a act approvers) ss (added, n, db) = Inr (added', n', db')" and "db_ok db"
    and "\<forall>s \<in> set ss. s \<in> set (db_steps db) \<and> st_approval_id s = ap_id a \<and> st_status s = ST_active"
    and "distinct (map st_id ss)"
    and "distinct (map ar_id approvers)" "\<forall>r \<in> set approvers. ar_approval_id r = ap_id a"
      "\<forall>r \<in> set approvers. ar_step_id r \<in> st_id ` set ss \<longrightarrow> r \<in> set (db_approvers db)"
  shows "later db db'"
  using assms
proof (induction ss arbitrary: added n db)
  case (Cons s ss)
  from Cons.prems(1) obtain added1 n1 db1 where
      step: "refresh_step env a act approvers s (added, n, db) = Inr (added1, n1, db1)"
      and rest: "res_fold (refresh_step env a act approvers) ss (added1, n1, db1) = Inr (added', n', db')"
    by (auto simp: res_bind_Inr_iff)
  have s: "s \<in> set (db_steps db)" "st_approval_id s = ap_id a" "st_status s = ST_active" using Cons.prems(3) by simp_all
  have own: "\<forall>r \<in> set approvers. ar_step_id r = st_id s \<longrightarrow> r \<in> set (db_approvers db)" using Cons.prems(7) by auto
  note S = refresh_step_db_ok [OF step Cons.prems(2) s Cons.prems(5,6) own]
  have "\<forall>x \<in> set ss. x \<in> set (db_steps db1) \<and> st_approval_id x = ap_id a \<and> st_status x = ST_active"
    using S Cons.prems(3) by simp
  moreover have "\<forall>r \<in> set approvers. ar_step_id r \<in> st_id ` set ss \<longrightarrow> r \<in> set (db_approvers db1)"
    using S Cons.prems(4,7) by auto
  ultimately have "later db1 db'" using Cons.IH [OF rest] S Cons.prems(4-6) by simp
  then show ?case using refresh_step_later [OF step Cons.prems(2) Cons.prems(5,6) own] later_trans by blast
qed simp

lemma refresh_later:
  assumes ref: "refresh_approvers env i act db = Inr (r, db')" and db: "db_ok db"
  shows "later db db'"
proof -
  have ok: "core_ok db" using db by (simp add: db_ok_def)
  from ref obtain a added removed db1 db3 where
    fold: "res_fold (refresh_step env a act (locked_approvers db (ap_id a)))
       (filter (\<lambda>s. st_status s = ST_active) (locked_steps db (ap_id a))) ([], 0, db) = Inr (added, removed, db1)"
    and reev: "reevaluate_steps env a (filter (\<lambda>s. st_status s = ST_active) (locked_steps db (ap_id a))) act (env_now env)
       (audit_record env a A_refreshed act None None None
          [(''added'', JInt (int (length added))), (''removed'', JInt (int removed))] db1) = Inr db3"
    and core: "core db' = core db3"
    by (rule refresh_approvers_InrE)
  let ?ss = "filter (\<lambda>s. st_status s = ST_active) (locked_steps db (ap_id a))"
  let ?db2 = "audit_record env a A_refreshed act None None None
          [(''added'', JInt (int (length added))), (''removed'', JInt (int removed))] db1"
  have dist: "distinct (map st_id ?ss)" using locked_distinct(2) [OF ok] by (simp add: distinct_map_filter)
  have ready: "\<forall>s \<in> set ?ss. s \<in> set (db_steps db) \<and> st_approval_id s = ap_id a \<and> st_status s = ST_active"
      "\<forall>r \<in> set (locked_approvers db (ap_id a)). ar_approval_id r = ap_id a"
      "\<forall>r \<in> set (locked_approvers db (ap_id a)). ar_step_id r \<in> st_id ` set ?ss \<longrightarrow> r \<in> set (db_approvers db)"
    by simp_all
  note db1 = refresh_steps_db_ok [OF fold db ready(1) dist locked_distinct(1) [OF ok] ready(2,3)]
  have later1: "later db db1" by (rule refresh_steps_later [OF fold db ready(1) dist locked_distinct(1) [OF ok] ready(2,3)])
  have core2: "core ?db2 = core db1" by simp
  have db2: "db_ok ?db2" using db1 db_ok_cong [OF core2] by simp
  have own: "\<forall>s \<in> set ?ss. owns_step ?db2 (ap_id a) (st_id s)"
    using db1 core_eqD(2) [OF core2] by (auto simp: owns_step_def)
  have "later ?db2 db3" by (rule reevaluate_steps_later [OF reev db2 own])
  then have "later db1 db'" using later_core [OF core2 core [symmetric]] by simp
  then show ?thesis using later1 later_trans by blast
qed

section \<open>Requesting\<close>

lemma insert_approval_later: "later db (insert_approval a db)"
  by (auto simp: later_def insert_approval_def intro!: links_later_same)

lemma insert_steps_later: "later db (insert_steps a p specs db)"
proof (induction specs arbitrary: p db)
  case (Cons spec specs)
  let ?db1 = "db\<lparr>db_steps := db_steps db @ [new_step a (seq_step db) p spec], seq_step := seq_step db + 1\<rparr>"
  have "later db ?db1" by (auto simp: later_def intro!: links_later_same)
  then show ?case using Cons.IH [of ?db1 "p + 1"] later_trans by simp
qed simp

text \<open>Superseding cancels the old requests for the new one, and no other row of the table.\<close>

definition superseded :: "approval_env \<Rightarrow> int \<Rightarrow> approval \<Rightarrow> approval" where
  "superseded env n x = x\<lparr>ap_superseded_by := Some n, ap_status := AP_cancelled, ap_reason := Some ''superseded'',
     ap_decided_at := Some (trunc_sec (env_now env)), ap_current_stage := None\<rparr>"

lemma superseded_id [simp]: "ap_id (superseded env n x) = ap_id x"
  by (simp add: superseded_def)

lemma upd_where_or:
  "(\<And>x. p x \<Longrightarrow> \<not> q (f x)) \<Longrightarrow> (\<And>x. \<not> (p x \<and> q x)) \<Longrightarrow>
     upd_where q f (upd_where p f xs) = upd_where (\<lambda>x. p x \<or> q x) f xs"
  by (induction xs) auto

lemma supersede_later:
  assumes "supersede env olds n act db = Inr db'" and "core_ok db" and "distinct (map ap_id olds)"
    and "\<forall>x \<in> set olds. \<forall>y \<in> set (db_approvals db). ap_id y = ap_id x \<longrightarrow> ap_status y = AP_pending"
  shows "later db db' \<and> core_ok db' \<and>
    db_approvals db' = upd_where (\<lambda>x. ap_id x \<in> ap_id ` set olds) (superseded env n) (db_approvals db)"
  using assms
proof (induction olds arbitrary: db)
  case Nil
  then show ?case by (simp add: supersede_def upd_where_none)
next
  case (Cons old olds)
  let ?d1 = "upd_approvals (\<lambda>a. ap_id a = ap_id old) (\<lambda>a. a\<lparr>ap_superseded_by := Some n\<rparr>) db"
  from Cons.prems(1) obtain d where fin: "finalize env old AP_cancelled ''superseded'' act False ?d1 = Inr d"
      and rest: "supersede env olds n act d = Inr db'"
    by (auto simp: supersede_def res_bind_Inr_iff)
  have ok1: "core_ok ?d1" using Cons.prems(2) by (intro approvals_upd_ok) simp_all
  have pend: "\<forall>x \<in> set (db_approvals ?d1). ap_id x = ap_id old \<longrightarrow> ap_status x = AP_pending"
    using Cons.prems(4) by (auto elim!: upd_whereE)
  have "later db ?d1" using Cons.prems(4) by (intro upd_approvals_later) auto
  then have later1: "later db d" using finalize_later [OF fin ok1 pend] later_trans by blast
  have rows: "db_approvals d = upd_where (\<lambda>x. ap_id x = ap_id old) (superseded env n) (db_approvals db)"
    using core_eqD(1) [OF finalize_core [OF fin]] by (simp add: closing_def superseded_def [abs_def])
  have "\<forall>x \<in> set olds. \<forall>y \<in> set (db_approvals d). ap_id y = ap_id x \<longrightarrow> ap_status y = AP_pending"
    using Cons.prems(3,4) unfolding rows by (auto simp: image_iff elim!: upd_whereE)
  moreover have "core_ok d" using finalize_ok [OF ok1 _ fin] by simp
  moreover have new: "distinct (map ap_id olds)" "ap_id old \<notin> ap_id ` set olds" using Cons.prems(3) by auto
  ultimately have IH: "later d db' \<and> core_ok db' \<and>
      db_approvals db' = upd_where (\<lambda>x. ap_id x \<in> ap_id ` set olds) (superseded env n) (db_approvals d)"
    using Cons.IH [OF rest] by blast
  have "upd_where (\<lambda>x. ap_id x \<in> ap_id ` set olds) (superseded env n) (db_approvals d) =
      upd_where (\<lambda>x. ap_id x = ap_id old \<or> ap_id x \<in> ap_id ` set olds) (superseded env n) (db_approvals db)"
    unfolding rows using new(2) by (intro upd_where_or) auto
  then show ?case using IH later_trans [OF later1] by simp
qed

text \<open>The requests that are superseded are pending, and each is locked once.\<close>

lemma olds_pending:
  assumes ok: "core_ok db" and olds: "olds = (if rq_supersede rq then lock_pending_same_key db (rq_ticket_id rq) key else [])"
    and a: "ap_id a = seq_approval db" "ap_status a = AP_pending"
  shows "distinct (map ap_id olds)"
    "\<forall>x \<in> set olds. \<forall>y \<in> set (db_approvals (insert_approval a db)). ap_id y = ap_id x \<longrightarrow> ap_status y = AP_pending"
proof -
  have rows: "x \<in> set (db_approvals db)" "ap_status x = AP_pending" if "x \<in> set olds" for x
    using that olds by (auto simp: lock_pending_same_key_def split: if_splits)
  have "distinct (map ap_id (lock_pending_same_key db t k))" for t k
    using core_ok_distinct(1) [OF ok] unfolding lock_pending_same_key_def
    by (auto simp: distinct_map intro: inj_on_subset)
  then show "distinct (map ap_id olds)" unfolding olds by simp
  show "\<forall>x \<in> set olds. \<forall>y \<in> set (db_approvals (insert_approval a db)). ap_id y = ap_id x \<longrightarrow> ap_status y = AP_pending"
    using rows a(2) approvals.same_key_same_row [OF core_ok_distinct(1) [OF ok]]
    by (auto simp: insert_approval_def)
qed

lemma insert_steps_approvals [simp]: "db_approvals (insert_steps a p specs db) = db_approvals db"
  by (induction specs arbitrary: p db) auto

lemma request_later:
  assumes req: "request_approval env rq act db = Inr (r, db')" and db: "db_ok db"
    and wf: "has_steps (rq_definition rq)" "templates_ok db"
  shows "later db db'"
proof -
  from req obtain title key ref d template_id requester a olds where
      d: "validated_definition env db (rq_subject_type rq) (rq_definition rq) (rq_template_key rq) = Inr (d, template_id)"
      and olds: "olds = (if rq_supersede rq then lock_pending_same_key db (rq_ticket_id rq) key else [])"
      and a: "a = new_approval env db (rq_ticket_id rq) (rq_subject_type rq) ref key title
       (map_option replace_non_bmp (rq_description rq)) template_id (rq_allow_self_approval rq) requester act"
      and start: "start_request env a olds (length (d_steps d)) act (insert_steps a 1 (d_steps d) (insert_approval a db)) = Inr db'"
    by (rule request_approval_InrE)
  have ids: "ap_id a = seq_approval db" "ap_status a = AP_pending" by (simp_all add: a)
  have ok: "core_ok db" using db by (simp add: db_ok_def)
  let ?db1 = "insert_steps a 1 (d_steps d) (insert_approval a db)"
  note N = new_request_ok [OF db ids validated_definition_steps [OF d wf]]
  note O = olds_pending [OF ok olds ids]
  from start obtain db2 db3 ids' db4 where sup: "supersede env olds (ap_id a) act ?db1 = Inr db2"
      and core3: "core db3 = core db2" and act: "activate_next_stage env a act db3 = Inr (ids', db4)"
      and core4: "core db' = core db4"
    by (rule start_request_parts)
  have S: "later ?db1 db2 \<and> core_ok db2" using supersede_later [OF sup N(1) O(1)] O(2) by simp
  obtain added where loop: "activate_loop env a act [] db3 = Inr (added, db4)"
    using act by (rule activate_next_stage_loop)
  have "later db2 db4"
    using activate_loop_later [OF loop] S core_ok_cong [OF core3] later_core [OF core3 refl] by blast
  then show ?thesis
    using later_trans [OF insert_approval_later later_trans [OF insert_steps_later later_trans]] S
      later_core [OF refl core4] by blast
qed

lemma auto_decision_later:
  assumes rec: "record_auto_decision env rq status reason act db = Inr (r, db')" and db: "db_ok db"
  shows "later db db'"
proof -
  from rec obtain title key ref requester a olds db1 where
      olds: "olds = (if rq_supersede rq then lock_pending_same_key db (rq_ticket_id rq) key else [])"
      and a: "a = new_approval env db (rq_ticket_id rq) (rq_subject_type rq) ref key title
        (map_option replace_non_bmp (rq_description rq)) None False requester act"
      and sup: "supersede env olds (ap_id a) act (insert_approval a db) = Inr db1"
      and fin: "finalize env a status reason act True db1 = Inr db'"
    by (rule record_auto_decision_InrE)
  have ids: "ap_id a = seq_approval db" "ap_status a = AP_pending" by (simp_all add: a)
  have ok: "core_ok db" using db by (simp add: db_ok_def)
  note I = insert_approval_ok [OF ok ids(1)]
  note S = supersede_later [OF sup I(1) olds_pending [OF ok olds ids]]
  have fresh: "\<forall>x \<in> set (db_approvals db). ap_id x \<noteq> ap_id a"
    using ok by (auto simp: ids core_ok_def keys_ok_def fresh_ids_def)
  have "ap_id a \<notin> ap_id ` set olds" using olds_ids(1) [OF ok olds] ids(1) by auto
  then have "\<forall>x \<in> set (db_approvals db1). ap_id x = ap_id a \<longrightarrow> ap_status x = AP_pending"
    using S fresh ids(2) by (auto simp: insert_approval_def elim!: upd_whereE)
  then show ?thesis
    using finalize_later [OF fin] S later_trans [OF insert_approval_later later_trans] by blast
qed

end
