(* ===== verification/Approval_Links.thy ===== *)
theory Approval_Links
  imports Approval_History
begin

text \<open>
  The rest of \<open>approvals/tokens.py\<close>: \<open>inspect_link\<close> and \<open>redeem_link\<close>, which casts the vote of the
  link's approver row through \<open>decide\<close>; the link of a vote stays used.
\<close>

section \<open>Inspecting and redeeming\<close>

definition inspect_link :: "approval_env \<Rightarrow> string \<Rightarrow> approval_db \<Rightarrow> link_target res" where
  "inspect_link env tok db =
     (if \<not> set_email_links_enabled (env_settings env) then Inl (ApprovalError link_invalid 410)
      else res_bind (resolve_link env db tok) (\<lambda>target.
        case get_approval db (lt_approval_id target) of
          None \<Rightarrow> Inl RuntimeError
        | Some a \<Rightarrow>
           res_bind (require_subject_available env db (ap_subject_type a)) (\<lambda>_.
           res_bind (require_valid_principal (db_znuny db) (lt_principal target)) (\<lambda>_.
           res_bind (if p_kind (lt_principal target) = Customer
             then (case p_login (lt_principal target) of None \<Rightarrow> Inl AssertionError
                     | Some login \<Rightarrow> check_customer_approver env db a login)
             else Inr ()) (\<lambda>_. Inr target)))))"

text \<open>\<open>UPDATE \<dots> WHERE used_at IS NULL AND revoked_at IS NULL\<close>: the second barrier.\<close>

definition consume_link :: "approval_env \<Rightarrow> int \<Rightarrow> approval_db \<Rightarrow> approval_db res" where
  "consume_link env i db =
     (let p = (\<lambda>k. tk_id k = i \<and> tk_used_at k = None \<and> tk_revoked_at k = None) in
      if rowcount p (db_tokens db) \<noteq> 1 then Inl (ApprovalError link_used 410)
      else Inr (upd_tokens p (\<lambda>k. k\<lparr>tk_used_at := Some (token_now env)\<rparr>) db))"

definition link_actor :: "principal \<Rightarrow> actor res" where
  "link_actor p =
     (case (p_kind p, p_user_id p, p_login p) of
        (Agent, Some uid, _) \<Rightarrow> actor_agent uid
      | (Customer, _, Some login) \<Rightarrow>
          if login = [] then Inl (ApprovalError link_invalid 410) else actor_customer login
      | _ \<Rightarrow> Inl (ApprovalError link_invalid 410))"

definition redeem_link ::
  "approval_env \<Rightarrow> string \<Rightarrow> decision \<Rightarrow> string option \<Rightarrow> approval_db \<Rightarrow> (decision_result \<times> approval_db) res" where
  "redeem_link env tok d comment db =
     (case find_token env db tok of
        None \<Rightarrow> Inl UnknownLinkError
      | Some k \<Rightarrow>
         (case lock_approval db (tk_approval_id k) of
            Inl _ \<Rightarrow> Inl (ApprovalError link_invalid 410)
          | Inr _ \<Rightarrow>
             if \<not> set_email_links_enabled (env_settings env) then Inl (ApprovalError link_invalid 410)
             else
             res_bind (resolve_link env db tok) (\<lambda>target.
             res_bind (require_valid_principal (db_znuny db) (lt_principal target)) (\<lambda>_.
             res_bind (consume_link env (lt_token_id target) db) (\<lambda>db1.
             res_bind (link_actor (lt_principal target)) (\<lambda>act.
               decide env (tk_approval_id k) act d Ch_email comment (Some (lt_approver_id target))
                 (Some (lt_token_id target)) db1))))))"

section \<open>Redeeming\<close>

lemma consume_link_InrE:
  assumes "consume_link env i db = Inr db'"
  obtains "db' = upd_tokens (\<lambda>k. tk_id k = i \<and> tk_used_at k = None \<and> tk_revoked_at k = None)
      (\<lambda>k. k\<lparr>tk_used_at := Some (token_now env)\<rparr>) db"
    "\<exists>k \<in> set (db_tokens db). tk_id k = i \<and> live k"
proof -
  let ?p = "\<lambda>k. tk_id k = i \<and> tk_used_at k = None \<and> tk_revoked_at k = None"
  from assms have n: "rowcount ?p (db_tokens db) = 1" and db': "db' = upd_tokens ?p (\<lambda>k. k\<lparr>tk_used_at := Some (token_now env)\<rparr>) db"
    by (auto simp: consume_link_def Let_def split: if_splits)
  from n have "filter ?p (db_tokens db) \<noteq> []" by (auto simp: rowcount_def)
  then have "\<exists>k \<in> set (db_tokens db). ?p k" by (auto simp: filter_empty_conv)
  with db' show ?thesis by (intro that) (auto simp: live_def)
qed

lemma consume_link_ok:
  assumes cons: "consume_link env i db = Inr db'" and db: "db_ok db"
  shows "db_ok db'" "later db db'" "db_approvals db' = db_approvals db" "db_approvers db' = db_approvers db"
    "db_steps db' = db_steps db" "db_votes db' = db_votes db" "db_znuny db' = db_znuny db" "seq_token db' = seq_token db"
    "others_same j db db' \<longleftrightarrow> filter (\<lambda>k. tk_approval_id k \<noteq> j) (db_tokens db') = filter (\<lambda>k. tk_approval_id k \<noteq> j) (db_tokens db)"
proof -
  from cons obtain p where db': "db' = upd_tokens p (\<lambda>k. k\<lparr>tk_used_at := Some (token_now env)\<rparr>) db"
      and p: "p = (\<lambda>k. tk_id k = i \<and> tk_used_at k = None \<and> tk_revoked_at k = None)"
    by (auto elim: consume_link_InrE)
  have ok: "core_ok db" using db by (simp add: db_ok_def)
  have "core_ok (db\<lparr>db_approvers := upd_where (\<lambda>_. False) id (db_approvers db), db_tokens := db_tokens db'\<rparr>)"
    by (rule approvers_tokens_ok [OF ok])
      (auto simp: db' p live_def elim!: upd_whereE intro!: map_upd_where)
  then have "core_ok db'" by (simp add: db' upd_tokens_def upd_where_none)
  then show "db_ok db'" by (rule db_ok_same_steps [OF db]) (simp_all add: db')
  show "later db db'" unfolding db' by (rule upd_tokens_later) (simp add: p link_later_def)
  show "db_approvals db' = db_approvals db" "db_approvers db' = db_approvers db" "db_steps db' = db_steps db"
    "db_votes db' = db_votes db" "db_znuny db' = db_znuny db" "seq_token db' = seq_token db"
    "others_same j db db' \<longleftrightarrow> filter (\<lambda>k. tk_approval_id k \<noteq> j) (db_tokens db') = filter (\<lambda>k. tk_approval_id k \<noteq> j) (db_tokens db)"
    by (simp_all add: db' others_same_def)
qed

lemma redeem_link_InrE:
  assumes "redeem_link env tok d comment db = Inr (r, db')"
  obtains k target db1 act where "find_token env db tok = Some k" "set_email_links_enabled (env_settings env)"
    "resolve_link env db tok = Inr target" "require_valid_principal (db_znuny db) (lt_principal target) = Inr ()"
    "consume_link env (lt_token_id target) db = Inr db1" "link_actor (lt_principal target) = Inr act"
    "decide env (tk_approval_id k) act d Ch_email comment (Some (lt_approver_id target))
       (Some (lt_token_id target)) db1 = Inr (r, db')"
  using assms by (auto simp: redeem_link_def res_bind_Inr_iff split: option.splits sum.splits if_splits)

lemma resolve_link_token:
  assumes "resolve_link env db tok = Inr target"
  obtains k where "find_token env db tok = Some k" "lt_token_id target = tk_id k" "tk_used_at k = None" "tk_revoked_at k = None"
    "lt_approval_id target = tk_approval_id k" "lt_approver_id target = tk_approver_id k"
  using assms by (auto simp: resolve_link_def res_bind_Inr_iff split: option.splits if_splits)

lemma find_token_row:
  assumes "find_token env db tok = Some k" shows "k \<in> set (db_tokens db)" "tk_hash k = link_digest env tok"
  using find_SomeD [OF assms [unfolded find_token_def]] by simp_all

lemma redeem_db_ok:
  assumes red: "redeem_link env tok d comment db = Inr (r, db')" and db: "db_ok db"
  obtains k db1 where "find_token env db tok = Some k" "consume_link env (tk_id k) db = Inr db1" "db_ok db'"
    "later db1 db'" "later db db'" "others_same (tk_approval_id k) db db'"
  using red
proof (rule redeem_link_InrE)
  fix k target db1 act
  assume k: "find_token env db tok = Some k" and res: "resolve_link env db tok = Inr target"
    and cons: "consume_link env (lt_token_id target) db = Inr db1"
    and dec: "decide env (tk_approval_id k) act d Ch_email comment (Some (lt_approver_id target))
      (Some (lt_token_id target)) db1 = Inr (r, db')"
  have t: "lt_token_id target = tk_id k" using res k by (auto elim: resolve_link_token)
  note C = consume_link_ok [OF cons db]
  have "tk_approval_id x = tk_approval_id k" if "x \<in> set (db_tokens db)" "tk_id x = tk_id k" for x
    using tokens.same_key_same_row [OF core_ok_distinct(4) _ find_token_row(1) [OF k], of x] that db by (simp add: db_ok_def)
  then have "others_same (tk_approval_id k) db db1"
    using cons unfolding C(9) t by (elim consume_link_InrE) (auto intro!: filter_upd_where_members)
  then show thesis
    using that [OF k _ _ _ _ others_same_trans] cons t decide_db_ok [OF dec C(1)] decide_later [OF dec C(1)] later_trans [OF C(2)]
    by metis
qed

text \<open>The links of a vote are used for good.\<close>

lemma redeemed_link_used:
  assumes red: "redeem_link env tok d comment db = Inr (r, db1)" and db: "db_ok db"
    and unique: "distinct (map tk_hash (db_tokens db))"
    and later: "links_later db1 db2"
    and x: "x \<in> set (db_tokens db2)" "tk_hash x = link_digest env tok" "tk_id x < seq_token db"
  shows "tk_used_at x \<noteq> None"
proof -
  from red db obtain k db0 where k: "find_token env db tok = Some k" and cons: "consume_link env (tk_id k) db = Inr db0"
      and "later db0 db1"
    by (rule redeem_db_ok)
  then have later0: "links_later db0 db2" using later links_later_trans later_links by blast
  note k' = find_token_row [OF k]
  have "tk_id x < seq_token db0" using x(3) consume_link_ok(8) [OF cons db] by simp
  then obtain y where y: "y \<in> set (db_tokens db0)" "link_later y x" using later0 x(1) by (auto simp: links_later_def)
  from cons have "db0 = upd_tokens (\<lambda>k'. tk_id k' = tk_id k \<and> tk_used_at k' = None \<and> tk_revoked_at k' = None)
      (\<lambda>k. k\<lparr>tk_used_at := Some (token_now env)\<rparr>) db" and live: "\<exists>x \<in> set (db_tokens db). tk_id x = tk_id k \<and> live x"
    by (auto elim: consume_link_InrE)
  then obtain z where z: "z \<in> set (db_tokens db)" "tk_hash z = tk_hash y"
      "tk_id z = tk_id k \<and> live z \<longrightarrow> tk_used_at y = Some (token_now env)"
    using y(1) by (auto simp: live_def elim!: upd_whereE)
  have "tk_hash z = tk_hash k" using z(2) y(2) x(2) k'(2) by (simp add: link_later_def)
  then have "z = k" using unique z(1) k'(1) by (metis distinct_map inj_onD)
  moreover have "live k"
    using live tokens.same_key_same_row [OF core_ok_distinct(4) _ k'(1)] db by (auto simp: db_ok_def)
  ultimately show ?thesis using z(3) y(2) by (simp add: link_later_def)
qed

lemma issued_db_ok: "db_ok issued_db"
  by code_simp

end
