(* ===== verification/Approval_Waits.thy ===== *)
theory Approval_Waits
  imports Approval_Links
begin

text \<open>
  A pending request waits for somebody: every active step has an approver who can still vote. An operation
  may take the last one out of a step; it then evaluates the step, and a step whose outcome is still open
  has a pending voter, or no voter at all and is closed by \<open>on_no_approver\<close>. The set \<open>D\<close> names the steps
  that were written and not evaluated yet.
\<close>

definition waits :: "int set \<Rightarrow> approval_db \<Rightarrow> bool" where
  "waits D db \<longleftrightarrow> (\<forall>s \<in> set (db_steps db). st_status s = ST_active \<longrightarrow> st_id s \<notin> D \<longrightarrow>
     (\<exists>r \<in> set (db_approvers db). ar_step_id r = st_id s \<and> ar_status r = AR_pending))"

lemma waits_core: "core db' = core db \<Longrightarrow> waits D db' = waits D db"
  by (simp add: waits_def core_def)

lemma waitsD:
  assumes "waits D db" "s \<in> set (db_steps db)" "st_status s = ST_active" "st_id s \<notin> D"
  obtains r where "r \<in> set (db_approvers db)" "ar_step_id r = st_id s" "ar_status r = AR_pending"
  using assms by (auto simp: waits_def)

lemma waits_frame:
  assumes "waits D db"
    and "\<And>s. s \<in> set (db_steps db') \<Longrightarrow> st_status s = ST_active \<Longrightarrow> st_id s \<notin> D' \<Longrightarrow>
      s \<in> set (db_steps db) \<and> st_id s \<notin> D \<and> (\<forall>r \<in> set (db_approvers db). ar_step_id r = st_id s \<longrightarrow>
        ar_status r = AR_pending \<longrightarrow> (\<exists>r' \<in> set (db_approvers db'). ar_step_id r' = st_id s \<and> ar_status r' = AR_pending)) \<or>
      (\<exists>r' \<in> set (db_approvers db'). ar_step_id r' = st_id s \<and> ar_status r' = AR_pending)"
  shows "waits D' db'"
  using assms unfolding waits_def by metis

lemma waits_mono: "waits D db \<Longrightarrow> D \<subseteq> D' \<Longrightarrow> waits D' db"
  by (auto simp: waits_def)

section \<open>A step whose outcome is open\<close>

lemma evaluate_step_pending:
  assumes "evaluate_step r q vs = Inr V_pending" and "vs \<noteq> []"
    and reg: "\<forall>v \<in> set vs. voter_in_rule v \<or> v_decisive v"
  shows "\<exists>v \<in> set vs. v_status v = V_pending"
proof (cases "first_status (\<lambda>v. v_decisive v \<and> voted v) vs")
  case (Some x)
  then show ?thesis
    using assms(1) first_status_not_pending [OF _ Some] by (simp add: evaluate_step_unfold)
next
  case None
  let ?reg = "filter voter_in_rule vs"
  show ?thesis
  proof (cases "?reg = []")
    case True
    then show ?thesis using None assms(2) reg by (cases vs) (auto simp: first_status_None voted_def)
  next
    case False
    have "rule_outcome r q ?reg = Inr V_pending" using assms(1) None False by (simp add: evaluate_step_unfold)
    then have "\<exists>v \<in> set ?reg. v_status v = V_pending"
    proof (rule contrapos_pp)
      assume none: "\<not> (\<exists>v \<in> set ?reg. v_status v = V_pending)"
      then have "count_where (\<lambda>v. v_status v = V_pending) ?reg = 0" by (simp add: count_where_0_iff)
      moreover have "first_status voted ?reg = Some (v_status (hd ?reg))" "v_status (hd ?reg) \<noteq> V_pending"
        using none False by (cases ?reg; auto simp: first_status_def voted_def)+
      ultimately show "rule_outcome r q ?reg \<noteq> Inr V_pending"
        by (cases r) (auto simp: rule_outcome_def counts_of_def split: option.splits)
    qed
    then show ?thesis by auto
  qed
qed

text \<open>The voters of a step are its rows; one that is no regular voter is decisive.\<close>

lemma in_rule_False: "in_rule n rows r = Inr False \<Longrightarrow> ar_decisive r"
  by (subst (asm) in_rule.simps) (auto split: if_splits)

lemma step_voters_rows:
  assumes "step_voters env db sid rows = Inr voters"
  shows "\<forall>v \<in> set voters. (voter_in_rule v \<or> v_decisive v) \<and>
      (\<exists>r \<in> set rows. ar_step_id r = sid \<and> voter_status (ar_status r) = Some (v_status v))"
    and "voters = [] \<longleftrightarrow> eligible_voters env db sid rows = []"
proof -
  let ?f = "\<lambda>r acc. res_bind (in_rule (length rows) rows r) (\<lambda>regular.
         Inr (acc @ [\<lparr>v_status = the (voter_status (ar_status r)), v_decisive = ar_decisive r, v_regular = Some regular\<rparr>]))"
  have gen: "res_fold ?f rs acc = Inr out \<Longrightarrow>
      (\<forall>r \<in> set rs. r \<in> set rows \<and> ar_step_id r = sid \<and> voter_status (ar_status r) \<noteq> None) \<Longrightarrow>
      (\<forall>v \<in> set acc. (voter_in_rule v \<or> v_decisive v) \<and>
        (\<exists>r \<in> set rows. ar_step_id r = sid \<and> voter_status (ar_status r) = Some (v_status v))) \<Longrightarrow>
      (\<forall>v \<in> set out. (voter_in_rule v \<or> v_decisive v) \<and>
        (\<exists>r \<in> set rows. ar_step_id r = sid \<and> voter_status (ar_status r) = Some (v_status v))) \<and>
      length out = length acc + length rs" for rs acc out
  proof (induction rs arbitrary: acc)
    case Nil
    then show ?case by simp
  next
    case (Cons r rs)
    from Cons.prems(1) obtain reg where reg: "in_rule (length rows) rows r = Inr reg"
        and rest: "res_fold ?f rs (acc @ [\<lparr>v_status = the (voter_status (ar_status r)), v_decisive = ar_decisive r,
          v_regular = Some reg\<rparr>]) = Inr out"
      by (auto simp: res_bind_Inr_iff)
    have "voter_in_rule \<lparr>v_status = the (voter_status (ar_status r)), v_decisive = ar_decisive r, v_regular = Some reg\<rparr> \<or>
        ar_decisive r"
      using reg in_rule_False by (cases reg) (auto simp: voter_in_rule_def)
    then show ?case using Cons.IH [OF rest] Cons.prems(2,3) by auto
  qed
  have "\<forall>r \<in> set (eligible_voters env db sid rows). r \<in> set rows \<and> ar_step_id r = sid \<and> voter_status (ar_status r) \<noteq> None"
    by (simp add: eligible_voters_def Let_def)
  from gen [OF assms [unfolded step_voters_def] this] show
    "\<forall>v \<in> set voters. (voter_in_rule v \<or> v_decisive v) \<and>
      (\<exists>r \<in> set rows. ar_step_id r = sid \<and> voter_status (ar_status r) = Some (v_status v))"
    "voters = [] \<longleftrightarrow> eligible_voters env db sid rows = []"
    by auto
qed

lemma open_step_waits:
  assumes voters: "step_voters env db sid rows = Inr voters" and eval: "evaluate_step r q voters = Inr V_pending"
    and ne: "voters \<noteq> []"
  obtains x where "x \<in> set rows" "ar_step_id x = sid" "ar_status x = AR_pending"
proof -
  note V = step_voters_rows(1) [OF voters]
  obtain v where v: "v \<in> set voters" "v_status v = V_pending"
    using evaluate_step_pending [OF eval ne] V by blast
  with V obtain x where "x \<in> set rows" "ar_step_id x = sid" "voter_status (ar_status x) = Some V_pending" by fastforce
  with that show thesis by (auto simp: voter_status_def split: approver_status.splits)
qed

section \<open>The engine\<close>

lemma finalize_waits:
  assumes fin: "finalize env a status reason act auto db = Inr db'" and w: "waits D db"
  shows "waits D db'"
proof -
  have "waits D (closing env (ap_id a) status reason db)"
  proof (rule waits_frame [OF w])
    fix s assume s: "s \<in> set (db_steps (closing env (ap_id a) status reason db))" "st_status s = ST_active" "st_id s \<notin> D"
    from s(1,2) have "s \<in> set (db_steps db)" "st_id s \<notin> open_ids db (ap_id a)"
      by (auto simp: closing_def elim!: upd_whereE)
    with s(3) show "s \<in> set (db_steps db) \<and> st_id s \<notin> D \<and> (\<forall>r \<in> set (db_approvers db). ar_step_id r = st_id s \<longrightarrow>
        ar_status r = AR_pending \<longrightarrow> (\<exists>r' \<in> set (db_approvers (closing env (ap_id a) status reason db)).
          ar_step_id r' = st_id s \<and> ar_status r' = AR_pending)) \<or>
      (\<exists>r' \<in> set (db_approvers (closing env (ap_id a) status reason db)). ar_step_id r' = st_id s \<and> ar_status r' = AR_pending)"
      unfolding closing_def by (auto intro!: bexI upd_where_kept)
  qed
  then show ?thesis using waits_core [OF finalize_core [OF fin]] by simp
qed

lemma add_approvers_waits:
  assumes "add_approvers env a s act now ras db = Inr (ids, db')"
  shows "set (db_approvers db) \<subseteq> set (db_approvers db') \<and> db_steps db' = db_steps db \<and>
    (ras \<noteq> [] \<longrightarrow> (\<exists>r \<in> set (db_approvers db'). ar_step_id r = st_id s \<and> ar_status r = AR_pending))"
proof -
  have "res_fold (\<lambda>ra (ids, db). res_bind (add_approver env a s act now ra db) (\<lambda>(i, db'). Inr (ids @ [i], db')))
      ras (is0, db) = Inr (ids, db') \<Longrightarrow> ?thesis" for is0
  proof (induction ras arbitrary: is0 db)
    case (Cons ra ras)
    then obtain i db1 where add: "add_approver env a s act now ra db = Inr (i, db1)"
        and rest: "res_fold (\<lambda>ra (ids, db). res_bind (add_approver env a s act now ra db) (\<lambda>(i, db'). Inr (ids @ [i], db')))
          ras (is0 @ [i], db1) = Inr (ids, db')"
      by (auto simp: res_bind_Inr_iff)
    from add have "set (db_approvers db) \<subseteq> set (db_approvers db1)" "db_steps db1 = db_steps db"
        "\<exists>r \<in> set (db_approvers db1). ar_step_id r = st_id s \<and> ar_status r = AR_pending"
      by (auto elim!: add_approver_InrE)
    then show ?case using Cons.IH [OF rest] by auto
  qed simp
  then show ?thesis using assms by (simp add: add_approvers_def)
qed

lemma activate_step_waits:
  assumes act: "activate_step env a s act db = Inr (ids, db')" and w: "waits D db"
  shows "waits D db'"
  using act
proof (cases rule: activate_stepE)
  case (stop d)
  let ?d = "upd_steps (\<lambda>x. st_id x = st_id s) (ended env (st_spec s)) d"
  have "waits D ?d"
  proof (rule waits_frame [OF w], intro disjI1 conjI)
    fix x assume x: "x \<in> set (db_steps ?d)" "st_status x = ST_active" "st_id x \<notin> D"
    from x(1) show "x \<in> set (db_steps db)"
      using x(2) core_eqD(2) [OF stop(1)] na_status_closed
      by (fastforce simp: start_step_def elim!: upd_whereE)
    show "st_id x \<notin> D" by (rule x(3))
    show "\<forall>r \<in> set (db_approvers db). ar_step_id r = st_id x \<longrightarrow> ar_status r = AR_pending \<longrightarrow>
        (\<exists>r' \<in> set (db_approvers ?d). ar_step_id r' = st_id x \<and> ar_status r' = AR_pending)"
      using core_eqD(3) [OF stop(1)] by (auto simp: start_step_def)
  qed
  then show ?thesis using waits_core [OF stop(3)] by simp
next
  case (go d rn)
  note A = add_approvers_waits [OF go(4)]
  show ?thesis
  proof (rule waits_frame [OF w])
    fix x assume x: "x \<in> set (db_steps db')" "st_status x = ST_active" "st_id x \<notin> D"
    have steps: "db_steps db' = upd_where (\<lambda>x. st_id x = st_id s) (activated env (st_spec s)) (db_steps db)"
      using A core_eqD(2) [OF go(1)] by (simp add: start_step_def)
    have rows: "set (db_approvers db) \<subseteq> set (db_approvers db')"
      using A core_eqD(3) [OF go(1)] by (simp add: start_step_def)
    show "x \<in> set (db_steps db) \<and> st_id x \<notin> D \<and> (\<forall>r \<in> set (db_approvers db). ar_step_id r = st_id x \<longrightarrow>
        ar_status r = AR_pending \<longrightarrow> (\<exists>r' \<in> set (db_approvers db'). ar_step_id r' = st_id x \<and> ar_status r' = AR_pending)) \<or>
      (\<exists>r' \<in> set (db_approvers db'). ar_step_id r' = st_id x \<and> ar_status r' = AR_pending)"
    proof (cases "st_id x = st_id s")
      case True
      then show ?thesis using A go(2) by auto
    next
      case False
      then have "x \<in> set (db_steps db)" using x(1) unfolding steps by (auto elim!: upd_whereE)
      then show ?thesis using x(3) rows by blast
    qed
  qed
qed

lemma activate_stage_waits:
  "activate_stage env a act ss added db = Inr (ids, db') \<Longrightarrow> waits D db \<Longrightarrow> waits D db'"
proof (induction ss arbitrary: added db)
  case Nil
  then show ?case by (simp add: activate_stage_def)
next
  case (Cons s ss)
  then show ?case using activate_step_waits by (auto simp: activate_stage_Cons res_bind_Inr_iff)
qed

lemma activate_loop_waits:
  "activate_loop env a act added db = Inr (ids, db') \<Longrightarrow> waits D db \<Longrightarrow> waits D db'"
proof (induction env a act added db rule: activate_loop.induct)
  case (1 env a act added db)
  from 1(2) show ?case
  proof (cases rule: activate_loop_cases)
    case (go stage added1 db1)
    show ?thesis using 1(1) [OF _ refl refl refl go(2-5) refl go(6)] go(1) activate_stage_waits [OF go(5) 1(3)] by simp
  next
    case (fin st)
    show ?thesis by (rule finalize_waits [OF fin(1) 1(3)])
  qed (use 1(3) in simp_all)
qed

text \<open>Rows leaving steps make only those steps dirty; a settled step needs nobody any more.\<close>

lemma leave_waits:
  assumes w: "waits D db" and rows: "\<And>r. r \<in> set (db_approvers db) \<Longrightarrow> ar_id r \<in> set ids \<Longrightarrow> ar_step_id r \<in> D'"
  shows "waits (D \<union> D') (leave env ids st red db)"
proof (rule waits_frame [OF w], intro disjI1 conjI ballI impI)
  fix s r assume s: "s \<in> set (db_steps (leave env ids st red db))" "st_id s \<notin> D \<union> D'"
    and r: "r \<in> set (db_approvers db)" "ar_step_id r = st_id s" "ar_status r = AR_pending"
  have "ar_id r \<notin> set ids" using rows [OF r(1)] r(2) s(2) by auto
  then have "r \<in> set (db_approvers (leave env ids st red db))"
    unfolding leave_tables(1) by (intro upd_where_kept) (use r in simp_all)
  then show "\<exists>r' \<in> set (db_approvers (leave env ids st red db)). ar_step_id r' = st_id s \<and> ar_status r' = AR_pending"
    using r by blast
qed auto

lemma settle_step_waits:
  assumes ok: "core_ok db" and w: "waits (insert (st_id s) D) db" and out: "outcome = ST_approved \<or> outcome = ST_rejected"
  shows "waits D (settle_step env a s outcome reason act now db)"
proof -
  let ?l = "leave env (leftover db (ap_id a) (st_id s)) AR_not_needed None db"
  have l: "waits (insert (st_id s) D) ?l"
    using leave_waits [OF w, of "leftover db (ap_id a) (st_id s)" "{st_id s}"] leftover_pending [OF ok] by auto
  let ?d = "upd_steps (\<lambda>x. st_id x = st_id s)
      (\<lambda>x. x\<lparr>st_status := outcome, st_reason := Some reason, st_decided_at := Some now\<rparr>) ?l"
  have "waits D ?d"
  proof (rule waits_frame [OF l], intro disjI1 conjI)
    fix x assume x: "x \<in> set (db_steps ?d)" "st_status x = ST_active" "st_id x \<notin> D"
    from x(1,2) out show "x \<in> set (db_steps ?l)" by (auto elim!: upd_whereE)
    from x out show "st_id x \<notin> insert (st_id s) D" by (auto elim!: upd_whereE)
  qed auto
  then show ?thesis using waits_core [OF settle_step_core] by simp
qed

lemma close_step_waits:
  assumes close: "close_step env a s outcome reason act now db = Inr db'" and ok: "core_ok db"
    and w: "waits (insert (st_id s) D) db" and out: "outcome = ST_approved \<or> outcome = ST_rejected"
  shows "waits D db'"
proof -
  let ?d = "settle_step env a s outcome reason act now db"
  obtain ids d' where act: "activate_next_stage env a act ?d = Inr (ids, d')" and core: "core db' = core d'"
    using close by (auto simp: close_step_def res_bind_Inr_iff dest!: core_enqueue split: if_splits)
  obtain added where "activate_loop env a act [] ?d = Inr (added, d')" using act by (rule activate_next_stage_loop)
  then show ?thesis using activate_loop_waits settle_step_waits [OF ok w out] waits_core [OF core] by blast
qed

text \<open>Re-evaluating a step makes it clean.\<close>

lemma closed_request_waits:
  assumes ok: "core_ok db" and closed: "ap_status (cur db a) \<noteq> AP_pending"
    and s: "s \<in> set (db_steps db)" "st_approval_id s = ap_id a"
  shows "st_status s \<noteq> ST_active"
proof
  assume "st_status s = ST_active"
  then obtain x where "x \<in> set (db_approvals db)" "ap_id x = ap_id a" "ap_status x = AP_pending"
    using ok s by (auto simp: core_ok_def steps_flow_def is_open_def)
  with cur_eq [OF ok] closed show False by metis
qed

lemma reevaluate_one_waits:
  assumes step: "reevaluate_steps env a [s] act now db = Inr db'" and db: "db_ok db"
    and own: "owns_step db (ap_id a) (st_id s)" and w: "waits (insert (st_id s) D) db"
  shows "waits D db'"
proof -
  have ok: "core_ok db" using db by (simp add: db_ok_def)
  note row = cur_step_row [OF ok own]
  have clean: "waits D db" if "st_status (cur_step db s) \<noteq> ST_active \<or>
      (\<exists>r \<in> set (db_approvers db). ar_step_id r = st_id s \<and> ar_status r = AR_pending)"
  proof (rule waits_frame [OF w])
    fix x assume x: "x \<in> set (db_steps db)" "st_status x = ST_active" "st_id x \<notin> D"
    show "x \<in> set (db_steps db) \<and> st_id x \<notin> insert (st_id s) D \<and> (\<forall>r \<in> set (db_approvers db). ar_step_id r = st_id x \<longrightarrow>
        ar_status r = AR_pending \<longrightarrow> (\<exists>r' \<in> set (db_approvers db). ar_step_id r' = st_id x \<and> ar_status r' = AR_pending)) \<or>
      (\<exists>r' \<in> set (db_approvers db). ar_step_id r' = st_id x \<and> ar_status r' = AR_pending)"
    proof (cases "st_id x = st_id s")
      case True
      then have "x = cur_step db s" using step_id_approval [OF ok row(1) x(1)] row(2) by simp
      then show ?thesis using that x(2) True by auto
    qed (use x in auto)
  qed
  show ?thesis
  proof (cases "ap_status (cur db a) \<noteq> AP_pending \<or> st_status (cur_step db s) \<noteq> ST_active")
    case True
    then show ?thesis
      using step clean closed_request_waits [OF ok _ row(1,3)] by (auto simp: reevaluate_steps_def)
  next
    case False
    with step obtain voters out where voters: "step_voters env db (st_id s) (locked_approvers db (ap_id a)) = Inr voters"
        and out: "reevaluated s voters = Inr out"
        and rest: "(case out of None \<Rightarrow> Inr db | Some (outcome, reason) \<Rightarrow> close_step env a s outcome reason act now db) = Inr db'"
      by (auto simp: reevaluate_steps_def res_bind_Inr_iff)
    show ?thesis
    proof (cases out)
      case None
      with out have "evaluate_step (st_rule s) (st_quorum s) voters = Inr V_pending" "voters \<noteq> []"
        by (auto simp: reevaluated_def res_bind_Inr_iff split: if_splits)
      with voters obtain x where "x \<in> set (locked_approvers db (ap_id a))" "ar_step_id x = st_id s" "ar_status x = AR_pending"
        by (rule open_step_waits)
      with clean None rest show ?thesis by auto
    next
      case (Some p)
      obtain outcome reason where p: "p = (outcome, reason)" by (cases p)
      show ?thesis
        using close_step_waits [OF _ ok w reevaluated_closed [OF out [unfolded Some p]]] rest Some p by simp
    qed
  qed
qed

lemma reevaluate_Cons:
  assumes "reevaluate_steps env a (s # ss) act now db = Inr db'"
  obtains d where "reevaluate_steps env a [s] act now db = Inr d" "reevaluate_steps env a ss act now d = Inr db'"
  using assms by (auto simp: reevaluate_steps_def res_bind_Inr_iff)

lemma reevaluate_steps_waits:
  "reevaluate_steps env a ss act now db = Inr db' \<Longrightarrow> db_ok db \<Longrightarrow>
     \<forall>s \<in> set ss. owns_step db (ap_id a) (st_id s) \<Longrightarrow> waits (st_id ` set ss \<union> D) db \<Longrightarrow> waits D db'"
proof (induction ss arbitrary: db)
  case Nil
  then show ?case by (simp add: reevaluate_steps_def)
next
  case (Cons s ss)
  from Cons.prems(1) obtain d where one: "reevaluate_steps env a [s] act now db = Inr d"
      and rest: "reevaluate_steps env a ss act now d = Inr db'" by (rule reevaluate_Cons)
  have own: "owns_step db (ap_id a) (st_id s)" using Cons.prems(3) by simp
  have "db_ok d" "engine_keeps db d" using reevaluate_steps_db_ok [OF one Cons.prems(2)] own by auto
  moreover have "waits (st_id ` set ss \<union> D) d"
    using reevaluate_one_waits [OF one Cons.prems(2) own, of "st_id ` set ss \<union> D"] Cons.prems(4) by simp
  ultimately show ?case using Cons.IH [OF rest] Cons.prems(3) owns_step_keeps by (metis list.set_intros(2))
qed

section \<open>The service\<close>

text \<open>After a vote the step is clean: it is decided, or somebody else is still pending.\<close>

lemma dead_rows_step:
  assumes ok: "core_ok db" and r: "r \<in> set (db_approvers db)" "ar_id r \<in> set (dead_rows db rows sid key)"
  shows "ar_step_id r = sid"
proof -
  from r(2) obtain b where b: "ar_id (cur_approver db b) = ar_id r" "ar_step_id (cur_approver db b) = sid"
    by (auto simp: dead_rows_def)
  show ?thesis
  proof (cases "get_approver db (ar_id b)")
    case None
    then have "ar_id r = ar_id b" using b(1) by (simp add: cur_approver_def)
    with None r(1) show ?thesis by (auto simp: get_approver_def dest!: find_NoneD)
  next
    case (Some x)
    then have x: "x \<in> set (db_approvers db)" "cur_approver db b = x"
      using approvers.get_SomeD by (auto simp: cur_approver_def)
    then show ?thesis using approvers.same_key_same_row [OF core_ok_distinct(3) [OF ok] x(1) r(1)] b by simp
  qed
qed

lemma cur_approver_rows:
  assumes ok: "core_ok db" and "\<forall>b \<in> set rows. ar_id b \<in> ar_id ` set (db_approvers db)"
  shows "set (map (cur_approver db) rows) \<subseteq> set (db_approvers db)"
    "b \<in> set rows \<Longrightarrow> x \<in> set (db_approvers db) \<Longrightarrow> ar_id x = ar_id b \<Longrightarrow> x \<in> set (map (cur_approver db) rows)"
proof -
  have cur: "cur_approver db b = x" if "x \<in> set (db_approvers db)" "ar_id x = ar_id b" for b x
    using approvers.get_Some_iff [OF core_ok_distinct(3) [OF ok], of "ar_id b" x] that by (simp add: cur_approver_def)
  show "set (map (cur_approver db) rows) \<subseteq> set (db_approvers db)" using assms(2) cur by fastforce
  show "b \<in> set rows \<Longrightarrow> x \<in> set (db_approvers db) \<Longrightarrow> ar_id x = ar_id b \<Longrightarrow> x \<in> set (map (cur_approver db) rows)"
    using cur by force
qed

lemma decide_waits:
  assumes dec: "decide env i act d ch comment approver_id token_id db = Inr (r, db')" and db: "db_ok db" and w: "waits {} db"
  shows "waits {} db'"
  using dec db
proof (rule decide_parts)
  fix a :: approval and row on_behalf s key p v db1 db2
  let ?rows = "locked_approvers db (ap_id a)"
  assume t: "vote_target env a act ch approver_id db = Inr (row, on_behalf, s, key, p)"
    and v: "core db1 = core (with_vote v (leave env [ar_id row] (decided_status d) token_id db))" and db1: "db_ok db1"
    and own1: "\<forall>b \<in> set ?rows. (ar_id b, ap_id a) \<in> (\<lambda>r. (ar_id r, ar_approval_id r)) ` set (db_approvers db1)"
    and core2: "core db2 = core (leave env (dead_rows db1 ?rows (st_id s) key) AR_not_needed None db1)"
    and db2: "db_ok db2" and settle: "settle_vote env a s ?rows act db2 = Inr db'"
  have ok: "core_ok db" "core_ok db1" "core_ok db2" using db db1 db2 by (simp_all add: db_ok_def)
  note ok1 = ok(2) and ok2 = ok(3)
  note T = vote_target_rows [OF t ok(1)]
  let ?l = "leave env [ar_id row] (decided_status d) token_id db"
  have wl: "waits {st_id s} ?l"
    using leave_waits [OF w, of "[ar_id row]" "{st_id s}"] T(6) approvers.same_key_same_row [OF core_ok_distinct(3) [OF ok(1)] _ T(1)]
    by auto
  have w1: "waits {st_id s} db1" unfolding waits_core [OF v] using wl by (simp add: waits_def)
  have w2: "waits {st_id s} db2"
    using leave_waits [OF w1, of "dead_rows db1 ?rows (st_id s) key" "{st_id s}"] dead_rows_step [OF ok1] waits_core [OF core2]
    by auto
  let ?row = "row\<lparr>ar_status := decided_status d\<rparr>"
  have decided: "decided_status d \<noteq> AR_pending" by (cases d) auto
  have "?row \<in> set (db_approvers ?l)" unfolding leave_tables(1) using T(1) upd_where_hit by fastforce
  then have row1: "?row \<in> set (db_approvers db1)" using core_eqD(3) [OF v] by simp
  have "ar_id ?row \<notin> set (dead_rows db1 ?rows (st_id s) key)" using dead_rows_pending [OF ok1 row1] decided by auto
  then have row2: "?row \<in> set (db_approvers db2)"
    using core_eqD(3) [OF core2] row1 leave_tables(1) by (simp add: upd_where_kept)
  have "map ar_id (db_approvers db2) = map ar_id (db_approvers db1)"
    using arg_cong [OF leave_owners [of env "dead_rows db1 ?rows (st_id s) key" AR_not_needed None db1], of "map fst"]
      core_eqD(3) [OF core2] by (simp add: comp_def)
  then have "ar_id ` set (db_approvers db2) = ar_id ` set (db_approvers db1)" by (metis list.set_map)
  then have rows2: "\<forall>b \<in> set ?rows. ar_id b \<in> ar_id ` set (db_approvers db2)" using own1 by fastforce
  note C = cur_approver_rows [OF ok2 rows2]
  from settle obtain voters out where voters: "step_voters env db2 (st_id s) (map (cur_approver db2) ?rows) = Inr voters"
      and out: "evaluate_step (st_rule s) (st_quorum s) voters = Inr out"
      and rest: "(if out = V_pending then Inr db2
        else close_step env a s (outcome_status out) ''votes'' act (trunc_sec (env_now env)) db2) = Inr db'"
    by (auto simp: settle_vote_def res_bind_Inr_iff)
  show ?thesis
  proof (cases "out = V_pending")
    case True
    have "?row \<in> set (map (cur_approver db2) ?rows)" using C(2) [of row ?row] T(1,2) row2 by simp
    then have "?row \<in> set (eligible_voters env db2 (st_id s) (map (cur_approver db2) ?rows))"
      using T(6) by (cases d) (auto simp: eligible_voters_def Let_def voter_status_def)
    then have "voters \<noteq> []" using step_voters_rows(2) [OF voters] by auto
    then obtain x where x: "x \<in> set (map (cur_approver db2) ?rows)" "ar_step_id x = st_id s" "ar_status x = AR_pending"
      using open_step_waits [OF voters out [unfolded True]] by metis
    have "x \<in> set (db_approvers db2)" using C(1) x(1) by blast
    with w2 x(2,3) have "waits {} db2" unfolding waits_def by (metis empty_iff insertE)
    then show ?thesis using rest True by simp
  next
    case False
    then show ?thesis
      using close_step_waits [OF _ ok2 _ outcome_status_closed [OF False]] rest w2 by simp
  qed
qed

lemma forward_waits:
  assumes fwd: "forward env i approver_id act to_user db = Inr (new_id, db')" and db: "db_ok db" and w: "waits {} db"
  shows "waits {} db'"
proof -
  from fwd obtain a uid row s target db1 where t: "forward_target env a approver_id act uid to_user db = Inr (row, s, target)"
    and add: "add_approver env a s act (env_now env) \<lparr>ra_principal = target, ra_source_kind = S_forward,
       ra_source_ref = Some (str_int (ar_id row)), ra_source_label = None\<rparr> db = Inr (new_id, db1)"
    and core: "core db' = core (leave env [ar_id row] AR_forwarded None
       (upd_approvers (\<lambda>r. ar_id r = new_id) (\<lambda>r. r\<lparr>ar_decisive := ar_decisive row\<rparr>) db1))"
    by (rule forward_InrE)
  note T = forward_target_InrE [OF t]
  let ?db2 = "upd_approvers (\<lambda>r. ar_id r = new_id) (\<lambda>r. r\<lparr>ar_decisive := ar_decisive row\<rparr>) db1"
  let ?l = "leave env [ar_id row] AR_forwarded None ?db2"
  have ok: "core_ok db" using db by (simp add: db_ok_def)
  from add obtain x where x: "db_approvers db1 = db_approvers db @ [x]" "ar_id x = new_id" "new_id = seq_approver db"
      "ar_step_id x = st_id s" "ar_status x = AR_pending" and steps: "db_steps db1 = db_steps db"
    by (rule add_approver_InrE) auto
  have fresh: "\<forall>r \<in> set (db_approvers db). ar_id r \<noteq> new_id" using ok x(3) by (auto simp: core_ok_def keys_ok_def fresh_ids_def)
  have rows: "db_approvers ?db2 = db_approvers db @ [x\<lparr>ar_decisive := ar_decisive row\<rparr>]"
    using fresh x(1,2) by (simp add: upd_where_none upd_where_append)
  have "new_id \<noteq> ar_id row" using fresh T(1) by blast
  then have new: "x\<lparr>ar_decisive := ar_decisive row\<rparr> \<in> set (db_approvers ?l)"
    unfolding leave_tables(1) rows by (intro upd_where_kept) (simp_all add: x(2))
  have "waits {} ?db2" using w rows steps unfolding waits_def by fastforce
  then have "waits ({} \<union> {st_id s}) ?l"
  proof (rule leave_waits)
    fix r assume "r \<in> set (db_approvers ?db2)" "ar_id r \<in> set [ar_id row]"
    then have "r \<in> set (db_approvers db)" "ar_id r = ar_id row" using rows x(2) \<open>new_id \<noteq> ar_id row\<close> by auto
    then have "r = row" using approvers.same_key_same_row [OF core_ok_distinct(3) [OF ok] _ T(1)] by blast
    then show "ar_step_id r \<in> {st_id s}" using T(9) by simp
  qed
  then have "waits {} ?l" using new x(4,5) by (force simp: waits_def)
  then show ?thesis using waits_core [OF core] by simp
qed

text \<open>Refreshing makes every active step of the request dirty, and evaluates every one.\<close>

lemma remove_all_departed_waits:
  assumes "waits D db" and "\<forall>r \<in> set rs. r \<in> set (db_approvers db) \<and> ar_step_id r \<in> D" and "core_ok db"
    and "distinct (map ar_id rs)"
  shows "waits D (fold (remove_departed env a s act) rs db)"
proof -
  have "waits D (fold (remove_departed env a s act) qs d) \<and> map (\<lambda>r. (ar_id r, ar_step_id r)) (db_approvers (fold (remove_departed env a s act) qs d)) =
      map (\<lambda>r. (ar_id r, ar_step_id r)) (db_approvers db)"
    if "waits D d" "set qs \<subseteq> set rs" "map (\<lambda>r. (ar_id r, ar_step_id r)) (db_approvers d) = map (\<lambda>r. (ar_id r, ar_step_id r)) (db_approvers db)" for qs d
    using that
  proof (induction qs arbitrary: d)
    case (Cons q qs)
    let ?d1 = "remove_departed env a s act q d"
    note core = remove_departed_core [of env a s act q d]
    have step: "ar_step_id r \<in> D" if r: "r \<in> set (db_approvers d)" "ar_id r \<in> set [ar_id q]" for r
    proof -
      have "(ar_id r, ar_step_id r) \<in> set (map (\<lambda>r. (ar_id r, ar_step_id r)) (db_approvers db))"
        using r(1) unfolding Cons.prems(3) [symmetric] by auto
      then obtain y where y: "y \<in> set (db_approvers db)" "ar_id y = ar_id q" "ar_step_id y = ar_step_id r"
        using r(2) by auto
      then show ?thesis
        using Cons.prems(2) assms(2) approvers.same_key_same_row [OF core_ok_distinct(3) [OF assms(3)] y(1), of q] by fastforce
    qed
    have "waits (D \<union> D) (leave env [ar_id q] AR_removed None d)" by (rule leave_waits [OF Cons.prems(1) step])
    then have "waits D ?d1" using waits_core [OF core] by simp
    moreover have "map (\<lambda>r. (ar_id r, ar_step_id r)) (db_approvers ?d1) = map (\<lambda>r. (ar_id r, ar_step_id r)) (db_approvers d)"
      unfolding core_eqD(3) [OF core] leave_tables(1) by (rule map_upd_where) simp
    ultimately show ?case using Cons.IH [of ?d1] Cons.prems by simp
  qed simp
  then show ?thesis using assms(1) by blast
qed

lemma add_approver_grows:
  "add_approver env a s act now ra db = Inr (i, db') \<Longrightarrow> set (db_approvers db) \<subseteq> set (db_approvers db') \<and> db_steps db' = db_steps db"
  by (erule add_approver_InrE) auto

lemma add_missing_waits:
  assumes "add_missing env a s act ras keys db = Inr (ids, db')"
  shows "set (db_approvers db) \<subseteq> set (db_approvers db') \<and> db_steps db' = db_steps db"
proof -
  from assms obtain ks where fold: "res_fold (\<lambda>ra (keys, ids, db).
         if principal_key (ra_principal ra) \<in> keys then Inr (keys, ids, db)
         else res_bind (add_approver env a s act (env_now env) ra db) (\<lambda>(i, db').
           Inr (insert (principal_key (ra_principal ra)) keys, ids @ [i], db')))
       ras (keys, [], db) = Inr (ks, ids, db')"
    by (auto simp: add_missing_def res_bind_Inr_iff)
  have "case (ks, ids, db') of (_, _, d) \<Rightarrow> set (db_approvers db) \<subseteq> set (db_approvers d) \<and> db_steps d = db_steps db"
    by (rule res_fold_invariant [OF fold, where
          P = "\<lambda>(_, _, d). set (db_approvers db) \<subseteq> set (db_approvers d) \<and> db_steps d = db_steps db"])
       (use add_approver_grows in \<open>fastforce simp: res_bind_Inr_iff split: if_splits prod.splits\<close>)+
  then show ?thesis by simp
qed

lemma refresh_step_waits:
  assumes step: "refresh_step env a act approvers s (added, n, db) = Inr (added', n', db')" and ok: "core_ok db"
    and rows: "distinct (map ar_id approvers)" "\<forall>r \<in> set approvers. ar_step_id r = st_id s \<longrightarrow> r \<in> set (db_approvers db)"
    and w: "waits D db" "st_id s \<in> D"
  shows "waits D db'"
proof -
  from step obtain rn db1 ids where db1: "db1 = fold (remove_departed env a s act)
        (departed_rows rn (filter (\<lambda>r. ar_step_id r = st_id s) approvers)) (audit_unresolved env a s rn act db)"
      and add: "add_missing env a s act (rn_approvers rn)
        (set (map ar_principal (filter (\<lambda>r. ar_step_id r = st_id s) approvers)) \<union> voters_in_step db1 (st_id s)) db1 =
        Inr (ids, db')"
    by (rule refresh_step_InrE)
  have "waits D db1"
    unfolding db1 using rows w ok core_ok_cong [of "audit_unresolved env a s rn act db" db] waits_core [of "audit_unresolved env a s rn act db" db]
    by (intro remove_all_departed_waits) (auto simp: departed_rows_def distinct_map_filter)
  then show ?thesis using add_missing_waits [OF add] unfolding waits_def by (metis subsetD)
qed

lemma refresh_steps_waits:
  assumes "res_fold (refresh_step env a act approvers) ss (added, n, db) = Inr (added', n', db')" and "db_ok db"
    and "\<forall>s \<in> set ss. s \<in> set (db_steps db) \<and> st_approval_id s = ap_id a \<and> st_status s = ST_active"
    and "distinct (map st_id ss)"
    and "distinct (map ar_id approvers)" "\<forall>r \<in> set approvers. ar_approval_id r = ap_id a"
      "\<forall>r \<in> set approvers. ar_step_id r \<in> st_id ` set ss \<longrightarrow> r \<in> set (db_approvers db)"
    and "waits D db" "st_id ` set ss \<subseteq> D"
  shows "waits D db'"
  using assms
proof (induction ss arbitrary: added n db)
  case (Cons s ss)
  from Cons.prems(1) obtain added1 n1 db1 where
      step: "refresh_step env a act approvers s (added, n, db) = Inr (added1, n1, db1)"
      and rest: "res_fold (refresh_step env a act approvers) ss (added1, n1, db1) = Inr (added', n', db')"
    by (auto simp: res_bind_Inr_iff)
  have s: "s \<in> set (db_steps db)" "st_approval_id s = ap_id a" "st_status s = ST_active" using Cons.prems(3) by simp_all
  have own: "\<forall>r \<in> set approvers. ar_step_id r = st_id s \<longrightarrow> r \<in> set (db_approvers db)" using Cons.prems(7) by auto
  note S = refresh_step_db_ok [OF step Cons.prems(2) s Cons.prems(5,6) own]
  have "\<forall>x \<in> set ss. x \<in> set (db_steps db1) \<and> st_approval_id x = ap_id a \<and> st_status x = ST_active"
    using S Cons.prems(3) by simp
  moreover have "\<forall>r \<in> set approvers. ar_step_id r \<in> st_id ` set ss \<longrightarrow> r \<in> set (db_approvers db1)"
    using S Cons.prems(4,7) by auto
  moreover have "waits D db1"
    using refresh_step_waits [OF step _ Cons.prems(5) own Cons.prems(8)] Cons.prems(2,9) by (simp add: db_ok_def)
  ultimately show ?case using Cons.IH [OF rest] S Cons.prems(4-6,9) by simp
qed simp

lemma refresh_waits:
  assumes ref: "refresh_approvers env i act db = Inr (r, db')" and db: "db_ok db" and w: "waits {} db"
  shows "waits {} db'"
proof -
  have ok: "core_ok db" using db by (simp add: db_ok_def)
  from ref obtain a added removed db1 db3 where
    fold: "res_fold (refresh_step env a act (locked_approvers db (ap_id a)))
       (filter (\<lambda>s. st_status s = ST_active) (locked_steps db (ap_id a))) ([], 0, db) = Inr (added, removed, db1)"
    and reev: "reevaluate_steps env a (filter (\<lambda>s. st_status s = ST_active) (locked_steps db (ap_id a))) act (env_now env)
       (audit_record env a A_refreshed act None None None
          [(''added'', JInt (int (length added))), (''removed'', JInt (int removed))] db1) = Inr db3"
    and core: "core db' = core db3"
    by (rule refresh_approvers_InrE)
  let ?ss = "filter (\<lambda>s. st_status s = ST_active) (locked_steps db (ap_id a))"
  let ?db2 = "audit_record env a A_refreshed act None None None
          [(''added'', JInt (int (length added))), (''removed'', JInt (int removed))] db1"
  have dist: "distinct (map st_id ?ss)" using locked_distinct(2) [OF ok] by (simp add: distinct_map_filter)
  have ready: "\<forall>s \<in> set ?ss. s \<in> set (db_steps db) \<and> st_approval_id s = ap_id a \<and> st_status s = ST_active"
      "\<forall>r \<in> set (locked_approvers db (ap_id a)). ar_approval_id r = ap_id a"
      "\<forall>r \<in> set (locked_approvers db (ap_id a)). ar_step_id r \<in> st_id ` set ?ss \<longrightarrow> r \<in> set (db_approvers db)"
    by simp_all
  note R = refresh_steps_db_ok [OF fold db ready(1) dist locked_distinct(1) [OF ok] ready(2,3)]
  have w1: "waits (st_id ` set ?ss) db1"
    by (rule refresh_steps_waits [OF fold db ready(1) dist locked_distinct(1) [OF ok] ready(2,3) waits_mono [OF w]]) simp_all
  have core2: "core ?db2 = core db1" by simp
  have db2: "db_ok ?db2" using R db_ok_cong [OF core2] by simp
  have own: "\<forall>s \<in> set ?ss. owns_step ?db2 (ap_id a) (st_id s)"
    using R core_eqD(2) [OF core2] by (auto simp: owns_step_def)
  have "waits {} db3"
    using reevaluate_steps_waits [OF reev db2 own, of "{}"] w1 waits_core [OF core2] by simp
  then show ?thesis using waits_core [OF core] by simp
qed

section \<open>Requests and links\<close>

lemma insert_steps_waits: "waits D db \<Longrightarrow> waits D (insert_steps a p specs db)"
proof (induction specs arbitrary: p db)
  case (Cons spec specs)
  let ?db1 = "db\<lparr>db_steps := db_steps db @ [new_step a (seq_step db) p spec], seq_step := seq_step db + 1\<rparr>"
  have "waits D ?db1" using Cons.prems by (auto simp: waits_def)
  then show ?case using Cons.IH [of ?db1 "p + 1"] by simp
qed simp

lemma supersede_waits: "supersede env olds n act db = Inr db' \<Longrightarrow> waits D db \<Longrightarrow> waits D db'"
proof (induction olds arbitrary: db)
  case (Cons old olds)
  let ?d1 = "upd_approvals (\<lambda>a. ap_id a = ap_id old) (\<lambda>a. a\<lparr>ap_superseded_by := Some n\<rparr>) db"
  from Cons.prems(1) obtain d where fin: "finalize env old AP_cancelled ''superseded'' act False ?d1 = Inr d"
      and rest: "supersede env olds n act d = Inr db'"
    by (auto simp: supersede_def res_bind_Inr_iff)
  have "waits D ?d1" using Cons.prems(2) by (simp add: waits_def)
  then show ?case using Cons.IH [OF rest] finalize_waits [OF fin] by simp
qed (simp add: supersede_def)

lemma insert_approval_waits: "waits D db \<Longrightarrow> waits D (insert_approval a db)"
  by (simp add: waits_def insert_approval_def)

lemma start_request_waits:
  assumes start: "start_request env a olds n act db = Inr db'" and w: "waits D db"
  shows "waits D db'"
proof -
  define f where "f = (\<lambda>db1. audit_history env a H_requested act None
             (audit_emit a EVENT_REQUESTED []
               (audit_record env a A_requested act None None None
                 [(''steps'', JInt (int n)),
                  (''template_id'', case ap_template_id a of None \<Rightarrow> JNull | Some i \<Rightarrow> JInt i)] db1)))"
  have core_f: "core (f d) = core d" for d by (simp add: f_def)
  from start obtain db1 ids db3 where sup: "supersede env olds (ap_id a) act db = Inr db1"
      and act: "activate_next_stage env a act (f db1) = Inr (ids, db3)"
      and "(if ap_status (cur db3 a) = AP_pending then enqueue_notification env (ap_id a) M_request ids False db3
        else Inr db3) = Inr db'"
    by (auto simp: start_request_def f_def Let_def res_bind_Inr_iff)
  then have core: "core db' = core db3" using core_enqueue(2) by (auto split: if_splits)
  obtain added where loop: "activate_loop env a act [] (f db1) = Inr (added, db3)" using act by (rule activate_next_stage_loop)
  show ?thesis
    using activate_loop_waits [OF loop] supersede_waits [OF sup w] waits_core [OF core_f] waits_core [OF core] by simp
qed

lemma request_waits: "request_approval env rq act db = Inr (r, db') \<Longrightarrow> waits D db \<Longrightarrow> waits D db'"
  by (erule request_approval_InrE) (erule start_request_waits, intro insert_steps_waits insert_approval_waits)

lemma auto_decision_waits: "record_auto_decision env rq status reason act db = Inr (r, db') \<Longrightarrow> waits D db \<Longrightarrow> waits D db'"
  by (erule record_auto_decision_InrE) (erule finalize_waits, erule supersede_waits, rule insert_approval_waits)

lemma cancel_waits: "cancel_approval env i act reason chk db = Inr (r, db') \<Longrightarrow> waits D db \<Longrightarrow> waits D db'"
  by (erule cancel_finalizes) (rule finalize_waits)

lemma redeem_waits:
  assumes red: "redeem_link env tok d comment db = Inr (r, db')" and db: "db_ok db" and w: "waits {} db"
  shows "waits {} db'"
  using red
proof (rule redeem_link_InrE)
  fix k target db1 act
  assume cons: "consume_link env (lt_token_id target) db = Inr db1"
    and dec: "decide env (tk_approval_id k) act d Ch_email comment (Some (lt_approver_id target))
      (Some (lt_token_id target)) db1 = Inr (r, db')"
  note C = consume_link_ok [OF cons db]
  have "waits {} db1" using w C(4,5) by (simp add: waits_def)
  then show ?thesis by (rule decide_waits [OF dec C(1)])
qed

lemma issue_link_waits: "issue_link env i tok db = Inr (t, db') \<Longrightarrow> waits D db \<Longrightarrow> waits D db'"
  by (erule issue_link_InrE) (simp add: waits_def)

end
