(* ===== verification/Approval_Sweep.thy ===== *)
theory Approval_Sweep
  imports Approval_Waits "HOL-Library.List_Lexorder" "HOL-Library.Char_ord"
begin

text \<open>
  \<open>approvals/sweep.py\<close>: the periodic tick. Deadlines (\<open>overdue\<close>, with escalation), reminders, approvers
  that can no longer vote (\<open>drop_invalid\<close>), requests whose ticket is gone, pauses of the timers and the
  purge of old links. Every item runs in its own transaction on the locked request (\<open>item\<close>); candidates are
  read before, so each operation checks the state again. \<open>now\<close> is the tick's moment, a whole second;
  pubsub and logging are left out.
\<close>

section \<open>Deadlines\<close>

text \<open>The dictionary \<open>rows\<close> of \<open>_escalate\<close>: the step's rows by principal, id and status of each.\<close>

definition escalation_rows :: "step_row \<Rightarrow> approver_row list \<Rightarrow> string \<Rightarrow> (int \<times> approver_status) option" where
  "escalation_rows s approvers =
     fold (\<lambda>r m. m(ar_principal r \<mapsto> (ar_id r, ar_status r))) (filter (\<lambda>r. ar_step_id r = st_id s) approvers) (\<lambda>_. None)"

definition make_decisive :: "int \<Rightarrow> approval_db \<Rightarrow> approval_db" where
  "make_decisive i = upd_approvers (\<lambda>r. ar_id r = i) (\<lambda>r. r\<lparr>ar_decisive := True\<rparr>)"

definition escalate_one ::
  "approval_env \<Rightarrow> approval \<Rightarrow> step_row \<Rightarrow> string set \<Rightarrow> instant \<Rightarrow> resolved_approver \<Rightarrow>
     (string \<Rightarrow> (int \<times> approver_status) option) \<times> int list \<times> approval_db \<Rightarrow>
     ((string \<Rightarrow> (int \<times> approver_status) option) \<times> int list \<times> approval_db) res" where
  "escalate_one env a s already now ra acc =
     (case acc of (rows, ids, db) \<Rightarrow>
        let key = principal_key (ra_principal ra) in
        if key \<in> already then Inr acc
        else (case rows key of
            None \<Rightarrow> res_bind (add_approver env a s actor_system now ra db) (\<lambda>(i, db1).
              Inr (rows(key \<mapsto> (i, AR_pending)), ids @ [i], make_decisive i db1))
          | Some (i, st) \<Rightarrow> if st \<noteq> AR_pending then Inr acc
              else Inr (rows, ids @ [i], make_decisive i db)))"

definition escalate ::
  "approval_env \<Rightarrow> approval \<Rightarrow> step_row \<Rightarrow> approver_row list \<Rightarrow> instant \<Rightarrow> approval_db \<Rightarrow>
     (int list \<times> approval_db) res" where
  "escalate env a s approvers now db =
     res_bind (resolve_step env db a (Some S_escalation) (sp_escalation (st_spec s))) (\<lambda>rn.
       let db1 = audit_unresolved env a s rn actor_system (audit_excluded env a s rn actor_system db)
       in res_bind (res_fold (escalate_one env a s (voters_in_step db1 (st_id s)) now) (rn_approvers rn)
            (escalation_rows s approvers, [], db1)) (\<lambda>(_, ids, db2). Inr (ids, db2)))"

datatype sweep_tag = T_overdue | T_escalated | T_timeout_decided

text \<open>The step is still to be reported: active, due, not reported before.\<close>

definition overdue_step :: "step_row \<Rightarrow> instant \<Rightarrow> bool" where
  "overdue_step s now \<longleftrightarrow> st_status s = ST_active \<and> st_overdue_at s = None \<and>
     (case st_due_at s of None \<Rightarrow> False | Some due \<Rightarrow> due \<le> now)"

definition report_overdue ::
  "approval_env \<Rightarrow> approval \<Rightarrow> step_row \<Rightarrow> int list \<Rightarrow> approval_db \<Rightarrow> (sweep_tag option \<times> approval_db) res" where
  "report_overdue env a s pending db =
     res_bind (enqueue_notification env (ap_id a) M_overdue pending (ap_requester a \<noteq> ''system'')
         (audit_record env a A_overdue actor_system (Some (st_id s)) None None
           [(''on_timeout'', JTimeout (sp_on_timeout (st_spec s))), (''pending'', JInt (int (length pending)))] db))
       (\<lambda>db'. Inr (Some T_overdue, db'))"

definition overdue ::
  "approval_env \<Rightarrow> int \<Rightarrow> instant \<Rightarrow> approval \<Rightarrow> approval_db \<Rightarrow> (sweep_tag option \<times> approval_db) res" where
  "overdue env step_id now a db =
     (case find (\<lambda>s. st_id s = step_id) (locked_steps db (ap_id a)) of
        None \<Rightarrow> Inr (None, db)
      | Some s \<Rightarrow>
         if \<not> overdue_step s now then Inr (None, db)
         else
         let approvers = locked_approvers_in db (ap_id a) [st_id s];
             pending = map ar_id (filter (\<lambda>r. ar_status r = AR_pending) approvers);
             db1 = upd_steps (\<lambda>x. st_id x = st_id s) (\<lambda>x. x\<lparr>st_overdue_at := Some now\<rparr>) db
         in (case sp_on_timeout (st_spec s) of
               OT_escalate \<Rightarrow> res_bind (escalate env a s approvers now db1) (\<lambda>(ids, db2).
                 if ids = [] then report_overdue env a s pending db2
                 else res_bind (enqueue_notification env (ap_id a) M_escalation ids False
                     (audit_emit a EVENT_ESCALATED [(''step_id'', JInt (st_id s))]
                       (audit_record env a A_escalated actor_system (Some (st_id s)) None None
                         [(''approvers'', JInt (int (length ids)))] db2))) (\<lambda>db3. Inr (Some T_escalated, db3)))
             | OT_notify \<Rightarrow> report_overdue env a s pending db1
             | ot \<Rightarrow>
                let outcome = (if ot = OT_reject then ST_rejected else ST_approved) in
                res_bind (close_step env a s outcome ''timeout'' actor_system now
                  (audit_record env a A_timeout_decided actor_system (Some (st_id s)) None None
                    [(''decision'', JStep outcome)] db1)) (\<lambda>db2. Inr (Some T_timeout_decided, db2))))"

section \<open>Reminders\<close>

definition remind ::
  "approval_env \<Rightarrow> int \<Rightarrow> instant \<Rightarrow> approval \<Rightarrow> approval_db \<Rightarrow> (nat option \<times> approval_db) res" where
  "remind env step_id now a db =
     (let interval = set_reminder_interval_hours (env_settings env) in
      if interval \<le> 0 then Inr (None, db)
      else (case find (\<lambda>s. st_id s = step_id) (locked_steps db (ap_id a)) of
          None \<Rightarrow> Inr (None, db)
        | Some s \<Rightarrow>
           if st_status s \<noteq> ST_active \<or> set_reminder_max (env_settings env) \<le> st_reminder_count s then Inr (None, db)
           else (case List.map_filter id [st_last_reminder_at s, st_activated_at s] of
               [] \<Rightarrow> Inr (None, db)
             | t # ts \<Rightarrow>
                if now < Max (set (t # ts)) + hours interval then Inr (None, db)
                else
                let pending = map ar_id (filter (\<lambda>r. ar_status r = AR_pending) (locked_approvers_in db (ap_id a) [st_id s])) in
                if pending = [] then Inr (None, db)
                else
                let db1 = upd_steps (\<lambda>x. st_id x = st_id s)
                      (\<lambda>x. x\<lparr>st_last_reminder_at := Some now, st_reminder_count := st_reminder_count x + 1\<rparr>) db;
                    db2 = audit_record env a A_reminded actor_system (Some (st_id s)) None None
                      [(''count'', JInt (st_reminder_count s + 1)), (''recipients'', JInt (int (length pending)))] db1
                in res_bind (enqueue_notification env (ap_id a) M_reminder pending False db2)
                     (\<lambda>db3. Inr (Some (length pending), db3)))))"

section \<open>Approvers that can no longer vote\<close>

datatype unfit_reason = U_invalid | U_outside_company

text \<open>One row of the scan: principal key, user id, customer login, ticket id; the last row of a key wins.\<close>

type_synonym scan_row = "string \<times> int option \<times> string option \<times> int"

definition row_unfit :: "znuny_db \<Rightarrow> customer_dict \<Rightarrow> (string \<times> int) set \<Rightarrow> scan_row \<Rightarrow> unfit_reason option" where
  "row_unfit z customers inside row =
     (case row of (_, uid, login, ticket) \<Rightarrow>
        if (case uid of None \<Rightarrow> False | Some u \<Rightarrow> agent_valid z u \<noteq> Some 1) then Some U_invalid
        else (case login of
            None \<Rightarrow> None
          | Some l \<Rightarrow>
             (case map_of customers (lower l) of
                None \<Rightarrow> Some U_invalid
              | Some (_, valid, _) \<Rightarrow>
                 if valid \<noteq> 1 then Some U_invalid
                 else if (l, ticket) \<notin> inside then Some U_outside_company else None)))"

definition unfit :: "znuny_db \<Rightarrow> scan_row list \<Rightarrow> string \<times> int \<Rightarrow> unfit_reason option" where
  "unfit z rows =
     (let pairs = List.map_filter (\<lambda>(_, _, login, ticket). map_option (\<lambda>l. (l, ticket)) login) rows;
          customers = (if pairs = [] then [] else customer_rows z (map fst pairs));
          inside = customers_in_ticket_company z pairs
      in fold (\<lambda>row m. case row_unfit z customers inside row of
             None \<Rightarrow> m | Some why \<Rightarrow> m((fst row, snd (snd (snd row))) \<mapsto> why)) rows (\<lambda>_. None))"

definition scan_row_of :: "approver_row \<Rightarrow> scan_row" where
  "scan_row_of r = (ar_principal r, ar_user_id r, ar_customer_login r, ar_ticket_id r)"

definition unfit_status :: "unfit_reason \<Rightarrow> approver_status" where
  "unfit_status why = (case why of U_invalid \<Rightarrow> AR_removed | U_outside_company \<Rightarrow> AR_not_needed)"

definition unfit_text :: "unfit_reason \<Rightarrow> string" where
  "unfit_text why = (case why of U_invalid \<Rightarrow> ''invalid'' | U_outside_company \<Rightarrow> ''outside_company'')"

text \<open>The pending approvers of active steps with what is wrong with them.\<close>

definition dropped_rows :: "approval_db \<Rightarrow> approval \<Rightarrow> (approver_row \<times> unfit_reason) list" where
  "dropped_rows db a =
     (let active = st_id ` set (filter (\<lambda>s. st_status s = ST_active) (locked_steps db (ap_id a)));
          candidates = filter (\<lambda>r. ar_status r = AR_pending \<and> ar_step_id r \<in> active) (locked_approvers db (ap_id a));
          bad = unfit (db_znuny db) (map scan_row_of candidates)
      in List.map_filter (\<lambda>r. map_option (\<lambda>why. (r, why)) (bad (ar_principal r, ar_ticket_id r))) candidates)"

definition drop_rows ::
  "approval_env \<Rightarrow> approval \<Rightarrow> (approver_row \<times> unfit_reason) list \<Rightarrow> approval_db \<Rightarrow> approval_db" where
  "drop_rows env a dropped db =
     fold (\<lambda>(r, why). audit_record env a A_approver_removed actor_system (Some (ar_step_id r)) (Some (ar_id r)) None
         [(''reason'', JStr (unfit_text why))]) dropped
       (snd (revoke_links env (map (ar_id \<circ> fst) dropped) None
         (fold (\<lambda>(r, why). upd_approvers (\<lambda>x. ar_id x = ar_id r) (\<lambda>x. x\<lparr>ar_status := unfit_status why\<rparr>)) dropped db)))"

definition drop_invalid ::
  "approval_env \<Rightarrow> instant \<Rightarrow> approval \<Rightarrow> approval_db \<Rightarrow> (nat option \<times> approval_db) res" where
  "drop_invalid env now a db =
     (let dropped = dropped_rows db a in
      if dropped = [] then Inr (None, db)
      else
      let touched = ar_step_id ` fst ` set dropped;
          steps = filter (\<lambda>s. st_status s = ST_active \<and> st_id s \<in> touched) (locked_steps db (ap_id a))
      in res_bind (reevaluate_steps env a steps actor_system now (drop_rows env a dropped db))
           (\<lambda>db'. Inr (Some (length dropped), db')))"

section \<open>Candidate selection\<close>

definition SWEEP_BATCH :: nat where "SWEEP_BATCH = 200"
definition SWEEP_CHUNK :: nat where "SWEEP_CHUNK = 500"
definition MAX_PAGES :: nat where "MAX_PAGES = 5"
definition SCAN_ROWS :: nat where "SCAN_ROWS = 2000"
definition SCAN_PAGES :: nat where "SCAN_PAGES = 5"

text \<open>The join with the request: it exists and its subject type is not standing still.\<close>

definition not_frozen :: "approval_db \<Rightarrow> string set \<Rightarrow> int \<Rightarrow> bool" where
  "not_frozen db frozen i =
     (case get_approval db i of None \<Rightarrow> False | Some a \<Rightarrow> ap_subject_type a \<notin> frozen)"

definition overdue_candidates :: "approval_db \<Rightarrow> instant \<Rightarrow> string set \<Rightarrow> int \<Rightarrow> (int \<times> int) list" where
  "overdue_candidates db now frozen after =
     map (\<lambda>s. (st_id s, st_approval_id s)) (take SWEEP_BATCH (sort_key st_id (filter (\<lambda>s.
       not_frozen db frozen (st_approval_id s) \<and> after < st_id s \<and> overdue_step s now) (db_steps db))))"

definition reminder_candidates ::
  "approval_settings \<Rightarrow> approval_db \<Rightarrow> instant \<Rightarrow> string set \<Rightarrow> int \<Rightarrow> (int \<times> int) list" where
  "reminder_candidates cfg db now frozen after =
     (if set_reminder_interval_hours cfg \<le> 0 \<or> set_reminder_max cfg \<le> 0 then []
      else
      let cutoff = now - hours (set_reminder_interval_hours cfg) in
      map (\<lambda>s. (st_id s, st_approval_id s)) (take SWEEP_BATCH (sort_key st_id (filter (\<lambda>s.
        not_frozen db frozen (st_approval_id s) \<and> after < st_id s \<and> st_status s = ST_active \<and>
        st_reminder_count s < set_reminder_max cfg \<and>
        (case st_activated_at s of None \<Rightarrow> False | Some t \<Rightarrow> t \<le> cutoff \<and>
           (case st_last_reminder_at s of None \<Rightarrow> t | Some l \<Rightarrow> l) \<le> cutoff)) (db_steps db)))))"

text \<open>
  The scan of the pending approvers, a page of rows at a time: the rows of the last request of a full page
  may go on, so the scan continues with it.
\<close>

definition scan_page :: "approval_db \<Rightarrow> string set \<Rightarrow> int \<Rightarrow> approver_row list" where
  "scan_page db frozen cursor =
     take SCAN_ROWS (sort_key ar_approval_id (filter (\<lambda>r. not_frozen db frozen (ar_approval_id r) \<and>
       ar_status r = AR_pending \<and> cursor < ar_approval_id r) (db_approvers db)))"

definition unfit_requests :: "znuny_db \<Rightarrow> approver_row list \<Rightarrow> int list" where
  "unfit_requests z rows =
     (let bad = unfit z (map scan_row_of rows)
      in map ar_approval_id (filter (\<lambda>r. bad (ar_principal r, ar_ticket_id r) \<noteq> None) rows))"

fun scan_invalid :: "nat \<Rightarrow> approval_db \<Rightarrow> string set \<Rightarrow> int set \<Rightarrow> int \<Rightarrow> int set \<times> int \<times> bool" where
  "scan_invalid 0 db frozen found cursor = (found, cursor, False)"
| "scan_invalid (Suc n) db frozen found cursor =
     (let rows = scan_page db frozen cursor; full = (length rows = SCAN_ROWS) in
      if rows = [] then (found, cursor, \<not> full)
      else
      let last = ar_approval_id (last rows);
          cut = filter (\<lambda>r. ar_approval_id r < last) rows;
          (rows', cursor') = (if full \<and> cut \<noteq> [] then (cut, last - 1) else (rows, last));
          found' = found \<union> set (unfit_requests (db_znuny db) rows')
      in if \<not> full \<or> SWEEP_BATCH \<le> card found' then (found', cursor', \<not> full)
         else scan_invalid n db frozen found' cursor')"

definition invalid_candidates :: "approval_db \<Rightarrow> string set \<Rightarrow> int \<Rightarrow> int list \<times> int \<times> bool" where
  "invalid_candidates db frozen after =
     (case scan_invalid SCAN_PAGES db frozen {} after of (found, cursor, exhausted) \<Rightarrow>
        let ordered = sorted_list_of_set found in
        if SWEEP_BATCH < length ordered
        then (take SWEEP_BATCH ordered, ordered ! (SWEEP_BATCH - 1), False)
        else (ordered, cursor, exhausted))"

text \<open>Pending requests whose ticket row is gone: the loop reads a chunk of requests per pass.\<close>

definition orphan_page :: "approval_db \<Rightarrow> string set \<Rightarrow> int \<Rightarrow> approval list" where
  "orphan_page db frozen after =
     take SWEEP_CHUNK (sort_key ap_id (filter (\<lambda>a. ap_subject_type a \<notin> frozen \<and> ap_status a = AP_pending \<and>
       after < ap_id a) (db_approvals db)))"

lemma orphan_page_progress:
  assumes "orphan_page db frozen after \<noteq> []"
  shows "length (filter (\<lambda>a. ap_id (last (orphan_page db frozen after)) < ap_id a) (db_approvals db)) <
    length (filter (\<lambda>a. after < ap_id a) (db_approvals db))"
proof -
  have "last (orphan_page db frozen after) \<in> set (orphan_page db frozen after)" using assms by (rule last_in_set)
  then have l: "last (orphan_page db frozen after) \<in> set (db_approvals db)" "after < ap_id (last (orphan_page db frozen after))"
    unfolding orphan_page_def by (auto dest!: in_set_takeD)
  have sub: "filter (\<lambda>a. ap_id (last (orphan_page db frozen after)) < ap_id a) (filter (\<lambda>a. after < ap_id a) (db_approvals db)) =
      filter (\<lambda>a. ap_id (last (orphan_page db frozen after)) < ap_id a) (db_approvals db)"
    using l(2) by (auto intro: filter_cong)
  show ?thesis
    unfolding sub [symmetric] by (rule length_filter_less [of "last (orphan_page db frozen after)"]) (use l in auto)
qed

function orphan_loop :: "approval_db \<Rightarrow> string set \<Rightarrow> int list \<Rightarrow> int \<Rightarrow> int list" where
  "orphan_loop db frozen found after =
     (if SWEEP_BATCH \<le> length found then found
      else
      let rows = orphan_page db frozen after in
      if rows = [] then found
      else orphan_loop db frozen
        (found @ map ap_id (filter (\<lambda>a. \<not> ticket_exists db (ap_ticket_id a)) rows)) (ap_id (last rows)))"
  by pat_completeness auto
termination
  by (relation "measure (\<lambda>(db, frozen, found, after). length (filter (\<lambda>a. after < ap_id a) (db_approvals db)))")
     (use orphan_page_progress in auto)

declare orphan_loop.simps [simp del]

definition orphan_candidates :: "approval_db \<Rightarrow> string set \<Rightarrow> int \<Rightarrow> (int \<times> int) list" where
  "orphan_candidates db frozen after = map (\<lambda>i. (i, i)) (take SWEEP_BATCH (orphan_loop db frozen [] after))"

section \<open>Pauses\<close>

text \<open>The request of a row is pending and of the subject type.\<close>

definition pending_of_type :: "approval_db \<Rightarrow> string \<Rightarrow> int \<Rightarrow> bool" where
  "pending_of_type db subject i =
     (case get_approval db i of None \<Rightarrow> False | Some a \<Rightarrow> ap_subject_type a = subject \<and> ap_status a = AP_pending)"

definition paused_step :: "approval_db \<Rightarrow> string \<Rightarrow> instant \<Rightarrow> step_row \<Rightarrow> bool" where
  "paused_step db subject seen s \<longleftrightarrow> pending_of_type db subject (st_approval_id s) \<and> st_status s = ST_active \<and>
     (case st_activated_at s of None \<Rightarrow> False | Some t \<Rightarrow> t \<le> seen)"

definition shifted_step :: "int \<Rightarrow> step_row \<Rightarrow> step_row" where
  "shifted_step d s =
     s\<lparr>st_last_reminder_at := map_option (\<lambda>t. t + d) (case st_last_reminder_at s of None \<Rightarrow> st_activated_at s | Some t \<Rightarrow> Some t),
       st_due_at := (if st_overdue_at s = None then map_option (\<lambda>t. t + d) (st_due_at s) else st_due_at s)\<rparr>"

definition shift_timers :: "string \<Rightarrow> instant \<Rightarrow> instant \<Rightarrow> int \<Rightarrow> approval_db \<Rightarrow> approval_db" where
  "shift_timers subject since seen d db =
     upd_tokens (\<lambda>k. pending_of_type db subject (tk_approval_id k) \<and> live k \<and> since < tk_expires_at k \<and> tk_created_at k \<le> seen)
       (\<lambda>k. k\<lparr>tk_expires_at := tk_expires_at k + d\<rparr>)
       (upd_steps (paused_step db subject seen) (shifted_step d) db)"

text \<open>The stored state of a subject type: the last running tick, or the pause that is under way.\<close>

datatype timer_entry = Tick instant | Pause instant instant

type_synonym timers = "string \<Rightarrow> timer_entry option"

definition pause_since :: "timer_entry option \<Rightarrow> instant \<Rightarrow> instant" where
  "pause_since e stamp = (case e of None \<Rightarrow> stamp | Some (Tick t) \<Rightarrow> t | Some (Pause since _) \<Rightarrow> since)"

definition subject_keys :: "string list \<Rightarrow> approval_db \<Rightarrow> string list" where
  "subject_keys registered db =
     sort (remdups (registered @ map ap_subject_type (filter (\<lambda>a. ap_status a = AP_pending) (db_approvals db))))"

definition timer_step ::
  "instant \<Rightarrow> (string \<Rightarrow> bool) \<Rightarrow> timers \<Rightarrow> string \<Rightarrow> timers \<times> approval_db \<Rightarrow> timers \<times> approval_db" where
  "timer_step moment paused state key acc =
     (case acc of (next, db) \<Rightarrow>
        if paused key then (next(key \<mapsto> Pause (pause_since (state key) moment) moment), db)
        else (next(key \<mapsto> Tick moment),
          case state key of
            Some (Pause since seen) \<Rightarrow>
              if since < moment then shift_timers key since seen (moment - since) db else db
          | _ \<Rightarrow> db))"

definition run_timers ::
  "approval_env \<Rightarrow> string list \<Rightarrow> instant \<Rightarrow> timers \<Rightarrow> approval_db \<Rightarrow> string set \<times> timers \<times> approval_db" where
  "run_timers env registered moment state db =
     (let frozen = frozen_subject_types env db registered;
          paused = (\<lambda>k. \<not> set_enabled (env_settings env) \<or> k \<in> frozen);
          keys = subject_keys registered db;
          (next, db') = fold (timer_step moment paused state) keys (\<lambda>_. None, db)
      in (set (filter paused keys), next, db'))"

section \<open>The tick\<close>

text \<open>One item: the locked request, pending, handled in a transaction of its own or not at all.\<close>

definition item :: "int \<Rightarrow> (approval \<Rightarrow> approval_db \<Rightarrow> ('t option \<times> approval_db) res) \<Rightarrow> approval_db \<Rightarrow> 't option \<times> approval_db" where
  "item i work db =
     (case lock_approval db i of
        Inl _ \<Rightarrow> (None, db)
      | Inr a \<Rightarrow>
         if ap_status a \<noteq> AP_pending then (None, db)
         else (case work a db of
             Inr (Some t, db') \<Rightarrow> (Some t, db')
           | _ \<Rightarrow> (None, db)))"

text \<open>The pages of a phase; each is fetched when the one before was handled.\<close>

fun pages ::
  "nat \<Rightarrow> (int \<Rightarrow> approval_db \<Rightarrow> (int \<times> int) list) \<Rightarrow> (int \<times> int \<Rightarrow> 'c \<times> approval_db \<Rightarrow> 'c \<times> approval_db) \<Rightarrow>
     int \<Rightarrow> 'c \<times> approval_db \<Rightarrow> 'c \<times> approval_db" where
  "pages 0 fetch handle after acc = acc"
| "pages (Suc n) fetch handle after acc =
     (let page = fetch after (snd acc); acc' = fold handle page acc in
      if length page < SWEEP_BATCH then acc' else pages n fetch handle (fst (last page)) acc')"

record sweep_counts =
  n_overdue :: nat
  n_escalated :: nat
  n_timeout_decided :: nat
  n_reminded :: nat
  n_removed :: nat
  n_cancelled :: nat
  n_links_purged :: int
  n_paused :: nat

definition no_counts :: sweep_counts where
  "no_counts = \<lparr>n_overdue = 0, n_escalated = 0, n_timeout_decided = 0, n_reminded = 0, n_removed = 0,
     n_cancelled = 0, n_links_purged = 0, n_paused = 0\<rparr>"

definition count_tag :: "sweep_tag option \<Rightarrow> sweep_counts \<Rightarrow> sweep_counts" where
  "count_tag t c = (case t of None \<Rightarrow> c
     | Some T_overdue \<Rightarrow> c\<lparr>n_overdue := n_overdue c + 1\<rparr>
     | Some T_escalated \<Rightarrow> c\<lparr>n_escalated := n_escalated c + 1\<rparr>
     | Some T_timeout_decided \<Rightarrow> c\<lparr>n_timeout_decided := n_timeout_decided c + 1\<rparr>)"

definition cancel_item :: "approval_env \<Rightarrow> int \<times> int \<Rightarrow> sweep_counts \<times> approval_db \<Rightarrow> sweep_counts \<times> approval_db" where
  "cancel_item env key acc =
     (case item (snd key) (\<lambda>a db. res_bind (cancel_approval env (ap_id a) actor_system ''ticket_deleted'' False db)
          (\<lambda>(_, db'). Inr (Some True, db'))) (snd acc) of
        (done, db') \<Rightarrow> (if done \<noteq> None then (fst acc)\<lparr>n_cancelled := n_cancelled (fst acc) + 1\<rparr> else fst acc, db'))"

definition overdue_item ::
  "approval_env \<Rightarrow> instant \<Rightarrow> int \<times> int \<Rightarrow> sweep_counts \<times> approval_db \<Rightarrow> sweep_counts \<times> approval_db" where
  "overdue_item env now key acc =
     (case item (snd key) (overdue env (fst key) now) (snd acc) of (t, db') \<Rightarrow> (count_tag t (fst acc), db'))"

definition remind_item ::
  "approval_env \<Rightarrow> instant \<Rightarrow> int \<times> int \<Rightarrow> sweep_counts \<times> approval_db \<Rightarrow> sweep_counts \<times> approval_db" where
  "remind_item env now key acc =
     (case item (snd key) (remind env (fst key) now) (snd acc) of
        (sent, db') \<Rightarrow> (case sent of
           Some n \<Rightarrow> if n \<noteq> 0 then (fst acc)\<lparr>n_reminded := n_reminded (fst acc) + 1\<rparr> else fst acc
         | None \<Rightarrow> fst acc, db'))"

definition drop_item ::
  "approval_env \<Rightarrow> instant \<Rightarrow> int \<Rightarrow> sweep_counts \<times> approval_db \<Rightarrow> sweep_counts \<times> approval_db" where
  "drop_item env now i acc =
     (case item i (drop_invalid env now) (snd acc) of
        (removed, db') \<Rightarrow> ((fst acc)\<lparr>n_removed := n_removed (fst acc) + (case removed of None \<Rightarrow> 0 | Some n \<Rightarrow> n)\<rparr>, db'))"

text \<open>The invalid-approver phase: from the stored cursor, back to the start once the table ended.\<close>

fun drop_pages ::
  "nat \<Rightarrow> approval_env \<Rightarrow> instant \<Rightarrow> string set \<Rightarrow> int \<Rightarrow> sweep_counts \<times> approval_db \<Rightarrow>
     int \<times> sweep_counts \<times> approval_db" where
  "drop_pages 0 env now frozen cursor acc = (cursor, acc)"
| "drop_pages (Suc n) env now frozen cursor acc =
     (case invalid_candidates (snd acc) frozen cursor of (ids, cursor', finished) \<Rightarrow>
        let acc' = fold (drop_item env now) ids acc in
        if finished then (0, acc') else drop_pages n env now frozen cursor' acc')"

definition LINK_RETENTION :: int where "LINK_RETENTION = hours (30 * 24)"

definition purge_old_links :: "instant \<Rightarrow> sweep_counts \<times> approval_db \<Rightarrow> sweep_counts \<times> approval_db" where
  "purge_old_links moment acc =
     (case purge_links (moment - LINK_RETENTION) (db_tokens (snd acc)) of
        (n, toks) \<Rightarrow> ((fst acc)\<lparr>n_links_purged := n\<rparr>, (snd acc)\<lparr>db_tokens := toks\<rparr>))"

text \<open>What the tick keeps between runs: the timers' state and the cursor of the scan.\<close>

record sweep_state =
  sw_timers :: timers
  sw_cursor :: int

definition run_sweep ::
  "approval_env \<Rightarrow> string list \<Rightarrow> sweep_state \<Rightarrow> approval_db \<Rightarrow> sweep_counts \<times> sweep_state \<times> approval_db" where
  "run_sweep env registered state db =
     (let moment = trunc_sec (env_now env);
          (frozen, timers, db1) = run_timers env registered moment (sw_timers state) db
      in if \<not> set_enabled (env_settings env)
         then (case purge_old_links moment (no_counts, db1) of (c, db2) \<Rightarrow> (c\<lparr>n_paused := 1\<rparr>, state\<lparr>sw_timers := timers\<rparr>, db2))
         else
         let acc1 = pages MAX_PAGES (\<lambda>after db. orphan_candidates db frozen after) (cancel_item env) 0 (no_counts, db1);
             acc2 = pages MAX_PAGES (\<lambda>after db. overdue_candidates db moment frozen after) (overdue_item env moment) 0 acc1;
             acc3 = pages MAX_PAGES (\<lambda>after db. reminder_candidates (env_settings env) db moment frozen after)
               (remind_item env moment) 0 acc2;
             (cursor, acc4) = drop_pages MAX_PAGES env moment frozen (sw_cursor state) acc3
         in (case purge_old_links moment acc4 of (c, db5) \<Rightarrow> (c, \<lparr>sw_timers = timers, sw_cursor = cursor\<rparr>, db5)))"

end
