(* ===== verification/Approval_Sweep_Correct.thy ===== *)
theory Approval_Sweep_Correct
  imports Approval_Sweep
begin

text \<open>
  The sweeper keeps the invariant: an overdue step, a reminder, dropped approvers, shifted timers and the
  purge each turn a database that is \<open>db_ok\<close> and waits for somebody into one that is and does, and only
  move it forward.
\<close>

section \<open>Moving one request forward\<close>

definition moves :: "int \<Rightarrow> approval_db \<Rightarrow> approval_db \<Rightarrow> bool" where
  "moves i db db' \<longleftrightarrow> (db_ok db \<longrightarrow>
     db_ok db' \<and> others_same i db db' \<and> later db db' \<and> (waits {} db \<longrightarrow> waits {} db'))"

lemma moves_refl [simp]: "moves i db db"
  by (simp add: moves_def)

lemma moves_trans: "moves i db db1 \<Longrightarrow> moves i db1 db2 \<Longrightarrow> moves i db db2"
  unfolding moves_def using others_same_trans later_trans by blast

lemma moves_core: "core db1' = core db1 \<Longrightarrow> core db2' = core db2 \<Longrightarrow> moves i db1' db2' = moves i db1 db2"
  by (simp add: moves_def db_ok_cong [of db1' db1] db_ok_cong [of db2' db2] others_same_core [of db1' db1 db2' db2]
      later_core [of db1' db1 db2' db2] waits_core [of db1' db1] waits_core [of db2' db2])

lemma movesI:
  assumes "db_ok db \<Longrightarrow> db_ok db'" "db_ok db \<Longrightarrow> others_same i db db'" "db_ok db \<Longrightarrow> later db db'"
    and "db_ok db \<Longrightarrow> waits {} db \<Longrightarrow> waits {} db'"
  shows "moves i db db'"
  using assms by (simp add: moves_def)

section \<open>Writing columns of active steps\<close>

text \<open>A write to active steps that leaves the columns the invariant is about.\<close>

definition keeps_flow :: "(step_row \<Rightarrow> step_row) \<Rightarrow> bool" where
  "keeps_flow f \<longleftrightarrow> (\<forall>s. st_id (f s) = st_id s \<and> st_approval_id (f s) = st_approval_id s \<and>
     st_status (f s) = st_status s \<and> st_stage (f s) = st_stage s)"

lemma steps_of_keeps_flow:
  assumes f: "keeps_flow f" and s: "s \<in> steps_of (upd_steps p f db) i"
  obtains t where "t \<in> steps_of db i" "st_status s = st_status t" "st_stage s = st_stage t" "st_id s = st_id t"
  using s f by (auto simp: steps_of_def keeps_flow_def elim!: upd_whereE)

lemma keeps_flow_kept:
  assumes f: "keeps_flow f" and t: "t \<in> steps_of db i"
  obtains s where "s \<in> steps_of (upd_steps p f db) i" "st_status s = st_status t" "st_stage s = st_stage t"
proof (cases "p t")
  case True
  then show ?thesis using that [of "f t"] t f upd_where_hit [of t "db_steps db" p f] by (auto simp: steps_of_def keeps_flow_def)
next
  case False
  then show ?thesis using that [of t] t upd_where_kept [of t "db_steps db" p f] by (auto simp: steps_of_def)
qed

lemma keeps_flow_rest:
  assumes f: "keeps_flow f" and rest: "rest_ok db a"
  shows "rest_ok (upd_steps p f db) a"
proof (cases "ap_status a = AP_pending")
  case True
  then have stages: "stages_ok db a" and active: "\<exists>s \<in> steps_of db (ap_id a). st_status s = ST_active"
      and rejected: "\<forall>s \<in> steps_of db (ap_id a). st_status s \<noteq> ST_rejected"
    using rest by (simp_all add: rest_ok_def)
  let ?db = "upd_steps p f db"
  have "stages_ok ?db a"
    unfolding stages_ok_def
  proof (intro conjI ballI)
    show "steps_of ?db (ap_id a) \<noteq> {}" using active by (auto elim: keeps_flow_kept [OF f, of _ db _ p])
    fix s assume s: "s \<in> steps_of ?db (ap_id a)"
    then obtain t where t: "t \<in> steps_of db (ap_id a)" "st_status s = st_status t" "st_stage s = st_stage t"
      by (rule steps_of_keeps_flow [OF f])
    show "st_status s \<noteq> ST_cancelled" "st_status s = ST_active \<longrightarrow> ap_current_stage a = Some (st_stage s)"
      using stages t by (simp_all add: stages_ok_def)
    show "st_status s = ST_waiting \<longrightarrow> (\<forall>s' \<in> steps_of ?db (ap_id a). st_status s' \<noteq> ST_waiting \<longrightarrow> st_stage s' < st_stage s)"
    proof (intro impI ballI)
      fix s' assume w: "st_status s = ST_waiting" and s': "s' \<in> steps_of ?db (ap_id a)" "st_status s' \<noteq> ST_waiting"
      from s'(1) obtain t' where "t' \<in> steps_of db (ap_id a)" "st_status s' = st_status t'" "st_stage s' = st_stage t'"
        by (rule steps_of_keeps_flow [OF f])
      then show "st_stage s' < st_stage s" using stages t w s'(2) by (simp add: stages_ok_def)
    qed
  qed
  moreover have "\<exists>s \<in> steps_of ?db (ap_id a). st_status s = ST_active"
    using active by (metis keeps_flow_kept [OF f])
  moreover have "\<forall>s \<in> steps_of ?db (ap_id a). st_status s \<noteq> ST_rejected"
    using rejected by (metis steps_of_keeps_flow [OF f])
  ultimately show ?thesis by (simp add: rest_ok_def)
qed (simp add: rest_ok_def)

lemma keeps_flow_steps:
  assumes f: "keeps_flow f" and p: "\<And>s. s \<in> set (db_steps db) \<Longrightarrow> p s \<Longrightarrow> st_status s = ST_active" and db: "db_ok db"
  shows "db_ok (upd_steps p f db)" "later db (upd_steps p f db)" "waits D db \<Longrightarrow> waits D (upd_steps p f db)"
proof -
  have "core_ok (upd_steps p f db)"
    using db f by (intro steps_upd_ok) (auto simp: db_ok_def keeps_flow_def is_open_def)
  then show "db_ok (upd_steps p f db)" using db keeps_flow_rest [OF f] by (simp add: db_ok_def)
  show "later db (upd_steps p f db)" using p by (intro upd_steps_later) (simp add: is_open_def)
  show "waits D db \<Longrightarrow> waits D (upd_steps p f db)"
    using f by (fastforce simp: waits_def keeps_flow_def elim!: upd_whereE)
qed

lemma keeps_flow_moves:
  assumes "keeps_flow f" "s \<in> set (db_steps db)" "st_approval_id s = i" "st_status s = ST_active"
  shows "moves i db (upd_steps (\<lambda>x. st_id x = st_id s) f db)"
proof (rule movesI)
  assume db: "db_ok db"
  have ok: "core_ok db" using db by (simp add: db_ok_def)
  have p: "st_status x = ST_active" if "x \<in> set (db_steps db)" "st_id x = st_id s" for x
    using step_id_approval [OF ok assms(2) that] assms(4) by simp
  show "db_ok (upd_steps (\<lambda>x. st_id x = st_id s) f db)" by (rule keeps_flow_steps(1) [OF assms(1) _ db]) (rule p)
  show "later db (upd_steps (\<lambda>x. st_id x = st_id s) f db)" by (rule keeps_flow_steps(2) [OF assms(1) _ db]) (rule p)
  show "waits {} (upd_steps (\<lambda>x. st_id x = st_id s) f db)" if w: "waits {} db"
    by (rule keeps_flow_steps(3) [OF assms(1) _ db w]) (rule p)
  show "others_same i db (upd_steps (\<lambda>x. st_id x = st_id s) f db)"
    using assms(1) by (intro step_upd_others [OF ok assms(2,3)]) (simp add: keeps_flow_def)
qed

section \<open>Writing one approver row\<close>

lemma make_decisive_kept:
  assumes "r \<in> set (db_approvers db)"
  obtains x where "x \<in> set (db_approvers (make_decisive j db))" "ar_id x = ar_id r" "ar_approval_id x = ar_approval_id r"
    "ar_step_id x = ar_step_id r" "ar_status x = ar_status r"
proof (cases "ar_id r = j")
  case True
  show ?thesis
  proof (rule that)
    show "r\<lparr>ar_decisive := True\<rparr> \<in> set (db_approvers (make_decisive j db))"
      using upd_where_hit [OF assms, of "\<lambda>x. ar_id x = j" "\<lambda>x. x\<lparr>ar_decisive := True\<rparr>"] True by (simp add: make_decisive_def)
  qed simp_all
next
  case False
  show ?thesis
  proof (rule that)
    show "r \<in> set (db_approvers (make_decisive j db))"
      using upd_where_kept [OF assms, of "\<lambda>x. ar_id x = j"] False by (simp add: make_decisive_def)
  qed simp_all
qed

lemma make_decisive_moves:
  assumes r: "r \<in> set (db_approvers db)" "ar_id r = j" "ar_approval_id r = i" "ar_status r = AR_pending"
  shows "moves i db (make_decisive j db)"
proof (rule movesI)
  assume db: "db_ok db"
  have ok: "core_ok db" using db by (simp add: db_ok_def)
  have same: "x = r" if "x \<in> set (db_approvers db)" "ar_id x = j" for x
    using approvers.same_key_same_row [OF core_ok_distinct(3) [OF ok] that(1) r(1)] that(2) r(2) by simp
  have "core_ok (make_decisive j db)" unfolding make_decisive_def by (rule approvers_upd_ok [OF ok]) simp_all
  then show "db_ok (make_decisive j db)" by (rule db_ok_same_steps [OF db]) (simp_all add: make_decisive_def)
  show "others_same i db (make_decisive j db)"
    using same r(3) filter_upd_where_members [of "db_approvers db" "\<lambda>x. ar_id x = j" "\<lambda>x. ar_approval_id x \<noteq> i"
        "\<lambda>x. x\<lparr>ar_decisive := True\<rparr>"]
    by (auto simp: others_same_def make_decisive_def)
  show "later db (make_decisive j db)"
    unfolding make_decisive_def using same r(4) by (intro upd_approvers_later) auto
  show "waits {} (make_decisive j db)" if w: "waits {} db"
  proof (rule waits_frame [OF w], intro disjI1 conjI ballI impI)
    fix s x assume "s \<in> set (db_steps (make_decisive j db))" "x \<in> set (db_approvers db)" "ar_step_id x = st_id s" "ar_status x = AR_pending"
    then show "\<exists>r' \<in> set (db_approvers (make_decisive j db)). ar_step_id r' = st_id s \<and> ar_status r' = AR_pending"
      by (metis make_decisive_kept)
  qed (simp_all add: make_decisive_def)
qed

lemma add_approver_moves:
  assumes add: "add_approver env a s act now ra db = Inr (j, db')"
    and s: "s' \<in> set (db_steps db)" "st_id s' = st_id s" "st_approval_id s' = ap_id a" "st_status s' = ST_active"
  shows "moves (ap_id a) db db'"
proof (rule movesI)
  assume db: "db_ok db"
  note A = add_approver_db_ok [OF db add s]
  show "db_ok db'" "others_same (ap_id a) db db'" using A by blast+
  show "later db db'" by (rule add_approver_later [OF add])
  have "db_steps db' = db_steps db" "set (db_approvers db) \<subseteq> set (db_approvers db')" using A by blast+
  then show "waits {} db \<Longrightarrow> waits {} db'" unfolding waits_def by (metis subsetD)
qed

section \<open>Escalation\<close>

lemma escalation_rows_Some:
  assumes "escalation_rows s approvers key = Some (i, st)"
  shows "\<exists>r \<in> set approvers. ar_principal r = key \<and> ar_id r = i \<and> ar_status r = st \<and> ar_step_id r = st_id s"
proof -
  have "fold (\<lambda>r m. m(ar_principal r \<mapsto> (ar_id r, ar_status r))) rs m key = Some (i, st) \<Longrightarrow>
      m key = Some (i, st) \<or> (\<exists>r \<in> set rs. ar_principal r = key \<and> ar_id r = i \<and> ar_status r = st)"
    for rs :: "approver_row list" and m
    by (induction rs arbitrary: m) (fastforce split: if_splits)+
  from this [OF assms [unfolded escalation_rows_def]] show ?thesis by auto
qed

definition escalation_inv ::
  "approval \<Rightarrow> approval_db \<Rightarrow> (string \<Rightarrow> (int \<times> approver_status) option) \<times> int list \<times> approval_db \<Rightarrow> bool" where
  "escalation_inv a db acc \<longleftrightarrow> (case acc of (rows, ids, d) \<Rightarrow>
     moves (ap_id a) db d \<and> db_steps d = db_steps db \<and>
     (\<forall>key i. rows key = Some (i, AR_pending) \<longrightarrow>
        (\<exists>r \<in> set (db_approvers d). ar_id r = i \<and> ar_approval_id r = ap_id a \<and> ar_status r = AR_pending)))"

lemma make_decisive_row:
  assumes "\<exists>r \<in> set (db_approvers d). ar_id r = i \<and> ar_approval_id r = k \<and> ar_status r = AR_pending"
  shows "\<exists>r \<in> set (db_approvers (make_decisive j d)). ar_id r = i \<and> ar_approval_id r = k \<and> ar_status r = AR_pending"
  using assms by (metis make_decisive_kept)

lemma escalate_one_inv:
  assumes inv: "escalation_inv a db acc" and step: "escalate_one env a s already now ra acc = Inr acc'"
    and s: "s' \<in> set (db_steps db)" "st_id s' = st_id s" "st_approval_id s' = ap_id a" "st_status s' = ST_active"
  shows "escalation_inv a db acc'"
proof -
  obtain rows ids d where acc: "acc = (rows, ids, d)" by (cases acc)
  have d: "moves (ap_id a) db d" "db_steps d = db_steps db"
      and rows: "\<And>key i. rows key = Some (i, AR_pending) \<Longrightarrow>
        \<exists>r \<in> set (db_approvers d). ar_id r = i \<and> ar_approval_id r = ap_id a \<and> ar_status r = AR_pending"
    using inv unfolding acc escalation_inv_def by auto
  let ?key = "principal_key (ra_principal ra)"
  from step acc consider (same) "acc' = acc"
    | (new) i d1 where "add_approver env a s actor_system now ra d = Inr (i, d1)"
        "acc' = (rows(?key \<mapsto> (i, AR_pending)), ids @ [i], make_decisive i d1)"
    | (old) i where "rows ?key = Some (i, AR_pending)" "acc' = (rows, ids @ [i], make_decisive i d)"
    by (auto simp: escalate_one_def Let_def res_bind_Inr_iff split: if_splits option.splits)
  then show ?thesis
  proof cases
    case same
    then show ?thesis using inv by simp
  next
    case (old i)
    from rows [OF old(1)] obtain r where r: "r \<in> set (db_approvers d)" "ar_id r = i" "ar_approval_id r = ap_id a" "ar_status r = AR_pending"
      by blast
    have "db_steps (make_decisive i d) = db_steps db" using d(2) by (simp add: make_decisive_def)
    then show ?thesis
      using moves_trans [OF d(1) make_decisive_moves [OF r]] make_decisive_row [OF rows]
      unfolding old(2) escalation_inv_def by simp
  next
    case (new i d1)
    from new(1) obtain r where r: "db_approvers d1 = db_approvers d @ [r]" "ar_id r = i" "ar_approval_id r = ap_id a"
        "ar_status r = AR_pending" and steps: "db_steps d1 = db_steps d"
      by (rule add_approver_InrE) auto
    have m: "moves (ap_id a) db (make_decisive i d1)"
      using moves_trans [OF moves_trans [OF d(1) add_approver_moves [OF new(1) _ s(2-4)]] make_decisive_moves [of r]] s(1) d(2) r
      by simp
    have rows1: "\<exists>x \<in> set (db_approvers (make_decisive i d1)). ar_id x = j \<and> ar_approval_id x = ap_id a \<and> ar_status x = AR_pending"
      if "(rows(?key \<mapsto> (i, AR_pending))) key = Some (j, AR_pending)" for key j
    proof -
      have "\<exists>x \<in> set (db_approvers d1). ar_id x = j \<and> ar_approval_id x = ap_id a \<and> ar_status x = AR_pending"
        using that rows [of key j] r by (auto split: if_splits)
      then show ?thesis by (rule make_decisive_row)
    qed
    have steps2: "db_steps (make_decisive i d1) = db_steps db" using steps d(2) by (simp add: make_decisive_def)
    show ?thesis unfolding new(2) escalation_inv_def prod.case using m steps2 rows1 by blast
  qed
qed

lemma escalate_moves:
  assumes esc: "escalate env a s (locked_approvers_in db0 (ap_id a) [st_id s]) now db = Inr (ids, db')"
    and s: "s' \<in> set (db_steps db)" "st_id s' = st_id s" "st_approval_id s' = ap_id a" "st_status s' = ST_active"
    and same: "db_approvers db0 = db_approvers db"
  shows "moves (ap_id a) db db' \<and> db_steps db' = db_steps db"
proof -
  from esc obtain rn m where fold: "res_fold (escalate_one env a s (voters_in_step (audit_unresolved env a s rn actor_system
        (audit_excluded env a s rn actor_system db)) (st_id s)) now) (rn_approvers rn)
        (escalation_rows s (locked_approvers_in db0 (ap_id a) [st_id s]), [],
          audit_unresolved env a s rn actor_system (audit_excluded env a s rn actor_system db)) = Inr (m, ids, db')"
    by (auto simp: escalate_def res_bind_Inr_iff Let_def)
  let ?db1 = "audit_unresolved env a s rn actor_system (audit_excluded env a s rn actor_system db)"
  have "escalation_inv a ?db1 (m, ids, db')"
  proof (rule res_fold_invariant [OF fold, where P = "escalation_inv a ?db1"])
    show "escalation_inv a ?db1 (escalation_rows s (locked_approvers_in db0 (ap_id a) [st_id s]), [], ?db1)"
      using same by (auto simp: escalation_inv_def dest!: escalation_rows_Some)
  qed (use escalate_one_inv [OF _ _ _ s(2-4)] s(1) in simp)
  then have "moves (ap_id a) ?db1 db'" "db_steps db' = db_steps db" by (simp_all add: escalation_inv_def)
  then show ?thesis using moves_core [of ?db1 db db' db'] by simp
qed

section \<open>Overdue steps\<close>

lemma close_step_moves:
  assumes close: "close_step env a s outcome reason act now db = Inr db'"
    and s: "s' \<in> set (db_steps db)" "st_id s' = st_id s" "st_approval_id s' = ap_id a" "st_status s' = ST_active"
    and out: "outcome = ST_approved \<or> outcome = ST_rejected"
  shows "moves (ap_id a) db db'"
proof (rule movesI)
  assume db: "db_ok db"
  show "db_ok db'" "others_same (ap_id a) db db'" using close_step_db_ok [OF db s out close] by blast+
  show "later db db'" by (rule close_step_later [OF close db s out])
  have "core_ok db" using db by (simp add: db_ok_def)
  then show "waits {} db'" if "waits {} db"
    using close_step_waits [OF close _ _ out, of "{}"] waits_mono [OF that] by simp
qed

lemma report_overdue_InrE:
  assumes "report_overdue env a s pending db = Inr (t, db')"
  shows "t = Some T_overdue" "core db' = core db" "db_steps db' = db_steps db"
proof -
  from assms show t: "t = Some T_overdue" and c: "core db' = core db"
    by (auto simp: report_overdue_def res_bind_Inr_iff dest!: core_enqueue)
  show "db_steps db' = db_steps db" using core_eqD(2) [OF c] .
qed

text \<open>What an overdue step that was handled has become: reported, and its deadline handled.\<close>

lemma overdue_InrE:
  assumes "overdue env step_id now a db = Inr (t, db')"
  obtains (nothing) "t = None" "db' = db"
      "\<forall>s. find (\<lambda>s. st_id s = step_id) (locked_steps db (ap_id a)) = Some s \<longrightarrow> \<not> overdue_step s now"
  | (handled) s db1 where "s \<in> set (db_steps db)" "st_approval_id s = ap_id a" "st_id s = step_id" "overdue_step s now"
      "db1 = upd_steps (\<lambda>x. st_id x = st_id s) (\<lambda>x. x\<lparr>st_overdue_at := Some now\<rparr>) db" "t \<noteq> None"
      "core db' = core db1 \<or>
       (\<exists>ids db2. escalate env a s (locked_approvers_in db (ap_id a) [st_id s]) now db1 = Inr (ids, db2) \<and> core db' = core db2) \<or>
       (\<exists>outcome d. (outcome = ST_approved \<or> outcome = ST_rejected) \<and> core d = core db1 \<and>
          close_step env a s outcome ''timeout'' actor_system now d = Inr db')"
proof (cases "find (\<lambda>s. st_id s = step_id) (locked_steps db (ap_id a))")
  case None
  show ?thesis by (rule nothing) (use None assms in \<open>auto simp: overdue_def\<close>)
next
  case (Some s)
  then have s: "s \<in> set (db_steps db)" "st_approval_id s = ap_id a" "st_id s = step_id"
    using find_SomeD [OF Some] by auto
  show ?thesis
  proof (cases "overdue_step s now")
    case False
    show ?thesis by (rule nothing) (use False assms Some in \<open>auto simp: overdue_def\<close>)
  next
    case due: True
    define db1 where "db1 = upd_steps (\<lambda>x. st_id x = st_id s) (\<lambda>x. x\<lparr>st_overdue_at := Some now\<rparr>) db"
    note unfolded = assms [unfolded overdue_def Some option.case Let_def, folded db1_def]
    show ?thesis
    proof (cases "sp_on_timeout (st_spec s)")
      case OT_notify
      then have "report_overdue env a s (map ar_id (filter (\<lambda>r. ar_status r = AR_pending)
          (locked_approvers_in db (ap_id a) [st_id s]))) db1 = Inr (t, db')"
        using unfolded due by simp
      from report_overdue_InrE [OF this] show ?thesis by (intro handled [OF s due db1_def]) auto
    next
      case OT_escalate
      then obtain ids db2 where esc: "escalate env a s (locked_approvers_in db (ap_id a) [st_id s]) now db1 = Inr (ids, db2)"
          and rest: "(if ids = [] then report_overdue env a s (map ar_id (filter (\<lambda>r. ar_status r = AR_pending)
              (locked_approvers_in db (ap_id a) [st_id s]))) db2
            else res_bind (enqueue_notification env (ap_id a) M_escalation ids False
              (audit_emit a EVENT_ESCALATED [(''step_id'', JInt (st_id s))]
                (audit_record env a A_escalated actor_system (Some (st_id s)) None None
                  [(''approvers'', JInt (int (length ids)))] db2))) (\<lambda>db3. Inr (Some T_escalated, db3))) = Inr (t, db')"
        using unfolded due by (auto simp: res_bind_Inr_iff)
      have "t \<noteq> None \<and> core db' = core db2"
      proof (cases "ids = []")
        case True
        then have "report_overdue env a s (map ar_id (filter (\<lambda>r. ar_status r = AR_pending)
            (locked_approvers_in db (ap_id a) [st_id s]))) db2 = Inr (t, db')" using rest by simp
        from report_overdue_InrE [OF this] show ?thesis by simp
      next
        case False
        then show ?thesis using rest by (auto simp: res_bind_Inr_iff dest!: core_enqueue)
      qed
      with esc show ?thesis by (intro handled [OF s due db1_def]) auto
    next
      case OT_reject
      then have "close_step env a s ST_rejected ''timeout'' actor_system now (audit_record env a A_timeout_decided actor_system
          (Some (st_id s)) None None [(''decision'', JStep ST_rejected)] db1) = Inr db'" "t \<noteq> None"
        using unfolded due by (auto simp: res_bind_Inr_iff)
      then show ?thesis by (intro handled [OF s due db1_def]) (blast intro: core_frames(1))+
    next
      case OT_approve
      then have "close_step env a s ST_approved ''timeout'' actor_system now (audit_record env a A_timeout_decided actor_system
          (Some (st_id s)) None None [(''decision'', JStep ST_approved)] db1) = Inr db'" "t \<noteq> None"
        using unfolded due by (auto simp: res_bind_Inr_iff)
      then show ?thesis by (intro handled [OF s due db1_def]) (blast intro: core_frames(1))+
    qed
  qed
qed

lemma overdue_moves:
  assumes "overdue env step_id now a db = Inr (t, db')"
  shows "moves (ap_id a) db db'"
  using assms
proof (cases rule: overdue_InrE)
  case (handled s db1)
  let ?f = "\<lambda>x. x\<lparr>st_overdue_at := Some now\<rparr>"
  have active: "st_status s = ST_active" using handled(4) by (simp add: overdue_step_def)
  have m1: "moves (ap_id a) db db1"
    unfolding handled(5) by (rule keeps_flow_moves [OF _ handled(1,2) active]) (simp add: keeps_flow_def)
  have s1: "?f s \<in> set (db_steps db1)"
    unfolding handled(5) using upd_where_hit [OF handled(1), of "\<lambda>x. st_id x = st_id s" ?f] by simp
  from handled(7) show ?thesis
  proof (elim disjE)
    assume "core db' = core db1"
    then show ?thesis using m1 moves_core [OF refl, of db' db1 "ap_id a" db] by simp
  next
    assume "\<exists>ids db2. escalate env a s (locked_approvers_in db (ap_id a) [st_id s]) now db1 = Inr (ids, db2) \<and> core db' = core db2"
    then obtain ids db2 where esc: "escalate env a s (locked_approvers_in db (ap_id a) [st_id s]) now db1 = Inr (ids, db2)"
      and core: "core db' = core db2" by blast
    have "moves (ap_id a) db1 db2" using escalate_moves [OF esc s1] handled(2,5) active by simp
    then show ?thesis using moves_trans [OF m1] moves_core [OF refl core, of "ap_id a" db] by blast
  next
    assume "\<exists>outcome d. (outcome = ST_approved \<or> outcome = ST_rejected) \<and> core d = core db1 \<and>
      close_step env a s outcome ''timeout'' actor_system now d = Inr db'"
    then obtain outcome d where "outcome = ST_approved \<or> outcome = ST_rejected" and core: "core d = core db1"
      and close: "close_step env a s outcome ''timeout'' actor_system now d = Inr db'" by blast
    then have "moves (ap_id a) d db'"
      using close_step_moves [OF close, of "?f s"] s1 handled(2) active core_eqD(2) [OF core] by simp
    then have "moves (ap_id a) db1 db'" using moves_core [OF core refl, of "ap_id a" db'] by simp
    then show ?thesis using moves_trans [OF m1] by blast
  qed
qed simp

section \<open>Reminders\<close>

lemma remind_InrE:
  assumes "remind env step_id now a db = Inr (t, db')"
  obtains (nothing) "t = None" "db' = db"
  | (sent) s n where "s \<in> set (db_steps db)" "st_approval_id s = ap_id a" "st_id s = step_id" "st_status s = ST_active"
      "st_reminder_count s < set_reminder_max (env_settings env)" "0 < set_reminder_interval_hours (env_settings env)"
      "\<forall>x. st_last_reminder_at s = Some x \<or> st_activated_at s = Some x \<longrightarrow>
         x + hours (set_reminder_interval_hours (env_settings env)) \<le> now"
      "t = Some n" "0 < n"
      "core db' = core (upd_steps (\<lambda>x. st_id x = st_id s)
         (\<lambda>x. x\<lparr>st_last_reminder_at := Some now, st_reminder_count := st_reminder_count x + 1\<rparr>) db)"
proof (cases "t = None")
  case True
  with assms have "db' = db"
    by (auto simp: remind_def Let_def res_bind_Inr_iff split: if_splits option.splits list.splits)
  show ?thesis by (rule nothing) (fact True, fact)
next
  case False
  let ?i = "set_reminder_interval_hours (env_settings env)"
  from assms False obtain s where found: "find (\<lambda>s. st_id s = step_id) (locked_steps db (ap_id a)) = Some s"
      and i: "0 < ?i"
    by (auto simp: remind_def Let_def split: if_splits option.splits)
  have s: "s \<in> set (db_steps db)" "st_approval_id s = ap_id a" "st_id s = step_id"
    using find_SomeD [OF found] by auto
  let ?pending = "map ar_id (filter (\<lambda>r. ar_status r = AR_pending) (locked_approvers_in db (ap_id a) [st_id s]))"
  let ?stamps = "List.map_filter id [st_last_reminder_at s, st_activated_at s]"
  note unfolded = assms [unfolded remind_def Let_def found option.case]
  have active: "st_status s = ST_active" "st_reminder_count s < set_reminder_max (env_settings env)" "?stamps \<noteq> []" "?pending \<noteq> []"
      and max: "Max (set ?stamps) + hours ?i \<le> now"
    using unfolded False i by (auto split: if_splits list.splits)
  have "x + hours ?i \<le> now" if "st_last_reminder_at s = Some x \<or> st_activated_at s = Some x" for x
  proof -
    have "x \<in> set ?stamps" using that by (auto simp: List.map_filter_def)
    then have "x \<le> Max (set ?stamps)" by (intro Max_ge) simp_all
    with max show ?thesis by simp
  qed
  moreover have "t = Some (length ?pending) \<and> core db' = core (upd_steps (\<lambda>x. st_id x = st_id s)
      (\<lambda>x. x\<lparr>st_last_reminder_at := Some now, st_reminder_count := st_reminder_count x + 1\<rparr>) db)"
    using unfolded False i by (auto simp: res_bind_Inr_iff dest!: core_enqueue split: if_splits list.splits)
  moreover have "0 < length ?pending" using active(4) by simp
  ultimately show ?thesis using active s i by (intro sent) blast+
qed

lemma remind_moves:
  assumes "remind env step_id now a db = Inr (t, db')"
  shows "moves (ap_id a) db db'"
  using assms
proof (cases rule: remind_InrE)
  case (sent s n)
  have "moves (ap_id a) db (upd_steps (\<lambda>x. st_id x = st_id s)
      (\<lambda>x. x\<lparr>st_last_reminder_at := Some now, st_reminder_count := st_reminder_count x + 1\<rparr>) db)"
    by (rule keeps_flow_moves [OF _ sent(1,2,4)]) (simp add: keeps_flow_def)
  then show ?thesis using moves_core [OF refl sent(10)] by simp
qed simp

section \<open>Dropping approvers\<close>

text \<open>Pending rows that leave one by one, each with a status of its own.\<close>

lemma leave_all:
  assumes "db_ok db" and "\<forall>(r, st) \<in> set xs. r \<in> set (db_approvers db) \<and> ar_approval_id r = i \<and> ar_status r = AR_pending \<and>
      ar_step_id r \<in> D \<and> st \<noteq> AR_pending"
    and "distinct (map (ar_id \<circ> fst) xs)"
  shows "db_ok (fold (\<lambda>(r, st). leave env [ar_id r] st None) xs db) \<and>
    others_same i db (fold (\<lambda>(r, st). leave env [ar_id r] st None) xs db) \<and>
    db_steps (fold (\<lambda>(r, st). leave env [ar_id r] st None) xs db) = db_steps db \<and>
    later db (fold (\<lambda>(r, st). leave env [ar_id r] st None) xs db) \<and>
    (waits D db \<longrightarrow> waits D (fold (\<lambda>(r, st). leave env [ar_id r] st None) xs db))"
  using assms
proof (induction xs arbitrary: db)
  case (Cons x xs)
  obtain r st where x: "x = (r, st)" by (cases x)
  have r: "r \<in> set (db_approvers db)" "ar_approval_id r = i" "ar_status r = AR_pending" "ar_step_id r \<in> D" "st \<noteq> AR_pending"
    using Cons.prems(2) x by auto
  have ok: "core_ok db" using Cons.prems(1) by (simp add: db_ok_def)
  let ?l = "leave env [ar_id r] st None db"
  note L = leave_one [OF Cons.prems(1) r(1,2,3,5), where env = env and red = None]
  have same: "y = r" if "y \<in> set (db_approvers db)" "ar_id y \<in> set [ar_id r]" for y
    using approvers.same_key_same_row [OF core_ok_distinct(3) [OF ok] that(1) r(1)] that(2) by simp
  have l: "later db ?l" using same r(3) by (intro leave_later) auto
  have w: "waits D ?l" if "waits D db" using leave_waits [OF that, of "[ar_id r]" D] same r(4) by auto
  have rest: "\<forall>(y, st) \<in> set xs. y \<in> set (db_approvers ?l) \<and> ar_approval_id y = i \<and> ar_status y = AR_pending \<and>
      ar_step_id y \<in> D \<and> st \<noteq> AR_pending"
  proof (intro ballI, clarify)
    fix y t assume y: "(y, t) \<in> set xs"
    have "ar_id y \<noteq> ar_id r" using Cons.prems(3) y x by (force simp: image_iff)
    then show "y \<in> set (db_approvers ?l) \<and> ar_approval_id y = i \<and> ar_status y = AR_pending \<and> ar_step_id y \<in> D \<and> t \<noteq> AR_pending"
      using Cons.prems(2) y L(3) by auto
  qed
  have "distinct (map (ar_id \<circ> fst) xs)" using Cons.prems(3) by (simp add: comp_def)
  note IH = Cons.IH [OF L(1) rest this]
  then show ?case
    using others_same_trans [OF L(2)] later_trans [OF l] w by (simp add: x)
qed simp

lemma upd_where_union:
  "(\<And>k. p k \<Longrightarrow> \<not> p (f k) \<and> \<not> q (f k)) \<Longrightarrow> upd_where q f (upd_where p f ks) = upd_where (\<lambda>k. p k \<or> q k) f ks"
  by (induction ks) auto

lemma drop_rows_core:
  "core (drop_rows env a dropped db) =
     core (fold (\<lambda>(r, st). leave env [ar_id r] st None) (map (\<lambda>(r, why). (r, unfit_status why)) dropped) db)"
proof -
  define T :: "int set \<Rightarrow> token_row list \<Rightarrow> token_row list" where "T = (\<lambda>ids. upd_where (\<lambda>k. tk_approver_id k \<in> ids \<and> tk_used_at k = None \<and> tk_revoked_at k = None)
    (\<lambda>k. k\<lparr>tk_revoked_at := Some (token_now env)\<rparr>))"
  define U :: "approver_row \<times> unfit_reason \<Rightarrow> approver_row list \<Rightarrow> approver_row list" where "U = (\<lambda>(r, why). upd_where (\<lambda>x. ar_id x = ar_id r) (\<lambda>x. x\<lparr>ar_status := unfit_status why\<rparr>))"
  have T_insert: "T ids (T {i} ks) = T (insert i ids) ks" for ids i ks
    unfolding T_def by (subst upd_where_union) (auto intro!: arg_cong [where f = "\<lambda>p. upd_where p _ ks"])
  have T_empty: "T {} ks = ks" for ks by (simp add: T_def upd_where_none)
  have revoke: "core (snd (revoke_links env ids None d)) = core (d\<lparr>db_tokens := T (set ids) (db_tokens d)\<rparr>)" for ids d
    by (simp add: revoke_links_def Let_def T_def core_def upd_where_none)
  have one: "core (leave env [ar_id r] (unfit_status why) None d) =
      core (d\<lparr>db_approvers := U (r, why) (db_approvers d), db_tokens := T {ar_id r} (db_tokens d)\<rparr>)" for r why d
    unfolding leave_def revoke by (simp add: core_def U_def)
  have left: "core (fold (\<lambda>(r, st). leave env [ar_id r] st None) (map (\<lambda>(r, why). (r, unfit_status why)) xs) d) =
      core (d\<lparr>db_approvers := fold U xs (db_approvers d), db_tokens := T ((ar_id \<circ> fst) ` set xs) (db_tokens d)\<rparr>)" for xs d
  proof (induction xs arbitrary: d)
    case (Cons x xs)
    obtain r why where x: "x = (r, why)" by (cases x)
    let ?l = "leave env [ar_id r] (unfit_status why) None d"
    have "core (fold (\<lambda>(r, st). leave env [ar_id r] st None) (map (\<lambda>(r, why). (r, unfit_status why)) (x # xs)) d) =
        core (?l\<lparr>db_approvers := fold U xs (db_approvers ?l), db_tokens := T ((ar_id \<circ> fst) ` set xs) (db_tokens ?l)\<rparr>)"
      using Cons.IH [of ?l] by (simp add: x)
    also have "\<dots> = core (d\<lparr>db_approvers := fold U (x # xs) (db_approvers d),
        db_tokens := T ((ar_id \<circ> fst) ` set (x # xs)) (db_tokens d)\<rparr>)"
      using core_eqD [OF one [of r why d]] by (simp add: core_def x T_insert)
    finally show ?case .
  qed (simp add: T_empty)
  have status: "core (fold (\<lambda>(r, why). upd_approvers (\<lambda>x. ar_id x = ar_id r) (\<lambda>x. x\<lparr>ar_status := unfit_status why\<rparr>)) xs d) =
      core (d\<lparr>db_approvers := fold U xs (db_approvers d)\<rparr>)" for xs d
    by (induction xs arbitrary: d) (auto simp: core_def U_def)
  have audits: "core (fold (\<lambda>(r, why). audit_record env a A_approver_removed actor_system (Some (ar_step_id r)) (Some (ar_id r)) None
      [(''reason'', JStr (unfit_text why))]) xs d) = core d" for xs d
    by (induction xs arbitrary: d) auto
  show ?thesis
    unfolding drop_rows_def audits revoke left using status [of dropped db] by (simp add: core_def image_comp)
qed

lemma dropped_rows_facts:
  assumes "core_ok db"
  shows "\<forall>(r, why) \<in> set (dropped_rows db a). r \<in> set (db_approvers db) \<and> ar_approval_id r = ap_id a \<and> ar_status r = AR_pending \<and>
      ar_step_id r \<in> st_id ` {s \<in> set (locked_steps db (ap_id a)). st_status s = ST_active}"
    and "distinct (map (ar_id \<circ> fst) (dropped_rows db a))"
proof -
  let ?C = "\<lambda>r. ar_status r = AR_pending \<and>
      ar_step_id r \<in> st_id ` set (filter (\<lambda>s. st_status s = ST_active) (locked_steps db (ap_id a)))"
  have fst: "map fst (List.map_filter (\<lambda>r. map_option (\<lambda>why. (r, why)) (g r)) rs) = filter (\<lambda>r. g r \<noteq> None) rs"
    for g :: "approver_row \<Rightarrow> unfit_reason option" and rs
    by (induction rs) (auto simp: List.map_filter_simps split: option.splits)
  have "\<exists>q. map fst (dropped_rows db a) = filter q (filter ?C (locked_approvers db (ap_id a)))"
    unfolding dropped_rows_def Let_def by (rule exI) (rule fst)
  then obtain q where q: "map fst (dropped_rows db a) = filter q (filter ?C (locked_approvers db (ap_id a)))" by blast
  have "r \<in> set (locked_approvers db (ap_id a)) \<and> ?C r" if "(r, why) \<in> set (dropped_rows db a)" for r why
  proof -
    have "r \<in> set (map fst (dropped_rows db a))" using that by force
    then show ?thesis unfolding q by simp
  qed
  then show "\<forall>(r, why) \<in> set (dropped_rows db a). r \<in> set (db_approvers db) \<and> ar_approval_id r = ap_id a \<and> ar_status r = AR_pending \<and>
      ar_step_id r \<in> st_id ` {s \<in> set (locked_steps db (ap_id a)). st_status s = ST_active}"
    by auto
  have "distinct (map ar_id (map fst (dropped_rows db a)))"
    unfolding q using locked_distinct(1) [OF assms] by (simp add: distinct_map_filter)
  then show "distinct (map (ar_id \<circ> fst) (dropped_rows db a))" by simp
qed

lemma drop_rows_ok:
  fixes a :: approval
  assumes db: "db_ok db"
  defines "D \<equiv> ar_step_id ` fst ` set (dropped_rows db a)"
  shows "db_ok (drop_rows env a (dropped_rows db a) db) \<and> others_same (ap_id a) db (drop_rows env a (dropped_rows db a) db) \<and>
    db_steps (drop_rows env a (dropped_rows db a) db) = db_steps db \<and> later db (drop_rows env a (dropped_rows db a) db) \<and>
    (waits D db \<longrightarrow> waits D (drop_rows env a (dropped_rows db a) db))"
proof -
  have ok: "core_ok db" using db by (simp add: db_ok_def)
  note F = dropped_rows_facts [OF ok, of a]
  let ?xs = "map (\<lambda>(r, why). (r, unfit_status why)) (dropped_rows db a)"
  have left: "unfit_status why \<noteq> AR_pending" for why by (simp add: unfit_status_def split: unfit_reason.splits)
  have rows: "\<forall>(r, st) \<in> set ?xs. r \<in> set (db_approvers db) \<and> ar_approval_id r = ap_id a \<and> ar_status r = AR_pending \<and>
      ar_step_id r \<in> D \<and> st \<noteq> AR_pending"
  proof (intro ballI, clarify)
    fix r st assume "(r, st) \<in> set ?xs"
    then obtain why where w: "(r, why) \<in> set (dropped_rows db a)" "st = unfit_status why" by auto
    have "ar_step_id r \<in> D" unfolding D_def using w(1) by force
    then show "r \<in> set (db_approvers db) \<and> ar_approval_id r = ap_id a \<and> ar_status r = AR_pending \<and> ar_step_id r \<in> D \<and> st \<noteq> AR_pending"
      using bspec [OF F(1) w(1)] left w(2) by simp
  qed
  have "map (ar_id \<circ> fst) ?xs = map (ar_id \<circ> fst) (dropped_rows db a)" by auto
  then have "distinct (map (ar_id \<circ> fst) ?xs)" using F(2) by presburger
  note L = leave_all [OF db rows this, of env]
  note core = drop_rows_core [of env a "dropped_rows db a" db]
  show ?thesis
    unfolding db_ok_cong [OF core] others_same_core [OF refl core] core_eqD(2) [OF core] later_core [OF refl core] waits_core [OF core]
    by (rule L)
qed

lemma drop_invalid_moves:
  assumes "drop_invalid env now a db = Inr (t, db')"
  shows "moves (ap_id a) db db'"
proof (cases "dropped_rows db a = []")
  case True
  then show ?thesis using assms by (simp add: drop_invalid_def)
next
  case False
  let ?touched = "ar_step_id ` fst ` set (dropped_rows db a)"
  let ?steps = "filter (\<lambda>s. st_status s = ST_active \<and> st_id s \<in> ?touched) (locked_steps db (ap_id a))"
  let ?d = "drop_rows env a (dropped_rows db a) db"
  from assms False have reev: "reevaluate_steps env a ?steps actor_system now ?d = Inr db'"
    by (auto simp: drop_invalid_def Let_def res_bind_Inr_iff)
  show ?thesis
  proof (rule movesI)
    assume db: "db_ok db"
    have ok: "core_ok db" using db by (simp add: db_ok_def)
    note R = drop_rows_ok [OF db, of env a]
    then have d: "db_ok ?d" "others_same (ap_id a) db ?d" "db_steps ?d = db_steps db" "later db ?d" by blast+
    have own: "\<forall>s \<in> set ?steps. owns_step ?d (ap_id a) (st_id s)" using d(3) by (auto simp: owns_step_def)
    have R2: "db_ok db' \<and> others_same (ap_id a) ?d db' \<and> engine_keeps ?d db'" by (rule reevaluate_steps_db_ok [OF reev d(1) own])
    show "db_ok db'" "others_same (ap_id a) db db'" using R2 others_same_trans [OF d(2)] by blast+
    show "later db db'" using later_trans [OF d(4) reevaluate_steps_later [OF reev d(1) own]] .
    have "ar_step_id r \<in> st_id ` set ?steps" if x: "(r, why) \<in> set (dropped_rows db a)" for r why
    proof -
      obtain s where "s \<in> set (locked_steps db (ap_id a))" "st_status s = ST_active" "ar_step_id r = st_id s"
        using dropped_rows_facts(1) [OF ok, of a] x by blast
      moreover have "ar_step_id r \<in> ?touched" using x by force
      ultimately show ?thesis by (auto intro!: image_eqI)
    qed
    then have "?touched \<subseteq> st_id ` set ?steps" by auto
    then show "waits {} db'" if "waits {} db"
      using R waits_mono [OF that, of ?touched] waits_mono [of ?touched ?d "st_id ` set ?steps"]
        reevaluate_steps_waits [OF reev d(1) own, of "{}"] by simp
  qed
qed

section \<open>A deadline is handled once\<close>

lemma found_step:
  assumes ok: "core_ok db" and x: "x \<in> set (db_steps db)" "st_approval_id x = i"
  shows "find (\<lambda>s. st_id s = st_id x) (locked_steps db i) = Some x"
proof (cases "find (\<lambda>s. st_id s = st_id x) (locked_steps db i)")
  case None
  then show ?thesis using x by (auto dest!: find_NoneD)
next
  case (Some y)
  then show ?thesis using find_SomeD [OF Some] step_id_approval [OF ok x(1), of y] by simp
qed

text \<open>A step that was closed is closed in the resulting database, with its outcome.\<close>

lemma close_step_closed:
  assumes close: "close_step env a s outcome reason act now db = Inr db'" and ok: "core_ok db"
    and s: "s' \<in> set (db_steps db)" "st_id s' = st_id s" "st_approval_id s' = ap_id a"
    and out: "outcome = ST_approved \<or> outcome = ST_rejected"
  shows "s'\<lparr>st_status := outcome, st_reason := Some reason, st_decided_at := Some now\<rparr> \<in> set (db_steps db')"
proof -
  let ?d = "settle_step env a s outcome reason act now db"
  let ?f = "\<lambda>x. x\<lparr>st_status := outcome, st_reason := Some reason, st_decided_at := Some now\<rparr>"
  obtain ids d' where act: "activate_next_stage env a act ?d = Inr (ids, d')" and core: "core db' = core d'"
    using close by (auto simp: close_step_def res_bind_Inr_iff dest!: core_enqueue split: if_splits)
  obtain added where "activate_loop env a act [] ?d = Inr (added, d')" using act by (rule activate_next_stage_loop)
  then have "later ?d d'" using activate_loop_later settle_step_ok [OF ok s out] by blast
  moreover have "?f s' \<in> set (db_steps ?d)"
    unfolding core_eqD(2) [OF settle_step_core] using upd_where_hit [OF s(1), of "\<lambda>x. st_id x = st_id s" ?f] s(2) by simp
  moreover have "\<not> is_open (?f s')" using out by (auto simp: is_open_def)
  ultimately show ?thesis using core_eqD(2) [OF core] unfolding later_def by metis
qed

lemma overdue_done:
  assumes over: "overdue env step_id now a db = Inr (Some t, db')" and db: "db_ok db"
  obtains x where "x \<in> set (db_steps db')" "st_approval_id x = ap_id a" "st_id x = step_id"
    "st_status x \<noteq> ST_active \<or> st_overdue_at x \<noteq> None"
  using over
proof (cases rule: overdue_InrE)
  case (handled s db1)
  let ?s1 = "s\<lparr>st_overdue_at := Some now\<rparr>"
  have active: "st_status s = ST_active" using handled(4) by (simp add: overdue_step_def)
  have s1: "?s1 \<in> set (db_steps db1)"
    unfolding handled(5) using upd_where_hit [OF handled(1), of "\<lambda>x. st_id x = st_id s" "\<lambda>x. x\<lparr>st_overdue_at := Some now\<rparr>"] by simp
  have m1: "moves (ap_id a) db db1"
    unfolding handled(5) by (rule keeps_flow_moves [OF _ handled(1,2) active]) (simp add: keeps_flow_def)
  then have ok1: "core_ok db1" using db by (simp add: moves_def db_ok_def)
  from handled(7) show thesis
  proof (elim disjE)
    assume core: "core db' = core db1"
    show thesis by (rule that [of ?s1]) (use s1 handled(2,3) core_eqD(2) [OF core] in simp_all)
  next
    assume "\<exists>ids db2. escalate env a s (locked_approvers_in db (ap_id a) [st_id s]) now db1 = Inr (ids, db2) \<and> core db' = core db2"
    then obtain ids db2 where esc: "escalate env a s (locked_approvers_in db (ap_id a) [st_id s]) now db1 = Inr (ids, db2)"
      and core: "core db' = core db2" by blast
    have "db_steps db2 = db_steps db1" using escalate_moves [OF esc s1] handled(2,5) active by simp
    then show thesis by (intro that [of ?s1]) (use s1 handled(2,3) core_eqD(2) [OF core] in simp_all)
  next
    assume "\<exists>outcome d. (outcome = ST_approved \<or> outcome = ST_rejected) \<and> core d = core db1 \<and>
      close_step env a s outcome ''timeout'' actor_system now d = Inr db'"
    then obtain outcome d where out: "outcome = ST_approved \<or> outcome = ST_rejected" and core: "core d = core db1"
      and close: "close_step env a s outcome ''timeout'' actor_system now d = Inr db'" by blast
    have "?s1\<lparr>st_status := outcome, st_reason := Some ''timeout'', st_decided_at := Some now\<rparr> \<in> set (db_steps db')"
      using close_step_closed [OF close _ _ _ _ out, of ?s1] core_ok_cong [OF core] ok1 s1 core_eqD(2) [OF core] handled(2) by simp
    then show thesis by (rule that) (use handled(2,3) out in auto)
  qed
qed simp

text \<open>The selection of overdue steps takes steps that are to be reported.\<close>

lemma overdue_candidate_step:
  assumes "i \<in> fst ` set (overdue_candidates db now frozen after)"
  obtains s where "s \<in> set (db_steps db)" "st_id s = i" "overdue_step s now"
proof -
  from assms obtain y where y: "y \<in> set (take SWEEP_BATCH (sort_key st_id (filter (\<lambda>s. not_frozen db frozen (st_approval_id s) \<and>
      after < st_id s \<and> overdue_step s now) (db_steps db))))" "st_id y = i"
    unfolding overdue_candidates_def by (auto simp: image_image)
  from in_set_takeD [OF y(1)] y(2) show thesis by (intro that) auto
qed

text \<open>
  C26. A deadline is handled once: after a tick reported, escalated or decided an overdue step, the step is in no
  list of overdue steps drawn from that database, for whatever time, cursor and frozen subject types, and handling it
  a second time, as a tick does whose list is older, with whatever settings and at whatever time, changes nothing.
\<close>

theorem overdue_once:
  assumes over: "overdue env step_id now a db = Inr (Some t, db')" and db: "db_ok db"
  shows "step_id \<notin> fst ` set (overdue_candidates db' now' frozen after) \<and>
    overdue env' step_id now' a db' = Inr (None, db')"
proof -
  have ok: "core_ok db'" using overdue_moves [OF over] db by (simp add: moves_def db_ok_def)
  from over db obtain x where x: "x \<in> set (db_steps db')" "st_approval_id x = ap_id a" "st_id x = step_id"
      and ended: "st_status x \<noteq> ST_active \<or> st_overdue_at x \<noteq> None"
    by (rule overdue_done)
  from x have "find (\<lambda>s. st_id s = step_id) (locked_steps db' (ap_id a)) = Some x" using found_step [OF ok] by metis
  moreover have idle: "\<not> overdue_step x now'" using ended by (auto simp: overdue_step_def)
  ultimately have "overdue env' step_id now' a db' = Inr (None, db')" by (simp add: overdue_def)
  moreover have "step_id \<notin> fst ` set (overdue_candidates db' now' frozen after)"
  proof
    assume "step_id \<in> fst ` set (overdue_candidates db' now' frozen after)"
    then obtain s where "s \<in> set (db_steps db')" "st_id s = step_id" "overdue_step s now'" by (rule overdue_candidate_step)
    then show False using steps.same_key_same_row [OF core_ok_distinct(2) [OF ok] _ x(1), of s] x(3) idle by simp
  qed
  ultimately show ?thesis by simp
qed

definition late_db :: approval_db where
  "late_db = (case overdue example_env 1 172800000000 (hd (db_approvals issued_db)) issued_db of
     Inr (_, db) \<Rightarrow> db | Inl _ \<Rightarrow> empty_db)"

lemma late_db_eval:
  "overdue example_env 1 172800000000 (hd (db_approvals issued_db)) issued_db = Inr (Some T_overdue, late_db)"
proof -
  have "case overdue example_env 1 172800000000 (hd (db_approvals issued_db)) issued_db of
      Inr (Some t, _) \<Rightarrow> t = T_overdue | _ \<Rightarrow> False" by code_simp
  then show ?thesis by (auto simp: late_db_def split: sum.splits option.splits prod.splits)
qed

theorem overdue_once_witness:
  "1 \<notin> fst ` set (overdue_candidates late_db 999999999999 {} 0) \<and>
   overdue example_env 1 999999999999 (hd (db_approvals issued_db)) late_db = Inr (None, late_db)"
  by (rule overdue_once [OF late_db_eval issued_db_ok])

section \<open>Reminders are paced\<close>

text \<open>
  C36. A reminder goes out only to an active step with pending approvers, at least the interval after it was
  activated and last reminded, and at most \<open>reminder_max\<close> times; after one was sent the step's counter is
  one higher and no tick before the next interval is over sends another.
\<close>

theorem remind_paced:
  assumes rem: "remind env step_id now a db = Inr (Some n, db')" and db: "db_ok db"
    and soon: "now' < now + hours (set_reminder_interval_hours (env_settings env))"
  shows "0 < n \<and> (\<exists>s \<in> set (db_steps db). st_id s = step_id \<and> st_status s = ST_active \<and>
      st_reminder_count s < set_reminder_max (env_settings env) \<and>
      s\<lparr>st_last_reminder_at := Some now, st_reminder_count := st_reminder_count s + 1\<rparr> \<in> set (db_steps db')) \<and>
    remind env step_id now' a db' = Inr (None, db')"
  using rem
proof (cases rule: remind_InrE)
  case (sent s m)
  let ?f = "\<lambda>x. x\<lparr>st_last_reminder_at := Some now, st_reminder_count := st_reminder_count x + 1\<rparr>"
  have hit: "?f s \<in> set (db_steps db')"
    unfolding core_eqD(2) [OF sent(10)] using upd_where_hit [OF sent(1), of "\<lambda>x. st_id x = st_id s" ?f] by simp
  have ok: "core_ok db'" using remind_moves [OF rem] db by (simp add: moves_def db_ok_def)
  have found: "find (\<lambda>x. st_id x = step_id) (locked_steps db' (ap_id a)) = Some (?f s)"
    using found_step [OF ok hit] sent(2,3) by simp
  have stamps: "List.map_filter id [st_last_reminder_at (?f s), st_activated_at (?f s)] =
      now # (case st_activated_at s of None \<Rightarrow> [] | Some t \<Rightarrow> [t])"
    by (simp add: List.map_filter_simps split: option.splits)
  have "now \<le> Max (set (now # (case st_activated_at s of None \<Rightarrow> [] | Some t \<Rightarrow> [t])))" by (rule Max_ge [OF finite_set]) simp
  then have "now' < Max (set (now # (case st_activated_at s of None \<Rightarrow> [] | Some t \<Rightarrow> [t]))) +
      hours (set_reminder_interval_hours (env_settings env))" using soon by simp
  then have "remind env step_id now' a db' = Inr (None, db')"
    unfolding remind_def Let_def found option.case stamps by simp
  then show ?thesis using hit sent by blast
qed simp

definition reminded_db :: approval_db where
  "reminded_db = (case remind example_env 1 90000000000 (hd (db_approvals issued_db)) issued_db of
     Inr (_, db) \<Rightarrow> db | Inl _ \<Rightarrow> empty_db)"

lemma reminded_db_eval:
  "remind example_env 1 90000000000 (hd (db_approvals issued_db)) issued_db = Inr (Some 1, reminded_db)"
proof -
  have "case remind example_env 1 90000000000 (hd (db_approvals issued_db)) issued_db of
      Inr (Some n, _) \<Rightarrow> n = 1 | _ \<Rightarrow> False" by code_simp
  then show ?thesis by (auto simp: reminded_db_def split: sum.splits option.splits prod.splits)
qed

theorem remind_paced_witness:
  "remind example_env 1 100000000000 (hd (db_approvals issued_db)) reminded_db = Inr (None, reminded_db)"
proof -
  have "100000000000 < 90000000000 + hours (set_reminder_interval_hours (env_settings example_env))" by code_simp
  from remind_paced [OF reminded_db_eval issued_db_ok this] show ?thesis by simp
qed

end
