(* ===== verification/Approval_Pauses.thy ===== *)
theory Approval_Pauses
  imports Approval_Sweep_Correct
begin

text \<open>
  Pauses and dropped approvers. While a subject type stands still its timers do; the first running tick
  moves them by the pause, so no deadline of that time fires. Dropping takes exactly the pending approvers
  out that can no longer vote.
\<close>

section \<open>Shifting\<close>

lemma shifted_step_keeps_flow: "keeps_flow (shifted_step d)"
  by (simp add: keeps_flow_def shifted_step_def)

lemma paused_step_active: "paused_step db subject seen s \<Longrightarrow> st_status s = ST_active"
  by (simp add: paused_step_def)

lemma tokens_expiry_ok:
  assumes db: "db_ok db"
  shows "db_ok (upd_tokens p (\<lambda>k. k\<lparr>tk_expires_at := e k\<rparr>) db)"
proof -
  let ?db = "upd_tokens p (\<lambda>k. k\<lparr>tk_expires_at := e k\<rparr>) db"
  have ok: "core_ok db" using db by (simp add: db_ok_def)
  have "map tk_id (db_tokens ?db) = map tk_id (db_tokens db)" by (simp add: map_upd_where)
  then have "core_ok ?db"
    using ok by (auto simp: core_ok_defs live_def elim!: upd_whereE)
  then show ?thesis by (rule db_ok_same_steps [OF db]) simp_all
qed

lemma shift_timers_ok:
  assumes db: "db_ok db"
  shows "db_ok (shift_timers subject since seen d db)" "later db (shift_timers subject since seen d db)"
    "waits D db \<Longrightarrow> waits D (shift_timers subject since seen d db)"
proof -
  let ?s = "upd_steps (paused_step db subject seen) (shifted_step d) db"
  have K: "db_ok ?s" "later db ?s" "waits D db \<Longrightarrow> waits D ?s"
    by (rule keeps_flow_steps [OF shifted_step_keeps_flow paused_step_active db]; assumption)+
  show "db_ok (shift_timers subject since seen d db)"
    unfolding shift_timers_def by (rule tokens_expiry_ok [OF K(1)])
  have "later ?s (shift_timers subject since seen d db)"
    unfolding shift_timers_def by (rule upd_tokens_later) (simp add: link_later_def)
  then show "later db (shift_timers subject since seen d db)" using later_trans [OF K(2)] by blast
  show "waits D (shift_timers subject since seen d db)" if "waits D db"
    using K(3) [OF that] by (simp add: shift_timers_def waits_def)
qed

lemma shift_timers_tables [simp]:
  "db_approvals (shift_timers subject since seen d db) = db_approvals db"
  "db_approvers (shift_timers subject since seen d db) = db_approvers db"
  "db_steps (shift_timers subject since seen d db) = upd_where (paused_step db subject seen) (shifted_step d) (db_steps db)"
  by (simp_all add: shift_timers_def)

section \<open>The timers of a tick\<close>

definition timers_inv :: "approval_db \<Rightarrow> approval_db \<Rightarrow> bool" where
  "timers_inv db d \<longleftrightarrow> db_ok d \<and> later db d \<and> db_approvals d = db_approvals db \<and> (waits {} db \<longrightarrow> waits {} d)"

lemma timer_step_inv:
  assumes "timers_inv db (snd acc)"
  shows "timers_inv db (snd (timer_step moment paused state key acc))"
proof -
  obtain nxt d where acc: "acc = (nxt, d)" by (cases acc)
  have inv: "db_ok d" "later db d" "db_approvals d = db_approvals db" "waits {} db \<longrightarrow> waits {} d"
    using assms by (simp_all add: timers_inv_def acc)
  have "timers_inv db (shift_timers key since seen t d)" for since seen t
    using shift_timers_ok(1,2) [OF inv(1)] shift_timers_ok(3) [OF inv(1), where D = "{}"] later_trans [OF inv(2)] inv(3,4)
    by (simp add: timers_inv_def)
  then show ?thesis
    using assms by (auto simp: timer_step_def acc split: option.splits timer_entry.splits)
qed

lemma timers_fold_inv:
  "timers_inv db (snd acc) \<Longrightarrow> timers_inv db (snd (fold (timer_step moment paused state) keys acc))"
proof (induction keys arbitrary: acc)
  case (Cons key keys)
  show ?case using Cons.IH [OF timer_step_inv [OF Cons.prems]] by simp
qed simp

lemma run_timers_ok:
  assumes run: "run_timers env registered moment state db = (frozen, nxt, db')" and db: "db_ok db"
  shows "timers_inv db db'"
proof -
  from run obtain n where "fold (timer_step moment (\<lambda>k. \<not> set_enabled (env_settings env) \<or> k \<in> frozen_subject_types env db registered) state)
      (subject_keys registered db) (\<lambda>_. None, db) = (n, db')"
    by (auto simp: run_timers_def Let_def split: prod.splits)
  moreover have "timers_inv db (snd (fold (timer_step moment (\<lambda>k. \<not> set_enabled (env_settings env) \<or>
      k \<in> frozen_subject_types env db registered) state) (subject_keys registered db) (\<lambda>_. None, db)))"
    by (rule timers_fold_inv) (simp add: timers_inv_def db)
  ultimately show ?thesis by simp
qed

text \<open>A step's timers are moved only in the turn of its own subject type.\<close>

lemma timer_step_other:
  assumes x: "x \<in> set (db_steps (snd acc))" and a: "get_approval (snd acc) (st_approval_id x) = Some a" "ap_subject_type a \<noteq> key"
  shows "x \<in> set (db_steps (snd (timer_step moment paused state key acc)))"
  using assms
  by (cases acc) (auto simp: timer_step_def paused_step_def pending_of_type_def intro!: upd_where_kept split: option.splits timer_entry.splits)

lemma timer_step_approvals [simp]:
  "db_approvals (snd (timer_step moment paused state key acc)) = db_approvals (snd acc)"
  by (cases acc) (auto simp: timer_step_def split: option.splits timer_entry.splits)

lemma get_approval_cong: "db_approvals d = db_approvals d' \<Longrightarrow> get_approval d i = get_approval d' i"
  by (simp add: get_approval_def)

lemma timers_fold_other:
  "x \<in> set (db_steps (snd acc)) \<Longrightarrow> get_approval (snd acc) (st_approval_id x) = Some a \<Longrightarrow> ap_subject_type a \<notin> set keys \<Longrightarrow>
     x \<in> set (db_steps (snd (fold (timer_step moment paused state) keys acc)))"
proof (induction keys arbitrary: acc)
  case (Cons key keys)
  let ?acc = "timer_step moment paused state key acc"
  have "x \<in> set (db_steps (snd ?acc))" using Cons.prems by (intro timer_step_other) auto
  moreover have "get_approval (snd ?acc) (st_approval_id x) = Some a"
    using Cons.prems(2) get_approval_cong [OF timer_step_approvals] by metis
  ultimately show ?case using Cons.IH [of ?acc] Cons.prems(3) by simp
qed simp

lemma timers_fold_own:
  assumes key: "key \<in> set keys" "distinct keys" and paused: "\<not> paused key" and state: "state key = Some (Pause since seen)"
    and moment: "since < moment"
    and x: "x \<in> set (db_steps db)" and a: "get_approval db (st_approval_id x) = Some a" "ap_subject_type a = key"
    and p: "paused_step db key seen x"
  shows "shifted_step (moment - since) x \<in> set (db_steps (snd (fold (timer_step moment paused state) keys (n, db))))"
proof -
  from key obtain ks ls where keys: "keys = ks @ key # ls" "key \<notin> set ks" "key \<notin> set ls"
    by (metis distinct.simps(2) distinct_append not_distinct_conv_prefix split_list Un_iff set_append)
  let ?acc = "fold (timer_step moment paused state) ks (n, db)"
  let ?acc' = "timer_step moment paused state key ?acc"
  let ?y = "shifted_step (moment - since) x"
  have approvals: "db_approvals (snd (fold (timer_step moment paused state) zs acc)) = db_approvals (snd acc)" for zs acc
    by (induction zs arbitrary: acc) simp_all
  have same: "get_approval (snd ?acc) i = get_approval db i" for i using get_approval_cong [OF approvals] by simp
  have "x \<in> set (db_steps (snd ?acc))"
    using timers_fold_other [of x "(n, db)" a ks moment paused state] x a keys(2) by simp
  moreover have "paused_step (snd ?acc) key seen x" using p by (simp add: paused_step_def pending_of_type_def same)
  ultimately have "?y \<in> set (db_steps (shift_timers key since seen (moment - since) (snd ?acc)))"
    by (simp add: upd_where_hit)
  moreover have "snd ?acc' = shift_timers key since seen (moment - since) (snd ?acc)"
    using paused state moment by (cases ?acc) (simp add: timer_step_def)
  ultimately have y: "?y \<in> set (db_steps (snd ?acc'))" by simp
  have "get_approval (snd ?acc') (st_approval_id ?y) = Some a"
    using get_approval_cong [OF timer_step_approvals] same a(1) by (simp add: shifted_step_def)
  then have "?y \<in> set (db_steps (snd (fold (timer_step moment paused state) ls ?acc')))"
    using timers_fold_other [OF y] a(2) keys(3) by blast
  then show ?thesis by (simp add: keys(1))
qed

text \<open>The row of a paused step after the first running tick\<close>

lemma first_tick_row:
  assumes run: "run_timers env registered moment state db = (frozen, nxt, db')" and db: "db_ok db"
    and on: "set_enabled (env_settings env)" "ap_subject_type a \<notin> frozen_subject_types env db registered"
    and state: "state (ap_subject_type a) = Some (Pause since seen)"
    and a: "a \<in> set (db_approvals db)" "ap_status a = AP_pending"
    and s: "s \<in> set (db_steps db)" "st_approval_id s = ap_id a" "st_status s = ST_active" "st_activated_at s = Some t" "t \<le> seen"
  shows "(if since < moment then shifted_step (moment - since) s else s) \<in> set (db_steps db')"
proof -
  let ?paused = "\<lambda>k. \<not> set_enabled (env_settings env) \<or> k \<in> frozen_subject_types env db registered"
  from run obtain n where fold: "fold (timer_step moment ?paused state) (subject_keys registered db) (\<lambda>_. None, db) = (n, db')"
    by (auto simp: run_timers_def Let_def split: prod.splits)
  have ok: "core_ok db" using db by (simp add: db_ok_def)
  have get: "get_approval db (st_approval_id s) = Some a"
    using approvals.get_member [OF core_ok_distinct(1) [OF ok] a(1)] s(2) by simp
  have keys: "ap_subject_type a \<in> set (subject_keys registered db)" "distinct (subject_keys registered db)"
    using a by (auto simp: subject_keys_def)
  show ?thesis
  proof (cases "since < moment")
    case True
    have "paused_step db (ap_subject_type a) seen s"
      using s get a(2) by (simp add: paused_step_def pending_of_type_def)
    with timers_fold_own [where paused = ?paused and state = state and key = "ap_subject_type a" and n = "\<lambda>_. None",
        OF keys _ state True s(1) get refl] on
    have "shifted_step (moment - since) s \<in>
        set (db_steps (snd (fold (timer_step moment ?paused state) (subject_keys registered db) (\<lambda>_. None, db))))"
      by blast
    then show ?thesis unfolding fold using True by simp
  next
    case False
    obtain ks ls where split: "subject_keys registered db = ks @ ap_subject_type a # ls" "ap_subject_type a \<notin> set ks" "ap_subject_type a \<notin> set ls"
      using keys by (metis distinct.simps(2) distinct_append not_distinct_conv_prefix split_list)
    let ?acc = "fold (timer_step moment ?paused state) ks (\<lambda>_. None, db)"
    let ?acc' = "timer_step moment ?paused state (ap_subject_type a) ?acc"
    have approvals: "db_approvals (snd (fold (timer_step moment ?paused state) zs acc)) = db_approvals (snd acc)" for zs acc
      by (induction zs arbitrary: acc) simp_all
    have "s \<in> set (db_steps (snd ?acc))"
      using timers_fold_other [of s "(\<lambda>_. None, db)" a ks moment ?paused state] s(1) get split(2) by simp
    moreover have "snd ?acc' = snd ?acc" using state on False by (cases ?acc) (simp add: timer_step_def)
    ultimately have "s \<in> set (db_steps (snd ?acc'))" by simp
    moreover have "get_approval (snd ?acc') (st_approval_id s) = Some a"
      using get get_approval_cong [OF timer_step_approvals] get_approval_cong [OF approvals] by simp
    ultimately show ?thesis
      using timers_fold_other [of s ?acc' a ls moment ?paused state] split(1,3) fold False by simp
  qed
qed

text \<open>
  C28. A pause moves the deadlines by its length, no more and no less: in the first running tick after one, the deadline
  of a step that was active when the pause was last seen is later by the time since the last tick before the pause,
  unless it had been reported already; so a deadline that had not been reached in that tick is no candidate of the
  deadline phase.
\<close>

theorem pause_holds_deadlines:
  assumes run: "run_timers env registered moment state db = (frozen, nxt, db')" and db: "db_ok db"
    and on: "set_enabled (env_settings env)" "ap_subject_type a \<notin> frozen_subject_types env db registered"
    and state: "state (ap_subject_type a) = Some (Pause since seen)"
    and a: "a \<in> set (db_approvals db)" "ap_status a = AP_pending"
    and s: "s \<in> set (db_steps db)" "st_approval_id s = ap_id a" "st_status s = ST_active"
      "st_activated_at s = Some t" "t \<le> seen" "st_due_at s = Some due"
  shows "(\<exists>x \<in> set (db_steps db'). st_id x = st_id s \<and> st_status x = ST_active \<and> st_overdue_at x = st_overdue_at s \<and>
      st_due_at x = Some (if st_overdue_at s = None then due + max 0 (moment - since) else due)) \<and>
    (since < due \<longrightarrow> st_id s \<notin> fst ` set (overdue_candidates db' moment f after))"
proof -
  let ?x = "if since < moment then shifted_step (moment - since) s else s"
  have x: "?x \<in> set (db_steps db')" by (rule first_tick_row [OF run db on state a s(1-5)])
  have ok: "core_ok db'" using run_timers_ok [OF run db] by (simp add: timers_inv_def db_ok_def)
  have row: "st_id ?x = st_id s" "st_status ?x = ST_active" "st_overdue_at ?x = st_overdue_at s"
    "st_due_at ?x = Some (if st_overdue_at s = None then due + max 0 (moment - since) else due)"
    using s(3,6) by (auto simp: shifted_step_def)
  have "st_id s \<notin> fst ` set (overdue_candidates db' moment f after)" if "since < due"
  proof
    assume "st_id s \<in> fst ` set (overdue_candidates db' moment f after)"
    then obtain y where y: "y \<in> set (db_steps db')" "st_id y = st_id s" "overdue_step y moment" by (rule overdue_candidate_step)
    have "y = ?x" using steps.same_key_same_row [OF core_ok_distinct(2) [OF ok] y(1) x] y(2) row(1) by simp
    then show False using y(3) row(3,4) that by (auto simp: overdue_step_def split: if_splits)
  qed
  then show ?thesis using x row by blast
qed

text \<open>A pause of four hours in which the example's step would have become due.\<close>

definition paused_timers :: timers where
  "paused_timers = (\<lambda>k. if k = ''ticket'' then Some (Pause 172000000000 172800000000) else None)"

theorem pause_holds_deadlines_witness:
  "list_ex (\<lambda>x. st_id x = 1 \<and> st_due_at x = Some 187200000000)
     (db_steps (snd (snd (run_timers example_env [''ticket''] 186400000000 paused_timers issued_db)))) \<and>
   1 \<notin> fst ` set (overdue_candidates (snd (snd (run_timers example_env [''ticket''] 186400000000 paused_timers issued_db)))
     186400000000 {} 0)"
proof -
  let ?r = "run_timers example_env [''ticket''] 186400000000 paused_timers issued_db"
  let ?a = "hd (db_approvals issued_db)" and ?s = "hd (db_steps issued_db)"
  have run: "run_timers example_env [''ticket''] 186400000000 paused_timers issued_db = (fst ?r, fst (snd ?r), snd (snd ?r))"
    by simp
  have on: "set_enabled (env_settings example_env)" "ap_subject_type ?a \<notin> frozen_subject_types example_env issued_db [''ticket'']"
    "paused_timers (ap_subject_type ?a) = Some (Pause 172000000000 172800000000)"
    "?a \<in> set (db_approvals issued_db)" "ap_status ?a = AP_pending"
    by code_simp+
  have s: "?s \<in> set (db_steps issued_db)" "st_approval_id ?s = ap_id ?a" "st_status ?s = ST_active"
    "st_activated_at ?s = Some 0" "(0 :: int) \<le> 172800000000" "st_due_at ?s = Some 172800000000"
    "st_id ?s = 1" "st_overdue_at ?s = None"
    by code_simp+
  show ?thesis using pause_holds_deadlines [OF run issued_db_ok on s(1-6), of "{}" 0] s(7,8) by (auto simp: list_ex_iff)
qed

section \<open>Who is dropped\<close>

text \<open>A row of the scan whose agent is not valid is reported, under its principal and ticket.\<close>

lemma unfit_reported:
  assumes row: "(p, uid, login, t) \<in> set rows" and bad: "\<And>customers inside. row_unfit z customers inside (p, uid, login, t) \<noteq> None"
  shows "unfit z rows (p, t) \<noteq> None"
proof -
  have keep: "m (p, t) \<noteq> None \<Longrightarrow> fold (\<lambda>row m. case row_unfit z customers inside row of None \<Rightarrow> m
      | Some why \<Rightarrow> m((fst row, snd (snd (snd row))) \<mapsto> why)) rs m (p, t) \<noteq> None" for customers inside m and rs :: "scan_row list"
  proof (induction rs arbitrary: m)
    case (Cons r rs)
    have "(case row_unfit z customers inside r of None \<Rightarrow> m
        | Some why \<Rightarrow> m((fst r, snd (snd (snd r))) \<mapsto> why)) (p, t) \<noteq> None"
      using Cons.prems by (auto split: option.split)
    then show ?case unfolding fold.simps comp_apply by (rule Cons.IH)
  qed simp
  have "(p, uid, login, t) \<in> set rs \<Longrightarrow> fold (\<lambda>row m. case row_unfit z customers inside row of None \<Rightarrow> m
      | Some why \<Rightarrow> m((fst row, snd (snd (snd row))) \<mapsto> why)) rs m (p, t) \<noteq> None" for customers inside m and rs :: "scan_row list"
  proof (induction rs arbitrary: m)
    case (Cons r rs)
    show ?case
    proof (cases "r = (p, uid, login, t)")
      case True
      from bad [of customers inside] obtain why where "row_unfit z customers inside (p, uid, login, t) = Some why" by blast
      then show ?thesis using keep [where m = "m((p, t) \<mapsto> why)" and rs = rs] True by simp
    next
      case False
      then show ?thesis using Cons by simp
    qed
  qed simp
  with row show ?thesis unfolding unfit_def Let_def by blast
qed

lemma dropped_rows_complete:
  assumes ok: "core_ok db" and r: "r \<in> set (db_approvers db)" "ar_approval_id r = ap_id a" "ar_status r = AR_pending"
    and bad: "\<And>customers inside. row_unfit (db_znuny db) customers inside (scan_row_of r) \<noteq> None"
  shows "r \<in> fst ` set (dropped_rows db a)"
proof -
  let ?C = "\<lambda>r. ar_status r = AR_pending \<and>
      ar_step_id r \<in> st_id ` set (filter (\<lambda>s. st_status s = ST_active) (locked_steps db (ap_id a)))"
  let ?cands = "filter ?C (locked_approvers db (ap_id a))"
  obtain s where "s \<in> set (db_steps db)" "st_id s = ar_step_id r" "st_status s = ST_active" "st_approval_id s = ap_id a"
    using core_ok_pending_approver [OF ok r(1,3)] r(2) by metis
  then have "ar_step_id r \<in> st_id ` set (filter (\<lambda>s. st_status s = ST_active) (locked_steps db (ap_id a)))"
    by (intro image_eqI [of _ _ s]) auto
  then have c: "r \<in> set ?cands" using r by simp
  have "unfit (db_znuny db) (map scan_row_of ?cands) (ar_principal r, ar_ticket_id r) \<noteq> None"
    by (rule unfit_reported [where uid = "ar_user_id r" and login = "ar_customer_login r"])
      (use c bad in \<open>auto simp: scan_row_of_def intro!: image_eqI [of _ _ r]\<close>)
  then obtain why where why: "unfit (db_znuny db) (map scan_row_of ?cands) (ar_principal r, ar_ticket_id r) = Some why" by blast
  have mem: "x \<in> set xs \<Longrightarrow> f x = Some y \<Longrightarrow> y \<in> set (List.map_filter f xs)" for x y f and xs :: "approver_row list"
    by (induction xs) (auto simp: List.map_filter_simps split: option.splits)
  have "(r, why) \<in> set (dropped_rows db a)"
    unfolding dropped_rows_def Let_def by (rule mem [OF c]) (unfold why, simp)
  then show ?thesis by force
qed

lemma leave_all_left:
  assumes "(r, st) \<in> set xs" "r \<in> set (db_approvers db)" "distinct (map (ar_id \<circ> fst) xs)"
  shows "r\<lparr>ar_status := st\<rparr> \<in> set (db_approvers (fold (\<lambda>(r, st). leave env [ar_id r] st None) xs db))"
proof -
  have keep: "x \<in> set (db_approvers d) \<Longrightarrow> ar_id x \<notin> (ar_id \<circ> fst) ` set ys \<Longrightarrow>
      x \<in> set (db_approvers (fold (\<lambda>(r, st). leave env [ar_id r] st None) ys d))" for x d ys
  proof (induction ys arbitrary: d)
    case (Cons y ys)
    have "x \<in> set (db_approvers (leave env [ar_id (fst y)] (snd y) None d))"
      using Cons.prems by (simp add: leave_tables(1) upd_where_kept)
    from Cons.IH [OF this] Cons.prems(2) show ?case by (simp add: case_prod_beta)
  qed simp
  show ?thesis
    using assms
  proof (induction xs arbitrary: db)
    case (Cons x xs)
    obtain q t where x: "x = (q, t)" by (cases x)
    let ?d = "leave env [ar_id q] t None db"
    show ?case
    proof (cases "(r, st) = x")
      case True
      then have "r\<lparr>ar_status := st\<rparr> \<in> set (db_approvers ?d)"
        using Cons.prems(2) upd_where_hit [of r "db_approvers db" "\<lambda>y. ar_id y \<in> {ar_id r}" "\<lambda>y. y\<lparr>ar_status := st\<rparr>"]
        by (simp add: leave_tables(1) x)
      moreover have "ar_id (r\<lparr>ar_status := st\<rparr>) \<notin> (ar_id \<circ> fst) ` set xs" using Cons.prems(3) True by force
      ultimately have "r\<lparr>ar_status := st\<rparr> \<in> set (db_approvers (fold (\<lambda>(r, st). leave env [ar_id r] st None) xs ?d))"
        by (rule keep)
      then show ?thesis by (simp add: x)
    next
      case False
      then have r: "(r, st) \<in> set xs" using Cons.prems(1) by simp
      then have "ar_id r \<noteq> ar_id q" using Cons.prems(3) x by (force simp: image_iff)
      then have "r \<in> set (db_approvers ?d)" using Cons.prems(2) by (simp add: leave_tables(1) upd_where_kept)
      then show ?thesis using Cons.IH [OF r] Cons.prems(3) x by (simp add: comp_def)
    qed
  qed simp
qed

text \<open>
  C27. After the sweep of a request nobody waits for an agent who left: every approver of the request that was
  pending and whose agent is gone or not valid is out of its step, whatever the steps' re-evaluation did, and
  the operation counts the rows it took out.
\<close>

theorem drop_invalid_clears:
  assumes drop: "drop_invalid env now a db = Inr (Some n, db')" and db: "db_ok db"
    and r: "r \<in> set (db_approvers db)" "ar_approval_id r = ap_id a" "ar_status r = AR_pending"
      "ar_user_id r = Some u" "agent_valid (db_znuny db) u \<noteq> Some 1"
  shows "n = length (dropped_rows db a) \<and> (\<exists>x \<in> set (db_approvers db'). ar_id x = ar_id r \<and> ar_status x \<in> {AR_removed, AR_not_needed})"
proof -
  have ok: "core_ok db" using db by (simp add: db_ok_def)
  let ?d = "drop_rows env a (dropped_rows db a) db"
  from drop have n: "n = length (dropped_rows db a)" and ne: "dropped_rows db a \<noteq> []"
    by (auto simp: drop_invalid_def Let_def res_bind_Inr_iff split: if_splits)
  have "row_unfit (db_znuny db) customers inside (scan_row_of r) \<noteq> None" for customers inside
    using r(4,5) by (simp add: row_unfit_def scan_row_of_def)
  from dropped_rows_complete [OF ok r(1-3) this] obtain why where why: "(r, why) \<in> set (dropped_rows db a)" by auto
  let ?x = "r\<lparr>ar_status := unfit_status why\<rparr>"
  have "map (ar_id \<circ> fst) (map (\<lambda>(r, why). (r, unfit_status why)) (dropped_rows db a)) = map (ar_id \<circ> fst) (dropped_rows db a)" by auto
  then have "distinct (map (ar_id \<circ> fst) (map (\<lambda>(r, why). (r, unfit_status why)) (dropped_rows db a)))"
    using dropped_rows_facts(2) [OF ok] by presburger
  from leave_all_left [OF _ r(1) this, of "unfit_status why" env] why have "?x \<in> set (db_approvers ?d)"
    unfolding core_eqD(3) [OF drop_rows_core] by force
  moreover have "later ?d db'"
  proof -
    note R = drop_rows_ok [OF db, of env a]
    from drop ne have reev: "reevaluate_steps env a (filter (\<lambda>s. st_status s = ST_active \<and> st_id s \<in> ar_step_id ` fst ` set (dropped_rows db a))
        (locked_steps db (ap_id a))) actor_system now ?d = Inr db'"
      by (auto simp: drop_invalid_def Let_def res_bind_Inr_iff)
    then show ?thesis using R by (intro reevaluate_steps_later [OF reev]) (auto simp: owns_step_def)
  qed
  moreover have "ar_status ?x \<in> {AR_removed, AR_not_needed}" by (simp add: unfit_status_def split: unfit_reason.splits)
  ultimately have "?x \<in> set (db_approvers db')" unfolding later_def by auto
  then show ?thesis using n \<open>ar_status ?x \<in> {AR_removed, AR_not_needed}\<close> by (intro conjI bexI [of _ ?x]) simp_all
qed

text \<open>The example request, with its approver's account closed.\<close>

definition departed_db :: approval_db where
  "departed_db = issued_db\<lparr>db_znuny := (db_znuny issued_db)\<lparr>z_users := []\<rparr>\<rparr>"

definition cleared_db :: approval_db where
  "cleared_db = (case drop_invalid example_env 90000000000 (hd (db_approvals departed_db)) departed_db of
     Inr (_, db) \<Rightarrow> db | Inl _ \<Rightarrow> empty_db)"

theorem drop_invalid_clears_witness:
  "list_ex (\<lambda>x. ar_id x = 1 \<and> (ar_status x = AR_removed \<or> ar_status x = AR_not_needed)) (db_approvers cleared_db)"
proof -
  have "case drop_invalid example_env 90000000000 (hd (db_approvals departed_db)) departed_db of
      Inr (Some n, _) \<Rightarrow> n = 1 | _ \<Rightarrow> False" by code_simp
  then have run: "drop_invalid example_env 90000000000 (hd (db_approvals departed_db)) departed_db = Inr (Some 1, cleared_db)"
    by (auto simp: cleared_db_def split: sum.splits option.splits prod.splits)
  let ?r = "hd (db_approvers departed_db)"
  have r: "?r \<in> set (db_approvers departed_db)" "ar_approval_id ?r = ap_id (hd (db_approvals departed_db))" "ar_status ?r = AR_pending"
    "ar_user_id ?r = Some 7" "agent_valid (db_znuny departed_db) 7 \<noteq> Some 1" "ar_id ?r = 1" "db_ok departed_db"
    by code_simp+
  from drop_invalid_clears [OF run r(7) r(1-5)] r(6) show ?thesis by (auto simp: list_ex_iff)
qed

end
