(* ===== verification/Approval_Growth.thy ===== *)
theory Approval_Growth
  imports Approval_Pauses
begin

text \<open>
  No operation ever removes a request: the list of their ids only grows, and by exactly the requests that
  are created. One lemma per operation of the service and the sweep.
\<close>

definition grows :: "approval_db \<Rightarrow> approval_db \<Rightarrow> bool" where
  "grows db db' \<longleftrightarrow> prefix (map ap_id (db_approvals db)) (map ap_id (db_approvals db'))"

lemma grows_refl [simp]: "grows db db"
  by (simp add: grows_def)

lemma grows_trans: "grows db db1 \<Longrightarrow> grows db1 db2 \<Longrightarrow> grows db db2"
  unfolding grows_def by (rule prefix_order.trans)

lemma grows_core: "core db1' = core db1 \<Longrightarrow> core db2' = core db2 \<Longrightarrow> grows db1' db2' = grows db1 db2"
  by (simp add: grows_def core_def)

lemma grows_same: "db_approvals db' = db_approvals db \<Longrightarrow> grows db db'"
  by (simp add: grows_def)

lemma grows_keeps: "engine_keeps db db' \<Longrightarrow> grows db db'"
  by (simp add: grows_def engine_keeps_def)

lemma grows_into: "grows db db' \<Longrightarrow> a \<in> set (db_approvals db) \<Longrightarrow> \<exists>a' \<in> set (db_approvals db'). ap_id a' = ap_id a"
  using set_mono_prefix [of "map ap_id (db_approvals db)" "map ap_id (db_approvals db')"]
  unfolding grows_def by fastforce

lemma res_fold_grows:
  assumes "res_fold f xs acc = Inr acc'" and "\<And>x c c'. f x c = Inr c' \<Longrightarrow> grows (p c) (p c')"
  shows "grows (p acc) (p acc')"
  by (rule res_fold_invariant [OF assms(1), where P = "\<lambda>c. grows (p acc) (p c)"]) (simp_all, rule grows_trans, assumption, rule assms(2))

lemma leave_grows [simp]: "grows db (leave env ids st red db)"
  by (rule grows_keeps [OF leave_keeps])

lemma added_row_grows: "add_approver env a s act now ra db = Inr (i, db') \<Longrightarrow> grows db db'"
  by (erule add_approver_InrE) (simp add: grows_same)

lemma finalize_grows: "finalize env a status reason act auto db = Inr db' \<Longrightarrow> grows db db'"
  by (rule grows_keeps [OF finalize_keeps])

section \<open>The service\<close>

lemma cancel_grows: "cancel_approval env i act reason chk db = Inr (r, db') \<Longrightarrow> grows db db'"
  by (erule cancel_finalizes) (rule finalize_grows)

lemma decide_grows:
  assumes dec: "decide env i act d ch comment approver_id token_id db = Inr (r, db')" and db: "db_ok db"
  shows "grows db db'"
  using dec db
proof (rule decide_parts)
  fix a row on_behalf s key p v db1 db2
  assume t: "vote_target env a act ch approver_id db = Inr (row, on_behalf, s, key, p)"
    and v: "core db1 = core (with_vote v (leave env [ar_id row] (decided_status d) token_id db))"
    and dead: "core db2 = core (leave env (dead_rows db1 (locked_approvers db (ap_id a)) (st_id s) key) AR_not_needed None db1)"
    and db2: "db_ok db2" "db_steps db2 = db_steps db"
    and settle: "settle_vote env a s (locked_approvers db (ap_id a)) act db2 = Inr db'"
  note T = vote_target_rows [OF t]
  let ?l = "leave env [ar_id row] (decided_status d) token_id db"
  have "grows ?l (with_vote v ?l)" by (rule grows_same) simp
  then have "grows db db1" using grows_trans [OF leave_grows] grows_core [OF refl v] by blast
  moreover have "grows db1 db2" using leave_grows grows_core [OF refl dead] by blast
  moreover have "grows db2 db'"
    using settle_vote_db_ok [OF settle db2(1)] T(4,5,7) db2(2) db by (intro grows_keeps) (simp add: db_ok_def)
  ultimately show ?thesis using grows_trans by blast
qed

lemma forward_grows: "forward env i approver_id act to_user db = Inr (new_id, db') \<Longrightarrow> grows db db'"
proof (erule forward_InrE)
  fix a uid row s target db1
  assume add: "add_approver env a s act (env_now env) \<lparr>ra_principal = target, ra_source_kind = S_forward,
       ra_source_ref = Some (str_int (ar_id row)), ra_source_label = None\<rparr> db = Inr (new_id, db1)"
    and core: "core db' = core (leave env [ar_id row] AR_forwarded None
       (upd_approvers (\<lambda>r. ar_id r = new_id) (\<lambda>r. r\<lparr>ar_decisive := ar_decisive row\<rparr>) db1))"
  let ?up = "upd_approvers (\<lambda>r. ar_id r = new_id) (\<lambda>r. r\<lparr>ar_decisive := ar_decisive row\<rparr>) db1"
  have "grows db1 ?up" by (rule grows_same) simp
  then have "grows db (leave env [ar_id row] AR_forwarded None ?up)"
    using grows_trans [OF added_row_grows [OF add] grows_trans [OF _ leave_grows]] by blast
  then show "grows db db'" using grows_core [OF refl core] by blast
qed

lemma remove_all_departed_grows: "grows db (fold (remove_departed env a s act) rs db)"
proof (induction rs arbitrary: db)
  case (Cons r rs)
  have "grows db (remove_departed env a s act r db)" using grows_core [OF refl remove_departed_core] leave_grows by blast
  then show ?case using Cons.IH grows_trans unfolding fold.simps comp_apply by blast
qed simp

lemma add_missing_grows: "add_missing env a s act ras keys db = Inr (ids, db') \<Longrightarrow> grows db db'"
proof -
  assume "add_missing env a s act ras keys db = Inr (ids, db')"
  then obtain ks where fold: "res_fold (\<lambda>ra (keys, ids, db).
         if principal_key (ra_principal ra) \<in> keys then Inr (keys, ids, db)
         else res_bind (add_approver env a s act (env_now env) ra db) (\<lambda>(i, db').
           Inr (insert (principal_key (ra_principal ra)) keys, ids @ [i], db')))
       ras (keys, [], db) = Inr (ks, ids, db')"
    by (auto simp: add_missing_def res_bind_Inr_iff)
  have "grows (snd (snd (keys, [] :: int list, db))) (snd (snd (ks, ids, db')))"
  proof (rule res_fold_grows [OF fold, where p = "\<lambda>c. snd (snd c)"])
    fix ra c c'
    assume "(case c of (keys, ids, db) \<Rightarrow> if principal_key (ra_principal ra) \<in> keys then Inr (keys, ids, db)
         else res_bind (add_approver env a s act (env_now env) ra db) (\<lambda>(i, db').
           Inr (insert (principal_key (ra_principal ra)) keys, ids @ [i], db'))) = Inr c'"
    then show "grows (snd (snd c)) (snd (snd c'))"
      by (cases c) (auto simp: res_bind_Inr_iff split: if_splits intro: added_row_grows)
  qed
  then show ?thesis by simp
qed

lemma refresh_step_grows: "refresh_step env a act approvers s (added, n, db) = Inr (added', n', db') \<Longrightarrow> grows db db'"
proof (erule refresh_step_InrE)
  fix rn db1 ids
  assume db1: "db1 = fold (remove_departed env a s act) (departed_rows rn (filter (\<lambda>r. ar_step_id r = st_id s) approvers))
       (audit_unresolved env a s rn act db)"
    and add: "add_missing env a s act (rn_approvers rn)
       (set (map ar_principal (filter (\<lambda>r. ar_step_id r = st_id s) approvers)) \<union> voters_in_step db1 (st_id s)) db1 =
     Inr (ids, db')"
  have "core (audit_unresolved env a s rn act db) = core db" by simp
  then have "grows db db1" using remove_all_departed_grows grows_core [OF _ refl] unfolding db1 by metis
  then show "grows db db'" using add_missing_grows [OF add] grows_trans by blast
qed

lemma refresh_grows:
  assumes ref: "refresh_approvers env i act db = Inr (r, db')" and db: "db_ok db"
  shows "grows db db'"
proof -
  have ok: "core_ok db" using db by (simp add: db_ok_def)
  from ref obtain a added removed db1 db3 where
    fold: "res_fold (refresh_step env a act (locked_approvers db (ap_id a)))
       (filter (\<lambda>s. st_status s = ST_active) (locked_steps db (ap_id a))) ([], 0, db) = Inr (added, removed, db1)"
    and reev: "reevaluate_steps env a (filter (\<lambda>s. st_status s = ST_active) (locked_steps db (ap_id a))) act (env_now env)
       (audit_record env a A_refreshed act None None None
          [(''added'', JInt (int (length added))), (''removed'', JInt (int removed))] db1) = Inr db3"
    and core: "core db' = core db3"
    by (rule refresh_approvers_InrE)
  let ?ss = "filter (\<lambda>s. st_status s = ST_active) (locked_steps db (ap_id a))"
  let ?db2 = "audit_record env a A_refreshed act None None None
          [(''added'', JInt (int (length added))), (''removed'', JInt (int removed))] db1"
  have "grows (snd (snd ([] :: int list, 0 :: nat, db))) (snd (snd (added, removed, db1)))"
  proof (rule res_fold_grows [OF fold, where p = "\<lambda>c. snd (snd c)"])
    fix x c c'
    assume "refresh_step env a act (locked_approvers db (ap_id a)) x c = Inr c'"
    then show "grows (snd (snd c)) (snd (snd c'))" by (cases c, cases c') (auto intro: refresh_step_grows)
  qed
  then have one: "grows db db1" by simp
  have dist: "distinct (map st_id ?ss)" using locked_distinct(2) [OF ok] by (simp add: distinct_map_filter)
  have ready: "\<forall>s \<in> set ?ss. s \<in> set (db_steps db) \<and> st_approval_id s = ap_id a \<and> st_status s = ST_active"
      "\<forall>r \<in> set (locked_approvers db (ap_id a)). ar_approval_id r = ap_id a"
      "\<forall>r \<in> set (locked_approvers db (ap_id a)). ar_step_id r \<in> st_id ` set ?ss \<longrightarrow> r \<in> set (db_approvers db)"
    by simp_all
  note db1 = refresh_steps_db_ok [OF fold db ready(1) dist locked_distinct(1) [OF ok] ready(2,3)]
  have core2: "core ?db2 = core db1" by simp
  have db2: "db_ok ?db2" using db1 db_ok_cong [OF core2] by simp
  have own: "\<forall>s \<in> set ?ss. owns_step ?db2 (ap_id a) (st_id s)"
    using db1 core_eqD(2) [OF core2] by (auto simp: owns_step_def)
  have "engine_keeps ?db2 db3" using reevaluate_steps_db_ok [OF reev db2 own] by blast
  then have "grows ?db2 db3" by (rule grows_keeps)
  then have "grows db1 db'" using grows_core [OF core2 refl] grows_core [OF refl core] by blast
  then show ?thesis using one grows_trans by blast
qed

section \<open>New requests\<close>

lemma insert_approval_grows: "grows db (insert_approval a db)"
  by (simp add: grows_def insert_approval_def)

lemma supersede_grows: "supersede env olds n act db = Inr db' \<Longrightarrow> grows db db'"
proof -
  assume sup: "supersede env olds n act db = Inr db'"
  have up: "grows d (upd_approvals (\<lambda>a. ap_id a = i) (\<lambda>a. a\<lparr>ap_superseded_by := m\<rparr>) d)" for d i m
    by (simp add: grows_def map_upd_where)
  show ?thesis
    by (rule res_fold_grows [OF sup [unfolded supersede_def], where p = "\<lambda>d. d"]) (auto intro: grows_trans [OF up finalize_grows])
qed

lemma request_grows: "request_approval env rq act db = Inr (r, db') \<Longrightarrow> grows db db'"
proof (erule request_approval_InrE)
  fix d :: approval_definition and a :: approval and olds
  assume "start_request env a olds (length (d_steps d)) act (insert_steps a 1 (d_steps d) (insert_approval a db)) = Inr db'"
  then obtain db2 db3 ids db4 where sup: "supersede env olds (ap_id a) act (insert_steps a 1 (d_steps d) (insert_approval a db)) = Inr db2"
      and core3: "core db3 = core db2" and next_stage: "activate_next_stage env a act db3 = Inr (ids, db4)"
      and core4: "core db' = core db4"
    by (rule start_request_parts)
  obtain added where "activate_loop env a act [] db3 = Inr (added, db4)" using next_stage by (rule activate_next_stage_loop)
  then have "grows db3 db4" by (intro grows_keeps activate_loop_keeps)
  then have "grows db2 db'" using grows_core [OF core3 refl] grows_core [OF refl core4] by blast
  moreover have "grows db (insert_steps a 1 (d_steps d) (insert_approval a db))"
    using insert_approval_grows by (simp add: grows_def)
  ultimately show "grows db db'" using supersede_grows [OF sup] grows_trans by blast
qed

lemma auto_decision_grows: "record_auto_decision env rq status reason act db = Inr (r, db') \<Longrightarrow> grows db db'"
  by (erule record_auto_decision_InrE) (blast intro: grows_trans insert_approval_grows supersede_grows finalize_grows)

section \<open>Links\<close>

lemma issue_link_grows: "issue_link env i tok db = Inr (t, db') \<Longrightarrow> grows db db'"
  by (erule issue_link_InrE) (rule grows_same)

lemma redeem_grows:
  assumes red: "redeem_link env tok d comment db = Inr (r, db')" and db: "db_ok db"
  shows "grows db db'"
  using red
proof (rule redeem_link_InrE)
  fix k target db1 act
  assume cons: "consume_link env (lt_token_id target) db = Inr db1"
    and dec: "decide env (tk_approval_id k) act d Ch_email comment (Some (lt_approver_id target))
      (Some (lt_token_id target)) db1 = Inr (r, db')"
  note C = consume_link_ok [OF cons db]
  have "grows db db1" using cons by (auto simp: consume_link_def Let_def grows_def split: if_splits)
  then show ?thesis using decide_grows [OF dec C(1)] grows_trans by blast
qed

section \<open>The sweep\<close>

lemma make_decisive_grows [simp]: "grows db (make_decisive i db)"
  by (rule grows_same) (simp add: make_decisive_def)

lemma escalate_grows:
  assumes "escalate env a s approvers now db = Inr (ids, db')" shows "grows db db'"
proof -
  from assms obtain rn m where fold: "res_fold (escalate_one env a s (voters_in_step (audit_unresolved env a s rn actor_system
        (audit_excluded env a s rn actor_system db)) (st_id s)) now) (rn_approvers rn)
        (escalation_rows s approvers, [], audit_unresolved env a s rn actor_system (audit_excluded env a s rn actor_system db)) =
        Inr (m, ids, db')"
    by (auto simp: escalate_def res_bind_Inr_iff Let_def)
  let ?db1 = "audit_unresolved env a s rn actor_system (audit_excluded env a s rn actor_system db)"
  have "grows (snd (snd (escalation_rows s approvers, [] :: int list, ?db1))) (snd (snd (m, ids, db')))"
  proof (rule res_fold_grows [OF fold, where p = "\<lambda>c. snd (snd c)"])
    fix ra c c'
    assume "escalate_one env a s (voters_in_step ?db1 (st_id s)) now ra c = Inr c'"
    then show "grows (snd (snd c)) (snd (snd c'))"
      by (cases c) (auto simp: escalate_one_def res_bind_Inr_iff Let_def split: if_splits option.splits prod.splits
        intro: grows_trans [OF added_row_grows make_decisive_grows])
  qed
  then show ?thesis using grows_core [of ?db1 db db' db'] by simp
qed

lemma overdue_grows:
  assumes "overdue env step_id now a db = Inr (t, db')" and db: "db_ok db"
  shows "grows db db'"
  using assms(1)
proof (cases rule: overdue_InrE)
  case (handled s db1)
  have active: "st_status s = ST_active" using handled(4) by (simp add: overdue_step_def)
  have one: "grows db db1" unfolding handled(5) by (rule grows_same) simp
  have "db_ok db1"
    unfolding handled(5)
  proof (rule keeps_flow_steps(1) [OF _ _ db])
    show "keeps_flow (\<lambda>x. x\<lparr>st_overdue_at := Some now\<rparr>)" by (simp add: keeps_flow_def)
    show "st_status x = ST_active" if "x \<in> set (db_steps db)" "st_id x = st_id s" for x
      using step_id_approval [OF _ handled(1) that] active db by (simp add: db_ok_def)
  qed
  from handled(7) consider "core db' = core db1"
    | ids db2 where "escalate env a s (locked_approvers_in db (ap_id a) [st_id s]) now db1 = Inr (ids, db2)" "core db' = core db2"
    | outcome d where "outcome = ST_approved \<or> outcome = ST_rejected" "core d = core db1"
        "close_step env a s outcome ''timeout'' actor_system now d = Inr db'"
    by blast
  then have "grows db1 db'"
  proof cases
    case 1
    then show ?thesis using grows_core [OF refl 1] grows_refl by blast
  next
    case 2
    then show ?thesis using grows_core [OF refl 2(2)] escalate_grows [OF 2(1)] by blast
  next
    case 3
    have d: "db_ok d" using \<open>db_ok db1\<close> db_ok_cong [OF 3(2)] by simp
    have "s\<lparr>st_overdue_at := Some now\<rparr> \<in> set (db_steps d)"
      unfolding core_eqD(2) [OF 3(2)] handled(5)
      using upd_where_hit [OF handled(1), of "\<lambda>x. st_id x = st_id s" "\<lambda>x. x\<lparr>st_overdue_at := Some now\<rparr>"] by simp
    then have "engine_keeps d db'" using close_step_db_ok [OF d _ _ _ _ 3(1,3)] handled(2) active by force
    then show ?thesis using grows_keeps grows_core [OF 3(2) refl] by blast
  qed
  then show ?thesis using one grows_trans by blast
qed simp

lemma remind_grows:
  assumes "remind env step_id now a db = Inr (t, db')" shows "grows db db'"
  using assms
proof (cases rule: remind_InrE)
  case (sent s n)
  have "grows db (upd_steps (\<lambda>x. st_id x = st_id s)
      (\<lambda>x. x\<lparr>st_last_reminder_at := Some now, st_reminder_count := st_reminder_count x + 1\<rparr>) db)"
    by (rule grows_same) simp
  then show ?thesis using grows_core [OF refl sent(10)] by blast
qed simp_all

lemma drop_invalid_grows:
  assumes "drop_invalid env now a db = Inr (t, db')" and db: "db_ok db"
  shows "grows db db'"
proof (cases "dropped_rows db a = []")
  case True
  then show ?thesis using assms by (simp add: drop_invalid_def)
next
  case False
  let ?steps = "filter (\<lambda>s. st_status s = ST_active \<and> st_id s \<in> ar_step_id ` fst ` set (dropped_rows db a)) (locked_steps db (ap_id a))"
  let ?d = "drop_rows env a (dropped_rows db a) db"
  from assms False have reev: "reevaluate_steps env a ?steps actor_system now ?d = Inr db'"
    by (auto simp: drop_invalid_def Let_def res_bind_Inr_iff)
  have "grows x (fold (\<lambda>(r, st). leave env [ar_id r] st None) xs x)" for x and xs :: "(approver_row \<times> approver_status) list"
  proof (induction xs arbitrary: x)
    case (Cons y xs)
    then show ?case using grows_trans [OF leave_grows] by (cases y) (simp only: fold.simps comp_apply prod.case, blast)
  qed simp
  then have one: "grows db ?d" using grows_core [OF refl drop_rows_core] by blast
  note R = drop_rows_ok [OF db, of env a]
  have "\<forall>s \<in> set ?steps. owns_step ?d (ap_id a) (st_id s)" using R by (auto simp: owns_step_def)
  then have "engine_keeps ?d db'" using reevaluate_steps_db_ok [OF reev] R by blast
  then show ?thesis using one grows_keeps grows_trans by blast
qed

end
