(* ===== verification/Approval_System.thy ===== *)
theory Approval_System
  imports Approval_Growth
begin

text \<open>
  The approval module as one system. Every transaction of the service, of a link and of the sweep is a step
  of \<open>service_step\<close>; whatever else happens to the database (tickets, users, delegations, lists, templates)
  is a step that leaves the tables of the requests alone. The operations share one contract, the locale
  \<open>lasting_operation\<close>; every operation of the service is an interpretation of it, and the properties of the
  reachable databases are read off the contract.
\<close>

section \<open>What every transaction guarantees\<close>

text \<open>
  An approver row but for the time of the last mail to the approver, which the mail job writes whatever became of
  the request meanwhile
\<close>

definition but_mail :: "approver_row \<Rightarrow> approver_row" where
  "but_mail r = r\<lparr>ar_last_notified_at := None\<rparr>"

lemma but_mail_eqD:
  assumes "but_mail r' = but_mail r"
  shows "ar_id r' = ar_id r" "ar_approval_id r' = ar_approval_id r" "ar_step_id r' = ar_step_id r"
    "ar_status r' = ar_status r" "ar_principal r' = ar_principal r"
  using arg_cong [OF assms, of ar_id] arg_cong [OF assms, of ar_approval_id] arg_cong [OF assms, of ar_step_id]
    arg_cong [OF assms, of ar_status] arg_cong [OF assms, of ar_principal]
  by (simp_all add: but_mail_def)

text \<open>The rows of a request but its links and those times, in every table\<close>

definition settled :: "int \<Rightarrow> approval_db \<Rightarrow> approval_db \<Rightarrow> bool" where
  "settled i db db' \<longleftrightarrow>
     filter (\<lambda>a. ap_id a = i) (db_approvals db') = filter (\<lambda>a. ap_id a = i) (db_approvals db) \<and>
     filter (\<lambda>s. st_approval_id s = i) (db_steps db') = filter (\<lambda>s. st_approval_id s = i) (db_steps db) \<and>
     map but_mail (filter (\<lambda>r. ar_approval_id r = i) (db_approvers db')) =
       map but_mail (filter (\<lambda>r. ar_approval_id r = i) (db_approvers db)) \<and>
     filter (\<lambda>v. vt_approval_id v = i) (db_votes db') = filter (\<lambda>v. vt_approval_id v = i) (db_votes db)"

lemma settled_refl [simp]: "settled i db db"
  by (simp add: settled_def)

lemma settled_trans: "settled i db db1 \<Longrightarrow> settled i db1 db2 \<Longrightarrow> settled i db db2"
  by (simp add: settled_def)

lemma untouched_settled: "untouched i db db' \<Longrightarrow> settled i db db'"
  by (simp add: untouched_def settled_def)

text \<open>The invariant of a database between two transactions.\<close>

definition at_rest :: "approval_db \<Rightarrow> bool" where
  "at_rest db \<longleftrightarrow> db_ok db \<and> waits {} db"

text \<open>The order of \<open>Approval_History\<close>, but for the times of the last mails\<close>

definition moved_on :: "approval_db \<Rightarrow> approval_db \<Rightarrow> bool" where
  "moved_on db db' \<longleftrightarrow>
     (\<forall>a \<in> set (db_approvals db). ap_status a \<noteq> AP_pending \<longrightarrow> a \<in> set (db_approvals db')) \<and>
     (\<forall>s \<in> set (db_steps db). \<not> is_open s \<longrightarrow> s \<in> set (db_steps db')) \<and>
     (\<forall>r \<in> set (db_approvers db). ar_status r \<noteq> AR_pending \<longrightarrow> (\<exists>r' \<in> set (db_approvers db'). but_mail r' = but_mail r)) \<and>
     prefix (db_votes db) (db_votes db') \<and> links_later db db'"

lemma later_moved_on: "later db db' \<Longrightarrow> moved_on db db'"
  by (auto simp: later_def moved_on_def)

lemma moved_on_refl [simp]: "moved_on db db"
  by (simp add: later_moved_on)

lemma moved_on_links: "moved_on db db' \<Longrightarrow> links_later db db'"
  by (simp add: moved_on_def)

lemma moved_on_trans:
  assumes "moved_on db db1" "moved_on db1 db2" shows "moved_on db db2"
proof -
  have "\<exists>r2 \<in> set (db_approvers db2). but_mail r2 = but_mail r"
    if r: "r \<in> set (db_approvers db)" "ar_status r \<noteq> AR_pending" for r
  proof -
    from assms(1) r obtain r1 where "r1 \<in> set (db_approvers db1)" "but_mail r1 = but_mail r" by (auto simp: moved_on_def)
    moreover from this(2) r(2) have "ar_status r1 \<noteq> AR_pending" using but_mail_eqD(4) by metis
    ultimately show ?thesis using assms(2) by (metis moved_on_def)
  qed
  then show ?thesis using assms unfolding moved_on_def by (auto intro: prefix_order.trans links_later_trans)
qed

definition proceeds :: "approval_db \<Rightarrow> approval_db \<Rightarrow> bool" where
  "proceeds db db' \<longleftrightarrow> at_rest db' \<and> moved_on db db' \<and> grows db db' \<and>
     (\<forall>a \<in> set (db_approvals db). ap_status a \<noteq> AP_pending \<longrightarrow> settled (ap_id a) db db')"

lemma moved_on_closed: "moved_on db db' \<Longrightarrow> a \<in> set (db_approvals db) \<Longrightarrow> ap_status a \<noteq> AP_pending \<Longrightarrow> a \<in> set (db_approvals db')"
  by (simp add: moved_on_def)

lemma proceeds_refl: "at_rest db \<Longrightarrow> proceeds db db"
  by (simp add: proceeds_def)

lemma proceeds_trans:
  assumes "proceeds db db1" "proceeds db1 db2" shows "proceeds db db2"
proof -
  have "settled (ap_id a) db db2" if "a \<in> set (db_approvals db)" "ap_status a \<noteq> AP_pending" for a
    using assms that moved_on_closed [of db db1 a] settled_trans by (auto simp: proceeds_def)
  then show ?thesis using assms moved_on_trans grows_trans by (auto simp: proceeds_def)
qed

text \<open>An operation on requests that are pending, or that it creates.\<close>

locale lasting_operation = service_operation op pre touches
  for op :: "'x \<Rightarrow> approval_db \<Rightarrow> ('r \<times> approval_db) res" and pre touches +
  assumes onward: "db_ok db \<Longrightarrow> pre x db \<Longrightarrow> op x db = Inr (r, db') \<Longrightarrow> later db db'"
    and alive: "db_ok db \<Longrightarrow> waits {} db \<Longrightarrow> pre x db \<Longrightarrow> op x db = Inr (r, db') \<Longrightarrow> waits {} db'"
    and growing: "db_ok db \<Longrightarrow> pre x db \<Longrightarrow> op x db = Inr (r, db') \<Longrightarrow> grows db db'"
    and open_only: "db_ok db \<Longrightarrow> pre x db \<Longrightarrow> op x db = Inr (r, db') \<Longrightarrow>
      a \<in> set (db_approvals db) \<Longrightarrow> ap_id a \<in> touches x db \<Longrightarrow> ap_status a = AP_pending"
begin

lemma proceeds:
  assumes "at_rest db" "pre x db" "op x db = Inr (r, db')" shows "proceeds db db'"
proof -
  have db: "db_ok db" "waits {} db" using assms(1) by (simp_all add: at_rest_def)
  have "settled (ap_id a) db db'" if "a \<in> set (db_approvals db)" "ap_status a \<noteq> AP_pending" for a
    using frame [OF db(1) assms(2,3)] open_only [OF db(1) assms(2,3) that(1)] that(2) untouched_settled by blast
  then show ?thesis
    using keeps [OF db(1) assms(2,3)] alive [OF db assms(2,3)] later_moved_on [OF onward [OF db(1) assms(2,3)]] growing [OF db(1) assms(2,3)]
    by (simp add: proceeds_def at_rest_def)
qed

text \<open>So does a sequence of such operations.\<close>

lemma run_proceeds:
  assumes "res_fold (\<lambda>x db. res_bind (op x db) (\<lambda>(_, db'). Inr db')) xs db = Inr db'" and "at_rest db"
    and "\<And>x d. x \<in> set xs \<Longrightarrow> pre x d"
  shows "proceeds db db'"
proof (rule res_fold_invariant [OF assms(1), where P = "proceeds db"])
  show "proceeds db db" using assms(2) by (rule proceeds_refl)
next
  fix x d d'
  assume x: "x \<in> set xs" and d: "proceeds db d" and step: "res_bind (op x d) (\<lambda>(_, db'). Inr db') = Inr d'"
  from step obtain r where "op x d = Inr (r, d')" by (auto simp: res_bind_Inr_iff)
  moreover have "at_rest d" using d by (simp add: proceeds_def)
  ultimately have "proceeds d d'" using proceeds [OF _ assms(3) [OF x]] by blast
  with d show "proceeds db d'" by (rule proceeds_trans)
qed

end

text \<open>The only request with the id of a row is the row itself.\<close>

lemma same_request:
  assumes "db_ok db" "a \<in> set (db_approvals db)" "b \<in> set (db_approvals db)" "ap_id a = ap_id b"
  shows "a = b"
  using approvals.same_key_same_row [OF core_ok_distinct(1) assms(2-4)] assms(1) by (simp add: db_ok_def)

lemma locked_pending:
  assumes "db_ok db" "lock_approval db i = Inr b" "ap_status b = AP_pending" "a \<in> set (db_approvals db)" "ap_id a = i"
  shows "ap_status a = AP_pending"
  using same_request [OF assms(1,4) lock_approval_row(1) [OF assms(2)]] lock_approval_row(2) [OF assms(2)] assms(3,5) by simp

lemma request_touches_pending:
  assumes "db_ok db" "a \<in> set (db_approvals db)" "ap_id a \<in> request_touches rq db"
  shows "ap_status a = AP_pending"
proof -
  have "ap_id a \<noteq> seq_approval db"
    using assms(1,2) by (auto simp: db_ok_def core_ok_def keys_ok_def fresh_ids_def)
  then obtain x where "x \<in> set (db_approvals db)" "ap_status x = AP_pending" "ap_id a = ap_id x"
    using assms(3) by (auto simp: request_touches_def split: if_splits)
  then show ?thesis using same_request [OF assms(1,2)] by metis
qed

section \<open>Every operation of the service\<close>

interpretation cancelling: lasting_operation
  "\<lambda>(env, i, act, reason, chk). cancel_approval env i act reason chk" "\<lambda>_ _. True"
  "\<lambda>x _. {(\<lambda>(env, i, act, reason, chk). i) x}"
proof unfold_locales
  fix db db' :: approval_db and x r
  assume db: "db_ok db" and run: "(\<lambda>(env, i, act, reason, chk). cancel_approval env i act reason chk) x db = Inr (r, db')"
  obtain env i act reason chk where x: "x = (env, i, act, reason, chk)" by (metis prod_cases5)
  note op = run [unfolded x prod.case]
  show "later db db'" by (rule cancel_later [OF op db])
  show "waits {} db'" if "waits {} db" by (rule cancel_waits [OF op that])
  show "grows db db'" by (rule cancel_grows [OF op])
  show "ap_status a = AP_pending" if "a \<in> set (db_approvals db)" "ap_id a \<in> {(\<lambda>(env, i, act, reason, chk). i) x}" for a
  proof -
    from op obtain b where "b \<in> set (db_approvals db)" "ap_id b = i" "ap_status b = AP_pending" by (rule cancel_finalizes)
    then show ?thesis using same_request [OF db that(1)] that(2) by (simp add: x)
  qed
qed

interpretation deciding: lasting_operation
  "\<lambda>(env, i, act, d, ch, comment, approver_id, token_id). decide env i act d ch comment approver_id token_id" "\<lambda>_ _. True"
  "\<lambda>x _. {(\<lambda>(env, i, act, d, ch, comment, approver_id, token_id). i) x}"
proof unfold_locales
  fix db db' :: approval_db and x r
  assume db: "db_ok db" and run: "(\<lambda>(env, i, act, d, ch, comment, approver_id, token_id).
    decide env i act d ch comment approver_id token_id) x db = Inr (r, db')"
  obtain env i act d ch comment approver_id token_id where x: "x = (env, i, act, d, ch, comment, approver_id, token_id)"
    by (cases x) auto
  note op = run [unfolded x prod.case]
  show "later db db'" by (rule decide_later [OF op db])
  show "waits {} db'" if "waits {} db" by (rule decide_waits [OF op db that])
  show "grows db db'" by (rule decide_grows [OF op db])
  show "ap_status a = AP_pending" if "a \<in> set (db_approvals db)"
      "ap_id a \<in> {(\<lambda>(env, i, act, d, ch, comment, approver_id, token_id). i) x}" for a
    using op by (rule decide_InrE) (rule locked_pending [OF db _ _ that(1)], use that(2) x in auto)
qed

interpretation forwarding: lasting_operation
  "\<lambda>(env, i, approver_id, act, to_user). forward env i approver_id act to_user" "\<lambda>_ _. True"
  "\<lambda>x _. {(\<lambda>(env, i, approver_id, act, to_user). i) x}"
proof unfold_locales
  fix db db' :: approval_db and x r
  assume db: "db_ok db" and run: "(\<lambda>(env, i, approver_id, act, to_user). forward env i approver_id act to_user) x db = Inr (r, db')"
  obtain env i approver_id act to_user where x: "x = (env, i, approver_id, act, to_user)" by (metis prod_cases5)
  note op = run [unfolded x prod.case]
  show "later db db'" by (rule forward_later [OF op db])
  show "waits {} db'" if "waits {} db" by (rule forward_waits [OF op db that])
  show "grows db db'" by (rule forward_grows [OF op])
  show "ap_status a = AP_pending" if "a \<in> set (db_approvals db)" "ap_id a \<in> {(\<lambda>(env, i, approver_id, act, to_user). i) x}" for a
    using op by (rule forward_InrE) (rule locked_pending [OF db _ _ that(1)], use that(2) x in auto)
qed

interpretation refreshing: lasting_operation
  "\<lambda>(env, i, act). refresh_approvers env i act" "\<lambda>_ _. True" "\<lambda>x _. {(\<lambda>(env, i, act). i) x}"
proof unfold_locales
  fix db db' :: approval_db and x r
  assume db: "db_ok db" and run: "(\<lambda>(env, i, act). refresh_approvers env i act) x db = Inr (r, db')"
  obtain env i act where x: "x = (env, i, act)" by (metis prod_cases3)
  note op = run [unfolded x prod.case]
  show "later db db'" by (rule refresh_later [OF op db])
  show "waits {} db'" if "waits {} db" by (rule refresh_waits [OF op db that])
  show "grows db db'" by (rule refresh_grows [OF op db])
  show "ap_status a = AP_pending" if "a \<in> set (db_approvals db)" "ap_id a \<in> {(\<lambda>(env, i, act). i) x}" for a
    using op by (rule refresh_approvers_InrE) (rule locked_pending [OF db _ _ that(1)], use that(2) x in auto)
qed

interpretation requesting: lasting_operation
  "\<lambda>(env, rq, act). request_approval env rq act"
  "\<lambda>(env, rq, act) db. has_steps (rq_definition rq) \<and> templates_ok db" "\<lambda>(env, rq, act) db. request_touches rq db"
  by unfold_locales (auto dest: request_later request_waits request_grows request_touches_pending)

interpretation auto_deciding: lasting_operation
  "\<lambda>(env, rq, status, reason, act). record_auto_decision env rq status reason act" "\<lambda>_ _. True"
  "\<lambda>(env, rq, status, reason, act) db. request_touches rq db"
  by unfold_locales (auto dest: auto_decision_later auto_decision_waits auto_decision_grows request_touches_pending)

lemma issue_link_core:
  assumes issue: "issue_link env i tok db = Inr (t, db')" and db: "db_ok db"
  shows "db_ok db'" "later db db'" "get_approver db i = Some row \<Longrightarrow> j \<noteq> ar_approval_id row \<Longrightarrow> untouched j db db'"
proof -
  have ok: "core_ok db" using db by (simp add: db_ok_def)
  from issue obtain row' a s where rows: "get_approver db i = Some row'" "get_approval db (ar_approval_id row') = Some a"
    and tables: "db_approvals db' = db_approvals db" "db_steps db' = db_steps db" "db_approvers db' = db_approvers db"
      "db_votes db' = db_votes db" "seq_token db' = seq_token db + 1"
    and toks: "db_tokens db' = upd_where (\<lambda>k. tk_id k \<in> set (stale_links env i db))
        (\<lambda>k. k\<lparr>tk_revoked_at := Some (token_now env)\<rparr>) (db_tokens db) @
      [\<lparr>tk_id = seq_token db, tk_approval_id = ap_id a, tk_approver_id = i,
        tk_ticket_id = ap_ticket_id a, tk_hash = link_digest env tok, tk_created_at = token_now env,
        tk_expires_at = link_expiry env s, tk_used_at = None, tk_revoked_at = None\<rparr>]"
    by (rule issue_link_InrE)
  show "db_ok db'" by (rule db_ok_same_steps [OF db issue_link_ok [OF ok issue]]) (use tables in simp_all)
  have stale: "tk_approver_id k = i \<and> live k"
    if k: "k \<in> set (db_tokens db)" "tk_id k \<in> set (stale_links env i db)" for k
  proof -
    obtain x where x: "x \<in> set (db_tokens db)" "tk_id x = tk_id k" "tk_approver_id x = i" "redeemable (token_now env) x"
      using subsetD [OF stale_links_ids k(2)] by auto
    have "x = k" using tokens.same_key_same_row [OF core_ok_distinct(4) [OF ok] x(1) k(1) x(2)] .
    with x show ?thesis by (simp add: redeemable_def)
  qed
  show "later db db'"
    unfolding later_def links_later_def
  proof (intro conjI ballI impI)
    fix k' assume k': "k' \<in> set (db_tokens db')" "tk_id k' < seq_token db"
    then have "k' \<in> set (upd_where (\<lambda>k. tk_id k \<in> set (stale_links env i db))
        (\<lambda>k. k\<lparr>tk_revoked_at := Some (token_now env)\<rparr>) (db_tokens db))" by (auto simp: toks)
    then show "\<exists>k \<in> set (db_tokens db). link_later k k'"
      using stale by (elim upd_whereE) (auto simp: link_later_def live_def)
  qed (simp_all add: tables)
  assume row: "get_approver db i = Some row" "j \<noteq> ar_approval_id row"
  have "ap_id a = ar_approval_id row" using rows row(1) approvals.get_SomeD [OF rows(2)] by simp
  moreover have "tk_approval_id k = ar_approval_id row" if k: "k \<in> set (db_tokens db)" "tk_id k \<in> set (stale_links env i db)" for k
    using core_ok_token_approver [OF ok k(1)] approvers.get_SomeD [OF row(1)] stale [OF k] by simp
  ultimately show "untouched j db db'"
    using row(2) tables by (auto simp: untouched_def toks intro!: filter_upd_where_members)
qed

interpretation issuing: lasting_operation
  "\<lambda>(env, i, tok). issue_link env i tok" "\<lambda>_ _. True"
  "\<lambda>(env, i, tok) db. (case get_approver db i of None \<Rightarrow> {} | Some row \<Rightarrow> {ar_approval_id row})"
proof unfold_locales
  fix db db' :: approval_db and x r
  assume db: "db_ok db" and run: "(\<lambda>(env, i, tok). issue_link env i tok) x db = Inr (r, db')"
  obtain env i tok where x: "x = (env, i, tok)" by (metis prod_cases3)
  note op = run [unfolded x prod.case]
  from op obtain row a where row: "get_approver db i = Some row" "get_approval db (ar_approval_id row) = Some a" "ap_status a = AP_pending"
    by (rule issue_link_InrE)
  show "db_ok db'" "later db db'" by (rule issue_link_core [OF op db])+
  show "waits {} db'" if "waits {} db" by (rule issue_link_waits [OF op that])
  show "grows db db'" by (rule issue_link_grows [OF op])
  show "untouched j db db'"
    if "j \<notin> (\<lambda>(env, i, tok) db. case get_approver db i of None \<Rightarrow> {} | Some row \<Rightarrow> {ar_approval_id row}) x db" for j
    using that row issue_link_core(3) [OF op db row(1)] by (simp add: x)
  show "ap_status b = AP_pending" if b: "b \<in> set (db_approvals db)"
      "ap_id b \<in> (\<lambda>(env, i, tok) db. case get_approver db i of None \<Rightarrow> {} | Some row \<Rightarrow> {ar_approval_id row}) x db" for b
  proof -
    have "ap_id b = ap_id a" using b(2) row(1) approvals.get_SomeD [OF row(2)] by (simp add: x)
    then show ?thesis using same_request [OF db b(1)] approvals.get_SomeD [OF row(2)] row(3) by blast
  qed
qed

interpretation redeeming: lasting_operation
  "\<lambda>(env, tok, d, comment). redeem_link env tok d comment" "\<lambda>_ _. True"
  "\<lambda>(env, tok, d, comment) db. (case find_token env db tok of None \<Rightarrow> {} | Some k \<Rightarrow> {tk_approval_id k})"
proof unfold_locales
  fix db db' :: approval_db and x r
  assume db: "db_ok db" and run: "(\<lambda>(env, tok, d, comment). redeem_link env tok d comment) x db = Inr (r, db')"
  obtain env tok d comment where x: "x = (env, tok, d, comment)" by (metis prod_cases4)
  note op = run [unfolded x prod.case]
  from op db obtain k where k: "find_token env db tok = Some k" "db_ok db'" "later db db'" "others_same (tk_approval_id k) db db'"
    by (rule redeem_db_ok)
  show "db_ok db'" "later db db'" by (rule k)+
  show "waits {} db'" if "waits {} db" by (rule redeem_waits [OF op db that])
  show "grows db db'" by (rule redeem_grows [OF op db])
  show "untouched j db db'"
    if "j \<notin> (\<lambda>(env, tok, d, comment) db. case find_token env db tok of None \<Rightarrow> {} | Some k \<Rightarrow> {tk_approval_id k}) x db" for j
    using that others_same_untouched [OF k(4)] by (simp add: x k(1))
  show "ap_status b = AP_pending" if b: "b \<in> set (db_approvals db)"
      "ap_id b \<in> (\<lambda>(env, tok, d, comment) db. case find_token env db tok of None \<Rightarrow> {} | Some k \<Rightarrow> {tk_approval_id k}) x db" for b
    using op
  proof (rule redeem_link_InrE)
    fix k' target db1 act
    assume k': "find_token env db tok = Some k'" and cons: "consume_link env (lt_token_id target) db = Inr db1"
      and dec: "decide env (tk_approval_id k') act d Ch_email comment (Some (lt_approver_id target))
        (Some (lt_token_id target)) db1 = Inr (r, db')"
    have b1: "b \<in> set (db_approvals db1)" using b(1) consume_link_ok(3) [OF cons db] by simp
    show ?thesis
      using dec
      by (rule decide_InrE) (rule locked_pending [OF consume_link_ok(1) [OF cons db] _ _ b1], use b(2) k' k(1) x in auto)
  qed
qed

end
