(* ===== verification/Approval_Transitions.thy ===== *)
theory Approval_Transitions
  imports Approval_System
begin

text \<open>
  The transactions of the sweep, the step relation of the whole module and its invariants: a request that
  is pending waits for somebody, one that is decided is closed for good, and a link works once.
\<close>

section \<open>The transactions of the sweep\<close>

lemma item_proceeds:
  assumes rest: "at_rest db" and run: "item i work db = (t, db')"
    and work: "\<And>a t d. lock_approval db i = Inr a \<Longrightarrow> work a db = Inr (t, d) \<Longrightarrow> moves (ap_id a) db d \<and> grows db d"
  shows "proceeds db db'"
proof (cases "db' = db")
  case True
  then show ?thesis using proceeds_refl [OF rest] by simp
next
  case False
  then obtain a s where a: "lock_approval db i = Inr a" "ap_status a = AP_pending" and w: "work a db = Inr (Some s, db')"
    using run by (auto simp: item_def split: sum.splits option.splits if_splits)
  have M: "moves (ap_id a) db db'" "grows db db'" using work [OF a(1) w] by blast+
  have db: "db_ok db" "waits {} db" using rest by (simp_all add: at_rest_def)
  then have R: "db_ok db'" "others_same (ap_id a) db db'" "later db db'" "waits {} db'"
    using M(1) by (auto simp: moves_def)
  have "settled (ap_id b) db db'" if b: "b \<in> set (db_approvals db)" "ap_status b \<noteq> AP_pending" for b
    using locked_pending [OF db(1) a(1,2) b(1)] b(2) lock_approval_row(2) [OF a(1)]
      untouched_settled [OF others_same_untouched [OF R(2), of "ap_id b"]] by metis
  then show ?thesis using R M(2) later_moved_on by (simp add: proceeds_def at_rest_def)
qed

lemma cancel_moves:
  assumes "cancel_approval env i act reason chk db = Inr (r, db')" shows "moves i db db'"
proof (rule movesI)
  assume db: "db_ok db"
  note run = cancel_op.keeps_one [OF db, of "(env, i, act, reason, chk)"] cancel_op.frame_one [OF db, of "(env, i, act, reason, chk)"]
  show "db_ok db'" "others_same i db db'" using run assms by simp_all
  show "later db db'" by (rule cancel_later [OF assms db])
  show "waits {} db'" if "waits {} db" by (rule cancel_waits [OF assms that])
qed

lemma shift_timers_settled:
  assumes "db_ok db" "a \<in> set (db_approvals db)" "ap_status a \<noteq> AP_pending"
  shows "settled (ap_id a) db (shift_timers subject since seen d db)"
proof -
  have "\<not> pending_of_type db subject (ap_id a)"
  proof
    assume "pending_of_type db subject (ap_id a)"
    then obtain b where b: "get_approval db (ap_id a) = Some b" "ap_status b = AP_pending"
      by (auto simp: pending_of_type_def split: option.splits)
    then show False using same_request [OF assms(1,2)] approvals.get_SomeD [OF b(1)] assms(3) by metis
  qed
  then have "\<not> paused_step db subject seen s" if "st_approval_id s = ap_id a" for s
    using that by (simp add: paused_step_def)
  then have "filter (\<lambda>s. st_approval_id s = ap_id a) (upd_where (paused_step db subject seen) (shifted_step d) (db_steps db)) =
      filter (\<lambda>s. st_approval_id s = ap_id a) (db_steps db)"
    using shifted_step_keeps_flow by (intro filter_upd_where_members) (auto simp: keeps_flow_def)
  then show ?thesis by (simp add: settled_def) (simp add: shift_timers_def)
qed

lemma timer_step_proceeds:
  assumes "at_rest (snd acc)" shows "proceeds (snd acc) (snd (timer_step moment paused state key acc))"
proof -
  obtain n d where acc: "acc = (n, d)" by (cases acc)
  have "proceeds d (shift_timers key since seen t d)" for since seen t
    using assms shift_timers_ok(1,2) [of d key since seen t] shift_timers_ok(3) [of d "{}" key since seen t]
      shift_timers_settled [of d] grows_same [of "shift_timers key since seen t d" d] later_moved_on
    by (simp add: acc proceeds_def at_rest_def)
  then show ?thesis
    using proceeds_refl [OF assms] by (auto simp: acc timer_step_def split: option.splits timer_entry.splits)
qed

lemma run_timers_proceeds:
  assumes run: "run_timers env registered moment timers db = (f, n', db')" and rest: "at_rest db"
  shows "proceeds db db'"
proof -
  have fold: "proceeds db (snd acc) \<Longrightarrow> proceeds db (snd (fold (timer_step moment paused timers) keys acc))" for paused keys acc
  proof (induction keys arbitrary: acc)
    case (Cons key keys)
    have "at_rest (snd acc)" using Cons.prems by (simp add: proceeds_def)
    from proceeds_trans [OF Cons.prems timer_step_proceeds [OF this]] show ?case
      unfolding fold.simps comp_apply by (rule Cons.IH)
  qed simp
  from run obtain n where "fold (timer_step moment (\<lambda>k. \<not> set_enabled (env_settings env) \<or>
      k \<in> frozen_subject_types env db registered) timers) (subject_keys registered db) (\<lambda>_. None, db) = (n, db')"
    by (auto simp: run_timers_def Let_def split: prod.splits)
  moreover have "proceeds db (snd (fold (timer_step moment (\<lambda>k. \<not> set_enabled (env_settings env) \<or>
      k \<in> frozen_subject_types env db registered) timers) (subject_keys registered db) (\<lambda>_. None, db)))"
    by (rule fold) (simp add: proceeds_refl [OF rest])
  ultimately show ?thesis by simp
qed

lemma purge_proceeds:
  assumes run: "purge_old_links moment (c, db) = (c', db')" and rest: "at_rest db"
  shows "proceeds db db'"
proof -
  have db: "db_ok db" "waits {} db" and ok: "core_ok db" using rest by (simp_all add: at_rest_def db_ok_def)
  obtain p where db': "db' = db\<lparr>db_tokens := filter p (db_tokens db)\<rparr>"
    using run purge_links_eq [OF core_ok_distinct(4) [OF ok]] by (auto simp: purge_old_links_def)
  have "fresh_ids (map tk_id (filter p ks)) n" if "fresh_ids (map tk_id ks) n" for ks n
    using that by (auto simp: fresh_ids_def distinct_map_filter)
  then have "core_ok db'"
    using ok unfolding db' core_ok_def keys_ok_def refs_ok_def uniq_ok_def votes_ok_def approvers_flow_def steps_flow_def tokens_flow_def
    by simp
  then have "db_ok db'" by (rule db_ok_same_steps [OF db(1)]) (simp_all add: db')
  moreover have "\<exists>k \<in> set (db_tokens db). link_later k k'" if "k' \<in> set (db_tokens db')" for k'
    using that by (intro bexI [of _ k']) (simp_all add: db')
  then have "later db db'" by (simp add: later_def links_later_def db')
  then have "moved_on db db'" by (rule later_moved_on)
  ultimately show ?thesis using db(2) by (simp add: proceeds_def at_rest_def db' waits_def grows_def settled_def)
qed

section \<open>The other transactions\<close>

text \<open>Everything but the tables of the requests may change at any time.\<close>

definition same_requests :: "approval_db \<Rightarrow> approval_db \<Rightarrow> bool" where
  "same_requests db db' \<longleftrightarrow> db_approvals db' = db_approvals db \<and> db_steps db' = db_steps db \<and>
     db_approvers db' = db_approvers db \<and> db_votes db' = db_votes db \<and> db_tokens db' = db_tokens db \<and>
     seq_approval db' = seq_approval db \<and> seq_step db' = seq_step db \<and> seq_approver db' = seq_approver db \<and>
     seq_vote db' = seq_vote db \<and> seq_token db' = seq_token db"

lemma same_requests_proceeds:
  assumes same: "same_requests db db'" and rest: "at_rest db" shows "proceeds db db'"
proof -
  note eqs = same [unfolded same_requests_def]
  have "core_ok db' = core_ok db" unfolding core_ok_defs by (simp only: eqs)
  then have "core_ok db'" using rest by (simp add: at_rest_def db_ok_def)
  moreover have "db_ok db" using rest by (simp add: at_rest_def)
  ultimately have "db_ok db'" by (intro db_ok_same_steps [OF \<open>db_ok db\<close>]) (simp_all add: eqs)
  moreover have "moved_on db db'"
    using same by (intro later_moved_on) (auto simp: same_requests_def later_def intro!: links_later_same)
  ultimately show ?thesis using same rest by (simp add: proceeds_def at_rest_def same_requests_def waits_def grows_def settled_def)
qed

section \<open>The mail job\<close>

text \<open>
  \<open>_deliver\<close> writes around the SMTP dialogue, each in a transaction of its own: the audit row of a mail, with the time
  at which the approver was last written to where it was sent; or, where it was not, first the end of the link that
  was never mailed. The status of the request and of the row are not looked at again.
\<close>

definition mail_audit :: "approval_env \<Rightarrow> int \<Rightarrow> int option \<Rightarrow> json \<Rightarrow> approval_db \<Rightarrow> approval_db option" where
  "mail_audit env i approver detail db =
     map_option (\<lambda>a. audit_record env a A_notified actor_system None approver None detail db) (get_approval db i)"

definition mail_sent :: "approval_env \<Rightarrow> instant \<Rightarrow> int \<Rightarrow> int option \<Rightarrow> json \<Rightarrow> approval_db \<Rightarrow> approval_db option" where
  "mail_sent env now i approver detail db =
     map_option (\<lambda>db'. case approver of None \<Rightarrow> db'
         | Some j \<Rightarrow> upd_approvers (\<lambda>r. ar_id r = j) (\<lambda>r. r\<lparr>ar_last_notified_at := Some now\<rparr>) db')
       (mail_audit env i approver detail db)"

definition link_unsent :: "approval_env \<Rightarrow> string \<Rightarrow> approval_db \<Rightarrow> approval_db" where
  "link_unsent env digest db =
     upd_tokens (\<lambda>k. tk_hash k = digest) (\<lambda>k. k\<lparr>tk_revoked_at := Some (token_now env)\<rparr>) db"

lemma link_unsent_proceeds:
  assumes rest: "at_rest db" shows "proceeds db (link_unsent env digest db)"
proof -
  let ?db = "link_unsent env digest db"
  have db: "db_ok db" "waits {} db" using rest by (simp_all add: at_rest_def)
  have ok: "core_ok db" using db by (simp add: db_ok_def)
  have "core_ok (db\<lparr>db_approvers := upd_where (\<lambda>_. False) id (db_approvers db), db_tokens := db_tokens ?db\<rparr>)"
    by (rule approvers_tokens_ok [OF ok])
      (auto simp: link_unsent_def live_def elim!: upd_whereE intro!: map_upd_where)
  then have "core_ok ?db" by (simp add: link_unsent_def upd_tokens_def upd_where_none)
  then have "db_ok ?db" by (rule db_ok_same_steps [OF db(1)]) (simp_all add: link_unsent_def)
  moreover have "later db ?db" unfolding link_unsent_def by (rule upd_tokens_later) (simp add: link_later_def)
  ultimately show ?thesis
    using db(2) later_moved_on by (simp add: proceeds_def at_rest_def waits_def settled_def link_unsent_def grows_def)
qed

lemma mail_audit_proceeds:
  assumes rest: "at_rest db" and audit: "mail_audit env i approver detail db = Some db'" shows "proceeds db db'"
proof (rule same_requests_proceeds [OF _ rest])
  show "same_requests db db'" using audit by (auto simp: mail_audit_def same_requests_def audit_record_def)
qed

text \<open>The time of a mail is in no invariant.\<close>

lemma notified_proceeds:
  assumes rest: "at_rest db"
  shows "proceeds db (upd_approvers (\<lambda>r. ar_id r = j) (\<lambda>r. r\<lparr>ar_last_notified_at := Some now\<rparr>) db)"
proof -
  let ?f = "\<lambda>r. r\<lparr>ar_last_notified_at := Some now\<rparr>"
  let ?db = "upd_approvers (\<lambda>r. ar_id r = j) ?f db"
  have db: "db_ok db" "waits {} db" using rest by (simp_all add: at_rest_def)
  have ok: "core_ok db" using db by (simp add: db_ok_def)
  have "core_ok (db\<lparr>db_approvers := upd_where (\<lambda>r. ar_id r = j) ?f (db_approvers db), db_tokens := db_tokens db\<rparr>)"
    by (rule approvers_tokens_ok [OF ok]) simp_all
  then have "core_ok ?db" by (simp add: upd_approvers_def)
  then have "db_ok ?db" by (rule db_ok_same_steps [OF db(1)]) simp_all
  moreover have "waits {} ?db"
  proof -
    have "\<exists>x \<in> set (db_approvers ?db). ar_step_id x = st_id s \<and> ar_status x = AR_pending"
      if act: "s \<in> set (db_steps db)" "st_status s = ST_active" for s
    proof -
      obtain r where r: "r \<in> set (db_approvers db)" "ar_step_id r = st_id s" "ar_status r = AR_pending"
        using db(2) act unfolding waits_def by blast
      then have "(if ar_id r = j then ?f r else r) \<in> set (db_approvers ?db)" by (simp add: upd_where_hit upd_where_kept)
      then show ?thesis by (rule bexI [rotated]) (use r in simp)
    qed
    then show ?thesis by (simp add: waits_def)
  qed
  moreover have bm: "map but_mail (filter q (upd_where p ?f rs)) = map but_mail (filter q rs)"
    if "\<And>r. q (?f r) = q r" for p q and rs :: "approver_row list"
    using that by (induction rs) (simp_all add: but_mail_def)
  have "\<exists>r' \<in> set (upd_where p ?f rs). but_mail r' = but_mail r" if "r \<in> set rs" for p r and rs :: "approver_row list"
  proof -
    have "but_mail r \<in> set (map but_mail (upd_where p ?f rs))"
      using bm [of "\<lambda>_. True" p rs] that by simp
    then show ?thesis by force
  qed
  then have "moved_on db ?db" by (auto simp: moved_on_def intro!: links_later_same)
  moreover have "settled i db ?db" for i by (simp add: settled_def bm)
  ultimately show ?thesis by (simp add: proceeds_def at_rest_def grows_def)
qed

section \<open>The step relation\<close>

inductive service_step :: "approval_db \<Rightarrow> approval_db \<Rightarrow> bool" where
  requested: "has_steps (rq_definition rq) \<Longrightarrow> templates_ok db \<Longrightarrow> request_approval env rq act db = Inr (r, db') \<Longrightarrow> service_step db db'"
| auto_decided: "record_auto_decision env rq status reason act db = Inr (r, db') \<Longrightarrow> service_step db db'"
| cancelled: "cancel_approval env i act reason chk db = Inr (r, db') \<Longrightarrow> service_step db db'"
| decided: "decide env i act d ch comment approver_id token_id db = Inr (r', db') \<Longrightarrow> service_step db db'"
| forwarded: "forward env i approver_id act to_user db = Inr (new_id, db') \<Longrightarrow> service_step db db'"
| refreshed: "refresh_approvers env i act db = Inr (n, db') \<Longrightarrow> service_step db db'"
| link_issued: "issue_link env approver_id tok db = Inr (t, db') \<Longrightarrow> service_step db db'"
| redeemed: "redeem_link env tok d comment db = Inr (r', db') \<Longrightarrow> service_step db db'"
| orphan_cancelled: "cancel_item env key (c, db) = (c', db') \<Longrightarrow> service_step db db'"
| swept_overdue: "overdue_item env now key (c, db) = (c', db') \<Longrightarrow> service_step db db'"
| swept_reminder: "remind_item env now key (c, db) = (c', db') \<Longrightarrow> service_step db db'"
| swept_invalid: "drop_item env now i (c, db) = (c', db') \<Longrightarrow> service_step db db'"
| timers_moved: "run_timers env registered now timers db = (frozen, timers', db') \<Longrightarrow> service_step db db'"
| links_purged: "purge_old_links now (c, db) = (c', db') \<Longrightarrow> service_step db db'"
| mail_sent: "mail_sent env now i approver detail db = Some db' \<Longrightarrow> service_step db db'"
| mail_failed: "mail_audit env i approver detail db = Some db' \<Longrightarrow> service_step db db'"
| mail_link_unsent: "db' = link_unsent env digest db \<Longrightarrow> service_step db db'"
| elsewhere: "same_requests db db' \<Longrightarrow> service_step db db'"

lemma service_step_proceeds:
  assumes "service_step db db'" and rest: "at_rest db" shows "proceeds db db'"
  using assms(1)
proof cases
  case (requested rq env act r)
  then show ?thesis using requesting.proceeds [OF rest, of "(env, rq, act)"] by simp
next
  case (auto_decided env rq status reason act r)
  then show ?thesis using auto_deciding.proceeds [OF rest, of "(env, rq, status, reason, act)"] by simp
next
  case (cancelled env i act reason chk r)
  then show ?thesis using cancelling.proceeds [OF rest, of "(env, i, act, reason, chk)"] by simp
next
  case (decided env i act d ch comment approver_id token_id r)
  then show ?thesis using deciding.proceeds [OF rest, of "(env, i, act, d, ch, comment, approver_id, token_id)"] by simp
next
  case (forwarded env i approver_id act to_user new_id)
  then show ?thesis using forwarding.proceeds [OF rest, of "(env, i, approver_id, act, to_user)"] by simp
next
  case (refreshed env i act n)
  then show ?thesis using refreshing.proceeds [OF rest, of "(env, i, act)"] by simp
next
  case (link_issued env approver_id tok t)
  then show ?thesis using issuing.proceeds [OF rest, of "(env, approver_id, tok)"] by simp
next
  case (redeemed env tok d comment r)
  then show ?thesis using redeeming.proceeds [OF rest, of "(env, tok, d, comment)"] by simp
next
  case (orphan_cancelled env key c c')
  then obtain t where "item (snd key) (\<lambda>a db. res_bind (cancel_approval env (ap_id a) actor_system ''ticket_deleted'' False db)
          (\<lambda>(_, db'). Inr (Some True, db'))) db = (t, db')"
    by (auto simp: cancel_item_def split: prod.splits)
  then show ?thesis by (rule item_proceeds [OF rest]) (auto simp: res_bind_Inr_iff dest: cancel_moves cancel_grows)
next
  case (swept_overdue env now key c c')
  then obtain t where "item (snd key) (overdue env (fst key) now) db = (t, db')"
    by (auto simp: overdue_item_def split: prod.splits)
  then show ?thesis
    by (rule item_proceeds [OF rest]) (use rest in \<open>auto simp: at_rest_def dest: overdue_moves overdue_grows\<close>)
next
  case (swept_reminder env now key c c')
  then obtain t where "item (snd key) (remind env (fst key) now) db = (t, db')"
    by (auto simp: remind_item_def split: prod.splits)
  then show ?thesis by (rule item_proceeds [OF rest]) (auto dest: remind_moves remind_grows)
next
  case (swept_invalid env now i c c')
  then obtain t where "item i (drop_invalid env now) db = (t, db')"
    by (auto simp: drop_item_def split: prod.splits)
  then show ?thesis
    by (rule item_proceeds [OF rest]) (use rest in \<open>auto simp: at_rest_def dest: drop_invalid_moves drop_invalid_grows\<close>)
next
  case (timers_moved env registered now timers frozen timers')
  then show ?thesis using run_timers_proceeds rest by blast
next
  case (links_purged now c c')
  then show ?thesis using purge_proceeds rest by blast
next
  case (mail_sent env now i approver detail)
  then obtain d where d: "mail_audit env i approver detail db = Some d" and db': "db' = (case approver of None \<Rightarrow> d
      | Some j \<Rightarrow> upd_approvers (\<lambda>r. ar_id r = j) (\<lambda>r. r\<lparr>ar_last_notified_at := Some now\<rparr>) d)"
    by (auto simp: mail_sent_def)
  have P: "proceeds db d" using d by (rule mail_audit_proceeds [OF rest])
  then have "at_rest d" by (simp add: proceeds_def)
  then show ?thesis using P proceeds_trans [OF P notified_proceeds] by (simp add: db' split: option.splits)
next
  case (mail_failed env i approver detail)
  then show ?thesis by (rule mail_audit_proceeds [OF rest])
next
  case (mail_link_unsent env digest)
  then show ?thesis using link_unsent_proceeds [OF rest] by simp
next
  case elsewhere
  then show ?thesis using same_requests_proceeds rest by blast
qed

lemma service_steps_proceed:
  assumes "service_step\<^sup>*\<^sup>* db db'" and "at_rest db" shows "proceeds db db'"
  using assms(1)
proof (induction rule: rtranclp_induct)
  case base
  show ?case using assms(2) by (rule proceeds_refl)
next
  case (step d d')
  have "at_rest d" using step.IH by (simp add: proceeds_def)
  then show ?case using proceeds_trans [OF step.IH service_step_proceeds [OF step.hyps(2)]] by blast
qed

text \<open>A database as the migrations leave it: no request yet.\<close>

definition no_requests :: "approval_db \<Rightarrow> bool" where
  "no_requests db \<longleftrightarrow> db_approvals db = [] \<and> db_steps db = [] \<and> db_approvers db = [] \<and> db_votes db = [] \<and> db_tokens db = []"

lemma no_requests_at_rest: "no_requests db \<Longrightarrow> at_rest db"
  by (simp add: no_requests_def at_rest_def db_ok_def core_ok_defs waits_def fresh_ids_def)

lemma reachable_at_rest: "service_step\<^sup>*\<^sup>* db0 db \<Longrightarrow> no_requests db0 \<Longrightarrow> at_rest db"
  using service_steps_proceed no_requests_at_rest by (simp add: proceeds_def)

section \<open>Requests that are pending, and requests that are not\<close>

text \<open>A first request and the vote that decides it, from the empty database.\<close>

definition example_request :: approval_request where
  "example_request = \<lparr>rq_ticket_id = 100, rq_subject_type = ''ticket'', rq_title = ''Change'', rq_requester = None,
     rq_subject_ref = None, rq_approval_key = ''default'', rq_description = None,
     rq_definition = Some \<lparr>d_steps = [example_spec]\<rparr>, rq_template_key = None, rq_allow_self_approval = False,
     rq_supersede = True\<rparr>"

definition started_db :: approval_db where
  "started_db = (case request_approval example_env example_request actor_system empty_db of Inr (_, db) \<Rightarrow> db | Inl _ \<Rightarrow> empty_db)"

definition agent_seven :: actor where
  "agent_seven = (case actor_agent 7 of Inr a \<Rightarrow> a | Inl _ \<Rightarrow> actor_system)"

definition approved_db :: approval_db where
  "approved_db = (case decide example_env 1 agent_seven D_approved Ch_ui None None None started_db of
     Inr (_, db) \<Rightarrow> db | Inl _ \<Rightarrow> empty_db)"

text \<open>What the first step leaves: agent 7 is asked.\<close>

definition asks_seven :: "approval_db \<Rightarrow> bool" where
  "asks_seven db \<longleftrightarrow>
     (case (db_approvals db, db_steps db, db_approvers db) of
        ([a], [s], r # _) \<Rightarrow> ap_id a = 1 \<and> ap_status a = AP_pending \<and> ap_ticket_id a = 100 \<and>
          ap_approval_key a = ''default'' \<and> seq_approval db = 2 \<and> db_votes db = [] \<and> templates_ok db \<and> st_approval_id s = 1 \<and> st_status s = ST_active \<and>
          ar_id r = 1 \<and> ar_step_id r = st_id s \<and> ar_status r = AR_pending \<and> ar_principal r = ''agent:7'' \<and>
          voter_key (db_znuny db) agent_seven = Inr ''agent:7'' \<and> st_id s \<notin> voted_steps db 1 ''agent:7'' \<and>
          (case excluded_keys db a of Inl _ \<Rightarrow> False | Inr ks \<Rightarrow> ''agent:7'' \<notin> ks)
      | _ \<Rightarrow> False)"

text \<open>Then the vote of agent 7 decides the request, and the mail about that goes out; or the vote comes through a link.\<close>

definition decided_mailed :: "approval_db \<Rightarrow> bool" where
  "decided_mailed db \<longleftrightarrow>
     (case decide example_env 1 agent_seven D_approved Ch_ui None None None db of
        Inl _ \<Rightarrow> False
      | Inr (_, db1) \<Rightarrow> map (\<lambda>a. (ap_id a, ap_status a)) (db_approvals db1) = [(1, AP_approved)] \<and>
          (case mail_sent example_env 5000000 1 (Some 1) [(''kind'', JStr ''decided'')] db1 of
             None \<Rightarrow> False
           | Some db2 \<Rightarrow> map ar_last_notified_at (db_approvers db2) \<noteq> map ar_last_notified_at (db_approvers db1)))"

definition redeemed_by_link :: "approval_db \<Rightarrow> bool" where
  "redeemed_by_link db \<longleftrightarrow>
     (case issue_link example_env 1 ''secret'' db of
        Inl _ \<Rightarrow> False
      | Inr (_, db1) \<Rightarrow> distinct (map tk_hash (db_tokens db1)) \<and>
          (case redeem_link example_env ''secret'' D_approved None db1 of
             Inl _ \<Rightarrow> False
           | Inr (_, db2) \<Rightarrow> list_all (\<lambda>k. tk_id k < seq_token db1) (db_tokens db2) \<and>
               (case find_token example_env db2 ''secret'' of None \<Rightarrow> False | Some _ \<Rightarrow> True)))"

lemma example_run:
  "case request_approval example_env example_request actor_system empty_db of
     Inl _ \<Rightarrow> False | Inr (_, db) \<Rightarrow> asks_seven db \<and> decided_mailed db \<and> redeemed_by_link db"
  by code_simp

lemma started_facts:
  "\<exists>r. request_approval example_env example_request actor_system empty_db = Inr (r, started_db)"
  "asks_seven started_db" "decided_mailed started_db" "redeemed_by_link started_db"
  using example_run by (auto simp: started_db_def split: sum.splits prod.splits)

lemma started_step: "service_step empty_db started_db"
proof -
  have "has_steps (rq_definition example_request)" "templates_ok empty_db" by code_simp+
  then show ?thesis using started_facts(1) by (auto intro: requested)
qed

lemma approved_facts:
  "\<exists>r. decide example_env 1 agent_seven D_approved Ch_ui None None None started_db = Inr (r, approved_db)"
  "map (\<lambda>a. (ap_id a, ap_status a)) (db_approvals approved_db) = [(1, AP_approved)]"
  "\<exists>db. mail_sent example_env 5000000 1 (Some 1) [(''kind'', JStr ''decided'')] approved_db = Some db \<and>
     map ar_last_notified_at (db_approvers db) \<noteq> map ar_last_notified_at (db_approvers approved_db)"
  using started_facts(3) by (auto simp: decided_mailed_def approved_db_def split: sum.splits prod.splits option.splits)

lemma approved_step: "service_step started_db approved_db"
  using approved_facts(1) by (auto intro: decided)

lemma no_requests_empty: "no_requests empty_db"
  by (simp add: no_requests_def empty_db_def)

text \<open>
  The person of an approver row may vote on it: has not voted in the step, is neither the requester nor the ticket's creator
  where that matters, a customer is of the ticket's company and customers may approve, and by mail the step allows it.
\<close>

definition may_vote ::
  "approval_env \<Rightarrow> approval_db \<Rightarrow> approval \<Rightarrow> step_row \<Rightarrow> approver_row \<Rightarrow> actor \<Rightarrow> channel \<Rightarrow> principal \<Rightarrow> bool" where
  "may_vote env db a s r act ch p \<longleftrightarrow>
     a_principal act = Some p \<and> voter_key (db_znuny db) act = Inr (ar_principal r) \<and>
     st_id s \<notin> voted_steps db (ap_id a) (ar_principal r) \<and>
     (case excluded_keys db a of Inl _ \<Rightarrow> False | Inr ks \<Rightarrow> ar_principal r \<notin> ks) \<and>
     (p_kind p = Customer \<longrightarrow> (case p_login p of None \<Rightarrow> False
        | Some login \<Rightarrow> check_customer_approver env db a login = Inr ())) \<and>
     (ch = Ch_email \<longrightarrow> sp_allow_email (st_spec s))"

lemma filter_one: "distinct xs \<Longrightarrow> x \<in> set xs \<Longrightarrow> P x \<Longrightarrow> (\<And>y. y \<in> set xs \<Longrightarrow> P y \<Longrightarrow> y = x) \<Longrightarrow> filter P xs = [x]"
proof (induction xs)
  case (Cons y ys)
  show ?case
  proof (cases "y = x")
    case True
    have "\<not> P z" if "z \<in> set ys" for z
      using Cons.prems(4) [of z] Cons.prems(1) that True by (metis distinct.simps(2) list.set_intros(2))
    then have "filter P ys = []" by (simp add: filter_empty_conv)
    then show ?thesis using True Cons.prems(3) by simp
  next
    case False
    then have "x \<in> set ys" "\<not> P y" using Cons.prems(2,4) by auto
    then show ?thesis using Cons.IH [OF _ _ Cons.prems(3)] Cons.prems(1,4) by simp
  qed
qed simp

text \<open>Then the vote passes every check of \<open>decide\<close>: what is left are the writes.\<close>

lemma may_vote_target:
  assumes ok: "core_ok db" and s: "s \<in> steps_of db (ap_id a)" "st_status s = ST_active"
    and r: "r \<in> set (db_approvers db)" "ar_step_id r = st_id s" "ar_status r = AR_pending"
    and may: "may_vote env db a s r act ch p"
  shows "vote_target env a act ch (Some (ar_id r)) db = Inr (r, False, s, ar_principal r, p)"
proof -
  have s': "s \<in> set (db_steps db)" "st_approval_id s = ap_id a" using s(1) by (simp_all add: steps_of_def)
  obtain x where "x \<in> set (db_steps db)" "st_id x = ar_step_id r" "st_approval_id x = ar_approval_id r"
    using core_ok_pending_approver [OF ok r(1,3)] by metis
  then have own: "ar_approval_id r = ap_id a" using step_id_approval [OF ok s'(1), of x] s'(2) r(2) by simp
  let ?rows = "locked_approvers db (ap_id a)" and ?steps = "locked_steps db (ap_id a)"
  have "distinct (db_approvers db)" using core_ok_distinct(3) [OF ok] by (simp add: distinct_map)
  then have "distinct ?rows" by (simp add: locked_approvers_def distinct_sort)
  then have "candidate_rows env db ?rows ?steps p (ar_principal r) (Some (ar_id r)) = [r]"
    unfolding candidate_rows_def
    by (rule filter_one) (use r(1) own approvers.same_key_same_row [OF core_ok_distinct(3) [OF ok] _ r(1)] in auto)
  moreover have "usable_rows ?steps [r] = [r]"
    using r(2,3) s' s(2) by (auto simp: usable_rows_def Let_def)
  ultimately have "pick_approver env db ?rows ?steps act (ar_principal r) (Some (ar_id r))
      (voted_steps db (ap_id a) (ar_principal r)) = Inr (r, False)"
    using may r(2) by (simp add: pick_approver_def may_vote_def Let_def)
  moreover have "find (\<lambda>x. st_id x = ar_step_id r) ?steps = Some s"
    using found_step [OF ok s'(1,2)] r(2) by simp
  moreover have "check_vote env db a act ch (ar_principal r) r False s = Inr p"
    using may by (auto simp: check_vote_def may_vote_def split: sum.splits option.splits)
  ultimately show ?thesis using may by (simp add: vote_target_def Let_def may_vote_def)
qed




text \<open>The mail that tells the approver about the decision goes out when the request is decided.\<close>

definition informed_db :: approval_db where
  "informed_db = (case mail_sent example_env 5000000 1 (Some 1) [(''kind'', JStr ''decided'')] approved_db of
     Some db \<Rightarrow> db | None \<Rightarrow> empty_db)"

lemma informed_facts:
  "service_step approved_db informed_db"
  "map ar_last_notified_at (db_approvers informed_db) \<noteq> map ar_last_notified_at (db_approvers approved_db)"
  using approved_facts(3) by (auto simp: informed_db_def intro: service_step.mail_sent)


section \<open>A link works once\<close>

text \<open>
  C8. A link is redeemed at most once: after a vote was cast through it, whatever the module does then, the same token is
  refused from then on, with whatever settings, clock, decision and comment: as unknown when its row has been purged, as
  not valid while links by mail are switched off, and otherwise as used. This rests on the unique key of the token hashes,
  on an unchanged key of the hash, and on no newer link having drawn the same token.
\<close>

theorem redeem_link_once:
  assumes run: "service_step\<^sup>*\<^sup>* db0 db" and start: "no_requests db0"
    and red: "redeem_link env tok d comment db = Inr (r, db1)"
    and unique: "distinct (map tk_hash (db_tokens db))"
    and onward: "service_step\<^sup>*\<^sup>* db1 db2"
    and same: "link_digest env' tok = link_digest env tok"
    and fresh: "\<forall>k \<in> set (db_tokens db2). tk_hash k = link_digest env tok \<longrightarrow> tk_id k < seq_token db"
  shows "redeem_link env' tok d' comment' db2 =
    Inl (case find_token env' db2 tok of None \<Rightarrow> UnknownLinkError
         | Some _ \<Rightarrow> if set_email_links_enabled (env_settings env') then ApprovalError link_used 410
                      else ApprovalError link_invalid 410)"
proof (cases "find_token env' db2 tok")
  case None
  then show ?thesis by (simp add: redeem_link_def)
next
  case (Some k)
  have rest: "at_rest db" by (rule reachable_at_rest [OF run start])
  then have db: "db_ok db" by (simp add: at_rest_def)
  have P: "proceeds db db1" using service_step_proceeds [OF service_step.redeemed [OF red] rest] .
  then have P2: "proceeds db1 db2" using service_steps_proceed [OF onward] by (simp add: proceeds_def)
  note k = find_token_row [OF Some]
  have used: "tk_used_at k \<noteq> None"
    by (rule redeemed_link_used [OF red db unique _ k(1)]) (use P2 moved_on_links k same fresh in \<open>auto simp: proceeds_def\<close>)
  have "core_ok db2" using P2 by (simp add: proceeds_def at_rest_def db_ok_def)
  then have "tk_approval_id k \<in> ap_id ` set (db_approvals db2)"
    using k(1) unfolding core_ok_def refs_ok_def by (fastforce simp: image_iff)
  then have "get_approval db2 (tk_approval_id k) \<noteq> None" by (auto simp: get_approval_def find_None_iff)
  then obtain a where "lock_approval db2 (tk_approval_id k) = Inr a" by (auto simp: lock_approval_def)
  then show ?thesis using Some used by (simp add: redeem_link_def resolve_link_def)
qed

theorem redeem_link_once_witness:
  "\<exists>db. service_step\<^sup>*\<^sup>* empty_db db \<and> redeem_link example_env ''secret'' D_rejected None db = Inl (ApprovalError link_used 410)"
proof -
  note L = started_facts(4) [unfolded redeemed_by_link_def]
  obtain t db1 where link: "issue_link example_env 1 ''secret'' started_db = Inr (t, db1)"
    using L by (cases "issue_link example_env 1 ''secret'' started_db") auto
  obtain r db2 where red: "redeem_link example_env ''secret'' D_approved None db1 = Inr (r, db2)"
    using L by (cases "redeem_link example_env ''secret'' D_approved None db1") (auto simp: link)
  have rows: "distinct (map tk_hash (db_tokens db1))" "list_all (\<lambda>k. tk_id k < seq_token db1) (db_tokens db2)"
      "case find_token example_env db2 ''secret'' of None \<Rightarrow> False | Some _ \<Rightarrow> True"
    using L by (simp_all add: link red)
  have run: "service_step\<^sup>*\<^sup>* empty_db db1" using started_step service_step.link_issued [OF link] by simp
  have "service_step\<^sup>*\<^sup>* empty_db db2" using run service_step.redeemed [OF red] by simp
  moreover have "set_email_links_enabled (env_settings example_env)" by code_simp
  then have "redeem_link example_env ''secret'' D_rejected None db2 = Inl (ApprovalError link_used 410)"
    using redeem_link_once [OF run no_requests_empty red rows(1) rtranclp.rtrancl_refl refl] rows(2,3)
    by (auto simp: list_all_iff split: option.splits)
  ultimately show ?thesis by blast
qed

end
