(* ===== verification/Approval_Ballots.thy ===== *)
theory Approval_Ballots
  imports Approval_Transitions
begin

text \<open>
  The abstract view: to somebody who only looks at one request it is a ballot. It is opened once, takes at
  most one vote per person and step while it is pending, and is closed once; nothing else ever happens to
  it. Every step of the module refines this machine, and a tick of the sweep is a run of the module.
\<close>

section \<open>The ballot machine\<close>

type_synonym ballot = "(approval_status \<times> ((int \<times> string) \<times> decision) list) option"

inductive ballot_step :: "ballot \<Rightarrow> ballot \<Rightarrow> bool" where
  opened: "ballot_step None (Some (AP_pending, []))"
| voted: "k \<notin> fst ` set vs \<Longrightarrow> ballot_step (Some (AP_pending, vs)) (Some (AP_pending, vs @ [(k, d)]))"
| closed: "st \<noteq> AP_pending \<Longrightarrow> ballot_step (Some (AP_pending, vs)) (Some (st, vs))"

inductive_cases closed_ballotE: "ballot_step (Some (st, vs)) b"

definition ballot_vote :: "vote_row \<Rightarrow> (int \<times> string) \<times> decision" where
  "ballot_vote v = ((vt_step_id v, vt_decided_by v), vt_decision v)"

definition ballot_of :: "approval_db \<Rightarrow> int \<Rightarrow> ballot" where
  "ballot_of db i = map_option (\<lambda>a. (ap_status a, map ballot_vote (filter (\<lambda>v. vt_approval_id v = i) (db_votes db))))
     (get_approval db i)"

lemma votes_taken:
  "distinct (map fst (vs @ ws)) \<Longrightarrow> ballot_step\<^sup>*\<^sup>* (Some (AP_pending, vs)) (Some (AP_pending, vs @ ws))"
proof (induction ws arbitrary: vs)
  case (Cons w ws)
  obtain k d where w: "w = (k, d)" by (cases w)
  have "ballot_step (Some (AP_pending, vs)) (Some (AP_pending, vs @ [w]))"
    unfolding w by (rule ballot_step.voted) (use Cons.prems w in auto)
  moreover have "ballot_step\<^sup>*\<^sup>* (Some (AP_pending, vs @ [w])) (Some (AP_pending, (vs @ [w]) @ ws))"
    by (rule Cons.IH) (use Cons.prems in simp)
  ultimately show ?case by (simp add: converse_rtranclp_into_rtranclp)
qed simp

lemma ballot_closes:
  assumes "distinct (map fst (vs @ ws))"
  shows "ballot_step\<^sup>*\<^sup>* (Some (AP_pending, vs)) (Some (st, vs @ ws))"
  using votes_taken [OF assms] ballot_step.closed [of st "vs @ ws"] rtranclp.rtrancl_into_rtrancl
  by (cases "st = AP_pending") fastforce+

lemma ballot_votes_distinct: "db_ok db \<Longrightarrow> distinct (map fst (map ballot_vote (filter p (db_votes db))))"
  by (auto simp: db_ok_def core_ok_def uniq_ok_def ballot_vote_def comp_def intro: distinct_map_filter)

lemma no_ballot_no_votes:
  assumes db: "db_ok db" and none: "get_approval db i = None" shows "filter (\<lambda>v. vt_approval_id v = i) (db_votes db) = []"
proof -
  have ok: "core_ok db" using db by (simp add: db_ok_def)
  have "vt_approval_id v \<noteq> i" if v: "v \<in> set (db_votes db)" for v
  proof -
    obtain r where r: "r \<in> set (db_approvers db)" "ar_approval_id r = vt_approval_id v"
      using ok v by (auto simp: core_ok_def votes_ok_def)
    obtain s where s: "s \<in> set (db_steps db)" "st_approval_id s = ar_approval_id r"
      using ok r(1) by (fastforce simp: core_ok_def refs_ok_def)
    have "st_approval_id s \<in> ap_id ` set (db_approvals db)" using ok s(1) by (simp add: core_ok_def refs_ok_def)
    then show ?thesis using none r(2) s(2) by (auto simp: get_approval_def find_None_iff)
  qed
  then show ?thesis by (simp add: filter_empty_conv)
qed

lemma get_approval_row:
  assumes "db_ok db" "a \<in> set (db_approvals db)" shows "get_approval db (ap_id a) = Some a"
proof (cases "get_approval db (ap_id a)")
  case None
  then show ?thesis using assms(2) by (auto simp: get_approval_def find_None_iff)
next
  case (Some b)
  then show ?thesis using same_request [OF assms(1) _ assms(2)] approvals.get_SomeD [OF Some] by blast
qed

lemma proceeds_ballot:
  assumes P: "proceeds db db'" and rest: "at_rest db"
  shows "ballot_step\<^sup>*\<^sup>* (ballot_of db i) (ballot_of db' i)"
proof -
  have ok: "db_ok db" "db_ok db'" using P rest by (simp_all add: proceeds_def at_rest_def)
  let ?vs = "\<lambda>d. map ballot_vote (filter (\<lambda>v. vt_approval_id v = i) (db_votes d))"
  obtain ws where "db_votes db' = db_votes db @ ws" using P by (auto simp: proceeds_def moved_on_def prefix_def)
  then have votes: "?vs db' = ?vs db @ map ballot_vote (filter (\<lambda>v. vt_approval_id v = i) ws)" by simp
  have dist: "distinct (map fst (?vs db'))" by (rule ballot_votes_distinct [OF ok(2)])
  show ?thesis
  proof (cases "get_approval db i")
    case None
    show ?thesis
    proof (cases "get_approval db' i")
      case None
      with \<open>get_approval db i = None\<close> show ?thesis by (simp add: ballot_of_def)
    next
      case (Some b)
      have "ballot_step\<^sup>*\<^sup>* (Some (AP_pending, [])) (Some (ap_status b, [] @ ?vs db'))"
        by (rule ballot_closes) (use dist in simp)
      then show ?thesis
        using None Some converse_rtranclp_into_rtranclp [of ballot_step, OF ballot_step.opened] by (simp add: ballot_of_def)
    qed
  next
    case (Some a)
    have a: "a \<in> set (db_approvals db)" "ap_id a = i" using approvals.get_SomeD [OF Some] by auto
    show ?thesis
    proof (cases "ap_status a = AP_pending")
      case True
      obtain b where b: "b \<in> set (db_approvals db')" "ap_id b = i"
        using grows_into [OF _ a(1)] P a(2) by (auto simp: proceeds_def)
      then have "get_approval db' i = Some b" using get_approval_row [OF ok(2)] by metis
      moreover have "ballot_step\<^sup>*\<^sup>* (Some (AP_pending, ?vs db)) (Some (ap_status b, ?vs db'))"
        using dist unfolding votes by (rule ballot_closes)
      ultimately show ?thesis using Some True by (simp add: ballot_of_def)
    next
      case False
      have "a \<in> set (db_approvals db')" "settled (ap_id a) db db'"
        using P a(1) False moved_on_closed by (auto simp: proceeds_def)
      then have "get_approval db' i = Some a" "?vs db' = ?vs db"
        using get_approval_row [OF ok(2)] a(2) by (auto simp: settled_def)
      then show ?thesis using Some by (simp add: ballot_of_def)
    qed
  qed
qed

text \<open>
  C4. The module refines the ballot machine: whatever transactions run, each request, seen from outside,
  only ever is opened, takes votes of people who have not voted in that step yet while it is pending, and
  is closed once.
\<close>

theorem module_refines_ballots:
  assumes "service_step\<^sup>*\<^sup>* db0 db" "no_requests db0" "service_step\<^sup>*\<^sup>* db db'"
  shows "ballot_step\<^sup>*\<^sup>* None (ballot_of db i) \<and> ballot_step\<^sup>*\<^sup>* (ballot_of db i) (ballot_of db' i)"
proof -
  have "ballot_of db0 i = None" using assms(2) by (simp add: ballot_of_def no_requests_def get_approval_def)
  moreover have "ballot_step\<^sup>*\<^sup>* (ballot_of db0 i) (ballot_of db i)"
    by (rule proceeds_ballot [OF service_steps_proceed [OF assms(1)]]) (rule no_requests_at_rest [OF assms(2)])+
  moreover have "ballot_step\<^sup>*\<^sup>* (ballot_of db i) (ballot_of db' i)"
    by (rule proceeds_ballot [OF service_steps_proceed [OF assms(3)]]) (rule reachable_at_rest [OF assms(1,2)])+
  ultimately show ?thesis by simp
qed

theorem module_refines_ballots_witness:
  "ballot_of approved_db 1 = Some (AP_approved, [((1, ''agent:7''), D_approved)]) \<and>
   ballot_step\<^sup>*\<^sup>* (ballot_of started_db 1) (Some (AP_approved, [((1, ''agent:7''), D_approved)]))"
proof -
  have "ballot_of approved_db 1 = Some (AP_approved, [((1, ''agent:7''), D_approved)])" by code_simp
  then show ?thesis
    using module_refines_ballots [OF r_into_rtranclp [of service_step, OF started_step] no_requests_empty
      r_into_rtranclp [of service_step, OF approved_step], of 1] by simp
qed

section \<open>A tick is a run of the module\<close>

lemma fold_steps:
  assumes "\<And>x acc. service_step\<^sup>*\<^sup>* (snd acc) (snd (handle x acc))"
  shows "service_step\<^sup>*\<^sup>* (snd acc) (snd (fold handle xs acc))"
proof (induction xs arbitrary: acc)
  case (Cons x xs)
  show ?case using rtranclp_trans [of service_step, OF assms Cons.IH] by simp
qed simp

lemma pages_steps:
  assumes "\<And>x acc. service_step\<^sup>*\<^sup>* (snd acc) (snd (handle x acc))"
  shows "service_step\<^sup>*\<^sup>* (snd acc) (snd (pages n fetch handle after acc))"
proof (induction n arbitrary: after acc)
  case (Suc n)
  note one = fold_steps [of handle, OF assms]
  show ?case
    using one [of acc "fetch after (snd acc)"] rtranclp_trans [of service_step, OF one Suc.IH] by (simp add: Let_def)
qed simp

lemma item_steps:
  "service_step (snd acc) (snd (cancel_item env key acc))"
  "service_step (snd acc) (snd (overdue_item env now key acc))"
  "service_step (snd acc) (snd (remind_item env now key acc))"
  "service_step (snd acc) (snd (drop_item env now i acc))"
  "service_step (snd acc) (snd (purge_old_links now acc))"
  using service_step.orphan_cancelled [of env key "fst acc" "snd acc"] service_step.swept_overdue [of env now key "fst acc" "snd acc"]
    service_step.swept_reminder [of env now key "fst acc" "snd acc"] service_step.swept_invalid [of env now i "fst acc" "snd acc"]
    service_step.links_purged [of now "fst acc" "snd acc"]
  by (metis prod.collapse)+

lemma drop_pages_steps: "service_step\<^sup>*\<^sup>* (snd acc) (snd (snd (drop_pages n env now frozen cursor acc)))"
proof (induction n arbitrary: cursor acc)
  case (Suc n)
  obtain ids cursor' finished where c: "invalid_candidates (snd acc) frozen cursor = (ids, cursor', finished)"
    by (metis prod_cases3)
  have one: "service_step\<^sup>*\<^sup>* (snd acc) (snd (fold (drop_item env now) ids acc))"
    by (rule fold_steps) (rule r_into_rtranclp, rule item_steps)
  show ?case using one rtranclp_trans [of service_step, OF one Suc.IH] by (simp add: c Let_def)
qed simp

text \<open>
  A tick of the sweep is a sequence of transactions of the module, so the properties of the reachable databases hold in it
  and after it, however many items it finds and however many of them fail.
\<close>

lemma sweep_is_a_run:
  "service_step\<^sup>*\<^sup>* db (snd (snd (run_sweep env registered state db)))"
proof -
  define moment where "moment = trunc_sec (env_now env)"
  obtain frozen timers db1 where t: "run_timers env registered moment (sw_timers state) db = (frozen, timers, db1)"
    by (metis prod_cases3)
  define acc1 where "acc1 = pages MAX_PAGES (\<lambda>after db. orphan_candidates db frozen after) (cancel_item env) 0 (no_counts, db1)"
  define acc2 where "acc2 = pages MAX_PAGES (\<lambda>after db. overdue_candidates db moment frozen after) (overdue_item env moment) 0 acc1"
  define acc3 where "acc3 = pages MAX_PAGES (\<lambda>after db. reminder_candidates (env_settings env) db moment frozen after)
    (remind_item env moment) 0 acc2"
  define acc4 where "acc4 = snd (drop_pages MAX_PAGES env moment frozen (sw_cursor state) acc3)"
  have "service_step\<^sup>*\<^sup>* db db1" using service_step.timers_moved [OF t] by blast
  also have "service_step\<^sup>*\<^sup>* db1 (snd acc1)"
    using pages_steps [of "cancel_item env" "(no_counts, db1)"] item_steps(1) unfolding acc1_def by (metis r_into_rtranclp snd_conv)
  also have "service_step\<^sup>*\<^sup>* (snd acc1) (snd acc2)"
    unfolding acc2_def by (rule pages_steps) (rule r_into_rtranclp, rule item_steps)
  also have "service_step\<^sup>*\<^sup>* (snd acc2) (snd acc3)"
    unfolding acc3_def by (rule pages_steps) (rule r_into_rtranclp, rule item_steps)
  also have "service_step\<^sup>*\<^sup>* (snd acc3) (snd acc4)"
    unfolding acc4_def by (rule drop_pages_steps)
  also have "service_step\<^sup>*\<^sup>* (snd acc4) (snd (purge_old_links moment acc4))"
    using item_steps(5) by (rule r_into_rtranclp)
  finally have on: "service_step\<^sup>*\<^sup>* db (snd (purge_old_links moment acc4))" .
  have off: "service_step\<^sup>*\<^sup>* db (snd (purge_old_links moment (no_counts, db1)))"
    using \<open>service_step\<^sup>*\<^sup>* db db1\<close> item_steps(5) [of "(no_counts, db1)" moment] by (simp add: rtranclp.rtrancl_into_rtrancl)
  have "snd (snd (run_sweep env registered state db)) =
      (if set_enabled (env_settings env) then snd (purge_old_links moment acc4) else snd (purge_old_links moment (no_counts, db1)))"
    by (simp add: run_sweep_def Let_def t flip: moment_def acc1_def)
      (simp add: acc4_def acc3_def acc2_def split: prod.split)
  then show ?thesis using on off by simp
qed

end
