(* ===== verification/Approval_Verdicts.thy ===== *)
theory Approval_Verdicts
  imports Approval_Ballots
begin

text \<open>
  What a decision of a request means: an approved request has no step that was not approved, a rejected one
  has a rejected step unless it was decided without steps. The engine decides only in its loop over the
  stages, so the argument is one lemma about that loop and, per operation, which requests it can close.
\<close>

section \<open>Verdicts\<close>

definition verdict :: "approval_db \<Rightarrow> approval \<Rightarrow> bool" where
  "verdict db x \<longleftrightarrow>
     (ap_status x = AP_approved \<longrightarrow> (\<forall>s \<in> steps_of db (ap_id x). st_status s = ST_approved)) \<and>
     (ap_status x = AP_rejected \<longrightarrow> steps_of db (ap_id x) = {} \<or> (\<exists>s \<in> steps_of db (ap_id x). st_status s = ST_rejected))"

lemma verdict_undecided: "ap_status x \<in> {AP_pending, AP_cancelled} \<Longrightarrow> verdict db x"
  by (auto simp: verdict_def)

lemma verdict_steps: "steps_of db' (ap_id x) = steps_of db (ap_id x) \<Longrightarrow> verdict db' x = verdict db x"
  by (simp add: verdict_def)

lemma verdict_core: "core db' = core db \<Longrightarrow> verdict db' x = verdict db x"
  by (rule verdict_steps) (simp add: steps_of_def core_def)

text \<open>Every request a transaction leaves closed was closed before, or has its verdict now.\<close>

definition judged :: "approval_db \<Rightarrow> approval_db \<Rightarrow> bool" where
  "judged db db' \<longleftrightarrow> (\<forall>x \<in> set (db_approvals db'). x \<in> set (db_approvals db) \<or> verdict db' x)"

lemma judged_same: "db_approvals db' = db_approvals db \<Longrightarrow> judged db db'"
  by (simp add: judged_def)

lemma judged_core: "core db1' = core db1 \<Longrightarrow> core db2' = core db2 \<Longrightarrow> judged db1' db2' = judged db1 db2"
  using verdict_core [of db2' db2] by (simp add: judged_def core_def)

text \<open>One request, all others untouched.\<close>

lemma judged_one:
  assumes others: "others_same i db db'" and x: "\<And>x. x \<in> set (db_approvals db') \<Longrightarrow> ap_id x = i \<Longrightarrow> verdict db' x"
  shows "judged db db'"
  unfolding judged_def
proof
  fix x assume x': "x \<in> set (db_approvals db')"
  show "x \<in> set (db_approvals db) \<or> verdict db' x"
  proof (cases "ap_id x = i")
    case False
    then have "x \<in> set (filter (\<lambda>a. ap_id a \<noteq> i) (db_approvals db'))" using x' by simp
    then have "x \<in> set (filter (\<lambda>a. ap_id a \<noteq> i) (db_approvals db))" using others by (simp only: others_same_def)
    then show ?thesis by simp
  qed (use x x' in blast)
qed

section \<open>The engine\<close>

lemma closing_verdict:
  assumes ok: "core_ok db" and x: "ap_id x = i" "ap_status x = request_result (stage_pairs (locked_steps db i))"
  shows "verdict (closing env i st reason db) x"
proof -
  let ?f = "\<lambda>s. s\<lparr>st_status := ST_cancelled, st_reason := Some reason, st_decided_at := Some (env_now env)\<rparr>"
  have steps: "steps_of (closing env i st reason db) i = {s \<in> set (upd_where (\<lambda>s. st_id s \<in> open_ids db i) ?f (db_steps db)). st_approval_id s = i}"
    by (simp add: steps_of_def closing_def)
  have kept: "s \<in> steps_of (closing env i st reason db) i" if s: "s \<in> steps_of db i" "\<not> is_open s" for s
    using s open_ids_iff [OF ok, of s i] unfolding steps by (auto simp: steps_of_def intro!: upd_where_kept)
  have from_open: "s \<in> steps_of db i \<or> (\<exists>y \<in> steps_of db i. is_open y)" if s: "s \<in> steps_of (closing env i st reason db) i" for s
  proof -
    have "s \<in> set (upd_where (\<lambda>s. st_id s \<in> open_ids db i) ?f (db_steps db))" "st_approval_id s = i" using s unfolding steps by simp_all
    then show ?thesis
      using open_ids_iff [OF ok] by (elim upd_whereE) (auto simp: steps_of_def)
  qed
  show ?thesis
    unfolding verdict_def x(1)
  proof (intro conjI impI)
    assume "ap_status x = AP_approved"
    then have all: "\<forall>s \<in> steps_of db i. st_status s = ST_approved"
      using x(2) unfolding request_result_steps by (auto split: if_splits)
    then have "\<not> is_open y" if "y \<in> steps_of db i" for y using that by (simp add: is_open_def)
    then show "\<forall>s \<in> steps_of (closing env i st reason db) i. st_status s = ST_approved" using from_open all by blast
  next
    assume "ap_status x = AP_rejected"
    then obtain s where "s \<in> steps_of db i" "st_status s = ST_rejected"
      using x(2) unfolding request_result_steps by (auto split: if_splits)
    then show "steps_of (closing env i st reason db) i = {} \<or> (\<exists>s \<in> steps_of (closing env i st reason db) i. st_status s = ST_rejected)"
      using kept by (auto simp: is_open_def)
  qed
qed

lemma activate_loop_verdict:
  "activate_loop env a act added db = Inr (ids, db') \<Longrightarrow> core_ok db \<Longrightarrow>
     \<exists>y \<in> set (db_approvals db). ap_id y = ap_id a \<Longrightarrow>
     (ap_status (cur db a) = AP_pending \<longrightarrow> stages_ok db (cur db a)) \<Longrightarrow> verdict db (cur db a) \<Longrightarrow>
     x \<in> set (db_approvals db') \<Longrightarrow> ap_id x = ap_id a \<Longrightarrow> verdict db' x"
proof (induction env a act added db rule: activate_loop.induct)
  case (1 env a act added db)
  from 1(2) show ?case
  proof (cases rule: activate_loop_cases)
    case closed
    then show ?thesis using cur_eq [OF 1(3), of x a] 1(6-8) by simp
  next
    case (fin st)
    have "ap_status x = st" by (rule finalize_status [OF fin(1) 1(7,8)])
    then have "verdict (closing env (ap_id a) st (result_reason (locked_steps db (ap_id a)) st) db) x"
      using fin(2) by (intro closing_verdict [OF 1(3) 1(8)]) simp
    then show ?thesis using verdict_core [OF finalize_core [OF fin(1)]] by simp
  next
    case stop
    then show ?thesis using cur_eq [OF 1(3), of x a] 1(6-8) by simp
  next
    case (go stage added1 db1)
    note ready = steps_of_stage_ready [OF 1(3)]
    obtain y where y: "y \<in> set (db_approvals db)" "ap_id y = ap_id a" using 1(4) by blast
    have idle: "\<forall>s \<in> steps_of db (ap_id a). st_status s \<noteq> ST_active"
      using go(3) by (auto simp: list_ex_iff steps_of_def)
    have "stages_ok db (cur db a)" using 1(5) go(1) by blast
    note advance = stages_ok_advance [OF 1(3) this go(1) y idle go(4,5)]
    have ok1: "core_ok db1" using activate_stage_ok [OF go(5) 1(3) ready] .
    have "verdict db1 (cur db1 a)" using advance(2) by (intro verdict_undecided) simp
    then show ?thesis
      using 1(1) [OF _ refl refl refl go(2-5) refl go(6) ok1 advance(3)] advance(1) go(1) 1(7,8) by blast
  qed
qed

lemma next_stage_verdict:
  assumes act: "activate_next_stage env a act db = Inr (ids, db')" and ok: "core_ok db"
    and y: "y \<in> set (db_approvals db)" "ap_id y = ap_id a" "ap_status y = AP_pending" "stages_ok db y"
    and x: "x \<in> set (db_approvals db')" "ap_id x = ap_id a"
  shows "verdict db' x"
proof -
  obtain added where loop: "activate_loop env a act [] db = Inr (added, db')" using act by (rule activate_next_stage_loop)
  have cur: "cur db a = y" using cur_eq [OF ok y(1,2)] .
  show ?thesis
    by (rule activate_loop_verdict [OF loop ok _ _ _ x]) (use y cur in \<open>auto intro: verdict_undecided\<close>)
qed

lemma close_step_verdict:
  assumes db: "db_ok db" and s: "s' \<in> set (db_steps db)" "st_id s' = st_id s" "st_approval_id s' = ap_id a" "st_status s' = ST_active"
    and out: "outcome = ST_approved \<or> outcome = ST_rejected"
    and close: "close_step env a s outcome reason act now db = Inr db'"
    and x: "x \<in> set (db_approvals db')" "ap_id x = ap_id a"
  shows "verdict db' x"
proof -
  have ok: "core_ok db" using db by (simp add: db_ok_def)
  let ?d = "settle_step env a s outcome reason act now db"
  obtain ids d' where act: "activate_next_stage env a act ?d = Inr (ids, d')" and core: "core db' = core d'"
    using close by (auto simp: close_step_def res_bind_Inr_iff dest!: core_enqueue split: if_splits)
  obtain y where y: "y \<in> set (db_approvals db)" "ap_id y = ap_id a" "ap_status y = AP_pending"
    using ok s by (auto simp: core_ok_def steps_flow_def is_open_def)
  have same: "db_approvals ?d = db_approvals db"
    using core_eqD(1) [OF settle_step_core] core_eqD(1) [OF leave_tables(2)] by simp
  have "stages_ok ?d y"
    by (rule settle_step_stages [OF ok s(1,2) _ s(4) out]) (use s(3) y db in \<open>auto simp: db_ok_def rest_ok_def\<close>)
  then have "verdict d' x"
    using y same x core_eqD(1) [OF core] by (intro next_stage_verdict [OF act settle_step_ok [OF ok s(1-3) out]]) simp_all
  then show ?thesis using verdict_core [OF core] by simp
qed

lemma reevaluate_steps_verdict:
  assumes run: "reevaluate_steps env a ss act now db = Inr db'" and db: "db_ok db"
    and own: "\<forall>s \<in> set ss. owns_step db (ap_id a) (st_id s)"
    and before: "\<forall>x \<in> set (db_approvals db). ap_id x = ap_id a \<longrightarrow> verdict db x"
    and x: "x \<in> set (db_approvals db')" "ap_id x = ap_id a"
  shows "verdict db' x"
proof -
  let ?P = "\<lambda>d. db_ok d \<and> engine_keeps db d \<and> (\<forall>x \<in> set (db_approvals d). ap_id x = ap_id a \<longrightarrow> verdict d x)"
  have "?P db'"
  proof (rule res_fold_invariant [OF run [unfolded reevaluate_steps_def], where P = ?P])
    show "?P db" using db before by simp
  next
    fix s d d'
    assume s: "s \<in> set ss" and d: "?P d"
      and step: "(if ap_status (cur d a) \<noteq> AP_pending \<or> st_status (cur_step d s) \<noteq> ST_active then Inr d
         else res_bind (step_voters env d (st_id s) (locked_approvers d (ap_id a))) (\<lambda>voters.
              res_bind (reevaluated s voters) (\<lambda>out. case out of None \<Rightarrow> Inr d
              | Some (outcome, reason) \<Rightarrow> close_step env a s outcome reason act now d))) = Inr d'"
    have ok: "core_ok d" using d by (simp add: db_ok_def)
    have "owns_step d (ap_id a) (st_id s)" using owns_step_keeps d own s by blast
    note row = cur_step_row [OF ok this]
    show "?P d'"
    proof (cases "d' = d")
      case True
      then show ?thesis using d by simp
    next
      case False
      then obtain voters outcome reason where active: "st_status (cur_step d s) = ST_active"
        and re: "reevaluated s voters = Inr (Some (outcome, reason))" and close: "close_step env a s outcome reason act now d = Inr d'"
        using step by (auto simp: res_bind_Inr_iff split: if_splits option.splits)
      have out: "outcome = ST_approved \<or> outcome = ST_rejected" by (rule reevaluated_closed [OF re])
      have "db_ok d' \<and> others_same (ap_id a) d d' \<and> engine_keeps d d'"
        using close_step_db_ok [OF _ row active out close] d by blast
      moreover have "verdict d' x" if "x \<in> set (db_approvals d')" "ap_id x = ap_id a" for x
        using close_step_verdict [OF _ row active out close that] d by blast
      ultimately show ?thesis using d engine_keeps_trans by blast
    qed
  qed
  then show ?thesis using x by blast
qed

section \<open>The service\<close>

lemma finalize_judged:
  assumes fin: "finalize env a st reason act auto db = Inr db'" and st: "st = AP_cancelled"
  shows "judged db db'"
  unfolding judged_def
proof
  fix x assume "x \<in> set (db_approvals db')"
  then have "x \<in> set (db_approvals (closing env (ap_id a) st reason db))" using core_eqD(1) [OF finalize_core [OF fin]] by simp
  then have "x \<in> set (db_approvals db) \<or> ap_status x = st" by (auto simp: closing_def elim!: upd_whereE)
  then show "x \<in> set (db_approvals db) \<or> verdict db' x" using st by (auto intro: verdict_undecided)
qed

lemma cancel_judged: "cancel_approval env i act reason chk db = Inr (r, db') \<Longrightarrow> judged db db'"
  by (erule cancel_finalizes) (erule finalize_judged, rule refl)

text \<open>A pending request stays without a verdict while a step of it is active.\<close>

lemma active_pending:
  assumes db: "db_ok db" and s: "s \<in> set (db_steps db)" "st_status s = ST_active" "st_approval_id s = i"
    and x: "x \<in> set (db_approvals db)" "ap_id x = i"
  shows "ap_status x = AP_pending"
proof -
  obtain y where "y \<in> set (db_approvals db)" "ap_id y = i" "ap_status y = AP_pending"
    using db s by (auto simp: db_ok_def core_ok_def steps_flow_def is_open_def)
  then show ?thesis using same_request [OF db x(1)] x(2) by metis
qed

lemma judged_open:
  assumes db: "db_ok db'" and others: "others_same i db db'"
    and s: "s \<in> set (db_steps db')" "st_status s = ST_active" "st_approval_id s = i"
  shows "judged db db'"
  by (rule judged_one [OF others]) (rule verdict_undecided, simp add: active_pending [OF db s])

lemma decide_judged:
  assumes dec: "decide env i act d ch comment approver_id token_id db = Inr (r, db')" and db: "db_ok db"
  shows "judged db db'"
  using dec db
proof (rule decide_parts)
  fix a row on_behalf s key p v db1 db2
  assume t: "vote_target env a act ch approver_id db = Inr (row, on_behalf, s, key, p)"
    and same: "others_same (ap_id a) db db1" "others_same (ap_id a) db1 db2" and db2: "db_ok db2" "db_steps db2 = db_steps db"
    and settle: "settle_vote env a s (locked_approvers db (ap_id a)) act db2 = Inr db'"
  have T: "s \<in> set (db_steps db2)" "st_approval_id s = ap_id a" "st_status s = ST_active"
    using vote_target_rows [OF t] db db2(2) by (simp_all add: db_ok_def)
  note S = settle_vote_db_ok [OF settle db2(1) T]
  from settle obtain out where "out = V_pending \<and> db' = db2 \<or>
      out \<noteq> V_pending \<and> close_step env a s (outcome_status out) ''votes'' act (trunc_sec (env_now env)) db2 = Inr db'"
    by (auto simp: settle_vote_def res_bind_Inr_iff split: if_splits)
  then show ?thesis
  proof (elim disjE conjE)
    assume "db' = db2"
    then show ?thesis using judged_open [OF db2(1) others_same_trans [OF same] T(1,3,2)] by simp
  next
    assume out: "out \<noteq> V_pending"
      and close: "close_step env a s (outcome_status out) ''votes'' act (trunc_sec (env_now env)) db2 = Inr db'"
    have "others_same (ap_id a) db db'" using S others_same_trans [OF others_same_trans [OF same]] by blast
    then show ?thesis
      by (rule judged_one) (rule close_step_verdict [OF db2(1) T(1) refl T(2,3) outcome_status_closed [OF out] close])
  qed
qed

lemma forward_judged: "forward env i approver_id act to_user db = Inr (new_id, db') \<Longrightarrow> judged db db'"
proof (erule forward_InrE)
  fix a uid row s target db1
  assume add: "add_approver env a s act (env_now env) \<lparr>ra_principal = target, ra_source_kind = S_forward,
       ra_source_ref = Some (str_int (ar_id row)), ra_source_label = None\<rparr> db = Inr (new_id, db1)"
    and core: "core db' = core (leave env [ar_id row] AR_forwarded None
       (upd_approvers (\<lambda>r. ar_id r = new_id) (\<lambda>r. r\<lparr>ar_decisive := ar_decisive row\<rparr>) db1))"
  have "db_approvals db1 = db_approvals db" using add by (rule add_approver_InrE)
  then have "db_approvals db' = db_approvals db"
    using core_eqD(1) [OF core] core_eqD(1) [OF leave_tables(2)] by simp
  then show "judged db db'" by (rule judged_same)
qed

lemma refresh_judged:
  assumes ref: "refresh_approvers env i act db = Inr (r, db')" and db: "db_ok db"
  shows "judged db db'"
proof -
  have ok: "core_ok db" using db by (simp add: db_ok_def)
  from ref obtain a added removed db1 db3 where a: "lock_approval db i = Inr a" "ap_status a = AP_pending" and
    fold: "res_fold (refresh_step env a act (locked_approvers db (ap_id a)))
       (filter (\<lambda>s. st_status s = ST_active) (locked_steps db (ap_id a))) ([], 0, db) = Inr (added, removed, db1)"
    and reev: "reevaluate_steps env a (filter (\<lambda>s. st_status s = ST_active) (locked_steps db (ap_id a))) act (env_now env)
       (audit_record env a A_refreshed act None None None
          [(''added'', JInt (int (length added))), (''removed'', JInt (int removed))] db1) = Inr db3"
    and core: "core db' = core db3"
    by (rule refresh_approvers_InrE)
  let ?ss = "filter (\<lambda>s. st_status s = ST_active) (locked_steps db (ap_id a))"
  let ?db2 = "audit_record env a A_refreshed act None None None
          [(''added'', JInt (int (length added))), (''removed'', JInt (int removed))] db1"
  have dist: "distinct (map st_id ?ss)" using locked_distinct(2) [OF ok] by (simp add: distinct_map_filter)
  have ready: "\<forall>s \<in> set ?ss. s \<in> set (db_steps db) \<and> st_approval_id s = ap_id a \<and> st_status s = ST_active"
      "\<forall>r \<in> set (locked_approvers db (ap_id a)). ar_approval_id r = ap_id a"
      "\<forall>r \<in> set (locked_approvers db (ap_id a)). ar_step_id r \<in> st_id ` set ?ss \<longrightarrow> r \<in> set (db_approvers db)"
    by simp_all
  note db1 = refresh_steps_db_ok [OF fold db ready(1) dist locked_distinct(1) [OF ok] ready(2,3)]
  have core2: "core ?db2 = core db1" by simp
  have db2: "db_ok ?db2" using db1 db_ok_cong [OF core2] by simp
  have steps2: "db_steps ?db2 = db_steps db" using db1 core_eqD(2) [OF core2] by simp
  have own: "\<forall>s \<in> set ?ss. owns_step ?db2 (ap_id a) (st_id s)" using steps2 by (auto simp: owns_step_def)
  obtain s where s: "s \<in> set (db_steps db)" "st_status s = ST_active" "st_approval_id s = ap_id a"
    using db lock_approval_row(1) [OF a(1)] a(2) by (auto simp: db_ok_def rest_ok_def steps_of_def)
  have before: "\<forall>x \<in> set (db_approvals ?db2). ap_id x = ap_id a \<longrightarrow> verdict ?db2 x"
    using active_pending [OF db2 _ s(2,3)] s(1) steps2 by (auto intro: verdict_undecided)
  have "others_same (ap_id a) db db3"
    using db1 others_same_core [OF refl core2, of "ap_id a" db] others_same_trans [of "ap_id a" db ?db2 db3]
      reevaluate_steps_db_ok [OF reev db2 own] by blast
  then have "judged db db3" by (rule judged_one) (rule reevaluate_steps_verdict [OF reev db2 own before])
  then show ?thesis using judged_core [OF refl core] by blast
qed

section \<open>New requests\<close>

lemma supersede_judged: "supersede env olds n act db = Inr db' \<Longrightarrow> \<forall>x \<in> set (db_approvals db'). x \<in> set (db_approvals db) \<or> ap_status x \<in> {AP_pending, AP_cancelled}"
proof -
  assume sup: "supersede env olds n act db = Inr db'"
  show ?thesis
  proof (rule res_fold_invariant [OF sup [unfolded supersede_def], where
      P = "\<lambda>d. \<forall>x \<in> set (db_approvals d). x \<in> set (db_approvals db) \<or> ap_status x \<in> {AP_pending, AP_cancelled}"])
    fix old d d'
    assume d: "\<forall>x \<in> set (db_approvals d). x \<in> set (db_approvals db) \<or> ap_status x \<in> {AP_pending, AP_cancelled}"
      and run: "finalize env old AP_cancelled ''superseded'' act False
        (upd_approvals (\<lambda>a. ap_id a = ap_id old) (\<lambda>a. a\<lparr>ap_superseded_by := Some n\<rparr>) d) = Inr d'"
    let ?u = "upd_approvals (\<lambda>a. ap_id a = ap_id old) (\<lambda>a. a\<lparr>ap_superseded_by := Some n\<rparr>) d"
    show "\<forall>x \<in> set (db_approvals d'). x \<in> set (db_approvals db) \<or> ap_status x \<in> {AP_pending, AP_cancelled}"
    proof
      fix x assume x: "x \<in> set (db_approvals d')"
      show "x \<in> set (db_approvals db) \<or> ap_status x \<in> {AP_pending, AP_cancelled}"
      proof (cases "ap_id x = ap_id old")
        case True
        then show ?thesis using finalize_status [OF run x] by simp
      next
        case False
        have "x \<in> set (db_approvals (closing env (ap_id old) AP_cancelled ''superseded'' ?u))"
          using x core_eqD(1) [OF finalize_core [OF run]] by simp
        then have "x \<in> set (db_approvals d)" using False by (auto simp: closing_def elim!: upd_whereE)
        then show ?thesis using d by blast
      qed
    qed
  qed simp
qed

lemma request_judged:
  assumes req: "request_approval env rq act db = Inr (r, db')" and db: "db_ok db"
    and wf: "has_steps (rq_definition rq)" "templates_ok db"
  shows "judged db db'"
proof -
  from req obtain title key ref d template_id requester a olds where
      d: "validated_definition env db (rq_subject_type rq) (rq_definition rq) (rq_template_key rq) = Inr (d, template_id)"
      and olds: "olds = (if rq_supersede rq then lock_pending_same_key db (rq_ticket_id rq) key else [])"
      and a: "a = new_approval env db (rq_ticket_id rq) (rq_subject_type rq) ref key title
       (map_option replace_non_bmp (rq_description rq)) template_id (rq_allow_self_approval rq) requester act"
      and start: "start_request env a olds (length (d_steps d)) act (insert_steps a 1 (d_steps d) (insert_approval a db)) = Inr db'"
    by (rule request_approval_InrE)
  have ids: "ap_id a = seq_approval db" "ap_status a = AP_pending" by (simp_all add: a)
  have ok: "core_ok db" using db by (simp add: db_ok_def)
  let ?db1 = "insert_steps a 1 (d_steps d) (insert_approval a db)"
  note N = new_request_ok [OF db ids validated_definition_steps [OF d wf]]
  have fresh: "\<forall>x \<in> set olds. ap_id x \<noteq> ap_id a" using olds_ids(1) [OF ok olds] ids(1) by simp
  from start obtain db2 db3 ids' db4 where sup: "supersede env olds (ap_id a) act ?db1 = Inr db2"
      and core3: "core db3 = core db2" and act: "activate_next_stage env a act db3 = Inr (ids', db4)"
      and core4: "core db' = core db4"
    by (rule start_request_parts)
  note S = supersede_ok [OF sup N(1,5) fresh]
  have own: "untouched (ap_id a) ?db1 db2" using S fresh by (metis imageE)
  have row: "a \<in> set (db_approvals db2)" using untouched_row [OF own] N(3) by auto
  have stages: "stages_ok db3 a"
    using N(4) untouched_steps_of [OF own] core_eqD(2) [OF core3] by (simp add: stages_ok_def steps_of_def)
  have ok3: "core_ok db3" using S core_ok_cong [OF core3] by blast
  have others: "others_same (ap_id a) db3 db4"
    using activate_next_stage_db_ok [OF act ok3, of a] S row stages ids(2) core3
    by (auto simp: rest_ok_def stages_ok_def steps_of_def core_def)
  have "judged db3 db4"
    by (rule judged_one [OF others]) (rule next_stage_verdict [OF act ok3 _ refl ids(2) stages], simp add: row core_eqD(1) [OF core3])
  then have "judged db2 db'" using judged_core [OF core3 refl, of db4] judged_core [OF refl core4] by simp
  moreover have "x \<in> set (db_approvals db) \<or> verdict db' x" if "x \<in> set (db_approvals db2)" for x
  proof -
    have "x \<in> set (db_approvals db @ [a]) \<or> ap_status x \<in> {AP_pending, AP_cancelled}"
      using supersede_judged [OF sup] that by (metis N(3))
    then show ?thesis using ids(2) by (auto intro: verdict_undecided)
  qed
  ultimately show ?thesis by (auto simp: judged_def)
qed

lemma auto_decision_judged:
  assumes rec: "record_auto_decision env rq status reason act db = Inr (r, db')" and db: "db_ok db"
  shows "judged db db'"
proof -
  from rec obtain title key ref requester a olds db1 where
      a: "a = new_approval env db (rq_ticket_id rq) (rq_subject_type rq) ref key title
        (map_option replace_non_bmp (rq_description rq)) None False requester act"
      and sup: "supersede env olds (ap_id a) act (insert_approval a db) = Inr db1"
      and fin: "finalize env a status reason act True db1 = Inr db'"
    by (rule record_auto_decision_InrE)
  have ok: "core_ok db" using db by (simp add: db_ok_def)
  have ids: "ap_id a = seq_approval db" "ap_status a = AP_pending" by (simp_all add: a)
  have keeps: "engine_keeps (insert_approval a db) db'"
  proof -
    have up: "engine_keeps d (upd_approvals (\<lambda>a. ap_id a = i) (\<lambda>a. a\<lparr>ap_superseded_by := Some n\<rparr>) d)" for d i n
      by (simp add: engine_keeps_def map_upd_where)
    have "engine_keeps (insert_approval a db) db1"
      by (rule res_fold_invariant [OF sup [unfolded supersede_def], where P = "engine_keeps (insert_approval a db)"])
        (auto intro: engine_keeps_trans [OF engine_keeps_trans [OF _ up]] finalize_keeps)
    then show ?thesis using finalize_keeps [OF fin] engine_keeps_trans by blast
  qed
  have "st_approval_id s \<noteq> ap_id a" if "s \<in> set (db_steps db)" for s
    using fresh_steps_of [OF ok] that ids(1) by (auto simp: steps_of_def)
  moreover have "map (\<lambda>s. (st_id s, st_approval_id s)) (db_steps db') = map (\<lambda>s. (st_id s, st_approval_id s)) (db_steps db)"
    using keeps by (simp add: engine_keeps_def insert_approval_def)
  then have "st_approval_id ` set (db_steps db') = st_approval_id ` set (db_steps db)"
    by (drule_tac f = "\<lambda>ps. snd ` set ps" in arg_cong) (simp add: image_image)
  ultimately have "ap_id a \<notin> st_approval_id ` set (db_steps db')" by (metis imageE)
  then have "steps_of db' (ap_id a) = {}" using steps_of_nonempty by metis
  then have new: "verdict db' x" if "ap_id x = ap_id a" for x using that by (simp add: verdict_def)
  have "x \<in> set (db_approvals db) \<or> verdict db' x" if x: "x \<in> set (db_approvals db')" for x
  proof (cases "ap_id x = ap_id a")
    case False
    have "x \<in> set (db_approvals (closing env (ap_id a) status reason db1))"
      using x core_eqD(1) [OF finalize_core [OF fin]] by simp
    then have "x \<in> set (db_approvals db1)" using False by (auto simp: closing_def elim!: upd_whereE)
    then show ?thesis
      using supersede_judged [OF sup] False ids(2) by (auto simp: insert_approval_def intro: verdict_undecided)
  qed (use new in blast)
  then show ?thesis by (simp add: judged_def)
qed

section \<open>The sweep\<close>

lemma overdue_judged:
  assumes run: "overdue env step_id now a db = Inr (t, db')" and db: "db_ok db"
  shows "judged db db'"
  using run
proof (cases rule: overdue_InrE)
  case nothing
  then show ?thesis by (simp add: judged_same)
next
  case (handled s db1)
  have M: "db_ok db'" "others_same (ap_id a) db db'" using overdue_moves [OF run] db by (simp_all add: moves_def)
  let ?s = "s\<lparr>st_overdue_at := Some now\<rparr>"
  have active: "st_status s = ST_active" using handled(4) by (simp add: overdue_step_def)
  have s1: "?s \<in> set (db_steps db1)"
    unfolding handled(5) using upd_where_hit [OF handled(1), of "\<lambda>x. st_id x = st_id s" "\<lambda>x. x\<lparr>st_overdue_at := Some now\<rparr>"] by simp
  have still: "judged db db'" if "db_steps db' = db_steps db1"
    using judged_open [OF M, of ?s] s1 that active handled(2) by simp
  from handled(7) consider "core db' = core db1"
    | ids db2 where "escalate env a s (locked_approvers_in db (ap_id a) [st_id s]) now db1 = Inr (ids, db2)" "core db' = core db2"
    | outcome d where "outcome = ST_approved \<or> outcome = ST_rejected" "core d = core db1"
        "close_step env a s outcome ''timeout'' actor_system now d = Inr db'"
    by blast
  then show ?thesis
  proof cases
    case 1
    then show ?thesis using still core_eqD(2) by blast
  next
    case 2
    have "db_steps db2 = db_steps db1"
      using escalate_moves [OF 2(1) s1] handled(2,5) active by simp
    then show ?thesis using still core_eqD(2) [OF 2(2)] by simp
  next
    case 3
    have "db_ok db1"
      unfolding handled(5)
    proof (rule keeps_flow_steps(1) [OF _ _ db])
      show "keeps_flow (\<lambda>x. x\<lparr>st_overdue_at := Some now\<rparr>)" by (simp add: keeps_flow_def)
      show "st_status x = ST_active" if "x \<in> set (db_steps db)" "st_id x = st_id s" for x
        using step_id_approval [OF _ handled(1) that] active db by (simp add: db_ok_def)
    qed
    then have d: "db_ok d" "?s \<in> set (db_steps d)" using db_ok_cong [OF 3(2)] s1 core_eqD(2) [OF 3(2)] by simp_all
    show ?thesis
      by (rule judged_one [OF M(2)]) (rule close_step_verdict [OF d _ _ _ 3(1,3)], use active handled(2) in simp_all)
  qed
qed

lemma remind_judged:
  assumes "remind env step_id now a db = Inr (t, db')" shows "judged db db'"
  using assms
proof (cases rule: remind_InrE)
  case (sent s n)
  then show ?thesis using core_eqD(1) [OF sent(10)] by (intro judged_same) simp
qed (simp add: judged_same)

lemma drop_invalid_judged:
  assumes run: "drop_invalid env now a db = Inr (t, db')" and db: "db_ok db"
  shows "judged db db'"
proof (cases "dropped_rows db a = []")
  case True
  then show ?thesis using run by (simp add: drop_invalid_def judged_same)
next
  case False
  let ?steps = "filter (\<lambda>s. st_status s = ST_active \<and> st_id s \<in> ar_step_id ` fst ` set (dropped_rows db a)) (locked_steps db (ap_id a))"
  let ?d = "drop_rows env a (dropped_rows db a) db"
  from run False have reev: "reevaluate_steps env a ?steps actor_system now ?d = Inr db'"
    by (auto simp: drop_invalid_def Let_def res_bind_Inr_iff)
  have ok: "core_ok db" using db by (simp add: db_ok_def)
  have d: "db_ok ?d" "db_steps ?d = db_steps db" using drop_rows_ok [OF db, of env a] by blast+
  obtain r why where "(r, why) \<in> set (dropped_rows db a)" using False by (metis list.set_intros(1) neq_Nil_conv surj_pair)
  then obtain s where "s \<in> set (locked_steps db (ap_id a))" "st_status s = ST_active"
    using dropped_rows_facts(1) [OF ok, of a] by blast
  then have s: "s \<in> set (db_steps ?d)" "st_status s = ST_active" "st_approval_id s = ap_id a" by (simp_all add: d(2))
  have "\<forall>s \<in> set ?steps. owns_step ?d (ap_id a) (st_id s)" using d(2) by (auto simp: owns_step_def)
  moreover have "\<forall>x \<in> set (db_approvals ?d). ap_id x = ap_id a \<longrightarrow> verdict ?d x"
    using active_pending [OF d(1) s] by (auto intro: verdict_undecided)
  ultimately have "verdict db' x" if "x \<in> set (db_approvals db')" "ap_id x = ap_id a" for x
    using reevaluate_steps_verdict [OF reev d(1) _ _ that] by blast
  moreover have "others_same (ap_id a) db db'" using drop_invalid_moves [OF run] db by (simp add: moves_def)
  ultimately show ?thesis using judged_one by blast
qed

lemma item_judged:
  assumes run: "item i work db = (t, db')" and work: "\<And>a t d. work a db = Inr (t, d) \<Longrightarrow> judged db d"
  shows "judged db db'"
  using run work by (auto simp: item_def judged_same split: sum.splits option.splits if_splits)

section \<open>Every transaction\<close>

lemma service_step_judged:
  assumes "service_step db db'" and rest: "at_rest db" shows "judged db db'"
proof -
  have db: "db_ok db" using rest by (simp add: at_rest_def)
  show ?thesis
    using assms(1)
  proof cases
    case (requested rq env act r)
    then show ?thesis using request_judged [OF _ db] by blast
  next
    case (auto_decided env rq status reason act r)
    then show ?thesis using auto_decision_judged [OF _ db] by blast
  next
    case (cancelled env i act reason chk r)
    then show ?thesis by (rule cancel_judged)
  next
    case (decided env i act d ch comment approver_id token_id r)
    then show ?thesis by (rule decide_judged [OF _ db])
  next
    case (forwarded env i approver_id act to_user new_id)
    then show ?thesis by (rule forward_judged)
  next
    case (refreshed env i act n)
    then show ?thesis by (rule refresh_judged [OF _ db])
  next
    case (link_issued env approver_id tok t)
    then show ?thesis by (elim issue_link_InrE) (rule judged_same)
  next
    case (redeemed env tok d comment r)
    then show ?thesis
    proof (rule redeem_link_InrE)
      fix k target db1 act
      assume cons: "consume_link env (lt_token_id target) db = Inr db1"
        and dec: "decide env (tk_approval_id k) act d Ch_email comment (Some (lt_approver_id target))
          (Some (lt_token_id target)) db1 = Inr (r, db')"
      show ?thesis
        using decide_judged [OF dec consume_link_ok(1) [OF cons db]] consume_link_ok(3) [OF cons db] by (simp add: judged_def)
    qed
  next
    case (orphan_cancelled env key c c')
    then obtain t where "item (snd key) (\<lambda>a db. res_bind (cancel_approval env (ap_id a) actor_system ''ticket_deleted'' False db)
            (\<lambda>(_, db'). Inr (Some True, db'))) db = (t, db')"
      by (auto simp: cancel_item_def split: prod.splits)
    then show ?thesis by (rule item_judged) (auto simp: res_bind_Inr_iff dest: cancel_judged)
  next
    case (swept_overdue env now key c c')
    then obtain t where "item (snd key) (overdue env (fst key) now) db = (t, db')"
      by (auto simp: overdue_item_def split: prod.splits)
    then show ?thesis by (rule item_judged) (rule overdue_judged [OF _ db])
  next
    case (swept_reminder env now key c c')
    then obtain t where "item (snd key) (remind env (fst key) now) db = (t, db')"
      by (auto simp: remind_item_def split: prod.splits)
    then show ?thesis by (rule item_judged) (rule remind_judged)
  next
    case (swept_invalid env now i c c')
    then obtain t where "item i (drop_invalid env now) db = (t, db')"
      by (auto simp: drop_item_def split: prod.splits)
    then show ?thesis by (rule item_judged) (rule drop_invalid_judged [OF _ db])
  next
    case (timers_moved env registered now timers frozen timers')
    then show ?thesis using run_timers_ok [OF _ db] by (auto simp: timers_inv_def intro: judged_same)
  next
    case (links_purged now c c')
    then show ?thesis by (auto simp: purge_old_links_def intro!: judged_same split: prod.splits)
  next
    case (mail_sent env now i approver detail)
    then show ?thesis
      by (auto simp: mail_sent_def mail_audit_def audit_record_def intro!: judged_same split: option.splits)
  next
    case (mail_failed env i approver detail)
    then show ?thesis by (auto simp: mail_audit_def audit_record_def intro!: judged_same)
  next
    case (mail_link_unsent env digest)
    then show ?thesis by (simp add: link_unsent_def judged_same)
  next
    case elsewhere
    then show ?thesis by (simp add: same_requests_def judged_same)
  qed
qed

lemma reachable_verdicts:
  assumes "service_step\<^sup>*\<^sup>* db0 db" and start: "no_requests db0"
  shows "\<forall>x \<in> set (db_approvals db). verdict db x"
  using assms(1)
proof (induction rule: rtranclp_induct)
  case base
  then show ?case using start by (simp add: no_requests_def)
next
  case (step d d')
  have rest: "at_rest d" by (rule reachable_at_rest [OF step.hyps(1) start])
  have J: "judged d d'" and P: "proceeds d d'"
    using service_step_judged [OF step.hyps(2) rest] service_step_proceeds [OF step.hyps(2) rest] .
  show ?case
  proof
    fix x assume x: "x \<in> set (db_approvals d')"
    show "verdict d' x"
    proof (cases "x \<in> set (db_approvals d) \<and> ap_status x \<noteq> AP_pending")
      case True
      then have "settled (ap_id x) d d'" using P by (simp add: proceeds_def)
      then have "steps_of d' (ap_id x) = steps_of d (ap_id x)"
        unfolding settled_def steps_of_def by (metis set_filter)
      then show ?thesis using True step.IH verdict_steps by blast
    next
      case False
      then show ?thesis using J x by (auto simp: judged_def intro: verdict_undecided)
    qed
  qed
qed

text \<open>
  C3. A decision follows from its steps: in any database the module can reach, every step of an approved
  request was approved, and a rejected request has a rejected step, unless it was decided at once and never
  had one.
\<close>

theorem decisions_follow_steps:
  assumes "service_step\<^sup>*\<^sup>* db0 db" and "no_requests db0" and "x \<in> set (db_approvals db)"
  shows "(ap_status x = AP_approved \<longrightarrow> (\<forall>s \<in> steps_of db (ap_id x). st_status s = ST_approved)) \<and>
    (ap_status x = AP_rejected \<longrightarrow> steps_of db (ap_id x) = {} \<or> (\<exists>s \<in> steps_of db (ap_id x). st_status s = ST_rejected))"
  using reachable_verdicts [OF assms(1,2)] assms(3) by (simp add: verdict_def)

theorem decisions_follow_steps_witness:
  "list_all (\<lambda>s. st_status s = ST_approved) (db_steps approved_db)"
proof -
  obtain a where a: "a \<in> set (db_approvals approved_db)" "ap_status a = AP_approved" "ap_id a = 1"
    using approved_facts(2) by auto
  have own: "list_all (\<lambda>s. st_approval_id s = 1) (db_steps approved_db)" by code_simp
  have "service_step\<^sup>*\<^sup>* empty_db approved_db" using started_step approved_step by simp
  from decisions_follow_steps [OF this no_requests_empty a(1)] a(2,3)
  have "\<forall>s \<in> steps_of approved_db 1. st_status s = ST_approved" by simp
  then show ?thesis using own by (simp add: list_all_iff steps_of_def)
qed

end
