(* ===== verification/Approval_Decisions.thy ===== *)
theory Approval_Decisions
  imports Approval_Verdicts
begin

text \<open>
  Who decides what: a vote is cast by somebody the step asks, a person hands a row on once, and a new
  request of the same kind replaces the pending ones.
\<close>

section \<open>Votes\<close>

text \<open>Whose row somebody may vote: the own one, or, where the step allows it, that of an agent one stands in for.\<close>

definition may_vote :: "approval_env \<Rightarrow> approval_db \<Rightarrow> actor \<Rightarrow> string \<Rightarrow> step_row \<Rightarrow> approver_row \<Rightarrow> bool" where
  "may_vote env db act key s r \<longleftrightarrow> ar_principal r = key \<or>
     sp_allow_delegation (st_spec s) \<and>
     (\<exists>p u v. a_principal act = Some p \<and> p_user_id p = Some u \<and> ar_user_id r = Some v \<and> v \<noteq> u \<and>
        v \<in> active_delegators db u (env_now env))"

lemma vote_target_may_vote:
  assumes t: "vote_target env a act ch approver_id db = Inr (row, on_behalf, s, key, p)" and ok: "core_ok db"
  shows "may_vote env db act key s row"
proof -
  note T = vote_target_InrE [OF t]
  from T(1) obtain p where p: "a_principal act = Some p"
      and own: "ar_principal row = key \<or> delegated_row env db (locked_steps db (ap_id a)) p row"
    by (rule pick_approver_InrE)
  have s: "s \<in> set (db_steps db)" using T(3) by simp
  from own show ?thesis
  proof
    assume del: "delegated_row env db (locked_steps db (ap_id a)) p row"
    then obtain x where x: "x \<in> set (db_steps db)" "st_id x = ar_step_id row" "sp_allow_delegation (st_spec x)"
      by (auto simp: delegated_row_def Let_def)
    have "x = s" using steps.same_key_same_row [OF core_ok_distinct(2) [OF ok] x(1) s] x(2) T(4) by simp
    then show ?thesis
      using del p x(3) by (auto simp: delegated_row_def may_vote_def Let_def split: option.splits)
  qed (simp add: may_vote_def)
qed

text \<open>
  C5. A vote is legitimate: it adds exactly one row, of the given decision, for a pending approver row of an
  active step of the request that the voter may vote, as that approver or as an active substitute where the
  step allows delegation; the voter is not excluded from the request and has not voted in the step before.
\<close>

theorem decide_legitimate:
  assumes dec: "decide env i act d ch comment approver_id token_id db = Inr (r, db')" and db: "db_ok db"
  shows "\<exists>v row s key a excluded. db_votes db' = db_votes db @ [v] \<and> vt_decision v = d \<and> vt_approval_id v = i \<and>
    vt_approver_id v = ar_id row \<and> vt_step_id v = st_id s \<and> vt_decided_by v = key \<and>
    voter_key (db_znuny db) act = Inr key \<and>
    row \<in> set (db_approvers db) \<and> ar_step_id row = st_id s \<and> ar_status row = AR_pending \<and>
    s \<in> steps_of db i \<and> st_status s = ST_active \<and> may_vote env db act key s row \<and>
    get_approval db i = Some a \<and> excluded_keys db a = Inr excluded \<and> key \<notin> excluded \<and>
    (\<forall>w \<in> set (db_votes db). vt_step_id w = st_id s \<longrightarrow> vt_decided_by w \<noteq> key)"
  using dec db
proof (rule decide_parts)
  fix a row on_behalf s key p v db1 db2
  assume a: "lock_approval db i = Inr a"
    and t: "vote_target env a act ch approver_id db = Inr (row, on_behalf, s, key, p)"
    and v: "core db1 = core (with_vote v (leave env [ar_id row] (decided_status d) token_id db))"
    and vote: "vt_approval_id v = ap_id a" "vt_step_id v = ar_step_id row" "vt_approver_id v = ar_id row"
      "vt_decision v = d" "vt_decided_by v = key"
    and dead: "core db2 = core (leave env (dead_rows db1 (locked_approvers db (ap_id a)) (st_id s) key) AR_not_needed None db1)"
    and db2: "db_ok db2" "db_steps db2 = db_steps db"
    and settle: "settle_vote env a s (locked_approvers db (ap_id a)) act db2 = Inr db'"
  have ok: "core_ok db" using db by (simp add: db_ok_def)
  note T = vote_target_rows [OF t ok]
  have "db_votes db' = db_votes db2"
    using settle_vote_db_ok [OF settle db2(1)] T(4,5,7) db2(2) by (simp add: engine_keeps_def)
  also have "\<dots> = db_votes db1" using core_eqD(4) [OF dead] core_eqD(4) [OF leave_tables(2)] by simp
  also have "\<dots> = db_votes db @ [v]" using core_eqD(4) [OF v] core_eqD(4) [OF leave_tables(2)] by simp
  finally have votes: "db_votes db' = db_votes db @ [v]" .
  obtain excluded where ex: "excluded_keys db a = Inr excluded" "key \<notin> excluded"
    using vote_target_InrE(5) [OF t] by (rule check_vote_InrE)
  have a': "get_approval db i = Some a" using get_approval_row [OF db lock_approval_row(1) [OF a]] lock_approval_row(2) [OF a] by simp
  have new: "vt_decided_by w \<noteq> key" if w: "w \<in> set (db_votes db)" "vt_step_id w = st_id s" for w
  proof -
    obtain x where x: "x \<in> set (db_approvers db)" "ar_step_id x = vt_step_id w" "ar_approval_id x = vt_approval_id w"
      using ok w(1) by (auto simp: core_ok_def votes_ok_def)
    have "ar_approval_id x = st_approval_id s" using core_ok_approver_step [OF ok x(1) T(4)] x(2) w(2) by simp
    then show ?thesis using T(5,6,8) w x(3) by auto
  qed
  show ?thesis
    using votes vote T vote_target_may_vote [OF t ok] vote_target_InrE(2) [OF t] a' ex new lock_approval_row(2) [OF a]
    by (intro exI [of _ v] exI [of _ row] exI [of _ s] exI [of _ key] exI [of _ a] exI [of _ excluded])
      (simp add: steps_of_def)
qed

lemma started_db_ok: "db_ok started_db"
  using reachable_at_rest [OF r_into_rtranclp [where r = service_step, OF started_step] no_requests_empty]
  by (simp add: at_rest_def)

theorem decide_legitimate_witness:
  "length (db_votes approved_db) = 1 \<and> list_ex (\<lambda>r. ar_status r = AR_pending \<and> ar_principal r = ''agent:7'') (db_approvers started_db)"
proof -
  obtain r where run: "decide example_env 1 agent_seven D_approved Ch_ui None None None started_db = Inr (r, approved_db)"
    using approved_facts(1) by blast
  from decide_legitimate [OF run started_db_ok] have "length (db_votes approved_db) = length (db_votes started_db) + 1" by auto
  moreover have "db_votes started_db = []" "list_ex (\<lambda>r. ar_status r = AR_pending \<and> ar_principal r = ''agent:7'') (db_approvers started_db)"
    using started_facts(2) by (auto simp: asks_seven_def split: list.splits)
  ultimately show ?thesis by simp
qed

section \<open>Forwarding\<close>

text \<open>Where the row of the actor is, pending, and whom it is handed to; the new row stands beside it.\<close>

definition handed_on :: "int \<Rightarrow> int \<Rightarrow> string \<Rightarrow> principal \<Rightarrow> approval_db \<Rightarrow> approval_db \<Rightarrow> bool" where
  "handed_on from_id new_id key target db db' \<longleftrightarrow> (\<exists>row x.
     row \<in> set (db_approvers db) \<and> ar_id row = from_id \<and> ar_status row = AR_pending \<and> ar_principal row = key \<and>
     row\<lparr>ar_status := AR_forwarded\<rparr> \<in> set (db_approvers db') \<and>
     x \<in> set (db_approvers db') \<and> ar_id x = new_id \<and> ar_status x = AR_pending \<and> ar_source_kind x = S_forward \<and>
     ar_principal x = principal_key target \<and> ar_step_id x = ar_step_id row \<and> ar_decisive x = ar_decisive row \<and>
     ar_approval_id x = ar_approval_id row)"

lemma forward_hands_on:
  assumes fwd: "forward env i approver_id act to_user db = Inr (new_id, db')" and db: "db_ok db"
  obtains target where "handed_on approver_id new_id (actor_key act) target db db'" "principal_agent to_user = Inr target"
    "agent_valid (db_znuny db) to_user = Some 1"
proof -
  from fwd obtain a uid row s target db1 where t: "forward_target env a approver_id act uid to_user db = Inr (row, s, target)"
    and add: "add_approver env a s act (env_now env) \<lparr>ra_principal = target, ra_source_kind = S_forward,
       ra_source_ref = Some (str_int (ar_id row)), ra_source_label = None\<rparr> db = Inr (new_id, db1)"
    and core: "core db' = core (leave env [ar_id row] AR_forwarded None
       (upd_approvers (\<lambda>r. ar_id r = new_id) (\<lambda>r. r\<lparr>ar_decisive := ar_decisive row\<rparr>) db1))"
    by (rule forward_InrE)
  note T = forward_target_InrE [OF t]
  have ok: "core_ok db" using db by (simp add: db_ok_def)
  from add obtain x where x: "db_approvers db1 = db_approvers db @ [x]" "new_id = seq_approver db" "ar_id x = new_id"
      "ar_approval_id x = ap_id a" "ar_step_id x = st_id s" "ar_status x = AR_pending"
      "ar_principal x = principal_key target" "ar_source_kind x = S_forward"
    by (rule add_approver_InrE) simp
  have differ: "new_id \<noteq> ar_id row" using ok T(1) x(2) by (auto simp: core_ok_def keys_ok_def fresh_ids_def)
  have rows: "db_approvers db' = upd_where (\<lambda>r. ar_id r \<in> set [ar_id row]) (\<lambda>r. r\<lparr>ar_status := AR_forwarded\<rparr>)
      (upd_where (\<lambda>r. ar_id r = new_id) (\<lambda>r. r\<lparr>ar_decisive := ar_decisive row\<rparr>) (db_approvers db @ [x]))"
    using core_eqD(3) [OF core] by (simp add: leave_tables(1) x(1))
  have "row \<in> set (upd_where (\<lambda>r. ar_id r = new_id) (\<lambda>r. r\<lparr>ar_decisive := ar_decisive row\<rparr>) (db_approvers db @ [x]))"
    using T(1) differ by (intro upd_where_kept) auto
  then have gone: "row\<lparr>ar_status := AR_forwarded\<rparr> \<in> set (db_approvers db')"
    unfolding rows by (rule upd_where_hit) simp
  have "x\<lparr>ar_decisive := ar_decisive row\<rparr> \<in>
      set (upd_where (\<lambda>r. ar_id r = new_id) (\<lambda>r. r\<lparr>ar_decisive := ar_decisive row\<rparr>) (db_approvers db @ [x]))"
    using x(3) by (intro upd_where_hit) auto
  then have new: "x\<lparr>ar_decisive := ar_decisive row\<rparr> \<in> set (db_approvers db')"
    unfolding rows by (rule upd_where_kept) (use x(3) differ in simp)
  have "handed_on approver_id new_id (actor_key act) target db db'"
    unfolding handed_on_def
    using T x gone new by (intro exI [of _ row] exI [of _ "x\<lparr>ar_decisive := ar_decisive row\<rparr>"]) simp
  then show ?thesis using that T(14,15) by blast
qed

text \<open>
  C7. Forwarding hands a pending row on once: the own row of the actor becomes forwarded, one pending row of a
  valid agent takes its place in the same step with the same weight, and nobody can forward that one again.
\<close>

theorem forward_one_hop:
  assumes fwd: "forward env i approver_id act to_user db = Inr (new_id, db')" and db: "db_ok db"
  shows "(\<exists>target. handed_on approver_id new_id (actor_key act) target db db' \<and> principal_agent to_user = Inr target \<and>
      agent_valid (db_znuny db) to_user = Some 1) \<and>
    (\<forall>env' act' u r'. forward env' i new_id act' u db' \<noteq> Inr r')"
proof
  from forward_hands_on [OF fwd db] obtain target where target: "handed_on approver_id new_id (actor_key act) target db db'"
      "principal_agent to_user = Inr target" "agent_valid (db_znuny db) to_user = Some 1" by blast
  then show "\<exists>target. handed_on approver_id new_id (actor_key act) target db db' \<and> principal_agent to_user = Inr target \<and>
      agent_valid (db_znuny db) to_user = Some 1" by blast
  have ok': "core_ok db'" using forward_db_ok [OF fwd db] by (simp add: db_ok_def)
  from target(1) obtain x where x: "x \<in> set (db_approvers db')" "ar_id x = new_id" "ar_source_kind x = S_forward"
    by (auto simp: handed_on_def)
  show "\<forall>env' act' u r'. forward env' i new_id act' u db' \<noteq> Inr r'"
  proof (intro allI notI)
    fix env' act' u r' assume "forward env' i new_id act' u db' = Inr r'"
    then obtain n d where "forward env' i new_id act' u db' = Inr (n, d)" by (cases r') auto
    then obtain a uid row s target d1 where t: "forward_target env' a new_id act' uid u db' = Inr (row, s, target)"
      by (rule forward_InrE)
    note T = forward_target_InrE [OF t]
    have "row = x" using approvers.same_key_same_row [OF core_ok_distinct(3) [OF ok'] T(1) x(1)] T(3) x(2) by simp
    then show False using T(6) x(3) by simp
  qed
qed

theorem forward_one_hop_witness:
  "\<exists>db'. forward example_env 1 1 agent_seven 8 started_db = Inr (3, db') \<and>
     (\<exists>target. handed_on 1 3 (actor_key agent_seven) target started_db db') \<and>
     (\<forall>env' act' u r'. forward env' 1 3 act' u db' \<noteq> Inr r')"
proof -
  have "case forward example_env 1 1 agent_seven 8 started_db of Inr (n, _) \<Rightarrow> n = 3 | Inl _ \<Rightarrow> False"
    by code_simp
  then obtain db' where run: "forward example_env 1 1 agent_seven 8 started_db = Inr (3, db')"
    by (auto split: sum.splits prod.splits)
  then show ?thesis using forward_one_hop [OF run started_db_ok] by blast
qed

section \<open>Replacing the pending requests of a key\<close>

text \<open>
  C6. A request made with supersede leaves one pending request of its ticket and key, itself: every other one
  that waited is cancelled in its favour.
\<close>

theorem one_pending_per_key:
  assumes req: "request_approval env rq act db = Inr (r, db')" and db: "db_ok db"
    and wf: "has_steps (rq_definition rq)" "templates_ok db" and sup: "rq_supersede rq"
    and ct: "check_text (rq_title rq) (rq_approval_key rq) (rq_subject_ref rq) = Inr (title, key, ref)"
  shows "(\<forall>x \<in> set (db_approvals db). ap_ticket_id x = rq_ticket_id rq \<and> ap_approval_key x = key \<and>
        ap_status x = AP_pending \<longrightarrow> superseded env (seq_approval db) x \<in> set (db_approvals db')) \<and>
    (\<forall>x \<in> set (db_approvals db'). ap_ticket_id x = rq_ticket_id rq \<and> ap_approval_key x = key \<and>
        ap_status x = AP_pending \<longrightarrow> ap_id x = seq_approval db)"
proof -
  from req ct sup obtain d template_id requester a olds where
      d: "validated_definition env db (rq_subject_type rq) (rq_definition rq) (rq_template_key rq) = Inr (d, template_id)"
      and olds: "olds = lock_pending_same_key db (rq_ticket_id rq) key"
      and a: "a = new_approval env db (rq_ticket_id rq) (rq_subject_type rq) ref key title
       (map_option replace_non_bmp (rq_description rq)) template_id (rq_allow_self_approval rq) requester act"
      and start: "start_request env a olds (length (d_steps d)) act (insert_steps a 1 (d_steps d) (insert_approval a db)) = Inr db'"
    by (auto elim!: request_approval_InrE)
  let ?db1 = "insert_steps a 1 (d_steps d) (insert_approval a db)"
  have ids: "ap_id a = seq_approval db" "ap_status a = AP_pending" by (simp_all add: a)
  have ok: "core_ok db" using db by (simp add: db_ok_def)
  have locked: "olds = (if rq_supersede rq then lock_pending_same_key db (rq_ticket_id rq) key else [])" using olds sup by simp
  note N = new_request_ok [OF db ids validated_definition_steps [OF d wf]]
  note O = olds_pending [OF ok locked ids]
  have row: "a \<in> set (db_approvals ?db1)" using N(3) by simp
  obtain db2 where sup2: "supersede env olds (ap_id a) act ?db1 = Inr db2" and others: "others_same (ap_id a) db2 db'"
    using start_request_db_ok(3) [OF start N(1,5,4) row] olds_ids(1) [OF ok locked] ids(1) by auto
  have rows: "db_approvals db2 = upd_where (\<lambda>x. ap_id x \<in> ap_id ` set olds) (superseded env (ap_id a)) (db_approvals db @ [a])"
    using supersede_later [OF sup2 N(1) O(1)] O(2) N(3) by (simp add: insert_approval_def)
  have same: "x \<in> set (db_approvals db') \<longleftrightarrow> x \<in> set (db_approvals db2)" if "ap_id x \<noteq> ap_id a" for x
    using others that unfolding others_same_def by (metis (mono_tags, lifting) mem_Collect_eq set_filter)
  have old: "x \<in> set olds \<longleftrightarrow> x \<in> set (db_approvals db) \<and> ap_ticket_id x = rq_ticket_id rq \<and> ap_approval_key x = key \<and>
      ap_status x = AP_pending" for x
    by (auto simp: olds lock_pending_same_key_def)
  have fresh: "ap_id x \<noteq> ap_id a" if "x \<in> set (db_approvals db)" for x
    using ok that ids(1) by (auto simp: core_ok_def keys_ok_def fresh_ids_def)
  show ?thesis
  proof (intro conjI ballI impI)
    fix x assume x: "x \<in> set (db_approvals db)"
      and waits: "ap_ticket_id x = rq_ticket_id rq \<and> ap_approval_key x = key \<and> ap_status x = AP_pending"
    have "superseded env (ap_id a) x \<in> set (db_approvals db2)"
      unfolding rows using x waits old by (intro upd_where_hit) auto
    then show "superseded env (seq_approval db) x \<in> set (db_approvals db')"
      using same fresh [OF x] ids(1) by simp
  next
    fix x assume x: "x \<in> set (db_approvals db')"
      and waits: "ap_ticket_id x = rq_ticket_id rq \<and> ap_approval_key x = key \<and> ap_status x = AP_pending"
    show "ap_id x = seq_approval db"
    proof (rule ccontr)
      assume other: "ap_id x \<noteq> seq_approval db"
      then have "x \<in> set (db_approvals db2)" using same x ids(1) by simp
      then have "x \<in> set (upd_where (\<lambda>x. ap_id x \<in> ap_id ` set olds) (superseded env (ap_id a)) (db_approvals db @ [a]))"
        unfolding rows .
      then have "x \<in> set (db_approvals db @ [a]) \<and> ap_id x \<notin> ap_id ` set olds"
      proof (cases rule: upd_whereE)
        case hit
        then show ?thesis using waits by (simp add: superseded_def)
      qed simp
      then show False using waits other old ids(1) by auto
    qed
  qed
qed

lemma supersede_code [code]:
  "supersede env [] n act db = Inr db"
  "supersede env (old # olds) n act db =
     (case finalize env old AP_cancelled ''superseded'' act False
        (upd_approvals (\<lambda>a. ap_id a = ap_id old) (\<lambda>a. a\<lparr>ap_superseded_by := Some n\<rparr>) db) of
        Inl e \<Rightarrow> Inl e | Inr d \<Rightarrow> supersede env olds n act d)"
  by (simp_all add: supersede_def res_bind_def split: sum.splits)

theorem one_pending_per_key_witness:
  "\<exists>r db'. request_approval example_env example_request actor_system started_db = Inr (r, db') \<and>
     superseded example_env 2 (hd (db_approvals started_db)) \<in> set (db_approvals db')"
proof -
  have "case request_approval example_env example_request actor_system started_db of Inr _ \<Rightarrow> True | Inl _ \<Rightarrow> False"
    by code_simp
  then obtain r db' where run: "request_approval example_env example_request actor_system started_db = Inr (r, db')"
    by (auto split: sum.splits prod.splits)
  have wf: "has_steps (rq_definition example_request)" "templates_ok started_db" "rq_supersede example_request"
    using started_facts(2) by (auto simp: asks_seven_def example_request_def has_steps_def split: list.splits)
  have ct: "check_text (rq_title example_request) (rq_approval_key example_request) (rq_subject_ref example_request) =
      Inr (''Change'', ''default'', None)" by code_simp
  obtain x where x: "db_approvals started_db = [x]" "ap_ticket_id x = 100" "ap_approval_key x = ''default''"
      "ap_status x = AP_pending" and "seq_approval started_db = 2"
    using started_facts(2) by (auto simp: asks_seven_def split: list.splits)
  moreover have "rq_ticket_id example_request = 100" by (simp add: example_request_def)
  ultimately have "superseded example_env 2 x \<in> set (db_approvals db')"
    using one_pending_per_key [OF run started_db_ok wf ct] x by simp
  then show ?thesis using run x(1) by auto
qed

end
