(* ===== verification/Civil_Time.thy ===== *)
theory Civil_Time
  imports Tiqora_Prelude
begin

text \<open>
  Calendar arithmetic on instants as the code uses it from the standard library: dates and their ordinals,
  weekdays, the length of a month, and the sums that leave the years 1 to 9999. An instant counts the
  microseconds since 0001-01-01T00:00, so its day number is the ordinal of its date less one.
\<close>

section \<open>Dates and ordinals\<close>

datatype date_error = OverflowError | DateValueError

definition usec_per_day :: int where
  "usec_per_day = 24 * 3600 * usec_per_second"

definition usec_per_minute :: int where
  "usec_per_minute = 60 * usec_per_second"

definition is_leap :: "int \<Rightarrow> bool" where
  "is_leap y \<longleftrightarrow> y mod 4 = 0 \<and> (y mod 100 \<noteq> 0 \<or> y mod 400 = 0)"

text \<open>\<open>calendar.monthrange(year, month)[1]\<close>\<close>

definition days_in_month :: "int \<Rightarrow> int \<Rightarrow> int" where
  "days_in_month y m =
     (if m = 2 then (if is_leap y then 29 else 28) else if m \<in> {4, 6, 9, 11} then 30 else 31)"

definition days_before_year :: "int \<Rightarrow> int" where
  "days_before_year y = (y - 1) * 365 + (y - 1) div 4 - (y - 1) div 100 + (y - 1) div 400"

text \<open>The days of a year before a month, in a year that is not a leap year\<close>

definition month_offset :: "int \<Rightarrow> int" where
  "month_offset m =
     (if m \<le> 1 then 0 else if m = 2 then 31 else if m = 3 then 59 else if m = 4 then 90 else if m = 5 then 120
      else if m = 6 then 151 else if m = 7 then 181 else if m = 8 then 212 else if m = 9 then 243
      else if m = 10 then 273 else if m = 11 then 304 else 334)"

definition days_before_month :: "bool \<Rightarrow> int \<Rightarrow> int" where
  "days_before_month leap m = month_offset m + (if m > 2 \<and> leap then 1 else 0)"

definition ymd2ord :: "int \<Rightarrow> int \<Rightarrow> int \<Rightarrow> int" where
  "ymd2ord y m d = days_before_year y + days_before_month (is_leap y) m + d"

text \<open>The month of a day of the year, counted from 0, and the day in that month\<close>

definition month_day :: "bool \<Rightarrow> int \<Rightarrow> int \<times> int" where
  "month_day leap n =
     (let m = (n + 50) div 32;
          m' = (if days_before_month leap m > n then m - 1 else m)
      in (m', n - days_before_month leap m' + 1))"

definition ord2ymd :: "int \<Rightarrow> int \<times> int \<times> int" where
  "ord2ymd ord =
     (let n = ord - 1;
          n400 = n div 146097; n = n mod 146097;
          n100 = n div 36524; n = n mod 36524;
          n4 = n div 1461; n = n mod 1461;
          n1 = n div 365; n = n mod 365;
          y = n400 * 400 + 1 + n100 * 100 + n4 * 4 + n1
      in if n1 = 4 \<or> n100 = 4 then (y - 1, 12, 31)
         else (y, month_day (n1 = 3 \<and> (n4 \<noteq> 24 \<or> n100 = 3)) n))"

definition valid_date :: "int \<Rightarrow> int \<Rightarrow> int \<Rightarrow> bool" where
  "valid_date y m d \<longleftrightarrow> 1 \<le> y \<and> 1 \<le> m \<and> m \<le> 12 \<and> 1 \<le> d \<and> d \<le> days_in_month y m"

lemma day_of_year_less:
  assumes "valid_date y m d"
  shows "0 \<le> days_before_month (is_leap y) m + d - 1"
    "days_before_month (is_leap y) m + d - 1 < (if is_leap y then 366 else 365)"
  using assms
  by (auto simp: valid_date_def days_before_month_def days_in_month_def month_offset_def split: if_splits)

lemma digit_bounds:
  fixes x b q :: int
  assumes "0 \<le> x" "x < b * q" "0 < b" shows "0 \<le> x div b" "x div b < q"
proof -
  show "0 \<le> x div b" using assms by (simp add: pos_imp_zdiv_nonneg_iff)
  show "x div b < q"
  proof (rule ccontr)
    assume "\<not> x div b < q"
    then have "b * q \<le> b * (x div b)" using assms(3) by (intro mult_left_mono) auto
    also have "\<dots> \<le> x" using assms(3) by (simp add: minus_mod_eq_mult_div [symmetric])
    finally show False using assms(2) by simp
  qed
qed

lemma twelve_months:
  fixes m :: int
  assumes "1 \<le> m" "m \<le> 12"
  shows "m = 1 \<or> m = 2 \<or> m = 3 \<or> m = 4 \<or> m = 5 \<or> m = 6 \<or> m = 7 \<or> m = 8 \<or> m = 9 \<or> m = 10 \<or> m = 11 \<or> m = 12"
  using assms by presburger

lemma month_bounds:
  assumes "1 \<le> m" "m \<le> 12"
  shows "32 * m \<le> days_before_month leap m + 50"
    "m < 12 \<Longrightarrow> days_before_month (is_leap y) (m + 1) = days_before_month (is_leap y) m + days_in_month y m"
    "days_before_month (is_leap y) m + days_in_month y m + 49 < 32 * (m + 2)"
    "days_before_month (is_leap y) m + days_in_month y m \<le> 366"
  using twelve_months [OF assms]
  by (auto simp: days_before_month_def days_in_month_def month_offset_def)

lemma month_day_inverse:
  assumes "valid_date y m d"
  shows "month_day (is_leap y) (days_before_month (is_leap y) m + d - 1) = (m, d)"
proof -
  from assms have d: "1 \<le> d" "d \<le> days_in_month y m" and m: "1 \<le> m" "m \<le> 12" by (auto simp: valid_date_def)
  note B = month_bounds [OF m]
  define k where "k = days_before_month (is_leap y) m + d - 1"
  have k: "32 * m \<le> k + 50" "k + 50 < 32 * (m + 2)" "k < 366" "days_before_month (is_leap y) m \<le> k"
    using B(1) [of "is_leap y"] B(3,4) [of y] d by (simp_all add: k_def)
  have "0 \<le> k + 50" using k(1) m by linarith
  have "m \<le> (k + 50) div 32" using k(1) zdiv_mono1 [of "32 * m" "k + 50" 32] m by simp
  moreover have "(k + 50) div 32 < m + 2" "(k + 50) div 32 < 13"
    using digit_bounds(2) [OF \<open>0 \<le> k + 50\<close>, of 32] k(2,3) by simp_all
  ultimately have "(k + 50) div 32 = m \<or> (k + 50) div 32 = m + 1 \<and> m < 12" by linarith
  then show ?thesis
  proof
    assume "(k + 50) div 32 = m"
    then show ?thesis using k(4) by (simp add: month_day_def k_def [symmetric]) (simp add: k_def)
  next
    assume next_month: "(k + 50) div 32 = m + 1 \<and> m < 12"
    then have "days_before_month (is_leap y) (m + 1) > k" using B(2) d(2) by (simp add: k_def)
    then show ?thesis using next_month by (simp add: month_day_def k_def [symmetric]) (simp add: k_def)
  qed
qed

text \<open>The year of an ordinal: its centuries and leap cycles, written out.\<close>

lemma divmod_eq:
  fixes x b q r :: int
  assumes "x = b * q + r" "0 \<le> r" "r < b" shows "x div b = q" "x mod b = r"
  using assms by (auto simp: int_div_pos_eq int_mod_pos_eq)

lemma year_digits:
  fixes a b c e :: int
  assumes r: "0 \<le> b" "b < 4" "0 \<le> c" "c < 25" "0 \<le> e" "e < 4" and y: "y = 400 * a + 100 * b + 4 * c + e + 1"
  shows "days_before_year y = 146097 * a + 36524 * b + 1461 * c + 365 * e"
    "is_leap y \<longleftrightarrow> e = 3 \<and> (c \<noteq> 24 \<or> b = 3)"
proof -
  have "(y - 1) div 4 = 100 * a + 25 * b + c" by (rule divmod_eq [of _ _ _ e]) (use r y in simp_all)
  moreover have "(y - 1) div 100 = 4 * a + b" by (rule divmod_eq [of _ _ _ "4 * c + e"]) (use r y in simp_all)
  moreover have "(y - 1) div 400 = a" by (rule divmod_eq [of _ _ _ "100 * b + 4 * c + e"]) (use r y in simp_all)
  ultimately show "days_before_year y = 146097 * a + 36524 * b + 1461 * c + 365 * e"
    using y by (simp add: days_before_year_def)
  have m4: "y mod 4 = 0 \<longleftrightarrow> e = 3"
  proof (cases "e = 3")
    case True
    then have "y mod 4 = 0" by (intro divmod_eq(2) [of _ _ "100 * a + 25 * b + c + 1"]) (use y in simp_all)
    then show ?thesis using True by simp
  next
    case False
    then have "y mod 4 = e + 1" by (intro divmod_eq(2) [of _ _ "100 * a + 25 * b + c"]) (use r y in simp_all)
    then show ?thesis using False r by simp
  qed
  have m100: "y mod 100 = 0 \<longleftrightarrow> c = 24 \<and> e = 3"
  proof (cases "c = 24 \<and> e = 3")
    case True
    then have "y mod 100 = 0" by (intro divmod_eq(2) [of _ _ "4 * a + b + 1"]) (use y in simp_all)
    then show ?thesis using True by simp
  next
    case False
    then have "4 * c + e + 1 < 100" using r by linarith
    then have "y mod 100 = 4 * c + e + 1" by (intro divmod_eq(2) [of _ _ "4 * a + b"]) (use r y in simp_all)
    then show ?thesis using False r by simp
  qed
  have m400: "y mod 400 = 0 \<longleftrightarrow> b = 3 \<and> c = 24 \<and> e = 3"
  proof (cases "b = 3 \<and> c = 24 \<and> e = 3")
    case True
    then have "y mod 400 = 0" by (intro divmod_eq(2) [of _ _ "a + 1"]) (use y in simp_all)
    then show ?thesis using True by simp
  next
    case False
    then have "100 * b + 4 * c + e + 1 < 400" using r by linarith
    then have "y mod 400 = 100 * b + 4 * c + e + 1" by (intro divmod_eq(2) [of _ _ a]) (use r y in simp_all)
    then show ?thesis using False r by simp
  qed
  show "is_leap y \<longleftrightarrow> e = 3 \<and> (c \<noteq> 24 \<or> b = 3)" using m4 m100 m400 by (auto simp: is_leap_def)
qed

lemma year_digits_exist:
  fixes y :: int
  obtains a b c e where "0 \<le> b" "b < 4" "0 \<le> c" "c < 25" "0 \<le> e" "e < 4" "y = 400 * a + 100 * b + 4 * c + e + 1"
proof -
  define x where "x = (y - 1) mod 400"
  have "0 \<le> x" "x < 100 * 4" "0 \<le> x mod 100" "x mod 100 < 4 * 25" by (simp_all add: x_def)
  then have bounds: "0 \<le> x div 100" "x div 100 < 4" "0 \<le> x mod 100 div 4" "x mod 100 div 4 < 25"
    by (simp_all only: digit_bounds zero_less_numeral)
  have rest: "0 \<le> x mod 100 mod 4" "x mod 100 mod 4 < 4" by simp_all
  have sum: "y = 400 * a + 100 * p + 4 * q + r + 1"
    if "x = y - 1 - 400 * a" "x = 100 * p + z" "z = 4 * q + r" for a p q r z :: int
    using that by linarith
  have "x = y - 1 - 400 * ((y - 1) div 400)" by (simp add: x_def minus_mult_div_eq_mod)
  from that [OF bounds rest sum [OF this mult_div_mod_eq [symmetric] mult_div_mod_eq [symmetric]]] show ?thesis .
qed

lemma ord2ymd_ymd2ord:
  assumes date: "valid_date y m d" shows "ord2ymd (ymd2ord y m d) = (y, m, d)"
proof -
  obtain a b c e where range: "0 \<le> b" "b < 4" "0 \<le> c" "c < 25" "0 \<le> e" "e < 4" and y: "y = 400 * a + 100 * b + 4 * c + e + 1"
    by (rule year_digits_exist)
  note D = year_digits [OF range y]
  define k where "k = days_before_month (is_leap y) m + d - 1"
  have k: "0 \<le> k" "k < (if is_leap y then 366 else 365)"
    using day_of_year_less [OF date] by (simp_all add: k_def)
  have md: "month_day (is_leap y) k = (m, d)" using month_day_inverse [OF date] by (simp add: k_def)
  have n: "ymd2ord y m d - 1 = 146097 * a + (36524 * b + 1461 * c + 365 * e + k)"
    using D(1) by (simp add: ymd2ord_def k_def)
  have k366: "k < 366" using k(2) by (simp split: if_splits)
  have q400: "(ymd2ord y m d - 1) div 146097 = a" "(ymd2ord y m d - 1) mod 146097 = 36524 * b + (1461 * c + (365 * e + k))"
    using divmod_eq [OF n] range k(1) k366 by (simp_all add: algebra_simps)
  show ?thesis
  proof (cases "k = 365")
    case True
    then have leap: "is_leap y" using k(2) by (simp split: if_splits)
    then have e: "e = 3" and bc: "c \<noteq> 24 \<or> b = 3" using D(2) by simp_all
    have last: "(m, d) = (12, 31)" using md leap True by (simp add: month_day_def days_before_month_def month_offset_def)
    show ?thesis
    proof (cases "c = 24")
      case True
      then have "b = 3" using bc by simp
      have "36524 * b + (1461 * c + (365 * e + k)) = 146096" using \<open>b = 3\<close> e True \<open>k = 365\<close> by simp
      then have "ord2ymd (ymd2ord y m d) = (a * 400 + 400, 12, 31)"
        by (simp only: ord2ymd_def Let_def q400) simp
      then show ?thesis using last y \<open>b = 3\<close> e True by simp
    next
      case False
      have q100: "(36524 * b + (1461 * c + (365 * e + k))) div 36524 = b"
          "(36524 * b + (1461 * c + (365 * e + k))) mod 36524 = 1461 * c + (365 * e + k)"
        by (rule divmod_eq [OF refl]; use False range e \<open>k = 365\<close> in simp)+
      have q4: "(1461 * c + (365 * e + k)) div 1461 = c" "(1461 * c + (365 * e + k)) mod 1461 = 1460"
        using divmod_eq [of "1461 * c + (365 * e + k)" 1461 c 1460] e \<open>k = 365\<close> by simp_all
      have "ord2ymd (ymd2ord y m d) = (a * 400 + 1 + b * 100 + c * 4 + 3, 12, 31)"
        by (simp only: ord2ymd_def Let_def q400 q100 q4) simp
      then show ?thesis using e last y by simp
    qed
  next
    case False
    then have k365: "k < 365" using k366 by simp
    have q100: "(36524 * b + (1461 * c + (365 * e + k))) div 36524 = b"
        "(36524 * b + (1461 * c + (365 * e + k))) mod 36524 = 1461 * c + (365 * e + k)"
      by (rule divmod_eq [OF refl]; use range k(1) k365 in simp)+
    have q4: "(1461 * c + (365 * e + k)) div 1461 = c" "(1461 * c + (365 * e + k)) mod 1461 = 365 * e + k"
      by (rule divmod_eq [OF refl]; use range k(1) k365 in simp)+
    have q1: "(365 * e + k) div 365 = e" "(365 * e + k) mod 365 = k"
      by (rule divmod_eq [OF refl]; use k(1) k365 in simp)+
    have "e \<noteq> 4" "b \<noteq> 4" using range by simp_all
    then have "ord2ymd (ymd2ord y m d) = (a * 400 + 1 + b * 100 + c * 4 + e, month_day (is_leap y) k)"
      unfolding D(2) by (simp only: ord2ymd_def Let_def q400 q100 q4 q1 simp_thms if_False)
    then show ?thesis using md y by simp
  qed
qed

section \<open>Fields of an instant\<close>

definition MAX_ORDINAL :: int where
  "MAX_ORDINAL = 3652059"

definition civil :: "instant \<Rightarrow> int \<times> int \<times> int" where
  "civil t = ord2ymd (t div usec_per_day + 1)"

definition month_of :: "instant \<Rightarrow> int" where
  "month_of t = fst (snd (civil t))"

definition day_of :: "instant \<Rightarrow> int" where
  "day_of t = snd (snd (civil t))"

text \<open>\<open>t.weekday()\<close>: Monday is 0; the first of January of the year 1 was a Monday.\<close>

definition weekday :: "instant \<Rightarrow> int" where
  "weekday t = t div usec_per_day mod 7"

definition time_of_day :: "instant \<Rightarrow> int" where
  "time_of_day t = t mod usec_per_day"

definition at_date :: "int \<Rightarrow> int \<Rightarrow> int \<Rightarrow> int \<Rightarrow> instant" where
  "at_date y m d time = (ymd2ord y m d - 1) * usec_per_day + time"

definition representable :: "instant \<Rightarrow> bool" where
  "representable t \<longleftrightarrow> 0 \<le> t \<and> t < MAX_ORDINAL * usec_per_day"

text \<open>\<open>t + timedelta(...)\<close>, and the span itself, which has at most 999999999 days\<close>

definition add_span :: "instant \<Rightarrow> int \<Rightarrow> date_error + instant" where
  "add_span t d = (if representable (t + d) then Inr (t + d) else Inl OverflowError)"

definition days_span :: "int \<Rightarrow> date_error + int" where
  "days_span n = (if \<bar>n\<bar> \<le> 999999999 then Inr (n * usec_per_day) else Inl OverflowError)"

lemma usec_per_day_pos [simp]: "0 < usec_per_day" "usec_per_day \<noteq> 0"
  by (simp_all add: usec_per_day_def usec_per_second_def)

lemma at_date_fields:
  assumes "valid_date y m d" "0 \<le> time" "time < usec_per_day"
  shows "civil (at_date y m d time) = (y, m, d)" "time_of_day (at_date y m d time) = time"
proof -
  have q: "at_date y m d time div usec_per_day = ymd2ord y m d - 1" "at_date y m d time mod usec_per_day = time"
    using divmod_eq [of "at_date y m d time" usec_per_day "ymd2ord y m d - 1" time] assms(2,3)
    by (simp_all add: at_date_def mult.commute)
  show "civil (at_date y m d time) = (y, m, d)" using ord2ymd_ymd2ord [OF assms(1)] by (simp add: civil_def q(1))
  show "time_of_day (at_date y m d time) = time" by (simp add: time_of_day_def q(2))
qed

lemma time_of_day_bounds: "0 \<le> time_of_day t" "time_of_day t < usec_per_day"
  by (simp_all add: time_of_day_def)

end
