(* ===== verification/Cron.thy ===== *)
theory Cron
  imports Civil_Time
begin

text \<open>
  \<open>util/cron.py\<close>: five-field cron expressions in naive UTC with minute resolution. The parser with every
  error, the day rule with its alternative of day and weekday, and the search for the next time with its bound
  of eight years. The theorems: a parsed expression has non-empty fields within their ranges, and the search
  finds the first matching minute after an instant or there is none within the bound.
\<close>

section \<open>Parsing\<close>

definition MAX_DAYS :: nat where
  "MAX_DAYS = 366 * 8"

definition number :: "string \<Rightarrow> int \<Rightarrow> int \<Rightarrow> date_error + int" where
  "number s low high =
     (if \<not> all_digits s then Inl DateValueError
      else let value = int (read_nat s) in
        if low \<le> value \<and> value \<le> high then Inr value else Inl DateValueError)"

text \<open>\<open>set(range(start, end + 1, step))\<close>\<close>

definition stepped_range :: "int \<Rightarrow> int \<Rightarrow> int \<Rightarrow> int set" where
  "stepped_range start stop step = set (filter (\<lambda>i. (i - start) mod step = 0) [start..stop])"

text \<open>The base of a part, \<open>*\<close>, \<open>a-b\<close> or one number, open to the top where a step is given\<close>

definition part_range :: "string \<Rightarrow> bool \<Rightarrow> int \<Rightarrow> int \<Rightarrow> date_error + int \<times> int" where
  "part_range base slash low high =
     (if base = ''*'' then Inr (low, high)
      else case partition_at (CHR ''-'') base of (a, dash, b) \<Rightarrow>
        if dash then
          res_bind (number a low high) (\<lambda>start.
          res_bind (number b low high) (\<lambda>stop.
            if start > stop then Inl DateValueError else Inr (start, stop)))
        else res_bind (number base low high) (\<lambda>start. Inr (start, if slash then high else start)))"

definition parse_part :: "string \<Rightarrow> int \<Rightarrow> int \<Rightarrow> date_error + int set" where
  "parse_part part low high =
     (case partition_at (CHR ''/'') part of (base, slash, step_text) \<Rightarrow>
        res_bind (if slash then number step_text 1 high else Inr 1) (\<lambda>step.
        res_bind (part_range base slash low high) (\<lambda>(start, stop). Inr (stepped_range start stop step))))"

text \<open>\<open>expr.split()\<close>\<close>

fun words_from :: "string \<Rightarrow> string \<Rightarrow> string list" where
  "words_from w [] = (if w = [] then [] else [w])"
| "words_from w (x # xs) =
     (if is_space x then (if w = [] then words_from [] xs else w # words_from [] xs)
      else words_from (w @ [x]) xs)"

definition split_space :: "string \<Rightarrow> string list" where
  "split_space s = words_from [] s"

definition parse_field :: "string \<Rightarrow> int \<Rightarrow> int \<Rightarrow> date_error + int set" where
  "parse_field text low high =
     res_fold (\<lambda>part values. if part = [] then Inl DateValueError
         else res_bind (parse_part part low high) (\<lambda>v. Inr (values \<union> v)))
       (split_on (CHR '','') text) {}"

record cron_expr =
  cr_minutes :: "int set"
  cr_hours :: "int set"
  cr_days :: "int set"
  cr_months :: "int set"
  cr_weekdays :: "int set"
  cr_dom_restricted :: bool
  cr_dow_restricted :: bool

definition parse_cron :: "string \<Rightarrow> date_error + cron_expr" where
  "parse_cron expr =
     (case split_space expr of
        [m, h, mday, mon, wday] \<Rightarrow>
          res_bind (parse_field m 0 59) (\<lambda>minutes.
          res_bind (parse_field h 0 23) (\<lambda>hours.
          res_bind (parse_field mday 1 31) (\<lambda>days.
          res_bind (parse_field mon 1 12) (\<lambda>months.
          res_bind (parse_field wday 0 7) (\<lambda>weekdays.
            Inr \<lparr>cr_minutes = minutes, cr_hours = hours, cr_days = days, cr_months = months,
              cr_weekdays = (\<lambda>v. v mod 7) ` weekdays,
              cr_dom_restricted = mday \<noteq> ''*'', cr_dow_restricted = wday \<noteq> ''*''\<rparr>)))))
      | _ \<Rightarrow> Inl DateValueError)"

section \<open>Days and times\<close>

definition day_matches :: "cron_expr \<Rightarrow> instant \<Rightarrow> bool" where
  "day_matches e day =
     (if month_of day \<notin> cr_months e then False
      else let dom_ok = day_of day \<in> cr_days e; dow_ok = (weekday day + 1) mod 7 \<in> cr_weekdays e in
        if cr_dom_restricted e \<and> cr_dow_restricted e then dom_ok \<or> dow_ok else dom_ok \<and> dow_ok)"

definition hour_of :: "instant \<Rightarrow> int" where
  "hour_of t = time_of_day t div (60 * usec_per_minute)"

definition minute_of :: "instant \<Rightarrow> int" where
  "minute_of t = time_of_day t div usec_per_minute mod 60"

text \<open>\<open>sorted((h, m) for h in hours for m in minutes)\<close>\<close>

definition times :: "cron_expr \<Rightarrow> (int \<times> int) list" where
  "times e = List.product (sorted_list_of_set (cr_hours e)) (sorted_list_of_set (cr_minutes e))"

text \<open>The time of a day that is tried first: on the first day, those before the start are left out.\<close>

definition first_time :: "(int \<times> int) list \<Rightarrow> bool \<Rightarrow> instant \<Rightarrow> (int \<times> int) option" where
  "first_time ts first_day start =
     find (\<lambda>(h, m). \<not> (first_day \<and> (h < hour_of start \<or> h = hour_of start \<and> m < minute_of start))) ts"

fun search_days :: "cron_expr \<Rightarrow> (int \<times> int) list \<Rightarrow> instant \<Rightarrow> int \<Rightarrow> nat \<Rightarrow> date_error + instant" where
  "search_days e ts start offset 0 = Inl DateValueError"
| "search_days e ts start offset (Suc k) =
     res_bind (add_span (start - time_of_day start) (offset * usec_per_day)) (\<lambda>day.
       if \<not> day_matches e day then search_days e ts start (offset + 1) k
       else case first_time ts (offset = 0) start of
           Some (h, m) \<Rightarrow> Inr (day + (h * 60 + m) * usec_per_minute)
         | None \<Rightarrow> search_days e ts start (offset + 1) k)"

definition next_after :: "cron_expr \<Rightarrow> instant \<Rightarrow> date_error + instant" where
  "next_after e dt =
     res_bind (add_span (dt - dt mod usec_per_minute) usec_per_minute) (\<lambda>start.
       search_days e (times e) start 0 MAX_DAYS)"

section \<open>What a parsed expression is\<close>

definition field_ok :: "int \<Rightarrow> int \<Rightarrow> int set \<Rightarrow> bool" where
  "field_ok low high vs \<longleftrightarrow> vs \<noteq> {} \<and> vs \<subseteq> {low..high}"

definition cron_ok :: "cron_expr \<Rightarrow> bool" where
  "cron_ok e \<longleftrightarrow> field_ok 0 59 (cr_minutes e) \<and> field_ok 0 23 (cr_hours e) \<and> field_ok 1 31 (cr_days e) \<and>
     field_ok 1 12 (cr_months e) \<and> field_ok 0 6 (cr_weekdays e)"

lemma number_Inr: "number s low high = Inr v \<Longrightarrow> low \<le> v \<and> v \<le> high"
  by (auto simp: number_def Let_def split: if_splits)

lemma part_range_Inr:
  assumes "part_range base slash low high = Inr (start, stop)" "low \<le> high"
  shows "low \<le> start \<and> start \<le> stop \<and> stop \<le> high"
  using assms
  by (auto simp: part_range_def res_bind_Inr_iff split: if_splits prod.splits dest!: number_Inr)

lemma stepped_range_ok:
  assumes "low \<le> start" "start \<le> stop" "stop \<le> high" shows "field_ok low high (stepped_range start stop step)"
proof -
  have "start \<in> stepped_range start stop step" using assms by (simp add: stepped_range_def)
  then show ?thesis using assms by (auto simp: field_ok_def stepped_range_def)
qed

lemma parse_part_ok: "parse_part part low high = Inr vs \<Longrightarrow> low \<le> high \<Longrightarrow> field_ok low high vs"
  by (auto simp: parse_part_def res_bind_Inr_iff split: prod.splits if_splits dest!: part_range_Inr intro!: stepped_range_ok)

lemma parse_field_ok:
  assumes "parse_field s low high = Inr vs" "low \<le> high" shows "field_ok low high vs"
proof -
  let ?step = "\<lambda>part values. if part = [] then Inl DateValueError
     else res_bind (parse_part part low high) (\<lambda>v. Inr (values \<union> v))"
  have fold: "(parts \<noteq> [] \<longrightarrow> vs \<noteq> {}) \<and> acc \<subseteq> vs \<and> vs \<subseteq> {low..high}"
    if "res_fold ?step parts acc = Inr vs" "acc \<subseteq> {low..high}" for parts acc
    using that
  proof (induction parts arbitrary: acc)
    case (Cons part parts)
    from Cons.prems(1) obtain v where v: "parse_part part low high = Inr v" "res_fold ?step parts (acc \<union> v) = Inr vs"
      by (auto simp: res_bind_Inr_iff split: if_splits)
    have "field_ok low high v" using parse_part_ok [OF v(1) assms(2)] .
    then show ?case using Cons.IH [OF v(2)] Cons.prems(2) by (auto simp: field_ok_def)
  qed simp
  show ?thesis using fold [OF assms(1) [unfolded parse_field_def]] by (simp add: field_ok_def)
qed

lemma parsed_cron_ok:
  assumes "parse_cron expr = Inr e" shows "cron_ok e"
proof -
  from assms obtain m h mday mon wday minutes hours days months weekdays where
      f: "parse_field m 0 59 = Inr minutes" "parse_field h 0 23 = Inr hours" "parse_field mday 1 31 = Inr days"
        "parse_field mon 1 12 = Inr months" "parse_field wday 0 7 = Inr weekdays"
      and e: "e = \<lparr>cr_minutes = minutes, cr_hours = hours, cr_days = days, cr_months = months,
        cr_weekdays = (\<lambda>v. v mod 7) ` weekdays, cr_dom_restricted = mday \<noteq> ''*'', cr_dow_restricted = wday \<noteq> ''*''\<rparr>"
    by (auto simp: parse_cron_def res_bind_Inr_iff split: list.splits)
  have "field_ok 0 6 ((\<lambda>v. v mod 7) ` weekdays)"
    using parse_field_ok [OF f(5)] by (auto simp: field_ok_def)
  then show ?thesis
    using f [THEN parse_field_ok] by (simp add: cron_ok_def e)
qed

text \<open>
  C37. What the parser accepts is a schedule: every field is a non-empty set of values within the field's range,
  the weekdays with Sunday as 0.
\<close>

theorem parse_cron_ok:
  "parse_cron expr = Inr e \<Longrightarrow> cron_ok e"
  by (rule parsed_cron_ok)

theorem parse_cron_ok_witness:
  "\<exists>e. parse_cron ''*/15 8-17 1,15 * 1-5'' = Inr e \<and> cron_ok e"
proof -
  have "case parse_cron ''*/15 8-17 1,15 * 1-5'' of Inr _ \<Rightarrow> True | Inl _ \<Rightarrow> False" by code_simp
  then obtain e where e: "parse_cron ''*/15 8-17 1,15 * 1-5'' = Inr e" by (auto split: sum.splits)
  then show ?thesis using parse_cron_ok by blast
qed

section \<open>The next time\<close>

text \<open>A minute of the schedule\<close>

definition scheduled_at :: "cron_expr \<Rightarrow> instant \<Rightarrow> bool" where
  "scheduled_at e t \<longleftrightarrow> t mod usec_per_minute = 0 \<and> hour_of t \<in> cr_hours e \<and> minute_of t \<in> cr_minutes e \<and> day_matches e t"

definition minute_index :: "instant \<Rightarrow> int" where
  "minute_index t = time_of_day t div usec_per_minute"

lemma usec_per_minute_pos [simp]: "0 < usec_per_minute" "usec_per_minute \<noteq> 0"
  by (simp_all add: usec_per_minute_def usec_per_second_def)

lemma day_minutes: "usec_per_day = usec_per_minute * 1440"
  by (simp add: usec_per_day_def usec_per_minute_def)

lemma minute_index:
  "hour_of t = minute_index t div 60" "minute_of t = minute_index t mod 60"
  "minute_index t = hour_of t * 60 + minute_of t" "0 \<le> minute_index t" "minute_index t < 1440"
proof -
  show "hour_of t = minute_index t div 60" "minute_of t = minute_index t mod 60"
    by (simp_all add: hour_of_def minute_of_def minute_index_def zdiv_zmult2_eq mult.commute [of 60])
  then show "minute_index t = hour_of t * 60 + minute_of t" by simp
  show "0 \<le> minute_index t" "minute_index t < 1440"
    unfolding minute_index_def
    using digit_bounds [of "time_of_day t" usec_per_minute 1440] time_of_day_bounds [of t] by (simp_all add: day_minutes)
qed

lemma minute_bounds: "0 \<le> minute_of t" "minute_of t < 60"
  unfolding minute_index(2) by simp_all

lemma whole_minute:
  assumes "t mod usec_per_minute = 0" shows "t = t div usec_per_day * usec_per_day + minute_index t * usec_per_minute"
proof -
  have "time_of_day t mod usec_per_minute = 0"
    using assms by (simp add: time_of_day_def day_minutes mod_mult2_eq mod_mod_cancel)
  then have "time_of_day t = minute_index t * usec_per_minute" by (auto simp: minute_index_def)
  then show ?thesis by (metis time_of_day_def div_mult_mod_eq)
qed

lemma at_minute:
  assumes "0 \<le> n" "n < 1440"
  shows "(d * usec_per_day + n * usec_per_minute) div usec_per_day = d"
    "minute_index (d * usec_per_day + n * usec_per_minute) = n"
    "(d * usec_per_day + n * usec_per_minute) mod usec_per_minute = 0"
proof -
  have b: "0 \<le> n * usec_per_minute" "n * usec_per_minute < usec_per_day"
    using assms by (simp_all add: day_minutes mult.commute [of usec_per_minute] zero_le_mult_iff less_imp_le)
  show "(d * usec_per_day + n * usec_per_minute) div usec_per_day = d"
    using divmod_eq(1) [of _ usec_per_day d "n * usec_per_minute"] b by (simp add: mult.commute)
  have "(d * usec_per_day + n * usec_per_minute) mod usec_per_day = n * usec_per_minute"
    using divmod_eq(2) [of _ usec_per_day d "n * usec_per_minute"] b by (simp add: mult.commute)
  then show "minute_index (d * usec_per_day + n * usec_per_minute) = n"
    by (simp add: minute_index_def time_of_day_def)
  show "(d * usec_per_day + n * usec_per_minute) mod usec_per_minute = 0"
    by (simp add: day_minutes mod_eq_0_iff_dvd dvd_mult dvd_mult2 mult.assoc [symmetric])
qed

text \<open>Everything the day rule looks at is the same all day.\<close>

lemma day_matches_day: "t div usec_per_day = u div usec_per_day \<Longrightarrow> day_matches e t = day_matches e u"
  by (simp add: day_matches_def month_of_def day_of_def weekday_def civil_def)

text \<open>The times of a day are tried in order, and the first that is not before the start is taken.\<close>

lemma product_sorted:
  assumes "sorted_wrt (<) hs" "sorted_wrt (<) ms" "\<forall>m \<in> set ms. 0 \<le> m \<and> m < (60::int)"
  shows "sorted_wrt (\<lambda>p q. fst p * 60 + snd p < fst q * 60 + snd q) (List.product hs ms)"
  using assms
proof (induction hs)
  case (Cons h hs)
  have "sorted_wrt (\<lambda>p q. fst p * 60 + snd p < fst q * 60 + snd q) (map (Pair h) ms)"
    using Cons.prems(2) by (simp add: sorted_wrt_map)
  moreover have "h * 60 + m < h' * 60 + m'" if "m \<in> set ms" "h' \<in> set hs" "m' \<in> set ms" for m h' m'
  proof -
    have "h < h'" using Cons.prems(1) that(2) by simp
    then have "h + 1 \<le> h'" by simp
    moreover have "m < 60" "0 \<le> m'" using Cons.prems(3) that by auto
    ultimately show ?thesis by linarith
  qed
  ultimately show ?case using Cons by (auto simp: sorted_wrt_append)
qed simp

lemma find_first:
  assumes "find P xs = Some x" "sorted_wrt R xs" "y \<in> set xs" "P y" shows "y = x \<or> R x y"
  using assms by (induction xs) (auto split: if_splits)

lemma cron_ok_sets:
  assumes "cron_ok e"
  shows "finite (cr_minutes e)" "finite (cr_hours e)" "\<And>m. m \<in> cr_minutes e \<Longrightarrow> 0 \<le> m \<and> m < 60"
    "\<And>h. h \<in> cr_hours e \<Longrightarrow> 0 \<le> h \<and> h < 24"
proof -
  have sub: "cr_minutes e \<subseteq> {0..59}" "cr_hours e \<subseteq> {0..23}" using assms by (simp_all add: cron_ok_def field_ok_def)
  show "finite (cr_minutes e)" "finite (cr_hours e)" using sub by (auto intro: finite_subset)
  show "0 \<le> m \<and> m < 60" if "m \<in> cr_minutes e" for m using subsetD [OF sub(1) that] by simp
  show "0 \<le> h \<and> h < 24" if "h \<in> cr_hours e" for h using subsetD [OF sub(2) that] by simp
qed

lemma times_set: "cron_ok e \<Longrightarrow> set (times e) = cr_hours e \<times> cr_minutes e"
  using cron_ok_sets [of e] by (simp add: times_def)

lemma times_sorted: "cron_ok e \<Longrightarrow> sorted_wrt (\<lambda>p q. fst p * 60 + snd p < fst q * 60 + snd q) (times e)"
  unfolding times_def using cron_ok_sets [of e] by (intro product_sorted) auto

lemma not_before_start:
  assumes "0 \<le> m" "m < 60"
  shows "\<not> (h < hour_of start \<or> h = hour_of start \<and> m < minute_of start) \<longleftrightarrow> minute_index start \<le> h * 60 + m"
proof -
  have before: "\<not> (h < x \<or> h = x \<and> m < y) \<longleftrightarrow> x * 60 + y \<le> h * 60 + m" if "0 \<le> y" "y < 60" for x y :: int
    using that assms by linarith
  show ?thesis unfolding minute_index(3) [of start] by (rule before [OF minute_bounds])
qed

text \<open>The scheduled minutes of one day, from the start on if it is the first.\<close>

definition from_start :: "bool \<Rightarrow> instant \<Rightarrow> instant \<Rightarrow> bool" where
  "from_start first_day start u \<longleftrightarrow> \<not> first_day \<or> minute_index start \<le> minute_index u"

lemma first_time_Some:
  assumes ok: "cron_ok e" and f: "first_time (times e) fd start = Some (h, m)" and day: "day_matches e (d * usec_per_day)"
  shows "scheduled_at e (d * usec_per_day + (h * 60 + m) * usec_per_minute)"
    "from_start fd start (d * usec_per_day + (h * 60 + m) * usec_per_minute)"
    "(d * usec_per_day + (h * 60 + m) * usec_per_minute) div usec_per_day = d"
    "\<And>u. scheduled_at e u \<Longrightarrow> u div usec_per_day = d \<Longrightarrow> from_start fd start u \<Longrightarrow>
       d * usec_per_day + (h * 60 + m) * usec_per_minute \<le> u"
proof -
  let ?P = "\<lambda>(h, m). \<not> (fd \<and> (h < hour_of start \<or> h = hour_of start \<and> m < minute_of start))"
  note S = cron_ok_sets [OF ok]
  have hm: "h \<in> cr_hours e" "m \<in> cr_minutes e" and P: "?P (h, m)"
    using find_SomeD [OF f [unfolded first_time_def]] times_set [OF ok] by auto
  have r: "0 \<le> h" "h < 24" "0 \<le> m" "m < 60" using S(3) [OF hm(2)] S(4) [OF hm(1)] by simp_all
  then have n: "0 \<le> h * 60 + m" "h * 60 + m < 1440" by linarith+
  note A = at_minute [OF n, of d]
  show q: "(d * usec_per_day + (h * 60 + m) * usec_per_minute) div usec_per_day = d" by (rule A(1))
  have "hour_of (d * usec_per_day + (h * 60 + m) * usec_per_minute) = h"
    "minute_of (d * usec_per_day + (h * 60 + m) * usec_per_minute) = m"
    unfolding minute_index(1,2) A(2) using r by simp_all
  moreover have "day_matches e (d * usec_per_day + (h * 60 + m) * usec_per_minute)"
    using day day_matches_day [of "d * usec_per_day" "d * usec_per_day + (h * 60 + m) * usec_per_minute"] q by simp
  ultimately show "scheduled_at e (d * usec_per_day + (h * 60 + m) * usec_per_minute)"
    using hm A(3) by (simp add: scheduled_at_def)
  show "from_start fd start (d * usec_per_day + (h * 60 + m) * usec_per_minute)"
    using P not_before_start [OF r(3,4), of h start] by (auto simp: from_start_def A(2))
  show "d * usec_per_day + (h * 60 + m) * usec_per_minute \<le> u"
    if u: "scheduled_at e u" "u div usec_per_day = d" "from_start fd start u" for u
  proof -
    have mem: "(hour_of u, minute_of u) \<in> set (times e)" using u(1) times_set [OF ok] by (simp add: scheduled_at_def)
    have "?P (hour_of u, minute_of u)"
      using u(3) not_before_start [OF minute_bounds, of "hour_of u" start u] by (simp add: from_start_def minute_index(3) [of u])
    from find_first [OF f [unfolded first_time_def] times_sorted [OF ok] mem this]
    have "h * 60 + m \<le> minute_index u" unfolding minute_index(3) [of u] by auto
    then have "(h * 60 + m) * usec_per_minute \<le> minute_index u * usec_per_minute"
      by (intro mult_right_mono) (simp_all add: less_imp_le)
    moreover have "u = d * usec_per_day + minute_index u * usec_per_minute"
      using whole_minute [of u] u(1,2) by (simp add: scheduled_at_def)
    ultimately show ?thesis by linarith
  qed
qed

lemma first_time_None:
  assumes ok: "cron_ok e" and f: "first_time (times e) fd start = None" and u: "scheduled_at e u"
  shows "\<not> from_start fd start u"
proof -
  have mem: "(hour_of u, minute_of u) \<in> set (times e)" using u times_set [OF ok] by (simp add: scheduled_at_def)
  show ?thesis
    using find_NoneD [OF f [unfolded first_time_def] mem] not_before_start [OF minute_bounds, of "hour_of u" start u]
    by (simp add: from_start_def minute_index(3) [of u])
qed

lemma day_start: "start - time_of_day start + offset * usec_per_day = (start div usec_per_day + offset) * usec_per_day"
  using mult_div_mod_eq [of usec_per_day start] by (simp add: time_of_day_def algebra_simps)

text \<open>On a day that is not before the first one, not being before the start is a matter of the time only.\<close>

lemma from_start_iff:
  assumes "start mod usec_per_minute = 0" "u mod usec_per_minute = 0" "u div usec_per_day = start div usec_per_day + offset" "0 \<le> offset"
  shows "from_start (offset = 0) start u \<longleftrightarrow> start \<le> u"
proof (cases "offset = 0")
  case True
  have "start = start div usec_per_day * usec_per_day + minute_index start * usec_per_minute"
    "u = start div usec_per_day * usec_per_day + minute_index u * usec_per_minute"
    using whole_minute [OF assms(1)] whole_minute [OF assms(2)] assms(3) True by simp_all
  then have "start \<le> u \<longleftrightarrow> minute_index start * usec_per_minute \<le> minute_index u * usec_per_minute" by linarith
  then show ?thesis using True by (simp add: from_start_def)
next
  case False
  then have "start div usec_per_day < u div usec_per_day" using assms(3,4) by simp
  then have "start \<le> u" using zdiv_mono1 [of u start usec_per_day] by fastforce
  then show ?thesis using False by (simp add: from_start_def)
qed

lemma raised_unless:
  "(if p then r else Inl OverflowError) = Inr x \<Longrightarrow> r = Inr x"
  "(if p then r else Inl OverflowError) = Inl DateValueError \<Longrightarrow> r = Inl DateValueError"
  by (simp_all split: if_splits)

lemma search_days_Suc:
  "search_days e ts start offset (Suc k) =
     (if representable ((start div usec_per_day + offset) * usec_per_day) then
       (if \<not> day_matches e ((start div usec_per_day + offset) * usec_per_day) then search_days e ts start (offset + 1) k
       else case first_time ts (offset = 0) start of
         Some (h, m) \<Rightarrow> Inr ((start div usec_per_day + offset) * usec_per_day + (h * 60 + m) * usec_per_minute)
       | None \<Rightarrow> search_days e ts start (offset + 1) k)
      else Inl OverflowError)"
  unfolding search_days.simps(2) day_start add_span_def if_distrib [of "\<lambda>r. res_bind r _"] res_bind_simps ..

text \<open>A day that is passed over has no minute of the schedule from the start on.\<close>

lemma passed_day:
  assumes ok: "cron_ok e" and start: "start mod usec_per_minute = 0" "0 \<le> offset"
    and out: "\<not> day_matches e ((start div usec_per_day + offset) * usec_per_day) \<or> first_time (times e) (offset = 0) start = None"
    and u: "scheduled_at e u" "start \<le> u" "start div usec_per_day + offset \<le> u div usec_per_day"
  shows "start div usec_per_day + (offset + 1) \<le> u div usec_per_day"
proof (rule ccontr)
  let ?d = "start div usec_per_day + offset"
  assume "\<not> start div usec_per_day + (offset + 1) \<le> u div usec_per_day"
  then have d: "u div usec_per_day = ?d" using u(3) by linarith
  have "day_matches e (?d * usec_per_day)"
    using u(1) day_matches_day [of u "?d * usec_per_day" e] d by (simp add: scheduled_at_def)
  moreover have "from_start (offset = 0) start u"
    using from_start_iff [OF start(1) _ d start(2)] u(1,2) by (simp add: scheduled_at_def)
  ultimately show False using out first_time_None [OF ok _ u(1)] by blast
qed

lemma search_days_first:
  assumes ok: "cron_ok e" and start: "start mod usec_per_minute = 0"
    and "search_days e (times e) start offset k = Inr t" "0 \<le> offset"
  shows "scheduled_at e t \<and> start \<le> t \<and>
      (\<forall>u. scheduled_at e u \<longrightarrow> start \<le> u \<longrightarrow> start div usec_per_day + offset \<le> u div usec_per_day \<longrightarrow> t \<le> u)"
  using assms(3,4)
proof (induction k arbitrary: offset)
  case (Suc k)
  let ?d = "start div usec_per_day + offset"
  note run = raised_unless(1) [OF Suc.prems(1) [unfolded search_days_Suc]]
  show ?case
  proof (cases "\<not> day_matches e (?d * usec_per_day) \<or> first_time (times e) (offset = 0) start = None")
    case True
    then have "search_days e (times e) start (offset + 1) k = Inr t" using run by (auto split: if_splits)
    from Suc.IH [OF this] Suc.prems(2) show ?thesis using passed_day [OF ok start Suc.prems(2) True] by auto
  next
    case False
    then obtain h m where f: "first_time (times e) (offset = 0) start = Some (h, m)" by auto
    from False have day: "day_matches e (?d * usec_per_day)" by simp
    note F = first_time_Some [OF ok f day]
    have t: "t = ?d * usec_per_day + (h * 60 + m) * usec_per_minute" using run day f by simp
    have "t \<le> u" if u: "scheduled_at e u" "start \<le> u" "?d \<le> u div usec_per_day" for u
    proof (cases "u div usec_per_day = ?d")
      case True
      then show ?thesis
        using F(4) [OF u(1) True] from_start_iff [OF start _ True Suc.prems(2)] u(1,2) t by (simp add: scheduled_at_def)
    next
      case False
      then have "t div usec_per_day < u div usec_per_day" using u(3) F(3) t by simp
      then show ?thesis using zdiv_mono1 [of u t usec_per_day] by fastforce
    qed
    moreover have "start \<le> t"
      using from_start_iff [OF start _ F(3) Suc.prems(2)] F(1,2) t by (simp add: scheduled_at_def)
    ultimately show ?thesis using F(1) t by simp
  qed
qed simp

lemma search_days_none:
  assumes ok: "cron_ok e" and start: "start mod usec_per_minute = 0" and u: "scheduled_at e u" "start \<le> u"
    and "search_days e (times e) start offset k = Inl DateValueError" "0 \<le> offset"
      "start div usec_per_day + offset \<le> u div usec_per_day"
  shows "start div usec_per_day + offset + int k \<le> u div usec_per_day"
  using assms(5-7)
proof (induction k arbitrary: offset)
  case (Suc k)
  note run = raised_unless(2) [OF Suc.prems(1) [unfolded search_days_Suc]]
  then have rest: "search_days e (times e) start (offset + 1) k = Inl DateValueError"
    and out: "\<not> day_matches e ((start div usec_per_day + offset) * usec_per_day) \<or> first_time (times e) (offset = 0) start = None"
    by (auto split: if_splits option.splits)
  from Suc.IH [OF rest _ passed_day [OF ok start Suc.prems(2) out u Suc.prems(3)]] Suc.prems(2) show ?case by simp
qed simp

lemma div_less_mult:
  fixes x b q :: int
  assumes "0 < b" shows "x div b < q \<longleftrightarrow> x < b * q"
proof
  assume "x div b < q"
  then have "b * (x div b + 1) \<le> b * q" using assms by (intro mult_left_mono) auto
  moreover have "b * (x div b + 1) = b * (x div b) + b" by (simp add: distrib_left)
  moreover have "x = b * (x div b) + x mod b" "x mod b < b" using assms by simp_all
  ultimately show "x < b * q" by linarith
next
  assume less: "x < b * q"
  show "x div b < q"
  proof (rule ccontr)
    assume "\<not> x div b < q"
    then have "b * q \<le> b * (x div b)" using assms by (intro mult_left_mono) auto
    also have "\<dots> \<le> x" using mult_div_mod_eq [of b x] pos_mod_sign [OF assms, of x] by linarith
    finally show False using less by simp
  qed
qed

text \<open>
  C38. The next time of a schedule is its first minute after the instant; where the search gives up, no
  minute of the schedule lies in the eight years it covers.
\<close>

theorem next_after_first:
  assumes "parse_cron expr = Inr e"
  shows "(\<forall>t. next_after e dt = Inr t \<longrightarrow> dt < t \<and> scheduled_at e t \<and> (\<forall>u. dt < u \<and> u < t \<longrightarrow> \<not> scheduled_at e u)) \<and>
    (next_after e dt = Inl DateValueError \<longrightarrow>
      (\<forall>u. dt < u \<and> u < dt + int MAX_DAYS * usec_per_day - usec_per_day \<longrightarrow> \<not> scheduled_at e u))"
proof -
  have ok: "cron_ok e" by (rule parsed_cron_ok [OF assms])
  define start where "start = dt - dt mod usec_per_minute + usec_per_minute"
  have whole: "start mod usec_per_minute = 0" by (simp add: start_def minus_mod_eq_mult_div)
  have after: "start \<le> u \<longleftrightarrow> dt < u" if "scheduled_at e u" for u
  proof -
    define q where "q = u div usec_per_minute"
    have u: "u = usec_per_minute * q" using that by (auto simp: scheduled_at_def q_def)
    have start: "start = usec_per_minute * (dt div usec_per_minute + 1)"
      by (simp add: start_def minus_mod_eq_mult_div algebra_simps)
    have "start \<le> u \<longleftrightarrow> dt div usec_per_minute < q"
      unfolding u start by (simp add: add1_zle_eq)
    also have "\<dots> \<longleftrightarrow> dt < u" unfolding u by (rule div_less_mult) simp
    finally show ?thesis .
  qed
  have run: "next_after e dt = (if representable start then search_days e (times e) start 0 MAX_DAYS else Inl OverflowError)"
    by (simp add: next_after_def add_span_def start_def)
  show ?thesis
  proof (intro conjI allI impI)
    fix t assume "next_after e dt = Inr t"
    then have "search_days e (times e) start 0 MAX_DAYS = Inr t" unfolding run by (rule raised_unless)
    note T = search_days_first [OF ok whole this]
    show "dt < t" "scheduled_at e t" using T after by auto
    fix u assume u: "dt < u \<and> u < t"
    show "\<not> scheduled_at e u"
    proof
      assume sched: "scheduled_at e u"
      then have "start \<le> u" using after u by blast
      then have "t \<le> u" using T sched zdiv_mono1 [OF \<open>start \<le> u\<close>, of usec_per_day] by simp
      then show False using u by simp
    qed
  next
    fix u assume none: "next_after e dt = Inl DateValueError" and u: "dt < u \<and> u < dt + int MAX_DAYS * usec_per_day - usec_per_day"
    have none: "search_days e (times e) start 0 MAX_DAYS = Inl DateValueError"
      by (rule raised_unless(2) [OF none [unfolded run]])
    show "\<not> scheduled_at e u"
    proof
      assume sched: "scheduled_at e u"
      then have le: "start \<le> u" using after u by blast
      from search_days_none [OF ok whole sched le none] have "start div usec_per_day + int MAX_DAYS \<le> u div usec_per_day"
        using zdiv_mono1 [OF le, of usec_per_day] by simp
      moreover have "u div usec_per_day \<le> (dt + (int MAX_DAYS - 1) * usec_per_day) div usec_per_day"
        using u by (intro zdiv_mono1) (simp_all add: algebra_simps)
      moreover have "dt \<le> start" using pos_mod_bound [of usec_per_minute dt] by (simp add: start_def less_imp_le)
      then have "dt div usec_per_day \<le> start div usec_per_day" by (intro zdiv_mono1) simp_all
      ultimately show False by (simp add: div_plus_div_distrib_dvd_right)
    qed
  qed
qed

theorem next_after_first_witness:
  "\<exists>e t. parse_cron ''30 4 29 2 *'' = Inr e \<and> next_after e (at_date 2024 2 28 0) = Inr t \<and> at_date 2024 2 28 0 < t \<and> scheduled_at e t"
proof -
  have "case parse_cron ''30 4 29 2 *'' of Inr e \<Rightarrow> (case next_after e (at_date 2024 2 28 0) of Inr _ \<Rightarrow> True | Inl _ \<Rightarrow> False)
    | Inl _ \<Rightarrow> False" by code_simp
  then obtain e t where e: "parse_cron ''30 4 29 2 *'' = Inr e" and t: "next_after e (at_date 2024 2 28 0) = Inr t"
    by (auto split: sum.splits)
  then show ?thesis using next_after_first [OF e] by blast
qed

end
