(* ===== verification/Calendar_Recurrence.thy ===== *)
theory Calendar_Recurrence
  imports Civil_Time
begin

text \<open>
  \<open>calendar/recurrence.py\<close>: the expansion of a recurring appointment into its occurrences, with the
  steps by days, weeks, months and years, the bound on the number of steps, and every condition that ends
  the loop. The lemmas: what an occurrence satisfies, how many there are, what a step of months does to a date and that
  it goes on in time, and which occurrences are found, for steps of every kind.
\<close>

section \<open>Steps\<close>

definition RECUR_TYPES :: "string list" where
  "RECUR_TYPES = [''Daily'', ''Weekly'', ''Monthly'', ''Yearly'']"

definition MAX_OCCURRENCES :: nat where
  "MAX_OCCURRENCES = 2000"

record occurrence =
  oc_start :: instant
  oc_end :: instant
  oc_is_recurring :: bool

text \<open>\<open>_add_months\<close>: the day is cut to the length of the month; a year out of range is refused.\<close>

definition add_months :: "instant \<Rightarrow> int \<Rightarrow> date_error + instant" where
  "add_months t months =
     (case civil t of (y, m, d) \<Rightarrow>
        let month_index = m - 1 + months;
            year = y + month_index div 12;
            month = month_index mod 12 + 1;
            day = min d (days_in_month year month)
        in if 1 \<le> year \<and> year \<le> 9999 then Inr (at_date year month day (time_of_day t)) else Inl DateValueError)"

definition recur_step :: "instant \<Rightarrow> string \<Rightarrow> int \<Rightarrow> date_error + instant" where
  "recur_step t recur_type interval =
     (if recur_type = ''Daily'' then res_bind (days_span interval) (add_span t)
      else if recur_type = ''Weekly'' then res_bind (days_span (7 * interval)) (add_span t)
      else if recur_type = ''Monthly'' then add_months t interval
      else if recur_type = ''Yearly'' then add_months t (interval * 12)
      else Inl DateValueError)"

section \<open>Expansion\<close>

record series =
  sr_start :: instant
  sr_end :: instant
  sr_type :: "string option"
  sr_interval :: "int option"
  sr_count :: "int option"
  sr_until :: "instant option"
  sr_exclude :: "instant list"

text \<open>\<open>recur_interval or 1\<close>, at least 1\<close>

definition interval_of :: "series \<Rightarrow> int" where
  "interval_of sr = (case sr_interval sr of None \<Rightarrow> 1 | Some i \<Rightarrow> if i < 1 then 1 else i)"

text \<open>Whether the loop stops before the occurrence of number \<open>n\<close> at \<open>t\<close>\<close>

definition series_over :: "series \<Rightarrow> instant \<Rightarrow> int \<Rightarrow> instant \<Rightarrow> bool" where
  "series_over sr range_end n t \<longleftrightarrow>
     (case sr_until sr of None \<Rightarrow> False | Some u \<Rightarrow> t > u) \<or>
     (case sr_count sr of None \<Rightarrow> False | Some c \<Rightarrow> n \<ge> c) \<or> t \<ge> range_end"

primrec expand_loop :: "series \<Rightarrow> string \<Rightarrow> instant \<Rightarrow> instant \<Rightarrow> nat \<Rightarrow> int \<Rightarrow> instant \<Rightarrow> date_error + occurrence list" where
  "expand_loop sr typ range_start range_end 0 n t = Inr []"
| "expand_loop sr typ range_start range_end (Suc k) n t =
     (if series_over sr range_end n t then Inr []
      else
        res_bind (add_span t (sr_end sr - sr_start sr)) (\<lambda>occ_end.
        res_bind (recur_step t typ (interval_of sr)) (\<lambda>t'.
        res_bind (expand_loop sr typ range_start range_end k (n + 1) t') (\<lambda>rest.
          Inr ((if occ_end > range_start \<and> t \<notin> set (sr_exclude sr)
                then [\<lparr>oc_start = t, oc_end = occ_end, oc_is_recurring = True\<rparr>] else []) @ rest)))))"

definition expand_occurrences :: "series \<Rightarrow> instant \<Rightarrow> instant \<Rightarrow> date_error + occurrence list" where
  "expand_occurrences sr range_start range_end =
     (case sr_type sr of
        Some typ \<Rightarrow>
          if typ \<in> set RECUR_TYPES then expand_loop sr typ range_start range_end MAX_OCCURRENCES 0 (sr_start sr)
          else Inr (if sr_start sr < range_end \<and> sr_end sr > range_start
            then [\<lparr>oc_start = sr_start sr, oc_end = sr_end sr, oc_is_recurring = False\<rparr>] else [])
      | None \<Rightarrow> Inr (if sr_start sr < range_end \<and> sr_end sr > range_start
            then [\<lparr>oc_start = sr_start sr, oc_end = sr_end sr, oc_is_recurring = False\<rparr>] else []))"

section \<open>What the expansion yields\<close>

lemma add_span_Inr: "add_span t d = Inr t' \<Longrightarrow> t' = t + d"
  by (simp add: add_span_def split: if_splits)

lemma days_span_Inr: "days_span n = Inr d \<Longrightarrow> d = n * usec_per_day"
  by (simp add: days_span_def split: if_splits)

lemma expand_loop_length: "expand_loop sr typ rs re k n t = Inr occs \<Longrightarrow> length occs \<le> k"
  by (induction k arbitrary: n t occs) (fastforce simp: res_bind_Inr_iff split: if_splits)+

text \<open>An occurrence has the length of the first one, overlaps the range, is neither excluded nor past the end.\<close>

definition in_series :: "series \<Rightarrow> instant \<Rightarrow> instant \<Rightarrow> occurrence \<Rightarrow> bool" where
  "in_series sr rs re oc \<longleftrightarrow> oc_end oc = oc_start oc + (sr_end sr - sr_start sr) \<and> oc_start oc < re \<and> rs < oc_end oc \<and>
     oc_start oc \<notin> set (sr_exclude sr) \<and> oc_is_recurring oc \<and>
     (case sr_until sr of None \<Rightarrow> True | Some u \<Rightarrow> oc_start oc \<le> u)"

lemma expand_loop_sound:
  "expand_loop sr typ rs re k n t = Inr occs \<Longrightarrow> oc \<in> set occs \<Longrightarrow> in_series sr rs re oc"
proof (induction k arbitrary: n t occs)
  case (Suc k)
  show ?case
  proof (cases "series_over sr re n t")
    case False
    with Suc.prems(1) obtain occ_end t' rest where e: "add_span t (sr_end sr - sr_start sr) = Inr occ_end"
        and r: "expand_loop sr typ rs re k (n + 1) t' = Inr rest"
        and occs: "occs = (if occ_end > rs \<and> t \<notin> set (sr_exclude sr)
          then [\<lparr>oc_start = t, oc_end = occ_end, oc_is_recurring = True\<rparr>] else []) @ rest"
      by (auto simp: res_bind_Inr_iff)
    have "in_series sr rs re \<lparr>oc_start = t, oc_end = occ_end, oc_is_recurring = True\<rparr>"
      if "occ_end > rs" "t \<notin> set (sr_exclude sr)"
      using that add_span_Inr [OF e] False by (auto simp: in_series_def series_over_def split: option.splits)
    then show ?thesis using Suc.IH [OF r] Suc.prems(2) occs by (auto split: if_splits)
  qed (use Suc.prems in simp)
qed simp

text \<open>Days and weeks are spans of a fixed length.\<close>

definition fixed_step :: "string \<Rightarrow> int \<Rightarrow> int option" where
  "fixed_step typ interval = (if typ = ''Daily'' then Some (interval * usec_per_day)
     else if typ = ''Weekly'' then Some (7 * interval * usec_per_day) else None)"

lemma recur_step_fixed:
  "recur_step t typ i = Inr t' \<Longrightarrow> fixed_step typ i = Some d \<Longrightarrow> t' = t + d"
  by (auto simp: recur_step_def fixed_step_def res_bind_Inr_iff split: if_splits dest!: add_span_Inr days_span_Inr)

lemma interval_of_pos: "1 \<le> interval_of sr"
  by (simp add: interval_of_def split: option.splits)

lemma fixed_step_pos: "fixed_step typ (interval_of sr) = Some d \<Longrightarrow> 0 < d"
  using interval_of_pos [of sr] usec_per_day_pos(1) by (auto simp: fixed_step_def split: if_splits)

lemma series_over_mono:
  "series_over sr re n t \<Longrightarrow> n \<le> m \<Longrightarrow> t \<le> u \<Longrightarrow> series_over sr re m u"
  by (auto simp: series_over_def split: option.splits)

text \<open>Every occurrence of a series by days or weeks is found that the bound on the steps reaches.\<close>

lemma expand_loop_complete:
  assumes "expand_loop sr typ rs re k n t = Inr occs" "fixed_step typ (interval_of sr) = Some d" "i < k"
    "\<not> series_over sr re (n + int i) (t + int i * d)" "rs < t + int i * d + (sr_end sr - sr_start sr)"
    "t + int i * d \<notin> set (sr_exclude sr)"
  shows "\<lparr>oc_start = t + int i * d, oc_end = t + int i * d + (sr_end sr - sr_start sr), oc_is_recurring = True\<rparr> \<in> set occs"
  using assms(1,3-6)
proof (induction k arbitrary: n t i occs)
  case (Suc k)
  have d: "0 < d" by (rule fixed_step_pos [OF assms(2)])
  have "\<not> series_over sr re n t"
    using Suc.prems(3) series_over_mono [of sr re n t "n + int i" "t + int i * d"] d by auto
  with Suc.prems(1) obtain occ_end t' rest where e: "add_span t (sr_end sr - sr_start sr) = Inr occ_end"
      and s: "recur_step t typ (interval_of sr) = Inr t'" and r: "expand_loop sr typ rs re k (n + 1) t' = Inr rest"
      and occs: "occs = (if occ_end > rs \<and> t \<notin> set (sr_exclude sr)
        then [\<lparr>oc_start = t, oc_end = occ_end, oc_is_recurring = True\<rparr>] else []) @ rest"
    by (auto simp: res_bind_Inr_iff)
  have t': "t' = t + d" by (rule recur_step_fixed [OF s assms(2)])
  show ?case
  proof (cases i)
    case 0
    then show ?thesis using Suc.prems(4,5) add_span_Inr [OF e] occs by simp
  next
    case (Suc j)
    have eq: "t + int i * d = t' + int j * d" "n + int i = n + 1 + int j" using Suc t' by (simp_all add: algebra_simps)
    show ?thesis
      using Suc.IH [OF r, of j] Suc.prems(2-5) Suc unfolding eq occs by simp
  qed
qed simp

text \<open>Steps whose occurrences all end before the range add nothing: the loop may begin after them.\<close>

lemma expand_loop_skip:
  assumes "fixed_step typ (interval_of sr) = Some d"
    and "\<forall>j < s. \<not> series_over sr re (n + int j) (t + int j * d) \<and> t + int j * d + (sr_end sr - sr_start sr) \<le> rs \<and>
      representable (t + int j * d + (sr_end sr - sr_start sr)) \<and> recur_step (t + int j * d) typ (interval_of sr) = Inr (t + int j * d + d)"
  shows "expand_loop sr typ rs re (s + k) n t = expand_loop sr typ rs re k (n + int s) (t + int s * d)"
  using assms(2)
proof (induction s arbitrary: n t)
  case (Suc s)
  have rest: "expand_loop sr typ rs re (s + k) (n + 1) (t + d) = expand_loop sr typ rs re k (n + 1 + int s) (t + d + int s * d)"
  proof (rule Suc.IH, intro allI impI)
    fix j assume "j < s"
    then show "\<not> series_over sr re (n + 1 + int j) (t + d + int j * d) \<and> t + d + int j * d + (sr_end sr - sr_start sr) \<le> rs \<and>
        representable (t + d + int j * d + (sr_end sr - sr_start sr)) \<and>
        recur_step (t + d + int j * d) typ (interval_of sr) = Inr (t + d + int j * d + d)"
      using Suc.prems [rule_format, of "Suc j"] by (simp add: algebra_simps)
  qed
  have "expand_loop sr typ rs re (Suc (s + k)) n t = expand_loop sr typ rs re (s + k) (n + 1) (t + d)"
    using Suc.prems [rule_format, of 0] by (simp add: add_span_def res_bind_def split: sum.splits)
  then show ?case using rest by (simp add: algebra_simps)
qed simp

section \<open>Steps by months\<close>

lemma days_in_month_pos: "1 \<le> days_in_month y m"
  by (simp add: days_in_month_def)

text \<open>Months are counted through the years; the day is the same or the last one of the month.\<close>

lemma add_months_date:
  assumes "valid_date y m d" "0 \<le> time" "time < usec_per_day" "add_months (at_date y m d time) n = Inr t"
  shows "\<exists>y' m'. civil t = (y', m', min d (days_in_month y' m')) \<and> time_of_day t = time \<and> 1 \<le> m' \<and> m' \<le> 12 \<and>
    12 * y' + m' = 12 * y + m + n"
proof -
  define idx where "idx = m - 1 + n"
  note F = at_date_fields [OF assms(1-3)]
  from assms(4) have year: "1 \<le> y + idx div 12"
      and t: "t = at_date (y + idx div 12) (idx mod 12 + 1) (min d (days_in_month (y + idx div 12) (idx mod 12 + 1))) time"
    by (simp_all add: add_months_def F Let_def idx_def split: if_splits)
  have month: "0 \<le> idx mod 12" "idx mod 12 < 12" "idx = 12 * (idx div 12) + idx mod 12" by simp_all
  have "valid_date (y + idx div 12) (idx mod 12 + 1) (min d (days_in_month (y + idx div 12) (idx mod 12 + 1)))"
    using year month assms(1) days_in_month_pos by (simp add: valid_date_def)
  from at_date_fields [OF this assms(2,3)] show ?thesis
    unfolding t using month by (intro exI [of _ "y + idx div 12"] exI [of _ "idx mod 12 + 1"]) (auto simp: idx_def)
qed

section \<open>A step by months goes on\<close>

text \<open>The number of the last day before a month, the months counted from the year 0\<close>

definition month_start :: "int \<Rightarrow> int" where
  "month_start k = days_before_year (k div 12) + days_before_month (is_leap (k div 12)) (k mod 12 + 1)"

lemma div_succ:
  fixes k b :: int
  assumes "0 < b" shows "k div b - (k - 1) div b = (if k mod b = 0 then 1 else 0)"
proof -
  have "k = b * (k div b) + k mod b" by simp
  moreover have "0 \<le> k mod b" "k mod b < b" using assms by simp_all
  ultimately show ?thesis
    using int_div_pos_eq [of "k - 1" b "k div b" "k mod b - 1"] int_div_pos_eq [of "k - 1" b "k div b - 1" "b - 1"]
    by (auto simp: algebra_simps)
qed

lemma div_pred:
  fixes k b :: int
  assumes "0 < b" shows "k div b = (k - 1) div b + (if k mod b = 0 then 1 else 0)"
  using div_succ [OF assms, of k] by linarith

lemma days_before_next_year: "days_before_year (y + 1) = days_before_year y + (if is_leap y then 366 else 365)"
proof -
  have split: "y mod 4 = 0" if "y mod 100 = 0" using that mod_mod_cancel [of 4 100 y] by simp
  have split400: "y mod 100 = 0" if "y mod 400 = 0" using that mod_mod_cancel [of 100 400 y] by simp
  have d: "y div 4 = (y - 1) div 4 + (if y mod 4 = 0 then 1 else 0)" "y div 100 = (y - 1) div 100 + (if y mod 100 = 0 then 1 else 0)"
    "y div 400 = (y - 1) div 400 + (if y mod 400 = 0 then 1 else 0)"
    by (rule div_pred; simp)+
  have arith: "y * 365 + (a + i) - (b + j) + (c + k) = (y - 1) * 365 + a - b + c + (365 + i - j + k)" for a b c i j k
    by (simp add: left_diff_distrib)
  have "days_before_year (y + 1) = y * 365 + y div 4 - y div 100 + y div 400" by (simp add: days_before_year_def)
  also have "\<dots> = days_before_year y + (365 + (if y mod 4 = 0 then 1 else 0) - (if y mod 100 = 0 then 1 else 0) +
      (if y mod 400 = 0 then 1 else 0))"
    unfolding d days_before_year_def by (rule arith)
  also have "365 + (if y mod 4 = 0 then 1 else 0) - (if y mod 100 = 0 then 1 else 0) + (if y mod 400 = 0 then 1 else 0) =
      (if is_leap y then 366 else (365 :: int))"
    using split split400 unfolding is_leap_def by (cases "y mod 4 = 0"; cases "y mod 100 = 0"; cases "y mod 400 = 0") simp_all
  finally show ?thesis .
qed

lemma month_start_next: "month_start (k + 1) = month_start k + days_in_month (k div 12) (k mod 12 + 1)"
proof -
  have m: "0 \<le> k mod 12" "k mod 12 < 12" by simp_all
  show ?thesis
  proof (cases "k mod 12 = 11")
    case True
    have "k + 1 = 12 * (q + 1) + 0" if "k = 12 * q + k mod 12" for q using that True by simp
    from this [OF mult_div_mod_eq [symmetric]] have "k + 1 = 12 * (k div 12 + 1) + 0" .
    from divmod_eq [OF this] have "(k + 1) div 12 = k div 12 + 1" "(k + 1) mod 12 = 0" by simp_all
    then show ?thesis
      by (simp add: month_start_def True days_before_next_year days_before_month_def month_offset_def days_in_month_def)
  next
    case False
    then have "k + 1 = 12 * (k div 12) + (k mod 12 + 1)" "k mod 12 + 1 < 12" using m by simp_all
    then have "(k + 1) div 12 = k div 12" "(k + 1) mod 12 = k mod 12 + 1"
      using divmod_eq [of "k + 1" 12 "k div 12" "k mod 12 + 1"] m(1) by simp_all
    moreover have "days_before_month (is_leap (k div 12)) (k mod 12 + 1 + 1) =
        days_before_month (is_leap (k div 12)) (k mod 12 + 1) + days_in_month (k div 12) (k mod 12 + 1)"
      by (rule month_bounds(2)) (use m False in simp_all)
    ultimately show ?thesis by (simp add: month_start_def)
  qed
qed

lemma month_start_later:
  assumes "0 < n" shows "month_start k + days_in_month (k div 12) (k mod 12 + 1) \<le> month_start (k + int n)"
  using assms
proof (induction n)
  case (Suc n)
  show ?case
  proof (cases "n = 0")
    case True
    then show ?thesis by (simp add: month_start_next)
  next
    case False
    have "month_start (k + int (Suc n)) = month_start (k + int n) +
        days_in_month ((k + int n) div 12) ((k + int n) mod 12 + 1)"
      using month_start_next [of "k + int n"] by (simp add: ac_simps)
    then show ?thesis using Suc.IH False days_in_month_pos [of "(k + int n) div 12" "(k + int n) mod 12 + 1"] by linarith
  qed
qed simp

lemma ymd2ord_month: "1 \<le> m \<Longrightarrow> m \<le> 12 \<Longrightarrow> ymd2ord y m d = month_start (12 * y + m - 1) + d"
  using divmod_eq [of "12 * y + m - 1" 12 y "m - 1"] by (simp add: ymd2ord_def month_start_def)

lemma ymd2ord_later_month:
  assumes "valid_date y m d" "valid_date y' m' d'" "12 * y + m < 12 * y' + m'"
  shows "ymd2ord y m d < ymd2ord y' m' d'"
proof -
  define n where "n = nat (12 * y' + m' - (12 * y + m))"
  have n: "0 < n" "12 * y' + m' - 1 = 12 * y + m - 1 + int n" using assms(3) by (simp_all add: n_def)
  have q: "(12 * y + m - 1) div 12 = y" "(12 * y + m - 1) mod 12 = m - 1"
    using divmod_eq [of "12 * y + m - 1" 12 y "m - 1"] assms(1) by (simp_all add: valid_date_def)
  show ?thesis
    using month_start_later [OF n(1), of "12 * y + m - 1"] assms(1,2) ymd2ord_month [of m y d] ymd2ord_month [of m' y' d']
    unfolding n(2) q by (simp add: valid_date_def)
qed

text \<open>Every day is a date.\<close>

lemma date_of_ordinal:
  "\<exists>y m d. valid_date y m d \<and> ymd2ord y m d = int n + 1"
proof (induction n)
  case 0
  show ?case
    by (intro exI [of _ 1])
      (simp add: valid_date_def ymd2ord_def days_before_year_def days_before_month_def month_offset_def days_in_month_def)
next
  case (Suc n)
  then obtain y m d where date: "valid_date y m d" and ord: "ymd2ord y m d = int n + 1" by blast
  then have m: "1 \<le> y" "1 \<le> m" "m \<le> 12" "1 \<le> d" "d \<le> days_in_month y m" by (simp_all add: valid_date_def)
  show ?case
  proof (cases "d = days_in_month y m")
    case False
    then have "valid_date y m (d + 1)" using m by (simp add: valid_date_def)
    moreover have "ymd2ord y m (d + 1) = int (Suc n) + 1" using ord by (simp add: ymd2ord_def)
    ultimately show ?thesis by blast
  next
    case last: True
    have q: "(12 * y + m - 1) div 12 = y" "(12 * y + m - 1) mod 12 = m - 1"
      using divmod_eq [of "12 * y + m - 1" 12 y "m - 1"] m by simp_all
    have next_month: "month_start (12 * y + m) = month_start (12 * y + m - 1) + days_in_month y m"
      using month_start_next [of "12 * y + m - 1"] by (simp add: q)
    have ord': "month_start (12 * y + m) + 1 = int (Suc n) + 1"
      using ord next_month last m ymd2ord_month [of m y d] by simp
    show ?thesis
    proof (cases "m = 12")
      case True
      then have "ymd2ord (y + 1) 1 1 = int (Suc n) + 1" using ord' ymd2ord_month [of 1 "y + 1" 1] by (simp add: algebra_simps)
      moreover have "valid_date (y + 1) 1 1" using m by (simp add: valid_date_def days_in_month_def)
      ultimately show ?thesis by blast
    next
      case False
      then have "ymd2ord y (m + 1) 1 = int (Suc n) + 1" using ord' m ymd2ord_month [of "m + 1" y 1] by simp
      moreover have "valid_date y (m + 1) 1" using m False days_in_month_pos by (simp add: valid_date_def)
      ultimately show ?thesis by blast
    qed
  qed
qed

lemma instant_date:
  assumes "0 \<le> t" obtains y m d where "valid_date y m d" "t = at_date y m d (time_of_day t)"
proof -
  have "0 \<le> t div usec_per_day" using assms by (simp add: pos_imp_zdiv_nonneg_iff)
  then obtain n where n: "t div usec_per_day = int n" using zero_le_imp_eq_int by blast
  obtain y m d where date: "valid_date y m d" "ymd2ord y m d = int n + 1" using date_of_ordinal by blast
  have "t = at_date y m d (time_of_day t)"
    using date(2) n mult_div_mod_eq [of usec_per_day t] by (simp add: at_date_def time_of_day_def mult.commute)
  with date(1) show thesis by (rule that)
qed

lemma add_months_later:
  assumes "add_months t n = Inr t'" "0 < n" "0 \<le> t" shows "t < t'"
proof -
  obtain y m d where date: "valid_date y m d" and t: "t = at_date y m d (time_of_day t)" by (rule instant_date [OF assms(3)])
  define idx where "idx = m - 1 + n"
  let ?y = "y + idx div 12" and ?m = "idx mod 12 + 1"
  let ?d = "min d (days_in_month ?y ?m)"
  have F: "civil t = (y, m, d)" using at_date_fields(1) [OF date time_of_day_bounds, of t] t by simp
  have year: "1 \<le> ?y" and t': "t' = at_date ?y ?m ?d (time_of_day t)"
    using assms(1) by (simp_all add: add_months_def F Let_def idx_def split: if_splits)
  have idx: "idx = 12 * (idx div 12) + idx mod 12" "0 \<le> idx mod 12" "idx mod 12 < 12" by simp_all
  have "valid_date ?y ?m ?d" using year idx(2,3) date days_in_month_pos [of ?y ?m] by (simp add: valid_date_def)
  moreover have "12 * y + m < 12 * ?y + ?m" using idx(1) assms(2) by (simp add: idx_def [symmetric] algebra_simps) (simp add: idx_def)
  ultimately have "ymd2ord y m d < ymd2ord ?y ?m ?d" using ymd2ord_later_month [OF date] by blast
  then have "(ymd2ord y m d - 1) * usec_per_day < (ymd2ord ?y ?m ?d - 1) * usec_per_day" by simp
  moreover have "t = (ymd2ord y m d - 1) * usec_per_day + time_of_day t" using t by (simp add: at_date_def)
  ultimately show ?thesis unfolding t' at_date_def by linarith
qed

lemma recur_step_later:
  assumes "recur_step t typ i = Inr t'" "1 \<le> i" "0 \<le> t" shows "t < t'"
proof -
  have "0 < i * usec_per_day" "0 < 7 * i * usec_per_day" using assms(2) by simp_all
  then show ?thesis
    using assms add_months_later
    by (auto simp: recur_step_def res_bind_Inr_iff split: if_splits dest!: add_span_Inr days_span_Inr)
qed

text \<open>
  Number \<open>j\<close> of the steps from an instant, and that the expansion finds it where it overlaps and its bound reaches it,
  for steps of every kind
\<close>

primrec nth_step :: "string \<Rightarrow> int \<Rightarrow> instant \<Rightarrow> nat \<Rightarrow> date_error + instant" where
  "nth_step typ i t 0 = Inr t"
| "nth_step typ i t (Suc j) = res_bind (recur_step t typ i) (\<lambda>t'. nth_step typ i t' j)"

lemma nth_step_later:
  "nth_step typ i t j = Inr t' \<Longrightarrow> 1 \<le> i \<Longrightarrow> 0 \<le> t \<Longrightarrow> t \<le> t'"
proof (induction j arbitrary: t)
  case (Suc j)
  then obtain u where u: "recur_step t typ i = Inr u" "nth_step typ i u j = Inr t'" by (auto simp: res_bind_Inr_iff)
  have "t < u" by (rule recur_step_later [OF u(1) Suc.prems(2,3)])
  then show ?case using Suc.IH [OF u(2) Suc.prems(2)] Suc.prems(3) by simp
qed simp

lemma nth_step_fixed:
  "nth_step typ i t j = Inr t' \<Longrightarrow> fixed_step typ i = Some d \<Longrightarrow> t' = t + int j * d"
proof (induction j arbitrary: t)
  case (Suc j)
  then obtain u where u: "recur_step t typ i = Inr u" "nth_step typ i u j = Inr t'" by (auto simp: res_bind_Inr_iff)
  then show ?case using Suc.IH [OF u(2) Suc.prems(2)] recur_step_fixed [OF u(1) Suc.prems(2)] by (simp add: algebra_simps)
qed simp

lemma expand_loop_finds:
  assumes "expand_loop sr typ rs re k n t = Inr occs" "nth_step typ (interval_of sr) t j = Inr t'" "j < k" "0 \<le> t"
    "\<not> series_over sr re (n + int j) t'" "rs < t' + (sr_end sr - sr_start sr)" "t' \<notin> set (sr_exclude sr)"
  shows "\<lparr>oc_start = t', oc_end = t' + (sr_end sr - sr_start sr), oc_is_recurring = True\<rparr> \<in> set occs"
  using assms
proof (induction k arbitrary: n t j occs)
  case (Suc k)
  have le: "t \<le> t'" by (rule nth_step_later [OF Suc.prems(2) interval_of_pos Suc.prems(4)])
  then have "\<not> series_over sr re n t" using Suc.prems(5) series_over_mono [of sr re n t "n + int j" t'] by auto
  with Suc.prems(1) obtain occ_end u rest where e: "add_span t (sr_end sr - sr_start sr) = Inr occ_end"
      and s: "recur_step t typ (interval_of sr) = Inr u" and r: "expand_loop sr typ rs re k (n + 1) u = Inr rest"
      and occs: "occs = (if occ_end > rs \<and> t \<notin> set (sr_exclude sr)
        then [\<lparr>oc_start = t, oc_end = occ_end, oc_is_recurring = True\<rparr>] else []) @ rest"
    by (auto simp: res_bind_Inr_iff)
  show ?case
  proof (cases j)
    case 0
    then show ?thesis using Suc.prems(2,6,7) add_span_Inr [OF e] occs by simp
  next
    case (Suc i)
    have "0 \<le> u" using recur_step_later [OF s interval_of_pos Suc.prems(4)] Suc.prems(4) by simp
    moreover have "nth_step typ (interval_of sr) u i = Inr t'" using Suc.prems(2) s Suc by simp
    moreover have "\<not> series_over sr re (n + 1 + int i) t'" using Suc.prems(5) Suc by (simp add: ac_simps)
    ultimately have "\<lparr>oc_start = t', oc_end = t' + (sr_end sr - sr_start sr), oc_is_recurring = True\<rparr> \<in> set rest"
      using Suc.IH [OF r, of i] Suc.prems(3,6,7) Suc by simp
    then show ?thesis by (simp add: occs)
  qed
qed simp

end
