(* ===== verification/Change_Freeze.thy ===== *)
theory Change_Freeze
  imports Calendar_Recurrence Approval_Store "HOL-Library.Product_Lexorder"
begin

text \<open>
  \<open>itsm/change/freeze.py\<close>: the freeze windows of change management. The stored windows with their services,
  every operation on them, and the occurrences of the valid windows in a range, with the fast forward over the
  part of a series before the range and the report whether something was cut off. The instants of a body are
  those its \<open>to_utc_naive\<close> gives. The theorems: what the store keeps, and that a range shorter than
  the bound misses no occurrence of a window by days or weeks; beyond it the report says nothing.
\<close>

section \<open>Windows\<close>

datatype change_error = ChangeError string int | DateError date_error

datatype enforcement = Enf_block | Enf_warn

datatype freeze_scope = Scope_all | Scope_services

record recurrence_in =
  ri_type :: string
  ri_interval :: int
  ri_count :: "int option"
  ri_until :: "instant option"

record freeze_in =
  fi_name :: string
  fi_note :: "string option"
  fi_enforcement :: enforcement
  fi_allow_emergency :: bool
  fi_scope :: freeze_scope
  fi_service_ids :: "int list"
  fi_starts_at :: instant
  fi_ends_at :: instant
  fi_recurrence :: "recurrence_in option"
  fi_valid :: bool

definition MAX_FREEZE_SERVICES :: nat where
  "MAX_FREEZE_SERVICES = 200"

definition recurrence_in_ok :: "recurrence_in \<Rightarrow> bool" where
  "recurrence_in_ok r \<longleftrightarrow> ri_type r \<in> set RECUR_TYPES \<and> 1 \<le> ri_interval r \<and>
     (case ri_count r of None \<Rightarrow> True | Some c \<Rightarrow> 1 \<le> c)"

text \<open>What the validators of the body let through\<close>

definition freeze_in_ok :: "freeze_in \<Rightarrow> bool" where
  "freeze_in_ok d \<longleftrightarrow> strip (fi_name d) = fi_name d \<and> fi_name d \<noteq> [] \<and> length (fi_name d) \<le> 200 \<and>
     (case fi_note d of None \<Rightarrow> True | Some n \<Rightarrow> length n \<le> 5000) \<and>
     length (fi_service_ids d) \<le> MAX_FREEZE_SERVICES \<and>
     (case fi_recurrence d of None \<Rightarrow> True | Some r \<Rightarrow> recurrence_in_ok r) \<and>
     fi_starts_at d < fi_ends_at d"

record freeze_row =
  fz_id :: int
  fz_name :: string
  fz_note :: "string option"
  fz_enforcement :: enforcement
  fz_allow_emergency :: bool
  fz_scope :: freeze_scope
  fz_starts_at :: instant
  fz_ends_at :: instant
  fz_recur_type :: "string option"
  fz_recur_interval :: "int option"
  fz_recur_count :: "int option"
  fz_recur_until :: "instant option"
  fz_valid :: bool
  fz_created_at :: instant
  fz_created_by :: int
  fz_updated_at :: instant
  fz_updated_by :: int

text \<open>The two tables, the next id, and the ids of the valid services\<close>

record freeze_db =
  fd_rows :: "freeze_row list"
  fd_services :: "(int \<times> int) list"
  fd_next :: int
  fd_known_services :: "int list"

definition services_of :: "freeze_db \<Rightarrow> int \<Rightarrow> int list" where
  "services_of db i = map snd (filter (\<lambda>s. fst s = i) (fd_services db))"

definition find_freeze :: "freeze_db \<Rightarrow> int \<Rightarrow> change_error + freeze_row" where
  "find_freeze db i = (case find (\<lambda>r. fz_id r = i) (fd_rows db) of
     None \<Rightarrow> Inl (ChangeError ''freeze_not_found'' 404) | Some r \<Rightarrow> Inr r)"

definition get_freeze :: "freeze_db \<Rightarrow> int \<Rightarrow> change_error + freeze_row \<times> int list" where
  "get_freeze db i = res_bind (find_freeze db i) (\<lambda>r. Inr (r, sort (services_of db i)))"

section \<open>Operations\<close>

definition validated_services :: "freeze_db \<Rightarrow> freeze_in \<Rightarrow> change_error + int list" where
  "validated_services db d =
     (if (case fi_recurrence d of None \<Rightarrow> False | Some r \<Rightarrow>
            (case ri_until r of None \<Rightarrow> False | Some u \<Rightarrow> u < fi_starts_at d))
      then Inl (ChangeError ''freeze_recurrence_invalid'' 422)
      else if fi_scope d = Scope_all then Inr []
      else let ids = sort (remdups (fi_service_ids d)) in
        if ids = [] then Inl (ChangeError ''freeze_services_required'' 422)
        else if \<not> set ids \<subseteq> set (fd_known_services db) then Inl (ChangeError ''service_not_found'' 422)
        else Inr ids)"

definition apply_freeze :: "freeze_in \<Rightarrow> freeze_row \<Rightarrow> freeze_row" where
  "apply_freeze d r = r\<lparr>fz_name := replace_non_bmp (fi_name d), fz_note := map_option replace_non_bmp (fi_note d),
     fz_enforcement := fi_enforcement d, fz_allow_emergency := fi_allow_emergency d, fz_scope := fi_scope d,
     fz_starts_at := fi_starts_at d, fz_ends_at := fi_ends_at d,
     fz_recur_type := map_option ri_type (fi_recurrence d), fz_recur_interval := map_option ri_interval (fi_recurrence d),
     fz_recur_count := (case fi_recurrence d of None \<Rightarrow> None | Some rc \<Rightarrow> ri_count rc),
     fz_recur_until := (case fi_recurrence d of None \<Rightarrow> None | Some rc \<Rightarrow> ri_until rc), fz_valid := fi_valid d\<rparr>"

definition new_freeze :: "int \<Rightarrow> instant \<Rightarrow> int \<Rightarrow> freeze_row" where
  "new_freeze i now user = \<lparr>fz_id = i, fz_name = [], fz_note = None, fz_enforcement = Enf_block, fz_allow_emergency = True,
     fz_scope = Scope_all, fz_starts_at = 0, fz_ends_at = 0, fz_recur_type = None, fz_recur_interval = None,
     fz_recur_count = None, fz_recur_until = None, fz_valid = True,
     fz_created_at = now, fz_created_by = user, fz_updated_at = now, fz_updated_by = user\<rparr>"

definition create_freeze :: "instant \<Rightarrow> freeze_in \<Rightarrow> int \<Rightarrow> freeze_db \<Rightarrow> change_error + int \<times> freeze_db" where
  "create_freeze now d user db =
     res_bind (validated_services db d) (\<lambda>ids.
       let i = fd_next db in
       Inr (i, db\<lparr>fd_rows := fd_rows db @ [apply_freeze d (new_freeze i now user)],
         fd_services := fd_services db @ map (Pair i) ids, fd_next := i + 1\<rparr>))"

definition update_freeze :: "instant \<Rightarrow> int \<Rightarrow> freeze_in \<Rightarrow> int \<Rightarrow> freeze_db \<Rightarrow> change_error + freeze_db" where
  "update_freeze now i d user db =
     res_bind (find_freeze db i) (\<lambda>_.
     res_bind (validated_services db d) (\<lambda>ids.
       Inr (db\<lparr>fd_rows := upd_where (\<lambda>r. fz_id r = i)
           (\<lambda>r. (apply_freeze d r)\<lparr>fz_updated_at := now, fz_updated_by := user\<rparr>) (fd_rows db),
         fd_services := filter (\<lambda>s. fst s \<noteq> i) (fd_services db) @ map (Pair i) ids\<rparr>)))"

definition delete_freeze :: "int \<Rightarrow> freeze_db \<Rightarrow> change_error + freeze_db" where
  "delete_freeze i db =
     res_bind (find_freeze db i) (\<lambda>_.
       Inr (db\<lparr>fd_services := filter (\<lambda>s. fst s \<noteq> i) (fd_services db),
         fd_rows := filter (\<lambda>r. fz_id r \<noteq> i) (fd_rows db)\<rparr>))"

definition list_freezes :: "bool \<Rightarrow> freeze_db \<Rightarrow> (freeze_row \<times> int list) list" where
  "list_freezes include_invalid db =
     map (\<lambda>r. (r, sort (services_of db (fz_id r))))
       (sort_key (\<lambda>r. (fz_starts_at r, fz_id r)) (filter (\<lambda>r. include_invalid \<or> fz_valid r) (fd_rows db)))"

section \<open>Occurrences\<close>

record freeze_occurrence =
  fo_freeze_id :: int
  fo_name :: string
  fo_enforcement :: enforcement
  fo_allow_emergency :: bool
  fo_scope :: freeze_scope
  fo_service_ids :: "int set"
  fo_start :: instant
  fo_end :: instant

definition freeze_series :: "freeze_row \<Rightarrow> instant \<Rightarrow> instant \<Rightarrow> int option \<Rightarrow> series" where
  "freeze_series r first_start first_end count = \<lparr>sr_start = first_start, sr_end = first_end, sr_type = fz_recur_type r,
     sr_interval = fz_recur_interval r, sr_count = count, sr_until = fz_recur_until r, sr_exclude = []\<rparr>"

text \<open>\<open>max(row.recur_interval or 1, 1)\<close>\<close>

definition freeze_interval :: "freeze_row \<Rightarrow> int" where
  "freeze_interval r = (case fz_recur_interval r of None \<Rightarrow> 1 | Some i \<Rightarrow> max (if i = 0 then 1 else i) 1)"

definition fast_forward :: "freeze_row \<Rightarrow> instant \<Rightarrow> date_error + (instant \<times> instant \<times> int option) option" where
  "fast_forward r range_start =
     (if fz_recur_type r \<noteq> Some ''Daily'' \<and> fz_recur_type r \<noteq> Some ''Weekly''
      then Inr (Some (fz_starts_at r, fz_ends_at r, fz_recur_count r))
      else
        res_bind (days_span ((if fz_recur_type r = Some ''Daily'' then 1 else 7) * freeze_interval r)) (\<lambda>step.
          let skip = max ((range_start - fz_ends_at r) div step) 0 in
          if (case fz_recur_count r of None \<Rightarrow> False | Some c \<Rightarrow> skip \<ge> c) then Inr None
          else res_bind (add_span (fz_starts_at r) (skip * step)) (\<lambda>first_start.
            res_bind (add_span (fz_ends_at r) (skip * step)) (\<lambda>first_end.
              Inr (Some (first_start, first_end, map_option (\<lambda>c. c - skip) (fz_recur_count r)))))))"

definition freeze_occurrence_of :: "freeze_db \<Rightarrow> freeze_row \<Rightarrow> occurrence \<Rightarrow> freeze_occurrence" where
  "freeze_occurrence_of db r oc = \<lparr>fo_freeze_id = fz_id r, fo_name = fz_name r, fo_enforcement = fz_enforcement r,
     fo_allow_emergency = fz_allow_emergency r, fo_scope = fz_scope r, fo_service_ids = set (services_of db (fz_id r)),
     fo_start = oc_start oc, fo_end = oc_end oc\<rparr>"

text \<open>The occurrences one window adds, \<open>found\<close> of them\<close>

definition row_occurrences :: "freeze_row \<Rightarrow> instant \<Rightarrow> instant \<Rightarrow> date_error + occurrence list" where
  "row_occurrences r range_start range_end =
     res_bind (fast_forward r range_start) (\<lambda>forwarded.
       case forwarded of
         None \<Rightarrow> Inr []
       | Some (first_start, first_end, count) \<Rightarrow>
           expand_occurrences (freeze_series r first_start first_end count) range_start range_end)"

definition occurrences ::
  "freeze_db \<Rightarrow> instant \<Rightarrow> instant \<Rightarrow> date_error + freeze_occurrence list \<times> bool" where
  "occurrences db range_start range_end =
     res_bind (res_fold (\<lambda>r (out, truncated).
         res_bind (row_occurrences r range_start range_end) (\<lambda>occs.
           Inr (out @ map (freeze_occurrence_of db r) occs, truncated \<or> length occs \<ge> MAX_OCCURRENCES)))
       (filter fz_valid (sort_key fz_id (fd_rows db))) ([], False)) (\<lambda>(out, truncated).
       let ordered = sort_key (\<lambda>x. (fo_start x, fo_freeze_id x)) out in
       Inr (take MAX_OCCURRENCES ordered, truncated \<or> length ordered > MAX_OCCURRENCES))"

section \<open>What the store keeps\<close>

definition freeze_row_ok :: "freeze_row \<Rightarrow> bool" where
  "freeze_row_ok r \<longleftrightarrow> fz_starts_at r < fz_ends_at r \<and>
     (case fz_recur_type r of None \<Rightarrow> fz_recur_interval r = None \<and> fz_recur_count r = None \<and> fz_recur_until r = None
      | Some t \<Rightarrow> t \<in> set RECUR_TYPES \<and> (\<exists>i. fz_recur_interval r = Some i \<and> 1 \<le> i)) \<and>
     (case fz_recur_until r of None \<Rightarrow> True | Some u \<Rightarrow> fz_starts_at r \<le> u) \<and>
     (case fz_recur_count r of None \<Rightarrow> True | Some c \<Rightarrow> 1 \<le> c)"

text \<open>A window of scope services has one, a window of scope all has none; services belong to a window.\<close>

definition freeze_store_ok :: "freeze_db \<Rightarrow> bool" where
  "freeze_store_ok db \<longleftrightarrow> distinct (map fz_id (fd_rows db)) \<and> (\<forall>r \<in> set (fd_rows db). fz_id r < fd_next db \<and> freeze_row_ok r \<and>
       (fz_scope r = Scope_services \<longleftrightarrow> services_of db (fz_id r) \<noteq> [])) \<and>
     distinct (fd_services db) \<and> fst ` set (fd_services db) \<subseteq> fz_id ` set (fd_rows db)"

lemma freeze_row_id [simp]:
  "fz_id (apply_freeze d r) = fz_id r" "fz_id (new_freeze i now u) = i" "fz_scope (apply_freeze d r) = fi_scope d"
  by (simp_all add: apply_freeze_def new_freeze_def)

lemma validated_services_Inr:
  assumes "validated_services db d = Inr ids"
  shows "distinct ids" "fi_scope d = Scope_services \<longleftrightarrow> ids \<noteq> []"
    "case fi_recurrence d of None \<Rightarrow> True | Some r \<Rightarrow> (case ri_until r of None \<Rightarrow> True | Some u \<Rightarrow> fi_starts_at d \<le> u)"
  using assms by (auto simp: validated_services_def Let_def split: if_splits option.splits; metis freeze_scope.exhaust)+

lemma applied_row_ok:
  assumes "freeze_in_ok d" "validated_services db d = Inr ids" shows "freeze_row_ok (apply_freeze d r)"
  using assms(1) validated_services_Inr(3) [OF assms(2)]
  by (auto simp: freeze_row_ok_def apply_freeze_def freeze_in_ok_def recurrence_in_ok_def split: option.splits)

lemma freeze_row_ok_stamp [simp]:
  "freeze_row_ok (r\<lparr>fz_updated_at := t, fz_updated_by := u\<rparr>) = freeze_row_ok r"
  by (simp add: freeze_row_ok_def split: option.split)

lemma create_freeze_ok:
  assumes "create_freeze now d user db = Inr (i, db')" "freeze_in_ok d" "freeze_store_ok db"
  shows "freeze_store_ok db'"
proof -
  from assms(1) obtain ids where ids: "validated_services db d = Inr ids" and i: "i = fd_next db"
      and db': "db' = db\<lparr>fd_rows := fd_rows db @ [apply_freeze d (new_freeze i now user)],
         fd_services := fd_services db @ map (Pair i) ids, fd_next := i + 1\<rparr>"
    by (auto simp: create_freeze_def res_bind_Inr_iff Let_def)
  note V = validated_services_Inr [OF ids]
  have fresh: "\<forall>r \<in> set (fd_rows db). fz_id r \<noteq> i" "\<forall>s \<in> set (fd_services db). fst s \<noteq> i"
    using assms(3) i by (fastforce simp: freeze_store_ok_def)+
  have own: "services_of db' i = ids"
    using fresh(2) by (simp add: services_of_def db' filter_map comp_def filter_empty_conv)
  have other: "services_of db' j = services_of db j" if "j \<noteq> i" for j
    using that by (simp add: services_of_def db' filter_map comp_def)
  show ?thesis
    unfolding freeze_store_ok_def
    using assms(3) fresh V own other applied_row_ok [OF assms(2) ids] i
    by (auto simp: freeze_store_ok_def db' distinct_map inj_on_def less_imp_le intro: less_trans)
qed

lemma find_freeze_Inr: "find_freeze db i = Inr r \<Longrightarrow> r \<in> set (fd_rows db) \<and> fz_id r = i"
  by (auto simp: find_freeze_def dest: find_SomeD split: option.splits)

lemma other_services: "j \<noteq> i \<Longrightarrow> filter (\<lambda>x. fst x \<noteq> i \<and> fst x = j) xs = filter (\<lambda>x. fst x = j) xs"
  by (rule filter_cong) auto

lemma update_freeze_ok:
  assumes upd: "update_freeze now i d user db = Inr db'" and data: "freeze_in_ok d" and ok: "freeze_store_ok db"
  shows "freeze_store_ok db'"
proof -
  from upd obtain r ids where r: "find_freeze db i = Inr r" and ids: "validated_services db d = Inr ids"
      and db': "db' = db\<lparr>fd_rows := upd_where (\<lambda>r. fz_id r = i)
           (\<lambda>r. (apply_freeze d r)\<lparr>fz_updated_at := now, fz_updated_by := user\<rparr>) (fd_rows db),
         fd_services := filter (\<lambda>s. fst s \<noteq> i) (fd_services db) @ map (Pair i) ids\<rparr>"
    by (auto simp: update_freeze_def res_bind_Inr_iff)
  note V = validated_services_Inr [OF ids]
  have own: "services_of db' i = ids"
    by (simp add: services_of_def db' filter_map comp_def)
  have other: "services_of db' j = services_of db j" if "j \<noteq> i" for j
    using that by (simp add: services_of_def db' filter_map comp_def other_services)
  have keys: "map fz_id (fd_rows db') = map fz_id (fd_rows db)"
    by (simp add: db' map_upd_where)
  have rows: "fz_id x < fd_next db' \<and> freeze_row_ok x \<and> (fz_scope x = Scope_services \<longleftrightarrow> services_of db' (fz_id x) \<noteq> [])"
    if "x \<in> set (fd_rows db')" for x
  proof -
    from that have "x \<in> set (upd_where (\<lambda>r. fz_id r = i)
        (\<lambda>r. (apply_freeze d r)\<lparr>fz_updated_at := now, fz_updated_by := user\<rparr>) (fd_rows db))" by (simp add: db')
    then show ?thesis
    proof (cases rule: upd_whereE)
      case (hit y)
      then show ?thesis using ok own V(2) applied_row_ok [OF data ids] by (auto simp: db' freeze_store_ok_def)
    next
      case kept
      then show ?thesis using ok other [of "fz_id x"] by (simp add: db' freeze_store_ok_def)
    qed
  qed
  have "distinct (fd_services db')" using ok V(1) by (auto simp: db' freeze_store_ok_def distinct_map inj_on_def)
  moreover have "fst ` set (fd_services db') \<subseteq> fz_id ` set (fd_rows db')"
    using ok find_freeze_Inr [OF r] arg_cong [OF keys, of set] by (auto simp: db' freeze_store_ok_def)
  ultimately show ?thesis using ok rows keys by (simp add: freeze_store_ok_def)
qed

lemma delete_freeze_ok:
  assumes "delete_freeze i db = Inr db'" "freeze_store_ok db" shows "freeze_store_ok db'"
proof -
  from assms(1) have db': "db' = db\<lparr>fd_services := filter (\<lambda>s. fst s \<noteq> i) (fd_services db),
      fd_rows := filter (\<lambda>r. fz_id r \<noteq> i) (fd_rows db)\<rparr>"
    by (auto simp: delete_freeze_def res_bind_Inr_iff)
  have "services_of db' j = services_of db j" if "j \<noteq> i" for j
    using that by (simp add: services_of_def db' other_services)
  then show ?thesis
    using assms(2) by (fastforce simp: freeze_store_ok_def db' distinct_map intro: inj_on_subset)
qed

section \<open>Which occurrences are found\<close>

lemma interval_of_freeze: "interval_of (freeze_series r s e c) = freeze_interval r"
  by (simp add: interval_of_def freeze_series_def freeze_interval_def max_def split: option.splits)

text \<open>The step of a window by days or weeks\<close>

definition row_step :: "freeze_row \<Rightarrow> int option" where
  "row_step r = (case fz_recur_type r of None \<Rightarrow> None | Some rtype \<Rightarrow> fixed_step rtype (freeze_interval r))"

definition row_skip :: "freeze_row \<Rightarrow> instant \<Rightarrow> int \<Rightarrow> int" where
  "row_skip r range_start d = max ((range_start - fz_ends_at r) div d) 0"

lemma freeze_interval_pos: "1 \<le> freeze_interval r"
  by (simp add: freeze_interval_def split: option.splits)

lemma row_step_pos: "row_step r = Some d \<Longrightarrow> 0 < d"
  using freeze_interval_pos [of r] usec_per_day_pos(1)
  by (auto simp: row_step_def fixed_step_def split: option.splits if_splits)

lemma fast_forward_fixed:
  assumes "row_step r = Some d" "fast_forward r rs = Inr f"
  shows "f = (if (case fz_recur_count r of None \<Rightarrow> False | Some c \<Rightarrow> row_skip r rs d \<ge> c) then None
     else Some (fz_starts_at r + row_skip r rs d * d, fz_ends_at r + row_skip r rs d * d,
       map_option (\<lambda>c. c - row_skip r rs d) (fz_recur_count r)))"
  using assms
  by (auto simp: row_step_def fast_forward_def fixed_step_def row_skip_def Let_def res_bind_Inr_iff
      split: option.splits if_splits dest!: days_span_Inr add_span_Inr)

lemma row_occurrences_fixed:
  assumes "row_step r = Some d" "row_occurrences r rs re = Inr occs"
  obtains (over) c where "fz_recur_count r = Some c" "row_skip r rs d \<ge> c" "occs = []"
  | (series) rtype sr where "fz_recur_type r = Some rtype" "fixed_step rtype (interval_of sr) = Some d"
      "sr = freeze_series r (fz_starts_at r + row_skip r rs d * d) (fz_ends_at r + row_skip r rs d * d)
         (map_option (\<lambda>c. c - row_skip r rs d) (fz_recur_count r))"
      "expand_loop sr rtype rs re MAX_OCCURRENCES 0 (fz_starts_at r + row_skip r rs d * d) = Inr occs"
proof -
  from assms(1) obtain rtype where rtype: "fz_recur_type r = Some rtype" "fixed_step rtype (freeze_interval r) = Some d"
    by (auto simp: row_step_def split: option.splits)
  then have known: "rtype \<in> set RECUR_TYPES" by (auto simp: fixed_step_def RECUR_TYPES_def split: if_splits)
  from assms(2) obtain f where f: "fast_forward r rs = Inr f"
      and e: "(case f of None \<Rightarrow> Inr [] | Some (s, e, c) \<Rightarrow> expand_occurrences (freeze_series r s e c) rs re) = Inr occs"
    by (auto simp: row_occurrences_def res_bind_Inr_iff)
  show ?thesis
  proof (cases "case fz_recur_count r of None \<Rightarrow> False | Some c \<Rightarrow> row_skip r rs d \<ge> c")
    case True
    then show ?thesis using over fast_forward_fixed [OF assms(1) f] e by (auto split: option.splits)
  next
    case False
    let ?sr = "freeze_series r (fz_starts_at r + row_skip r rs d * d) (fz_ends_at r + row_skip r rs d * d)
         (map_option (\<lambda>c. c - row_skip r rs d) (fz_recur_count r))"
    have "expand_occurrences ?sr rs re = Inr occs" using fast_forward_fixed [OF assms(1) f] e False by simp
    then have "expand_loop ?sr rtype rs re MAX_OCCURRENCES 0 (fz_starts_at r + row_skip r rs d * d) = Inr occs"
      using rtype known by (simp add: expand_occurrences_def freeze_series_def)
    then show ?thesis using series [OF rtype(1) _ refl] rtype(2) by (simp add: interval_of_freeze)
  qed
qed

text \<open>Number \<open>j\<close> of the occurrences of a window, where its count and its end let it happen\<close>

definition happens :: "freeze_row \<Rightarrow> int \<Rightarrow> nat \<Rightarrow> bool" where
  "happens r d j \<longleftrightarrow> (case fz_recur_count r of None \<Rightarrow> True | Some c \<Rightarrow> int j < c) \<and>
     (case fz_recur_until r of None \<Rightarrow> True | Some u \<Rightarrow> fz_starts_at r + int j * d \<le> u)"

lemma row_occurrences_complete:
  assumes step: "row_step r = Some d" and occs: "row_occurrences r rs re = Inr occs" and j: "happens r d j"
    and overlap: "fz_starts_at r + int j * d < re" "rs < fz_ends_at r + int j * d"
    and short: "(re - rs) + (fz_ends_at r - fz_starts_at r) \<le> (int MAX_OCCURRENCES - 1) * d"
  shows "\<lparr>oc_start = fz_starts_at r + int j * d, oc_end = fz_ends_at r + int j * d, oc_is_recurring = True\<rparr> \<in> set occs"
proof -
  define s where "s = row_skip r rs d"
  have d: "0 < d" by (rule row_step_pos [OF step])
  have "(rs - fz_ends_at r) div d \<le> int j"
  proof (rule ccontr)
    assume "\<not> (rs - fz_ends_at r) div d \<le> int j"
    then have "d * int j \<le> d * ((rs - fz_ends_at r) div d)" using d by (intro mult_left_mono) auto
    also have "\<dots> \<le> rs - fz_ends_at r"
      using mult_div_mod_eq [of d "rs - fz_ends_at r"] pos_mod_sign [OF d, of "rs - fz_ends_at r"] by linarith
    finally show False using overlap(2) by (simp add: mult.commute)
  qed
  then have s: "0 \<le> s" "s \<le> int j" by (simp_all add: s_def row_skip_def)
  then obtain i where i: "int j = s + int i" using zero_le_imp_eq_int [of "int j - s"] by (metis add.commute diff_add_cancel diff_ge_0_iff_ge)
  have far: "rs - fz_ends_at r < (s + 1) * d"
  proof -
    have "rs - fz_ends_at r < d * ((rs - fz_ends_at r) div d) + d"
      using mult_div_mod_eq [of d "rs - fz_ends_at r"] pos_mod_bound [OF d, of "rs - fz_ends_at r"] by linarith
    also have "\<dots> = d * ((rs - fz_ends_at r) div d + 1)" by (simp add: distrib_left)
    also have "\<dots> \<le> d * (s + 1)" using d by (intro mult_left_mono) (auto simp: s_def row_skip_def)
    finally show ?thesis by (simp add: mult.commute)
  qed
  have tj: "fz_starts_at r + s * d + int i * d = fz_starts_at r + int j * d" by (simp add: i algebra_simps)
  have "int i < int MAX_OCCURRENCES"
  proof (rule ccontr)
    assume "\<not> int i < int MAX_OCCURRENCES"
    then have "int MAX_OCCURRENCES * d \<le> int i * d" using d by (intro mult_right_mono) auto
    then show False using tj overlap(1) far short by (simp add: algebra_simps)
  qed
  show ?thesis
    using step occs
  proof (cases rule: row_occurrences_fixed)
    case (over c)
    then show ?thesis using j s(2) by (simp add: happens_def s_def)
  next
    case (series rtype sr)
    have sr: "sr_end sr - sr_start sr = fz_ends_at r - fz_starts_at r" "sr_exclude sr = []"
      by (simp_all add: series(3) freeze_series_def)
    have "\<not> series_over sr re (0 + int i) (fz_starts_at r + s * d + int i * d)"
      using j overlap(1) unfolding tj by (auto simp: series_over_def series(3) freeze_series_def happens_def i s_def split: option.splits)
    from expand_loop_complete [OF series(4) series(2), of i] this show ?thesis
      using \<open>int i < int MAX_OCCURRENCES\<close> overlap(2) unfolding s_def [symmetric] tj sr by (simp add: algebra_simps)
  qed
qed

definition found_in :: "instant \<Rightarrow> instant \<Rightarrow> freeze_row \<Rightarrow> occurrence list" where
  "found_in rs re r = (case row_occurrences r rs re of Inr occs \<Rightarrow> occs | Inl _ \<Rightarrow> [])"

lemma collected_occurrences:
  assumes "res_fold (\<lambda>r (out, truncated). res_bind (row_occurrences r rs re) (\<lambda>occs.
      Inr (out @ map (freeze_occurrence_of db r) occs, truncated \<or> length occs \<ge> MAX_OCCURRENCES))) rows (out, t) = Inr (out', t')"
  shows "set out' = set out \<union> (\<Union>r \<in> set rows. freeze_occurrence_of db r ` set (found_in rs re r)) \<and>
    (t' \<longleftrightarrow> t \<or> (\<exists>r \<in> set rows. length (found_in rs re r) \<ge> MAX_OCCURRENCES)) \<and>
    length out' = length out + (\<Sum>r \<leftarrow> rows. length (found_in rs re r)) \<and>
    (\<forall>r \<in> set rows. row_occurrences r rs re = Inr (found_in rs re r))"
  using assms
proof (induction rows arbitrary: out t)
  case (Cons r rows)
  from Cons.prems obtain occs where o: "row_occurrences r rs re = Inr occs"
      and rest: "res_fold (\<lambda>r (out, truncated). res_bind (row_occurrences r rs re) (\<lambda>occs.
        Inr (out @ map (freeze_occurrence_of db r) occs, truncated \<or> length occs \<ge> MAX_OCCURRENCES))) rows
        (out @ map (freeze_occurrence_of db r) occs, t \<or> length occs \<ge> MAX_OCCURRENCES) = Inr (out', t')"
    by (auto simp: res_bind_Inr_iff)
  have "found_in rs re r = occs" using o by (simp add: found_in_def)
  then show ?case using Cons.IH [OF rest] o by auto
qed simp

lemma occurrences_Inr:
  assumes "occurrences db rs re = Inr (items, t)"
  obtains out where "set out = (\<Union>r \<in> {r \<in> set (fd_rows db). fz_valid r}. freeze_occurrence_of db r ` set (found_in rs re r))"
    "\<forall>r \<in> set (fd_rows db). fz_valid r \<longrightarrow> row_occurrences r rs re = Inr (found_in rs re r)"
    "length out = (\<Sum>r \<leftarrow> filter fz_valid (sort_key fz_id (fd_rows db)). length (found_in rs re r))"
    "items = take MAX_OCCURRENCES (sort_key (\<lambda>x. (fo_start x, fo_freeze_id x)) out)"
    "t \<longleftrightarrow> (\<exists>r \<in> set (fd_rows db). fz_valid r \<and> length (found_in rs re r) \<ge> MAX_OCCURRENCES) \<or> length out > MAX_OCCURRENCES"
proof -
  from assms obtain out t0 where fold: "res_fold (\<lambda>r (out, truncated). res_bind (row_occurrences r rs re) (\<lambda>occs.
      Inr (out @ map (freeze_occurrence_of db r) occs, truncated \<or> length occs \<ge> MAX_OCCURRENCES)))
      (filter fz_valid (sort_key fz_id (fd_rows db))) ([], False) = Inr (out, t0)"
      and items: "items = take MAX_OCCURRENCES (sort_key (\<lambda>x. (fo_start x, fo_freeze_id x)) out)"
        "t \<longleftrightarrow> t0 \<or> length out > MAX_OCCURRENCES"
    by (auto simp: occurrences_def res_bind_Inr_iff Let_def)
  note C = collected_occurrences [OF fold]
  show ?thesis by (rule that [OF _ _ _ items(1)]) (use C items(2) in auto)
qed

lemma found_item:
  assumes "occurrences db rs re = Inr (items, False)" "r \<in> set (fd_rows db)" "fz_valid r" "oc \<in> set (found_in rs re r)"
  shows "freeze_occurrence_of db r oc \<in> set items"
  using assms(1)
proof (rule occurrences_Inr)
  fix out
  assume out: "set out = (\<Union>r \<in> {r \<in> set (fd_rows db). fz_valid r}. freeze_occurrence_of db r ` set (found_in rs re r))"
    and items: "items = take MAX_OCCURRENCES (sort_key (\<lambda>x. (fo_start x, fo_freeze_id x)) out)"
    and t: "False \<longleftrightarrow> (\<exists>r \<in> set (fd_rows db). fz_valid r \<and> length (found_in rs re r) \<ge> MAX_OCCURRENCES) \<or> length out > MAX_OCCURRENCES"
  have "set items = set out" using t by (simp add: items)
  then show ?thesis using out assms(2-4) by blast
qed

text \<open>
  C39. No occurrence of a freeze window is missed: where nothing was reported as cut off, every occurrence of a
  valid window by days or weeks that overlaps the range is listed, for ranges that are shorter than the bound
  on the steps.
\<close>

theorem freeze_occurrences_complete:
  assumes occ: "occurrences db rs re = Inr (items, False)" and r: "r \<in> set (fd_rows db)" "fz_valid r"
    and step: "row_step r = Some d" and j: "happens r d j"
    and overlap: "fz_starts_at r + int j * d < re" "rs < fz_ends_at r + int j * d"
    and short: "(re - rs) + (fz_ends_at r - fz_starts_at r) \<le> (int MAX_OCCURRENCES - 1) * d"
  shows "freeze_occurrence_of db r
      \<lparr>oc_start = fz_starts_at r + int j * d, oc_end = fz_ends_at r + int j * d, oc_is_recurring = True\<rparr> \<in> set items"
proof -
  have found: "row_occurrences r rs re = Inr (found_in rs re r)" using occ r by (auto elim: occurrences_Inr)
  show ?thesis by (rule found_item [OF occ r row_occurrences_complete [OF step found j overlap short]])
qed

definition weekly_freeze :: freeze_in where
  "weekly_freeze = \<lparr>fi_name = ''Payroll'', fi_note = None, fi_enforcement = Enf_block, fi_allow_emergency = True,
     fi_scope = Scope_services, fi_service_ids = [3], fi_starts_at = at_date 2020 1 3 0, fi_ends_at = at_date 2020 1 4 0,
     fi_recurrence = Some \<lparr>ri_type = ''Weekly'', ri_interval = 1, ri_count = None, ri_until = None\<rparr>, fi_valid = True\<rparr>"

definition freeze_example :: freeze_db where
  "freeze_example = (case create_freeze (at_date 2020 1 1 0) weekly_freeze 7
     \<lparr>fd_rows = [], fd_services = [], fd_next = 1, fd_known_services = [3, 4]\<rparr> of Inr (_, db) \<Rightarrow> db
     | Inl _ \<Rightarrow> \<lparr>fd_rows = [], fd_services = [], fd_next = 1, fd_known_services = []\<rparr>)"

theorem freeze_occurrences_complete_witness:
  "\<exists>items. occurrences freeze_example (at_date 2026 3 2 0) (at_date 2026 3 30 0) = Inr (items, False) \<and>
     (\<exists>x \<in> set items. fo_start x = at_date 2026 3 13 0 \<and> fo_end x = at_date 2026 3 14 0 \<and> fo_service_ids x = {3})"
proof -
  let ?rs = "at_date 2026 3 2 0" and ?re = "at_date 2026 3 30 0"
  have "case occurrences freeze_example ?rs ?re of Inr (_, t) \<Rightarrow> \<not> t | Inl _ \<Rightarrow> False" by code_simp
  then obtain items where occ: "occurrences freeze_example ?rs ?re = Inr (items, False)" by (auto split: sum.splits)
  have rows: "length (fd_rows freeze_example) = 1" by code_simp
  then obtain r where r: "fd_rows freeze_example = [r]" by (auto simp: length_Suc_conv)
  have "list_all (\<lambda>r. fz_valid r \<and> row_step r = Some (7 * usec_per_day) \<and> happens r (7 * usec_per_day) 323 \<and>
      fz_starts_at r + 323 * (7 * usec_per_day) = at_date 2026 3 13 0 \<and> fz_ends_at r + 323 * (7 * usec_per_day) = at_date 2026 3 14 0 \<and>
      at_date 2026 3 13 0 < ?re \<and> ?rs < at_date 2026 3 14 0 \<and> set (services_of freeze_example (fz_id r)) = {3} \<and>
      (?re - ?rs) + (fz_ends_at r - fz_starts_at r) \<le> (int MAX_OCCURRENCES - 1) * (7 * usec_per_day)) (fd_rows freeze_example)"
    by code_simp
  then have facts: "fz_valid r" "row_step r = Some (7 * usec_per_day)" "happens r (7 * usec_per_day) 323"
    "fz_starts_at r + int 323 * (7 * usec_per_day) = at_date 2026 3 13 0" "fz_ends_at r + int 323 * (7 * usec_per_day) = at_date 2026 3 14 0"
    "at_date 2026 3 13 0 < ?re" "?rs < at_date 2026 3 14 0" "set (services_of freeze_example (fz_id r)) = {3}"
    "(?re - ?rs) + (fz_ends_at r - fz_starts_at r) \<le> (int MAX_OCCURRENCES - 1) * (7 * usec_per_day)"
    unfolding r by simp_all
  have row: "r \<in> set (fd_rows freeze_example)" by (simp add: r)
  have "freeze_occurrence_of freeze_example r \<lparr>oc_start = at_date 2026 3 13 0, oc_end = at_date 2026 3 14 0,
      oc_is_recurring = True\<rparr> \<in> set items"
    using freeze_occurrences_complete [OF occ row facts(1-3)] facts(4-7,9) by simp
  then show ?thesis using occ facts(8) by (intro exI [of _ items] conjI bexI) (simp_all add: freeze_occurrence_of_def)
qed

section \<open>Beyond the bound\<close>

text \<open>The loop reaches as far as its steps.\<close>

lemma expand_loop_reach:
  assumes "expand_loop sr rtype rs re k n t = Inr occs" "fixed_step rtype (interval_of sr) = Some d" "oc \<in> set occs"
  shows "oc_start oc < t + int k * d"
  using assms(1,3)
proof (induction k arbitrary: n t occs)
  case (Suc k)
  have d: "0 < d" by (rule fixed_step_pos [OF assms(2)])
  then have kd: "0 \<le> int k * d" by simp
  show ?case
  proof (cases "series_over sr re n t")
    case False
    with Suc.prems(1) obtain occ_end t' rest where s: "recur_step t rtype (interval_of sr) = Inr t'"
        and r: "expand_loop sr rtype rs re k (n + 1) t' = Inr rest"
        and occs: "occs = (if occ_end > rs \<and> t \<notin> set (sr_exclude sr)
          then [\<lparr>oc_start = t, oc_end = occ_end, oc_is_recurring = True\<rparr>] else []) @ rest"
      by (auto simp: res_bind_Inr_iff)
    from Suc.prems(2) occs have "oc \<in> set rest \<or> oc_start oc = t" by (auto split: if_splits)
    moreover have "t' + int k * d = t + int (Suc k) * d" using recur_step_fixed [OF s assms(2)] by (simp add: algebra_simps)
    moreover have "t < t + int (Suc k) * d" using d by simp
    ultimately show ?thesis using Suc.IH [OF r] by auto
  qed (use Suc.prems in simp)
qed simp

lemma expand_loop_late:
  "expand_loop sr rtype rs re (Suc k) n t = Inr occs \<Longrightarrow> t + (sr_end sr - sr_start sr) \<le> rs \<Longrightarrow> length occs \<le> k"
  by (auto simp: res_bind_Inr_iff split: if_splits dest!: add_span_Inr dest: expand_loop_length)

text \<open>
  Beyond the bound the report is silent: for a single window whose first occurrence ends before the range, the
  fast forward stops at an occurrence that does not overlap, so fewer than the bound are found however long the
  range is. The occurrences the loop did not reach are missing, and nothing was reported as cut off.
\<close>

theorem freeze_cut_unreported:
  assumes occ: "occurrences db rs re = Inr (items, t)" and r: "fd_rows db = [r]" "fz_valid r" and step: "row_step r = Some d"
    and before: "fz_ends_at r \<le> rs"
  shows "\<not> t \<and> (\<forall>x \<in> set items. fo_start x < fz_starts_at r + (row_skip r rs d + int MAX_OCCURRENCES) * d)"
proof -
  have d: "0 < d" by (rule row_step_pos [OF step])
  have found: "row_occurrences r rs re = Inr (found_in rs re r)" using occ r by (auto elim: occurrences_Inr)
  have bounds: "length (found_in rs re r) < MAX_OCCURRENCES \<and>
      (\<forall>oc \<in> set (found_in rs re r). oc_start oc < fz_starts_at r + (row_skip r rs d + int MAX_OCCURRENCES) * d)"
    using step found
  proof (cases rule: row_occurrences_fixed)
    case (over c)
    then show ?thesis by (simp add: MAX_OCCURRENCES_def)
  next
    case (series rtype sr)
    have "d * ((rs - fz_ends_at r) div d) \<le> rs - fz_ends_at r"
      using mult_div_mod_eq [of d "rs - fz_ends_at r"] pos_mod_sign [OF d, of "rs - fz_ends_at r"] by linarith
    moreover have "row_skip r rs d = (rs - fz_ends_at r) div d"
      using before d by (simp add: row_skip_def pos_imp_zdiv_nonneg_iff)
    ultimately have out: "\<not> fz_ends_at r + row_skip r rs d * d > rs" by (simp add: mult.commute)
    have "MAX_OCCURRENCES = Suc 1999" by (simp add: MAX_OCCURRENCES_def)
    then have loop: "expand_loop sr rtype rs re (Suc 1999) 0 (fz_starts_at r + row_skip r rs d * d) = Inr (found_in rs re r)"
      using series(4) by simp
    have "length (found_in rs re r) \<le> 1999"
      by (rule expand_loop_late [OF loop]) (use out in \<open>simp add: series(3) freeze_series_def\<close>)
    then show ?thesis
      using expand_loop_reach [OF series(4,2)] by (auto simp: MAX_OCCURRENCES_def algebra_simps)
  qed
  from occ show ?thesis
  proof (rule occurrences_Inr)
    fix out
    assume "set out = (\<Union>r \<in> {r \<in> set (fd_rows db). fz_valid r}. freeze_occurrence_of db r ` set (found_in rs re r))"
      "length out = (\<Sum>r \<leftarrow> filter fz_valid (sort_key fz_id (fd_rows db)). length (found_in rs re r))"
      "items = take MAX_OCCURRENCES (sort_key (\<lambda>x. (fo_start x, fo_freeze_id x)) out)"
      "t \<longleftrightarrow> (\<exists>r \<in> set (fd_rows db). fz_valid r \<and> length (found_in rs re r) \<ge> MAX_OCCURRENCES) \<or> length out > MAX_OCCURRENCES"
    then show ?thesis using r bounds by (auto simp: freeze_occurrence_of_def dest!: in_set_takeD)
  qed
qed

end
