(* ===== verification/Change_Conflicts.thy ===== *)
theory Change_Conflicts
  imports Change_Freeze Change_Phases Permission_Engine
begin

text \<open>
  \<open>itsm/change/conflicts.py\<close> and the part of \<open>itsm/change/transitions.py\<close> that counts them: freeze windows,
  overlapping changes and tasks that collide with the window of a change, read from the stored data, filtered for
  a reader, and counted for the guards of a step. The theorem joins the three parts: a stored blocking window
  that touches a change stops every step of a person into approval, scheduled or implementing, unless a
  manager overrides it with a reason.
\<close>

section \<open>Conflicts\<close>

datatype conflict_kind = K_freeze | K_change_overlap | K_task_outside | K_no_window
  | K_freeze_truncated | K_overlap_truncated | K_freeze_unverified

datatype severity = Sev_info | Sev_warn | Sev_block

text \<open>\<open>freeze:<id>\<close>, \<open>change:<id>\<close>, \<open>task:<id>\<close>\<close>

datatype conflict_ref = Ref_freeze int | Ref_change int | Ref_task int

record conflict =
  cf_kind :: conflict_kind
  cf_severity :: severity
  cf_ref :: "conflict_ref option"
  cf_start :: "instant option"
  cf_end :: "instant option"
  cf_shared_services :: "int list"
  cf_shared_cis :: "int list"
  cf_hidden :: bool

record other_change =
  oh_ticket_id :: int
  oh_phase :: phase
  oh_start :: instant
  oh_end :: instant
  oh_services :: "int set"
  oh_cis :: "int set"

record task_window =
  tw_ticket_id :: int
  tw_start :: "instant option"
  tw_end :: "instant option"

definition CONFLICT_CANDIDATE_CAP :: nat where
  "CONFLICT_CANDIDATE_CAP = 500"

definition OVERLAP_PHASES :: "phase set" where
  "OVERLAP_PHASES = {phase.approval, scheduled, implementing}"

definition UNVERIFIED_KINDS :: "conflict_kind set" where
  "UNVERIFIED_KINDS = {K_freeze_truncated, K_freeze_unverified}"

definition plain_conflict :: "conflict_kind \<Rightarrow> severity \<Rightarrow> instant option \<Rightarrow> instant option \<Rightarrow> conflict" where
  "plain_conflict kind sev s e = \<lparr>cf_kind = kind, cf_severity = sev, cf_ref = None, cf_start = s, cf_end = e,
     cf_shared_services = [], cf_shared_cis = [], cf_hidden = False\<rparr>"

text \<open>Half-open spans\<close>

definition spans_overlap :: "instant \<times> instant \<Rightarrow> instant \<Rightarrow> instant \<Rightarrow> bool" where
  "spans_overlap a b_start b_end \<longleftrightarrow> fst a < b_end \<and> b_start < snd a"

definition freeze_blocks :: "freeze_occurrence \<Rightarrow> change_type \<Rightarrow> bool" where
  "freeze_blocks f typ =
     (if fo_enforcement f \<noteq> Enf_block then False else \<not> (typ = emergency \<and> fo_allow_emergency f))"

section \<open>Detection\<close>

definition freeze_conflicts ::
  "change_type \<Rightarrow> instant \<times> instant \<Rightarrow> int set \<Rightarrow> freeze_occurrence \<Rightarrow> conflict list" where
  "freeze_conflicts typ window services f =
     (let shared = (if fo_scope f = Scope_services then sorted_list_of_set (services \<inter> fo_service_ids f) else []) in
      if \<not> spans_overlap window (fo_start f) (fo_end f) then []
      else if fo_scope f = Scope_services \<and> shared = [] then []
      else [\<lparr>cf_kind = K_freeze, cf_severity = if freeze_blocks f typ then Sev_block else Sev_warn,
              cf_ref = Some (Ref_freeze (fo_freeze_id f)), cf_start = Some (fo_start f), cf_end = Some (fo_end f),
              cf_shared_services = shared, cf_shared_cis = [], cf_hidden = False\<rparr>])"

definition overlap_conflicts ::
  "instant \<times> instant \<Rightarrow> int set \<Rightarrow> int set \<Rightarrow> other_change \<Rightarrow> conflict list" where
  "overlap_conflicts window services cis x =
     (let shared_services = sorted_list_of_set (services \<inter> oh_services x);
          shared_cis = sorted_list_of_set (cis \<inter> oh_cis x) in
      if oh_phase x \<notin> OVERLAP_PHASES \<or> \<not> spans_overlap window (oh_start x) (oh_end x) then []
      else if shared_services = [] \<and> shared_cis = [] then []
      else [\<lparr>cf_kind = K_change_overlap, cf_severity = Sev_warn, cf_ref = Some (Ref_change (oh_ticket_id x)),
              cf_start = Some (oh_start x), cf_end = Some (oh_end x), cf_shared_services = shared_services,
              cf_shared_cis = shared_cis, cf_hidden = False\<rparr>])"

definition task_conflicts :: "instant \<times> instant \<Rightarrow> task_window \<Rightarrow> conflict list" where
  "task_conflicts window x =
     (if list_ex (\<lambda>t. \<not> (fst window \<le> t \<and> t \<le> snd window)) (List.map_filter id [tw_start x, tw_end x])
      then [\<lparr>cf_kind = K_task_outside, cf_severity = Sev_warn, cf_ref = Some (Ref_task (tw_ticket_id x)),
              cf_start = tw_start x, cf_end = tw_end x, cf_shared_services = [], cf_shared_cis = [], cf_hidden = False\<rparr>]
      else [])"

definition detect_conflicts ::
  "change_type \<Rightarrow> (instant \<times> instant) option \<Rightarrow> int set \<Rightarrow> int set \<Rightarrow> freeze_occurrence list \<Rightarrow>
     other_change list \<Rightarrow> task_window list \<Rightarrow> conflict list" where
  "detect_conflicts typ window services cis freezes others tasks =
     (case window of
        None \<Rightarrow> [plain_conflict K_no_window Sev_info None None]
      | Some w \<Rightarrow>
          if snd w \<le> fst w then [plain_conflict K_no_window Sev_info None None]
          else concat (map (freeze_conflicts typ w services) (sort_key (\<lambda>f. (fo_start f, fo_freeze_id f)) freezes)) @
            concat (map (overlap_conflicts w services cis) (sort_key (\<lambda>x. (oh_start x, oh_ticket_id x)) others)) @
            concat (map (task_conflicts w) (sort_key tw_ticket_id tasks)))"

section \<open>Stored data\<close>

record change_row =
  ch_ticket_id :: int
  ch_phase :: phase
  ch_change_type :: change_type
  ch_planned_start :: "instant option"
  ch_planned_end :: "instant option"
  ch_impact_truncated :: bool
  ch_impact_requested_at :: "instant option"
  ch_impact_computed_at :: "instant option"

text \<open>A row of the stored impact set; its key is the decimal id of a service or a CI.\<close>

record impact_row =
  im_ticket_id :: int
  im_kind :: string
  im_ref_key :: string
  im_direct :: bool

record change_db =
  cd_changes :: "change_row list"
  cd_impact :: "impact_row list"
  cd_extra_services :: "(int \<times> int) list"
  cd_ticket_service :: "(int \<times> int option) list"
  cd_linked_cis :: "(int \<times> int) list"
  cd_tasks :: "(int \<times> task_window) list"
  cd_freezes :: freeze_db
  cd_znuny :: znuny_db

record impact_set =
  is_services :: "int set"
  is_cis :: "int set"
  is_direct_services :: "int set"

definition impact_refs :: "change_db \<Rightarrow> int \<Rightarrow> (impact_row \<Rightarrow> bool) \<Rightarrow> int set" where
  "impact_refs db t p = set (map (int \<circ> read_nat \<circ> im_ref_key)
     (filter (\<lambda>r. im_ticket_id r = t \<and> all_digits (im_ref_key r) \<and> p r) (cd_impact db)))"

definition impact_set_of :: "change_db \<Rightarrow> int \<Rightarrow> impact_set" where
  "impact_set_of db t = \<lparr>is_services = impact_refs db t (\<lambda>r. im_kind r = ''service''),
     is_cis = impact_refs db t (\<lambda>r. im_kind r = ''ci''),
     is_direct_services = impact_refs db t (\<lambda>r. im_kind r = ''service'' \<and> im_direct r)\<rparr>"

text \<open>The service of the ticket and the extra services of the change, as they are now\<close>

definition live_direct_services :: "change_db \<Rightarrow> int \<Rightarrow> int set" where
  "live_direct_services db t =
     set (map snd (filter (\<lambda>s. fst s = t) (cd_extra_services db))) \<union>
     (case map_of (cd_ticket_service db) t of Some (Some s) \<Rightarrow> {s} | _ \<Rightarrow> {})"

text \<open>The stored set, joined with the live services where it lags behind them\<close>

definition known_impact :: "change_db \<Rightarrow> int \<Rightarrow> impact_set" where
  "known_impact db t =
     (let mine = impact_set_of db t; live = live_direct_services db t in
      if live \<subseteq> is_direct_services mine then mine
      else mine\<lparr>is_services := is_services mine \<union> live, is_direct_services := is_direct_services mine \<union> live\<rparr>)"

definition impact_is_current :: "change_row \<Rightarrow> bool" where
  "impact_is_current r =
     (case ch_impact_computed_at r of
        None \<Rightarrow> False
      | Some c \<Rightarrow> (case ch_impact_requested_at r of None \<Rightarrow> True | Some q \<Rightarrow> c \<ge> q))"

definition change_window :: "change_row \<Rightarrow> (instant \<times> instant) option" where
  "change_window r =
     (case (ch_planned_start r, ch_planned_end r) of
        (Some s, Some e) \<Rightarrow> if e > s then Some (s, e) else None | _ \<Rightarrow> None)"

text \<open>The other changes in a phase that can collide, planned across the window, the first by ticket id\<close>

definition candidates :: "change_db \<Rightarrow> int \<Rightarrow> instant \<times> instant \<Rightarrow> change_row list" where
  "candidates db t w =
     take (CONFLICT_CANDIDATE_CAP + 1) (sort_key ch_ticket_id (filter (\<lambda>c. ch_ticket_id c \<noteq> t \<and> ch_phase c \<in> OVERLAP_PHASES \<and>
       (case ch_planned_start c of None \<Rightarrow> False | Some s \<Rightarrow> s < snd w) \<and>
       (case ch_planned_end c of None \<Rightarrow> False | Some e \<Rightarrow> e > fst w)) (cd_changes db)))"

definition other_of :: "change_db \<Rightarrow> change_row \<Rightarrow> other_change option" where
  "other_of db c =
     (case (ch_planned_start c, ch_planned_end c) of
        (Some s, Some e) \<Rightarrow> Some \<lparr>oh_ticket_id = ch_ticket_id c, oh_phase = ch_phase c, oh_start = s, oh_end = e,
          oh_services = is_services (impact_set_of db (ch_ticket_id c)), oh_cis = is_cis (impact_set_of db (ch_ticket_id c))\<rparr>
      | _ \<Rightarrow> None)"

section \<open>Loading\<close>

text \<open>\<open>readable_tickets\<close>: a ticket that exists, in a queue the reader holds \<open>ro\<close> on\<close>

definition ticket_readable :: "change_db \<Rightarrow> int \<Rightarrow> int \<Rightarrow> bool" where
  "ticket_readable db user t =
     (case find (\<lambda>x. t_id x = t) (z_tickets (cd_znuny db)) of
        None \<Rightarrow> False | Some x \<Rightarrow> check (cd_znuny db) user (t_queue_id x) ''ro'')"

definition filter_readable :: "change_db \<Rightarrow> int \<Rightarrow> conflict list \<Rightarrow> conflict list" where
  "filter_readable db user cs = List.map_filter (\<lambda>c.
     case cf_ref c of
       Some (Ref_change t) \<Rightarrow> if ticket_readable db user t then Some c else Some (c\<lparr>cf_ref := None, cf_hidden := True\<rparr>)
     | Some (Ref_task t) \<Rightarrow> if ticket_readable db user t then Some c else None
     | _ \<Rightarrow> Some c) cs"

definition has_linked_ci :: "change_db \<Rightarrow> int \<Rightarrow> bool" where
  "has_linked_ci db t \<longleftrightarrow> list_ex (\<lambda>l. fst l = t) (cd_linked_cis db)"

text \<open>A service window that would block and matched no known service, while the impact set may be incomplete\<close>

definition unverified ::
  "change_db \<Rightarrow> change_row \<Rightarrow> instant \<times> instant \<Rightarrow> impact_set \<Rightarrow> freeze_occurrence list \<Rightarrow> conflict list \<Rightarrow> bool" where
  "unverified db row w mine freezes conflicts \<longleftrightarrow>
     (ch_impact_truncated row \<or> \<not> impact_is_current row) \<and>
     (let matched = map cf_ref (filter (\<lambda>c. cf_kind c = K_freeze) conflicts) in
      list_ex (\<lambda>f. fo_scope f = Scope_services \<and> freeze_blocks f (ch_change_type row) \<and>
        Some (Ref_freeze (fo_freeze_id f)) \<notin> set matched \<and> spans_overlap w (fo_start f) (fo_end f)) freezes) \<and>
     (is_cis mine \<noteq> {} \<or> has_linked_ci db (ch_ticket_id row))"

definition load_conflicts ::
  "change_db \<Rightarrow> int \<Rightarrow> int option \<Rightarrow> change_error + conflict list" where
  "load_conflicts db t user =
     (case find (\<lambda>r. ch_ticket_id r = t) (cd_changes db) of
        None \<Rightarrow> Inl (ChangeError ''change_not_found'' 404)
      | Some row \<Rightarrow>
         let window = change_window row; mine = known_impact db t;
             found = (case window of
               None \<Rightarrow> Inr ([], False)
             | Some w \<Rightarrow> (case occurrences (cd_freezes db) (fst w) (snd w) of Inl e \<Rightarrow> Inl (DateError e) | Inr r \<Rightarrow> Inr r))
         in res_bind found (\<lambda>(freezes, freeze_truncated).
           let cands = (case window of Some w \<Rightarrow>
                   if is_services mine \<noteq> {} \<or> is_cis mine \<noteq> {} then candidates db t w else [] | None \<Rightarrow> []);
               overlap_truncated = (length cands > CONFLICT_CANDIDATE_CAP);
               others = List.map_filter (other_of db) (take CONFLICT_CANDIDATE_CAP cands);
               tasks = (case window of None \<Rightarrow> [] | Some _ \<Rightarrow> map snd (filter (\<lambda>x. fst x = t) (cd_tasks db)));
               all_found = detect_conflicts (ch_change_type row) window (is_services mine) (is_cis mine) freezes others tasks;
               conflicts = (case user of None \<Rightarrow> all_found | Some u \<Rightarrow> filter_readable db u all_found);
               start = map_option fst window; stop = map_option snd window
           in Inr (conflicts @
             (if freeze_truncated then [plain_conflict K_freeze_truncated Sev_warn start stop] else []) @
             (case window of None \<Rightarrow> [] | Some w \<Rightarrow>
                if unverified db row w mine freezes conflicts
                then [plain_conflict K_freeze_unverified Sev_warn start stop] else []) @
             (if overlap_truncated then [plain_conflict K_overlap_truncated Sev_warn start stop] else []))))"

text \<open>What a step counts as blocks\<close>

definition block_conflicts :: "conflict list \<Rightarrow> int" where
  "block_conflicts cs = int (length (filter (\<lambda>c. cf_severity c = Sev_block \<or> cf_kind c \<in> UNVERIFIED_KINDS) cs))"

section \<open>Blocks are counted\<close>

definition counts_as_block :: "conflict \<Rightarrow> bool" where
  "counts_as_block c \<longleftrightarrow> cf_severity c = Sev_block \<or> cf_kind c \<in> UNVERIFIED_KINDS"

lemma block_conflicts_pos: "0 < block_conflicts cs \<longleftrightarrow> (\<exists>c \<in> set cs. counts_as_block c)"
  by (auto simp: block_conflicts_def counts_as_block_def filter_empty_conv)

text \<open>What a change is known to touch: the scope of a window that names services.\<close>

definition touches :: "change_db \<Rightarrow> change_row \<Rightarrow> freeze_occurrence \<Rightarrow> bool" where
  "touches db row f \<longleftrightarrow> fo_scope f = Scope_all \<or>
     is_services (known_impact db (ch_ticket_id row)) \<inter> fo_service_ids f \<noteq> {} \<or>
     (ch_impact_truncated row \<or> \<not> impact_is_current row) \<and>
       (is_cis (known_impact db (ch_ticket_id row)) \<noteq> {} \<or> has_linked_ci db (ch_ticket_id row))"

lemma known_services_finite: "finite (is_services (known_impact db t))"
  by (auto simp: known_impact_def impact_set_of_def impact_refs_def live_direct_services_def Let_def split: option.splits)

lemma detected_freeze:
  assumes "f \<in> set freezes" "fst w < snd w" "spans_overlap w (fo_start f) (fo_end f)" "finite services"
    and "fo_scope f = Scope_all \<or> services \<inter> fo_service_ids f \<noteq> {}"
  shows "\<exists>c \<in> set (detect_conflicts typ (Some w) services cis freezes others tasks). cf_kind c = K_freeze \<and>
    cf_ref c = Some (Ref_freeze (fo_freeze_id f)) \<and> (freeze_blocks f typ \<longrightarrow> cf_severity c = Sev_block)"
proof -
  have "freeze_conflicts typ w services f \<noteq> []"
    using assms(3-5) by (auto simp: freeze_conflicts_def Let_def)
  then obtain c where c: "freeze_conflicts typ w services f = [c]" "cf_kind c = K_freeze"
      "cf_ref c = Some (Ref_freeze (fo_freeze_id f))" "freeze_blocks f typ \<longrightarrow> cf_severity c = Sev_block"
    by (auto simp: freeze_conflicts_def Let_def split: if_splits)
  have "c \<in> set (detect_conflicts typ (Some w) services cis freezes others tasks)"
    using assms(1,2) c(1) by (auto simp: detect_conflicts_def intro!: bexI [of _ f])
  then show ?thesis using c(2-4) by blast
qed

lemma load_conflicts_Inr:
  assumes "load_conflicts db t None = Inr cs" "find (\<lambda>r. ch_ticket_id r = t) (cd_changes db) = Some row"
    and "change_window row = Some w"
  obtains freezes tr others tasks where "occurrences (cd_freezes db) (fst w) (snd w) = Inr (freezes, tr)"
    "\<forall>c \<in> set (detect_conflicts (ch_change_type row) (Some w) (is_services (known_impact db t)) (is_cis (known_impact db t))
      freezes others tasks). c \<in> set cs"
    "tr \<Longrightarrow> plain_conflict K_freeze_truncated Sev_warn (Some (fst w)) (Some (snd w)) \<in> set cs"
    "unverified db row w (known_impact db t) freezes (detect_conflicts (ch_change_type row) (Some w)
      (is_services (known_impact db t)) (is_cis (known_impact db t)) freezes others tasks) \<Longrightarrow>
      plain_conflict K_freeze_unverified Sev_warn (Some (fst w)) (Some (snd w)) \<in> set cs"
proof -
  let ?mine = "known_impact db t"
  define cands where "cands = (if is_services ?mine \<noteq> {} \<or> is_cis ?mine \<noteq> {} then candidates db t w else [])"
  define others where "others = List.map_filter (other_of db) (take CONFLICT_CANDIDATE_CAP cands)"
  define tasks where "tasks = map snd (filter (\<lambda>x. fst x = t) (cd_tasks db))"
  from assms obtain freezes tr where o: "occurrences (cd_freezes db) (fst w) (snd w) = Inr (freezes, tr)"
      and cs: "cs = detect_conflicts (ch_change_type row) (Some w) (is_services ?mine) (is_cis ?mine) freezes others tasks @
        (if tr then [plain_conflict K_freeze_truncated Sev_warn (Some (fst w)) (Some (snd w))] else []) @
        (if unverified db row w ?mine freezes
            (detect_conflicts (ch_change_type row) (Some w) (is_services ?mine) (is_cis ?mine) freezes others tasks)
         then [plain_conflict K_freeze_unverified Sev_warn (Some (fst w)) (Some (snd w))] else []) @
        (if length cands > CONFLICT_CANDIDATE_CAP
         then [plain_conflict K_overlap_truncated Sev_warn (Some (fst w)) (Some (snd w))] else [])"
    unfolding cands_def others_def tasks_def load_conflicts_def Let_def
    by (cases "occurrences (cd_freezes db) (fst w) (snd w)") auto
  show ?thesis by (rule that [OF o]) (auto simp: cs)
qed

lemma detected_freezeE:
  assumes "c \<in> set (detect_conflicts typ (Some w) services cis freezes others tasks)" "cf_kind c = K_freeze"
    "cf_ref c = Some (Ref_freeze i)"
  shows "\<exists>f \<in> set freezes. fo_freeze_id f = i \<and> cf_severity c = (if freeze_blocks f typ then Sev_block else Sev_warn)"
  using assms
  by (auto simp: detect_conflicts_def freeze_conflicts_def overlap_conflicts_def task_conflicts_def plain_conflict_def Let_def
      split: if_splits)

text \<open>The occurrences of one window block alike.\<close>

lemma same_freeze_blocks:
  assumes "freeze_store_ok fdb" "occurrences fdb rs re = Inr (items, tr)" "f \<in> set items" "g \<in> set items"
    "fo_freeze_id f = fo_freeze_id g"
  shows "freeze_blocks f typ = freeze_blocks g typ"
  using assms(2)
proof (rule occurrences_Inr)
  fix out
  assume out: "set out = (\<Union>r \<in> {r \<in> set (fd_rows fdb). fz_valid r}. freeze_occurrence_of fdb r ` set (found_in rs re r))"
    and items: "items = take MAX_OCCURRENCES (sort_key (\<lambda>x. (fo_start x, fo_freeze_id x)) out)"
  have "f \<in> set out" "g \<in> set out" using assms(3,4) by (auto simp: items dest: in_set_takeD)
  then obtain r q where r: "r \<in> set (fd_rows fdb)" "fo_freeze_id f = fz_id r" "fo_enforcement f = fz_enforcement r"
        "fo_allow_emergency f = fz_allow_emergency r"
      and q: "q \<in> set (fd_rows fdb)" "fo_freeze_id g = fz_id q" "fo_enforcement g = fz_enforcement q"
        "fo_allow_emergency g = fz_allow_emergency q"
    unfolding out by (auto simp: freeze_occurrence_of_def)
  have "r = q" using assms(1,5) r(1,2) q(1,2) by (auto simp: freeze_store_ok_def distinct_map inj_on_def)
  then show ?thesis using r q by (simp add: freeze_blocks_def)
qed

lemma blocking_freeze_counted:
  assumes load: "load_conflicts db t None = Inr cs" and row: "find (\<lambda>r. ch_ticket_id r = t) (cd_changes db) = Some row"
    and w: "change_window row = Some w" and occ: "occurrences (cd_freezes db) (fst w) (snd w) = Inr (freezes, tr)"
    and store: "freeze_store_ok (cd_freezes db)"
    and f: "tr \<or> f \<in> set freezes \<and> freeze_blocks f (ch_change_type row) \<and> spans_overlap w (fo_start f) (fo_end f) \<and> touches db row f"
  shows "0 < block_conflicts cs"
  using load row w
proof (rule load_conflicts_Inr)
  fix freezes' tr' others tasks
  let ?mine = "known_impact db t"
  let ?found = "detect_conflicts (ch_change_type row) (Some w) (is_services ?mine) (is_cis ?mine) freezes' others tasks"
  assume occ': "occurrences (cd_freezes db) (fst w) (snd w) = Inr (freezes', tr')"
    and found: "\<forall>c \<in> set ?found. c \<in> set cs"
    and cut: "tr' \<Longrightarrow> plain_conflict K_freeze_truncated Sev_warn (Some (fst w)) (Some (snd w)) \<in> set cs"
    and unv: "unverified db row w ?mine freezes' ?found \<Longrightarrow>
      plain_conflict K_freeze_unverified Sev_warn (Some (fst w)) (Some (snd w)) \<in> set cs"
  have same: "freezes' = freezes" "tr' = tr" using occ occ' by simp_all
  have id: "ch_ticket_id row = t" using find_SomeD [OF row] by simp
  have span: "fst w < snd w" using w by (auto simp: change_window_def split: option.splits if_splits)
  have plain: "counts_as_block (plain_conflict k s a b)" if "k \<in> UNVERIFIED_KINDS" for k s a b
    using that by (simp add: counts_as_block_def plain_conflict_def)
  consider "tr" | "\<not> tr" "fo_scope f = Scope_all \<or> is_services ?mine \<inter> fo_service_ids f \<noteq> {}"
    | "\<not> tr" "fo_scope f = Scope_services" "is_services ?mine \<inter> fo_service_ids f = {}"
      "ch_impact_truncated row \<or> \<not> impact_is_current row" "is_cis ?mine \<noteq> {} \<or> has_linked_ci db t"
    using f id unfolding touches_def by (cases "fo_scope f") blast+
  then show ?thesis
  proof cases
    case 1
    then show ?thesis using cut same(2) plain [of K_freeze_truncated] unfolding block_conflicts_pos UNVERIFIED_KINDS_def by blast
  next
    case 2
    then show ?thesis
      using detected_freeze [of f freezes w "is_services ?mine" "ch_change_type row" "is_cis ?mine" others tasks]
        f span known_services_finite found same
      by (auto simp: block_conflicts_pos counts_as_block_def)
  next
    case 3
    show ?thesis
    proof (cases "\<exists>c \<in> set ?found. cf_kind c = K_freeze \<and> cf_ref c = Some (Ref_freeze (fo_freeze_id f))")
      case True
      then obtain c where c: "c \<in> set ?found" "cf_kind c = K_freeze" "cf_ref c = Some (Ref_freeze (fo_freeze_id f))" by blast
      from detected_freezeE [OF this] obtain g where g: "g \<in> set freezes" "fo_freeze_id g = fo_freeze_id f"
          "cf_severity c = (if freeze_blocks g (ch_change_type row) then Sev_block else Sev_warn)"
        unfolding same by blast
      have "freeze_blocks g (ch_change_type row)"
        using f 3(1) same_freeze_blocks [OF store occ g(1) _ g(2)] by blast
      then show ?thesis using found c(1) g(3) by (auto simp: block_conflicts_pos counts_as_block_def)
    next
      case False
      then have "Some (Ref_freeze (fo_freeze_id f)) \<notin> set (map cf_ref (filter (\<lambda>c. cf_kind c = K_freeze) ?found))"
        by force
      then have "list_ex (\<lambda>f. fo_scope f = Scope_services \<and> freeze_blocks f (ch_change_type row) \<and>
          Some (Ref_freeze (fo_freeze_id f)) \<notin> set (map cf_ref (filter (\<lambda>c. cf_kind c = K_freeze) ?found)) \<and>
          spans_overlap w (fo_start f) (fo_end f)) freezes'"
        unfolding list_ex_iff using 3(1,2) f same(1) by blast
      then have "unverified db row w ?mine freezes' ?found"
        using 3(4,5) id by (simp add: unverified_def Let_def)
      then show ?thesis using unv plain [of K_freeze_unverified] unfolding block_conflicts_pos UNVERIFIED_KINDS_def by blast
    qed
  qed
qed

section \<open>A blocking window stops the change\<close>

text \<open>The guards of a step that \<open>transition\<close> takes for a person, where its conflicts were counted.\<close>

lemma blocked_step:
  assumes "gc_block_conflicts ctx = block_conflicts cs" "0 < block_conflicts cs"
    and "gc_to ctx \<in> {phase.approval, scheduled, implementing}" "\<not> (gc_is_manager ctx \<and> override_given ctx)"
  shows "check_transition ctx False \<noteq> []"
proof -
  have "window_failures ctx \<noteq> []" using assms by (auto simp: window_failures_def Let_def)
  then show ?thesis using assms(3) by (auto simp: check_transition_def)
qed

text \<open>
  Number \<open>j\<close> of the occurrences of a window begins at an instant: the window itself where it does not recur, else step
  \<open>j\<close> of its recurrence, where its count and its end let it happen. The expansion of a range reaches the first
  \<open>MAX_OCCURRENCES\<close> of a window by months or years; one by days or weeks is followed from the range on, which reaches
  them all where the range and the window are shorter than as many steps.
\<close>

definition occurs_at :: "freeze_row \<Rightarrow> instant \<Rightarrow> instant \<Rightarrow> nat \<Rightarrow> instant \<Rightarrow> bool" where
  "occurs_at r rs re j t \<longleftrightarrow>
     (case fz_recur_type r of
        None \<Rightarrow> t = fz_starts_at r
      | Some rtype \<Rightarrow>
          nth_step rtype (freeze_interval r) (fz_starts_at r) j = Inr t \<and>
          (case fz_recur_count r of None \<Rightarrow> True | Some c \<Rightarrow> int j < c) \<and>
          (case fz_recur_until r of None \<Rightarrow> True | Some u \<Rightarrow> t \<le> u) \<and>
          (case row_step r of
             Some d \<Rightarrow> (re - rs) + (fz_ends_at r - fz_starts_at r) \<le> (int MAX_OCCURRENCES - 1) * d
           | None \<Rightarrow> j < MAX_OCCURRENCES))"

lemma occurrence_found:
  assumes occs: "row_occurrences r rs re = Inr occs" and row: "freeze_row_ok r" "0 \<le> fz_starts_at r" and at: "occurs_at r rs re j t"
    and overlap: "t < re" "rs < t + (fz_ends_at r - fz_starts_at r)"
  shows "\<lparr>oc_start = t, oc_end = t + (fz_ends_at r - fz_starts_at r), oc_is_recurring = (fz_recur_type r \<noteq> None)\<rparr> \<in> set occs"
proof (cases "fz_recur_type r")
  case None
  then show ?thesis
    using occs at overlap
    by (auto simp: row_occurrences_def fast_forward_def expand_occurrences_def freeze_series_def res_bind_def occurs_at_def)
next
  case (Some rtype)
  have step: "nth_step rtype (freeze_interval r) (fz_starts_at r) j = Inr t"
    and count: "case fz_recur_count r of None \<Rightarrow> True | Some c \<Rightarrow> int j < c"
    and until: "case fz_recur_until r of None \<Rightarrow> True | Some u \<Rightarrow> t \<le> u"
    and bound: "case row_step r of
             Some d \<Rightarrow> (re - rs) + (fz_ends_at r - fz_starts_at r) \<le> (int MAX_OCCURRENCES - 1) * d
           | None \<Rightarrow> j < MAX_OCCURRENCES"
    using at Some by (simp_all add: occurs_at_def)
  show ?thesis
  proof (cases "row_step r")
    case fixed: (Some d)
    then have "fixed_step rtype (freeze_interval r) = Some d" using Some by (simp add: row_step_def)
    from nth_step_fixed [OF step this] have t: "t = fz_starts_at r + int j * d" .
    have "happens r d j" using count until by (auto simp: happens_def t split: option.splits)
    from row_occurrences_complete [OF fixed occs this] overlap bound fixed Some show ?thesis by (simp add: t algebra_simps)
  next
    case None
    have known: "rtype \<in> set RECUR_TYPES" using row(1) Some by (simp add: freeze_row_ok_def)
    have plain: "rtype \<noteq> ''Daily''" "rtype \<noteq> ''Weekly''"
      using None Some by (auto simp: row_step_def fixed_step_def split: if_splits)
    let ?sr = "freeze_series r (fz_starts_at r) (fz_ends_at r) (fz_recur_count r)"
    have "expand_loop ?sr rtype rs re MAX_OCCURRENCES 0 (fz_starts_at r) = Inr occs"
      using occs Some plain known
      by (simp add: row_occurrences_def fast_forward_def expand_occurrences_def freeze_series_def res_bind_def)
    moreover have "\<not> series_over ?sr re (0 + int j) t"
      using count until overlap(1) by (auto simp: series_over_def freeze_series_def split: option.splits)
    ultimately have "\<lparr>oc_start = t, oc_end = t + (sr_end ?sr - sr_start ?sr), oc_is_recurring = True\<rparr> \<in> set occs"
      using step None bound row(2) overlap(2)
      by (intro expand_loop_finds [where n = 0 and j = j]) (simp_all add: interval_of_freeze, simp_all add: freeze_series_def)
    then show ?thesis using Some by (simp add: freeze_series_def)
  qed
qed

text \<open>
  C15. A stored blocking window stops a change: while an occurrence of a valid window that blocks its type, a single one or
  one by days, weeks, months or years, overlaps the planned window of a change it may touch, and the expansion reaches it (the
  first 2000 of a window by months or years; by days or weeks, planned window and freeze window together are shorter than 1999
  steps), no person brings the change into approval, scheduled or implementing, unless as a manager who gives a reason.
  It does not matter whether the occurrences were cut off, or whether the services of the change are known yet.
\<close>

theorem blocking_freeze_stops_change:
  assumes load: "load_conflicts db t None = Inr cs" and row: "find (\<lambda>r. ch_ticket_id r = t) (cd_changes db) = Some row"
    and w: "change_window row = Some w" and store: "freeze_store_ok (cd_freezes db)"
    and r: "r \<in> set (fd_rows (cd_freezes db))" "fz_valid r" "0 \<le> fz_starts_at r" and at: "occurs_at r (fst w) (snd w) j start"
    and overlap: "start < snd w" "fst w < start + (fz_ends_at r - fz_starts_at r)"
    and f: "f = freeze_occurrence_of (cd_freezes db) r \<lparr>oc_start = start, oc_end = start + (fz_ends_at r - fz_starts_at r),
      oc_is_recurring = (fz_recur_type r \<noteq> None)\<rparr>"
    and blocks: "freeze_blocks f (ch_change_type row)" and touch: "touches db row f"
    and ctx: "gc_block_conflicts ctx = block_conflicts cs" "gc_to ctx \<in> {phase.approval, scheduled, implementing}"
      "\<not> (gc_is_manager ctx \<and> override_given ctx)"
  shows "check_transition ctx False \<noteq> []"
proof -
  obtain freezes tr where occ: "occurrences (cd_freezes db) (fst w) (snd w) = Inr (freezes, tr)"
    using load_conflicts_Inr [OF load row w] by metis
  have "spans_overlap w (fo_start f) (fo_end f)" using overlap by (simp add: f spans_overlap_def freeze_occurrence_of_def)
  moreover have "f \<in> set freezes" if "\<not> tr"
  proof -
    have occ': "occurrences (cd_freezes db) (fst w) (snd w) = Inr (freezes, False)" using occ that by simp
    then have found: "row_occurrences r (fst w) (snd w) = Inr (found_in (fst w) (snd w) r)" using r by (auto elim: occurrences_Inr)
    have "freeze_row_ok r" using store r(1) by (simp add: freeze_store_ok_def)
    from found_item [OF occ' r(1,2) occurrence_found [OF found this r(3) at overlap]] show ?thesis by (simp add: f)
  qed
  ultimately have "0 < block_conflicts cs"
    using blocking_freeze_counted [OF load row w occ store, of f] blocks touch by blast
  then show ?thesis using ctx by (intro blocked_step [where cs = cs]) simp_all
qed

text \<open>The twelfth of every month is closed for the service of the change, since January 2020.\<close>

definition monthly_freeze :: freeze_in where
  "monthly_freeze = \<lparr>fi_name = ''Closing'', fi_note = None, fi_enforcement = Enf_block, fi_allow_emergency = True,
     fi_scope = Scope_services, fi_service_ids = [3], fi_starts_at = at_date 2020 1 12 0, fi_ends_at = at_date 2020 1 13 0,
     fi_recurrence = Some \<lparr>ri_type = ''Monthly'', ri_interval = 1, ri_count = None, ri_until = None\<rparr>, fi_valid = True\<rparr>"

definition no_freezes :: freeze_db where
  "no_freezes = \<lparr>fd_rows = [], fd_services = [], fd_next = 1, fd_known_services = [3, 4]\<rparr>"

definition closing_freezes :: freeze_db where
  "closing_freezes = (case create_freeze (at_date 2020 1 1 0) monthly_freeze 7 no_freezes of Inr (_, db) \<Rightarrow> db | Inl _ \<Rightarrow> no_freezes)"

definition planned_change :: change_row where
  "planned_change = \<lparr>ch_ticket_id = 100, ch_phase = assessment, ch_change_type = normal,
     ch_planned_start = Some (at_date 2026 3 11 0), ch_planned_end = Some (at_date 2026 3 15 0), ch_impact_truncated = False,
     ch_impact_requested_at = None, ch_impact_computed_at = None\<rparr>"

definition change_example :: change_db where
  "change_example = \<lparr>cd_changes = [planned_change], cd_impact = [], cd_extra_services = [], cd_ticket_service = [(100, Some 3)],
     cd_linked_cis = [], cd_tasks = [], cd_freezes = closing_freezes, cd_znuny = example_znuny\<rparr>"

theorem blocking_freeze_stops_change_witness:
  "\<exists>cs. load_conflicts change_example 100 None = Inr cs \<and>
     check_transition ((offer_context assessment normal phase.approval True True)\<lparr>gc_block_conflicts := block_conflicts cs\<rparr>) False \<noteq> []"
proof -
  let ?w = "(at_date 2026 3 11 0, at_date 2026 3 15 0)"
  have "case load_conflicts change_example 100 None of Inr _ \<Rightarrow> True | Inl _ \<Rightarrow> False" by code_simp
  then obtain cs where load: "load_conflicts change_example 100 None = Inr cs" by (auto split: sum.splits)
  have row: "find (\<lambda>r. ch_ticket_id r = 100) (cd_changes change_example) = Some planned_change"
    by (simp add: change_example_def planned_change_def)
  have w: "change_window planned_change = Some ?w" by code_simp
  have "case create_freeze (at_date 2020 1 1 0) monthly_freeze 7 no_freezes of Inr _ \<Rightarrow> True | Inl _ \<Rightarrow> False" by code_simp
  then obtain i where "create_freeze (at_date 2020 1 1 0) monthly_freeze 7 no_freezes = Inr (i, closing_freezes)"
    by (auto simp: closing_freezes_def split: sum.splits prod.splits)
  moreover have "freeze_in_ok monthly_freeze" by code_simp
  moreover have "freeze_store_ok no_freezes" by (simp add: freeze_store_ok_def no_freezes_def)
  ultimately have store: "freeze_store_ok (cd_freezes change_example)"
    using create_freeze_ok by (simp add: change_example_def)
  have fdb: "cd_freezes change_example = closing_freezes" by (simp add: change_example_def)
  have "length (fd_rows closing_freezes) = 1" by code_simp
  then obtain r where r: "fd_rows closing_freezes = [r]" by (auto simp: length_Suc_conv)
  have "list_all (\<lambda>r. fz_valid r \<and> 0 \<le> fz_starts_at r \<and> occurs_at r (fst ?w) (snd ?w) 74 (at_date 2026 3 12 0) \<and>
      at_date 2026 3 12 0 < snd ?w \<and> fst ?w < at_date 2026 3 12 0 + (fz_ends_at r - fz_starts_at r) \<and>
      set (services_of closing_freezes (fz_id r)) = {3} \<and> fz_enforcement r = Enf_block \<and> fz_scope r = Scope_services)
      (fd_rows closing_freezes)"
    by code_simp
  then have facts: "fz_valid r" "0 \<le> fz_starts_at r" "occurs_at r (fst ?w) (snd ?w) 74 (at_date 2026 3 12 0)"
    "at_date 2026 3 12 0 < snd ?w" "fst ?w < at_date 2026 3 12 0 + (fz_ends_at r - fz_starts_at r)"
    "set (services_of closing_freezes (fz_id r)) = {3}" "fz_enforcement r = Enf_block" "fz_scope r = Scope_services"
    unfolding r by simp_all
  have "3 \<in> is_services (known_impact change_example 100)" by code_simp
  then have touch: "touches change_example planned_change (freeze_occurrence_of (cd_freezes change_example) r oc)" for oc
    using facts(6) by (auto simp: touches_def freeze_occurrence_of_def fdb planned_change_def)
  have blocks: "freeze_blocks (freeze_occurrence_of (cd_freezes change_example) r oc) (ch_change_type planned_change)" for oc
    using facts(7) by (simp add: freeze_blocks_def freeze_occurrence_of_def planned_change_def)
  have row_r: "r \<in> set (fd_rows (cd_freezes change_example))" by (simp add: fdb r)
  show ?thesis
    by (intro exI [of _ cs] conjI load
        blocking_freeze_stops_change [OF load row w store row_r facts(1-5) refl blocks touch])
      (simp_all add: offer_context_def)
qed

end
