(* ===== verification/Process_Conditions.thy ===== *)
theory Process_Conditions
  imports Cron Approval_Resolve
begin

text \<open>
  \<open>process/conditions.py\<close>: the conditions of process transitions, a port of Znuny's \<open>TransitionCheck\<close> with its
  short circuits and counters, and the choice of the transition that runs (\<open>run_transitions\<close> in
  \<open>process/engine.py\<close>). Regular expressions and condition modules are parameters; a regular
  expression answers nothing where the pattern is invalid or the time is up. The theorem gives the verdict
  of the loop without its counters.
\<close>

section \<open>Data, conditions and errors\<close>

datatype cond_value = V_none | V_text string | V_list "string list"

type_synonym cond_data = "string \<Rightarrow> cond_value"

datatype cond_match = M_none | M_text string | M_list "string list" | M_hash

record cond_field =
  cn_match :: cond_match
  cn_type :: string

record cond_block =
  cb_type :: string
  cb_fields :: "(string \<times> cond_field) list"

record transition_config =
  tc_linking :: string
  tc_blocks :: "cond_block list"
  tc_present :: bool

text \<open>A configuration error, and the \<open>ValueError\<close> of a date that does not exist\<close>

datatype cond_error = ConditionConfigError | CondValueError

record cond_env =
  ce_regex :: "string \<Rightarrow> string \<Rightarrow> bool option"
  ce_module :: "string \<Rightarrow> (cond_data \<Rightarrow> string \<Rightarrow> bool) option"

type_synonym tag_map = "string \<Rightarrow> string option"

datatype field_result = R_match | R_no_match | R_no_match_quiet | R_error

definition BASE_CONDITION_TYPES :: "string list" where
  "BASE_CONDITION_TYPES = [''Equal'', ''NotEqual'', ''Contains'', ''NotContains'', ''GreaterThan'', ''GreaterThanOrEqual'',
     ''LessThan'', ''LessThanOrEqual'']"

section \<open>Values\<close>

text \<open>One to \<open>n\<close> digits, as many as there are\<close>

fun take_digits :: "nat \<Rightarrow> string \<Rightarrow> string \<times> string" where
  "take_digits 0 s = ([], s)"
| "take_digits (Suc n) [] = ([], [])"
| "take_digits (Suc n) (c # s) = (if is_digit c then (case take_digits n s of (d, r) \<Rightarrow> (c # d, r)) else ([], c # s))"

definition at_end :: "string \<Rightarrow> bool" where
  "at_end s \<longleftrightarrow> s = [] \<or> s = [CHR 0x0A]"

text \<open>The date at the start of a text, and what follows it\<close>

definition date_prefix :: "string \<Rightarrow> ((int \<times> int \<times> int) \<times> string) option" where
  "date_prefix s =
     (case take_digits 4 s of (y, r1) \<Rightarrow>
        if length y \<noteq> 4 \<or> r1 = [] \<or> hd r1 \<noteq> CHR ''-'' then None
        else case take_digits 2 (tl r1) of (m, r2) \<Rightarrow>
          if m = [] \<or> r2 = [] \<or> hd r2 \<noteq> CHR ''-'' then None
          else case take_digits 2 (tl r2) of (d, r3) \<Rightarrow>
            if d = [] then None else Some ((int (read_nat y), int (read_nat m), int (read_nat d)), r3))"

text \<open>A time of day, with or without seconds, up to the end\<close>

definition time_suffix :: "string \<Rightarrow> (int \<times> int \<times> int) option" where
  "time_suffix s =
     (case take_digits 2 s of (h, r1) \<Rightarrow>
        if h = [] \<or> r1 = [] \<or> hd r1 \<noteq> CHR '':'' then None
        else case take_digits 2 (tl r1) of (m, r2) \<Rightarrow>
          if m = [] then None
          else if at_end r2 then Some (int (read_nat h), int (read_nat m), 0)
          else if hd r2 \<noteq> CHR '':'' then None
          else case take_digits 2 (tl r2) of (sec, r3) \<Rightarrow>
            if sec = [] \<or> \<not> at_end r3 then None else Some (int (read_nat h), int (read_nat m), int (read_nat sec)))"

definition epoch_seconds :: "int \<times> int \<times> int \<Rightarrow> int \<times> int \<times> int \<Rightarrow> cond_error + int" where
  "epoch_seconds date time =
     (case (date, time) of ((y, m, d), (h, mi, sec)) \<Rightarrow>
        if valid_date y m d \<and> y \<le> 9999 \<and> h \<le> 23 \<and> mi \<le> 59 \<and> sec \<le> 59
        then Inr ((ymd2ord y m d - ymd2ord 1970 1 1) * 86400 + h * 3600 + mi * 60 + sec)
        else Inl CondValueError)"

text \<open>\<open>str(value_validate(raw))\<close>: a date becomes the seconds since the epoch, anything else stays.\<close>

definition value_validate :: "string \<Rightarrow> cond_error + string" where
  "value_validate raw =
     (case date_prefix raw of
        None \<Rightarrow> Inr raw
      | Some (date, rest) \<Rightarrow>
          if at_end rest then res_bind (epoch_seconds date (0, 0, 0)) (\<lambda>i. Inr (int_text i))
          else if is_space (hd rest) then
            (case time_suffix (tl rest) of
               None \<Rightarrow> Inr raw | Some time \<Rightarrow> res_bind (epoch_seconds date time) (\<lambda>i. Inr (int_text i)))
          else Inr raw)"

text \<open>\<open>as_integer\<close> of a text: an optional sign, no leading zeros\<close>

definition as_integer :: "string \<Rightarrow> int option" where
  "as_integer s =
     (case s of
        [] \<Rightarrow> None
      | c # r \<Rightarrow>
          let neg = (c = CHR ''-''); digits = (if neg then r else s) in
          if all_digits digits \<and> (digits = ''0'' \<or> hd digits \<noteq> CHR ''0'')
          then Some (if neg then - int (read_nat digits) else int (read_nat digits)) else None)"

definition perl_true :: "string \<Rightarrow> bool" where
  "perl_true s \<longleftrightarrow> s \<noteq> [] \<and> s \<noteq> ''0''"

text \<open>A text through the tags rendered before\<close>

definition sub_tags :: "tag_map \<Rightarrow> string \<Rightarrow> string" where
  "sub_tags tags s = (case tags s of None \<Rightarrow> s | Some r \<Rightarrow> r)"

section \<open>Comparisons\<close>

datatype operand = O_text string | O_list "string list"

text \<open>\<open>re.split(r"\s*,\s*", text)\<close> without its trailing empty parts\<close>

fun trim_parts :: "bool \<Rightarrow> string list \<Rightarrow> string list" where
  "trim_parts first [] = []"
| "trim_parts first [p] = [if first then p else dropWhile is_space p]"
| "trim_parts first (p # q # ps) =
     rev (dropWhile is_space (rev (if first then p else dropWhile is_space p))) # trim_parts False (q # ps)"

definition split_commas :: "string \<Rightarrow> string list" where
  "split_commas s = rev (dropWhile (\<lambda>p. p = []) (rev (trim_parts True (split_on (CHR '','') s))))"

definition equal_op :: "operand \<Rightarrow> operand \<Rightarrow> bool" where
  "equal_op chk mat =
     (case (chk, mat) of
        (O_list cs, O_list ms) \<Rightarrow> cs \<noteq> [] \<and> ms \<noteq> [] \<and> cs = ms
      | (O_list cs, O_text m) \<Rightarrow>
          let l = lower m in
          if cs = [] \<or> l = [] then False
          else if CHR '','' \<in> set l then map lower cs = split_commas l
          else length cs = 1 \<and> lower (hd cs) = l
      | (O_text c, O_list ms) \<Rightarrow>
          if c = [] \<or> ms = [] then False
          else if CHR '','' \<in> set c then split_commas c = map lower ms
          else length ms = 1 \<and> lower (hd ms) = lower c
      | (O_text c, O_text m) \<Rightarrow> c \<noteq> [] \<and> lower m \<noteq> [] \<and> lower c = lower m)"

text \<open>\<open>repr\<close> of a text and \<open>str\<close> of a list of texts\<close>

definition hex_digit :: "nat \<Rightarrow> char" where
  "hex_digit n = char_of (if n < 10 then n + 48 else n + 87)"

definition repr_char :: "char \<Rightarrow> char \<Rightarrow> string" where
  "repr_char q c =
     (let n = (of_char c :: nat) in
      if c = q \<or> n = 92 then [char_of (92 :: nat), c]
      else if n = 9 then [char_of (92 :: nat), CHR ''t''] else if n = 10 then [char_of (92 :: nat), CHR ''n'']
      else if n = 13 then [char_of (92 :: nat), CHR ''r'']
      else if n < 32 \<or> 127 \<le> n \<and> n \<le> 160 \<or> n = 173
      then [char_of (92 :: nat), CHR ''x'', hex_digit (n div 16), hex_digit (n mod 16)]
      else [c])"

definition repr_text :: "string \<Rightarrow> string" where
  "repr_text s =
     (let q = (if char_of (39 :: nat) \<in> set s \<and> char_of (34 :: nat) \<notin> set s then char_of (34 :: nat) else char_of (39 :: nat)) in
      q # concat (map (repr_char q) s) @ [q])"

fun joined_reprs :: "string list \<Rightarrow> string" where
  "joined_reprs [] = []"
| "joined_reprs [s] = repr_text s"
| "joined_reprs (s # r # ss) = repr_text s @ '', '' @ joined_reprs (r # ss)"

definition operand_text :: "operand \<Rightarrow> string" where
  "operand_text v = (case v of O_text s \<Rightarrow> s | O_list ss \<Rightarrow> ''['' @ joined_reprs ss @ '']'')"

definition not_equal_op :: "operand \<Rightarrow> operand \<Rightarrow> bool" where
  "not_equal_op chk mat =
     (case chk of
        O_list cs \<Rightarrow>
          if cs = [] then True
          else (case mat of
              O_list ms \<Rightarrow> if ms \<noteq> [] then cs \<noteq> ms else True
            | O_text m \<Rightarrow> \<not> list_ex (\<lambda>c. m = lower c) cs)
      | O_text c \<Rightarrow> lower c \<noteq> lower (operand_text mat))"

definition ordered_op :: "(int \<Rightarrow> int \<Rightarrow> bool) \<Rightarrow> operand \<Rightarrow> operand \<Rightarrow> bool" where
  "ordered_op rel chk mat =
     (case (chk, mat) of
        (O_text c, O_text m) \<Rightarrow>
          (case (as_integer c, as_integer m) of (Some i, Some j) \<Rightarrow> rel i j | _ \<Rightarrow> False)
      | _ \<Rightarrow> False)"

definition contains_op :: "cond_env \<Rightarrow> operand \<Rightarrow> operand \<Rightarrow> bool" where
  "contains_op env chk mat =
     (case mat of
        O_list _ \<Rightarrow> False
      | O_text m \<Rightarrow>
          (case chk of
             O_list cs \<Rightarrow> list_ex (\<lambda>c. ce_regex env (lower m) (lower c) = Some True) cs
           | O_text c \<Rightarrow> ce_regex env (lower m) (lower c) = Some True))"

definition not_contains_op :: "cond_env \<Rightarrow> operand \<Rightarrow> operand \<Rightarrow> bool" where
  "not_contains_op env chk mat =
     (case mat of
        O_list _ \<Rightarrow> False
      | O_text m \<Rightarrow>
          (case chk of
             O_list cs \<Rightarrow> \<not> list_ex (\<lambda>c. lower m = lower c) cs
           | O_text c \<Rightarrow> ce_regex env (lower m) (lower c) = Some False))"

definition base_compare :: "cond_env \<Rightarrow> string \<Rightarrow> operand \<Rightarrow> operand \<Rightarrow> bool" where
  "base_compare env typ chk mat =
     (if typ = ''Equal'' then equal_op chk mat
      else if typ = ''NotEqual'' then not_equal_op chk mat
      else if typ = ''Contains'' then contains_op env chk mat
      else if typ = ''NotContains'' then not_contains_op env chk mat
      else if typ = ''GreaterThan'' then ordered_op (>) chk mat
      else if typ = ''GreaterThanOrEqual'' then ordered_op (\<ge>) chk mat
      else if typ = ''LessThan'' then ordered_op (<) chk mat
      else ordered_op (\<le>) chk mat)"

section \<open>One field\<close>

definition check_value_get :: "string \<Rightarrow> cond_data \<Rightarrow> tag_map \<Rightarrow> cond_error + operand" where
  "check_value_get name data tags =
     (let replaced = sub_tags tags name;
          field_value = (if replaced = [] \<or> replaced = ''-'' then name else replaced) in
      case data field_value of
        V_list vs \<Rightarrow> Inr (O_list vs)
      | V_none \<Rightarrow> if perl_true field_value
                  then res_bind (value_validate (sub_tags tags field_value)) (\<lambda>v. Inr (O_text v)) else Inr (O_text field_value)
      | V_text v \<Rightarrow> if perl_true v then res_bind (value_validate (sub_tags tags v)) (\<lambda>v. Inr (O_text v)) else Inr (O_text v))"

definition match_value_get :: "cond_match \<Rightarrow> tag_map \<Rightarrow> cond_error + operand option" where
  "match_value_get mat tags =
     (case mat of
        M_none \<Rightarrow> Inr None
      | M_list ms \<Rightarrow> Inr (Some (O_list ms))
      | M_hash \<Rightarrow> Inr None
      | M_text m \<Rightarrow> res_bind (value_validate (sub_tags tags m)) (\<lambda>v. Inr (Some (O_text v))))"

text \<open>\<open>normalize_module_match\<close>: the name without surrounding space and a trailing \<open>.pm\<close>\<close>

definition normalize_module_match :: "string \<Rightarrow> string" where
  "normalize_module_match s =
     (let t = strip s in
      strip (if length t \<ge> 3 \<and> drop (length t - 3) t = ''.pm'' then take (length t - 3) t else t))"

definition found_if :: "bool \<Rightarrow> field_result" where
  "found_if b = (if b then R_match else R_no_match)"

definition evaluate_field ::
  "cond_env \<Rightarrow> string \<Rightarrow> cond_field \<Rightarrow> cond_data \<Rightarrow> tag_map \<Rightarrow> cond_error + field_result" where
  "evaluate_field env name cond data tags =
     (if cn_type cond = ''String'' then
        Inr (case cn_match cond of
          M_text m \<Rightarrow> if m = [] then R_no_match else
            (case data name of V_none \<Rightarrow> R_no_match | V_list vs \<Rightarrow> found_if (m \<in> set vs) | V_text v \<Rightarrow> found_if (m = v))
        | _ \<Rightarrow> R_no_match)
      else if cn_type cond = ''Regexp'' then
        Inr (case cn_match cond of
          M_text m \<Rightarrow> if \<not> perl_true m then R_no_match else
            (case data name of
               V_list vs \<Rightarrow> found_if (list_ex (\<lambda>v. ce_regex env m v = Some True) vs)
             | V_text v \<Rightarrow> if perl_true v then found_if (ce_regex env m v = Some True) else R_no_match
             | V_none \<Rightarrow> R_no_match)
        | _ \<Rightarrow> R_no_match)
      else if cn_type cond = ''Array'' then
        Inr (case cn_match cond of
          M_list ms \<Rightarrow>
            let have_values = (case data name of V_list vs \<Rightarrow> vs | V_none \<Rightarrow> [] | V_text v \<Rightarrow> [v]) in
            found_if (sum_list (map (count_list have_values) ms) = length ms)
        | _ \<Rightarrow> R_error)
      else if cn_type cond = ''Hash'' then
        Inr (case cn_match cond of M_hash \<Rightarrow> R_no_match_quiet | _ \<Rightarrow> R_error)
      else if cn_type cond = ''Module'' then
        Inr (case cn_match cond of
          M_text m \<Rightarrow> (case ce_module env (normalize_module_match m) of
             None \<Rightarrow> R_no_match | Some validate \<Rightarrow> found_if (validate data name))
        | _ \<Rightarrow> R_no_match)
      else if cn_type cond \<in> set BASE_CONDITION_TYPES then
        res_bind (check_value_get name data tags) (\<lambda>chk.
        res_bind (match_value_get (cn_match cond) tags) (\<lambda>mat.
          Inr (case mat of None \<Rightarrow> R_no_match | Some m \<Rightarrow> found_if (base_compare env (cn_type cond) chk m))))
      else Inr R_error)"

section \<open>One transition\<close>

definition LINKINGS :: "string list" where
  "LINKINGS = [''and'', ''or'', ''xor'']"

text \<open>How the loop over the fields of a block ends: with the verdict of the transition, with the next block, or counted\<close>

datatype field_loop_end = Verdict bool | Skip_block | Counted nat nat

fun field_loop ::
  "cond_env \<Rightarrow> cond_data \<Rightarrow> tag_map \<Rightarrow> string \<Rightarrow> string \<Rightarrow> (string \<times> cond_field) list \<Rightarrow> nat \<Rightarrow> nat \<Rightarrow>
     cond_error + field_loop_end" where
  "field_loop env data tags linking btype [] succ fail = Inr (Counted succ fail)"
| "field_loop env data tags linking btype ((name, cond) # ncs) succ fail =
     res_bind (evaluate_field env name cond data tags) (\<lambda>r.
       case r of
         R_error \<Rightarrow> Inl ConditionConfigError
       | R_match \<Rightarrow>
           if linking = ''or'' \<and> btype = ''or'' then Inr (Verdict True)
           else if linking \<noteq> ''or'' \<and> btype = ''or'' then Inr Skip_block
           else field_loop env data tags linking btype ncs (succ + 1) fail
       | R_no_match_quiet \<Rightarrow> field_loop env data tags linking btype ncs succ (fail + 1)
       | R_no_match \<Rightarrow>
           if linking = ''and'' \<and> btype = ''and'' then Inr (Verdict False)
           else if btype = ''and'' then Inr Skip_block
           else field_loop env data tags linking btype ncs succ (fail + 1))"

definition block_type :: "cond_block \<Rightarrow> string" where
  "block_type b = (if cb_type b = [] then ''and'' else cb_type b)"

fun block_loop ::
  "cond_env \<Rightarrow> cond_data \<Rightarrow> tag_map \<Rightarrow> string \<Rightarrow> cond_block list \<Rightarrow> nat \<Rightarrow> nat \<Rightarrow> cond_error + bool" where
  "block_loop env data tags linking [] succ fail =
     Inr (if linking = ''and'' then fail = 0 else if linking = ''or'' then succ > 0 else succ = 1)"
| "block_loop env data tags linking (b # bs) succ fail =
     (if cb_fields b = [] then Inl ConditionConfigError
      else if block_type b \<notin> set LINKINGS then Inl ConditionConfigError
      else
        res_bind (field_loop env data tags linking (block_type b) (sort_key fst (cb_fields b)) 0 0) (\<lambda>r.
          case r of
            Verdict v \<Rightarrow> Inr v
          | Skip_block \<Rightarrow> block_loop env data tags linking bs succ fail
          | Counted s f \<Rightarrow>
              let holds = (if block_type b = ''and'' then f = 0 else if block_type b = ''or'' then s > 0 else s = 1) in
              if holds then if linking = ''or'' then Inr True else block_loop env data tags linking bs (succ + 1) fail
              else if linking = ''and'' \<and> block_type b \<noteq> ''xor'' then Inr False
              else block_loop env data tags linking bs succ (fail + 1)))"

definition check_condition ::
  "cond_env \<Rightarrow> transition_config \<Rightarrow> cond_data \<Rightarrow> tag_map \<Rightarrow> cond_error + bool" where
  "check_condition env cfg data tags =
     (if \<not> tc_present cfg \<and> tc_blocks cfg = [] then Inl ConditionConfigError
      else if tc_linking cfg \<notin> set LINKINGS then Inl ConditionConfigError
      else block_loop env data tags (tc_linking cfg) (tc_blocks cfg) 0 0)"

text \<open>\<open>evaluate_transition\<close>: a configuration error is no match.\<close>

definition evaluate_transition ::
  "cond_env \<Rightarrow> transition_config \<Rightarrow> cond_data \<Rightarrow> tag_map \<Rightarrow> cond_error + bool" where
  "evaluate_transition env cfg data tags =
     (case check_condition env cfg data tags of Inl ConditionConfigError \<Rightarrow> Inr False | r \<Rightarrow> r)"

text \<open>
  The loop of \<open>run_transitions\<close>: the first transition in the order of the ids that holds; a configuration
  error of one that is looked at before stops them all.
\<close>

fun first_holding ::
  "cond_env \<Rightarrow> cond_data \<Rightarrow> tag_map \<Rightarrow> (string \<times> transition_config) list \<Rightarrow> cond_error + string option" where
  "first_holding env data tags [] = Inr None"
| "first_holding env data tags ((i, cfg) # ts) =
     (case check_condition env cfg data tags of
        Inl ConditionConfigError \<Rightarrow> Inr None
      | Inl e \<Rightarrow> Inl e
      | Inr True \<Rightarrow> Inr (Some i)
      | Inr False \<Rightarrow> first_holding env data tags ts)"

definition chosen_transition ::
  "cond_env \<Rightarrow> cond_data \<Rightarrow> tag_map \<Rightarrow> (string \<times> transition_config) list \<Rightarrow> cond_error + string option" where
  "chosen_transition env data tags ts = first_holding env data tags (sort_key fst ts)"

section \<open>Tags\<close>

definition contains_text :: "string \<Rightarrow> string \<Rightarrow> bool" where
  "contains_text t s \<longleftrightarrow> list_ex (\<lambda>i. take (length t) (drop i s) = t) [0..<Suc (length s)]"

definition has_tag :: "string \<Rightarrow> bool" where
  "has_tag s \<longleftrightarrow> contains_text ''<otrs_'' (lower s)"

text \<open>The texts that are rendered for one field: its name, its match, and the value found under the name\<close>

definition field_texts :: "(string \<Rightarrow> string) \<Rightarrow> cond_data \<Rightarrow> string \<times> cond_field \<Rightarrow> string list" where
  "field_texts render data nc =
     (let name = fst nc;
          rendered = (if has_tag name then render name else name);
          field_name = (if rendered = [] \<or> rendered = ''-'' then name else rendered) in
      if cn_type (snd nc) \<notin> set BASE_CONDITION_TYPES then []
      else (if has_tag name then [name] else []) @
        (case cn_match (snd nc) of M_text m \<Rightarrow> if has_tag m then [m] else [] | _ \<Rightarrow> []) @
        (case data (if has_tag name then field_name else name) of V_text v \<Rightarrow> if has_tag v then [v] else [] | _ \<Rightarrow> []))"

definition resolve_transition_tags :: "(string \<Rightarrow> string) \<Rightarrow> cond_data \<Rightarrow> cond_block list \<Rightarrow> tag_map" where
  "resolve_transition_tags render data blocks =
     (\<lambda>t. if t \<in> set (concat (map (\<lambda>b. concat (map (field_texts render data) (cb_fields b))) blocks))
          then Some (render t) else None)"

section \<open>The verdict without the counters\<close>

text \<open>What a field says, where it is evaluated without an error\<close>

definition field_holds :: "cond_env \<Rightarrow> cond_data \<Rightarrow> tag_map \<Rightarrow> string \<times> cond_field \<Rightarrow> bool" where
  "field_holds env data tags nc \<longleftrightarrow> evaluate_field env (fst nc) (snd nc) data tags = Inr R_match"

definition field_fine :: "cond_env \<Rightarrow> cond_data \<Rightarrow> tag_map \<Rightarrow> string \<times> cond_field \<Rightarrow> bool" where
  "field_fine env data tags nc \<longleftrightarrow>
     (\<exists>r. evaluate_field env (fst nc) (snd nc) data tags = Inr r \<and> r \<noteq> R_error)"

definition block_holds :: "cond_env \<Rightarrow> cond_data \<Rightarrow> tag_map \<Rightarrow> cond_block \<Rightarrow> bool" where
  "block_holds env data tags b \<longleftrightarrow>
     (if block_type b = ''and'' then list_all (field_holds env data tags) (cb_fields b)
      else if block_type b = ''or'' then list_ex (field_holds env data tags) (cb_fields b)
      else length (filter (field_holds env data tags) (cb_fields b)) = 1)"

definition block_fine :: "cond_env \<Rightarrow> cond_data \<Rightarrow> tag_map \<Rightarrow> cond_block \<Rightarrow> bool" where
  "block_fine env data tags b \<longleftrightarrow> cb_fields b \<noteq> [] \<and> block_type b \<in> set LINKINGS \<and> list_all (field_fine env data tags) (cb_fields b)"

text \<open>Under \<open>xor\<close> a block of type \<open>or\<close> is never counted.\<close>

definition transition_holds :: "cond_env \<Rightarrow> cond_data \<Rightarrow> tag_map \<Rightarrow> transition_config \<Rightarrow> bool" where
  "transition_holds env data tags cfg \<longleftrightarrow>
     (if tc_linking cfg = ''and'' then list_all (block_holds env data tags) (tc_blocks cfg)
      else if tc_linking cfg = ''or'' then list_ex (block_holds env data tags) (tc_blocks cfg)
      else length (filter (\<lambda>b. block_type b \<noteq> ''or'' \<and> block_holds env data tags b) (tc_blocks cfg)) = 1)"

section \<open>The loops compute the verdict\<close>

text \<open>The order of the fields does not matter for a block.\<close>

lemma sort_key_preds [simp]:
  "list_all P (sort_key f xs) = list_all P xs"
  "list_ex P (sort_key f xs) = list_ex P xs"
  "length (filter P (sort_key f xs)) = length (filter P xs)"
proof -
  show "list_all P (sort_key f xs) = list_all P xs" by (simp add: list_all_iff)
  show "list_ex P (sort_key f xs) = list_ex P xs" by (simp add: list_ex_iff)
  show "length (filter P (sort_key f xs)) = length (filter P xs)" by (simp add: filter_sort)
qed

lemma field_fine_code [code]:
  "field_fine env data tags nc =
     (case evaluate_field env (fst nc) (snd nc) data tags of Inr r \<Rightarrow> r \<noteq> R_error | Inl _ \<Rightarrow> False)"
  by (simp add: field_fine_def split: sum.split)

lemma field_fine_cases:
  assumes "field_fine env data tags (name, cond)"
  obtains (holds) "evaluate_field env name cond data tags = Inr R_match" "field_holds env data tags (name, cond)"
    | (fails) "evaluate_field env name cond data tags = Inr R_no_match" "\<not> field_holds env data tags (name, cond)"
    | (quiet) "evaluate_field env name cond data tags = Inr R_no_match_quiet" "\<not> field_holds env data tags (name, cond)"
proof -
  obtain r where r: "evaluate_field env name cond data tags = Inr r" "r \<noteq> R_error"
    using assms unfolding field_fine_def by auto
  then show thesis using that by (cases r) (simp_all add: field_holds_def)
qed

text \<open>An \<open>and\<close> block ends the transition, is skipped, or has counted failures, unless all its fields hold.\<close>

lemma field_loop_and:
  assumes "list_all (field_fine env data tags) fs"
  shows "\<exists>r. field_loop env data tags linking ''and'' fs s f = Inr r \<and>
    (case r of
       Verdict v \<Rightarrow> linking = ''and'' \<and> \<not> v \<and> \<not> list_all (field_holds env data tags) fs
     | Skip_block \<Rightarrow> linking \<noteq> ''and'' \<and> \<not> list_all (field_holds env data tags) fs
     | Counted s' f' \<Rightarrow> (f' = 0) = (f = 0 \<and> list_all (field_holds env data tags) fs))"
  using assms
proof (induction fs arbitrary: s f)
  case (Cons nc fs)
  obtain name cond where nc: "nc = (name, cond)" by force
  have fs: "list_all (field_fine env data tags) fs" and fine: "field_fine env data tags (name, cond)"
    using Cons.prems nc by auto
  note IH = Cons.IH [OF fs]
  from fine show ?case
  proof (cases rule: field_fine_cases)
    case holds
    with IH [of "s + 1" f] show ?thesis by (auto simp: nc split: field_loop_end.splits)
  next
    case fails
    then show ?thesis by (simp add: nc)
  next
    case quiet
    with IH [of s "f + 1"] show ?thesis by (auto simp: nc split: field_loop_end.splits)
  qed
qed simp

text \<open>An \<open>or\<close> block stops at its first field that holds.\<close>

lemma field_loop_or:
  assumes "list_all (field_fine env data tags) fs"
  shows "\<exists>r. field_loop env data tags linking ''or'' fs s f = Inr r \<and>
    (case r of
       Verdict v \<Rightarrow> linking = ''or'' \<and> v \<and> list_ex (field_holds env data tags) fs
     | Skip_block \<Rightarrow> linking \<noteq> ''or'' \<and> list_ex (field_holds env data tags) fs
     | Counted s' f' \<Rightarrow> s' = s \<and> \<not> list_ex (field_holds env data tags) fs)"
  using assms
proof (induction fs arbitrary: s f)
  case (Cons nc fs)
  obtain name cond where nc: "nc = (name, cond)" by force
  have fs: "list_all (field_fine env data tags) fs" and fine: "field_fine env data tags (name, cond)"
    using Cons.prems nc by auto
  note IH = Cons.IH [OF fs, of s "f + 1"]
  from fine show ?case
    by (cases rule: field_fine_cases) (use IH in \<open>auto simp: nc split: field_loop_end.splits\<close>)
qed simp

text \<open>An \<open>xor\<close> block counts every field.\<close>

lemma field_loop_xor:
  assumes "list_all (field_fine env data tags) fs"
  shows "\<exists>f'. field_loop env data tags linking ''xor'' fs s f = Inr (Counted (s + length (filter (field_holds env data tags) fs)) f')"
  using assms
proof (induction fs arbitrary: s f)
  case (Cons nc fs)
  obtain name cond where nc: "nc = (name, cond)" by force
  have fs: "list_all (field_fine env data tags) fs" and fine: "field_fine env data tags (name, cond)"
    using Cons.prems nc by auto
  note IH = Cons.IH [OF fs]
  from fine show ?case
    by (cases rule: field_fine_cases) (use IH [of "s + 1" f] IH [of s "f + 1"] in \<open>simp_all add: nc\<close>)
qed simp

text \<open>How the loop over the fields may end for a block that holds or not\<close>

definition loop_end_ok :: "string \<Rightarrow> string \<Rightarrow> bool \<Rightarrow> field_loop_end \<Rightarrow> bool" where
  "loop_end_ok linking btype ok r \<longleftrightarrow>
     (case r of
        Verdict v \<Rightarrow> linking = btype \<and> (linking = ''and'' \<and> \<not> v \<and> \<not> ok \<or> linking = ''or'' \<and> v \<and> ok)
      | Skip_block \<Rightarrow> linking \<noteq> btype \<and> (btype = ''and'' \<and> \<not> ok \<or> btype = ''or'' \<and> ok)
      | Counted s f \<Rightarrow> (btype = ''or'' \<longrightarrow> \<not> ok) \<and>
          ok = (if btype = ''and'' then f = 0 else if btype = ''or'' then s > 0 else s = 1))"

lemma field_loop_end_ok:
  assumes "block_fine env data tags b"
  shows "\<exists>r. field_loop env data tags linking (block_type b) (sort_key fst (cb_fields b)) 0 0 = Inr r \<and>
    loop_end_ok linking (block_type b) (block_holds env data tags b) r"
proof -
  have fs: "list_all (field_fine env data tags) (sort_key fst (cb_fields b))" and ty: "block_type b \<in> set LINKINGS"
    using assms by (simp_all add: block_fine_def)
  consider "block_type b = ''and''" | "block_type b = ''or''" | "block_type b = ''xor''"
    using ty by (auto simp: LINKINGS_def)
  then show ?thesis
  proof cases
    case 1
    with field_loop_and [OF fs, of linking 0 0] show ?thesis
      by (auto simp: block_holds_def loop_end_ok_def split: field_loop_end.splits)
  next
    case 2
    with field_loop_or [OF fs, of linking 0 0] show ?thesis
      by (auto simp: block_holds_def loop_end_ok_def split: field_loop_end.splits)
  next
    case 3
    with field_loop_xor [OF fs, of linking 0 0] show ?thesis by (auto simp: block_holds_def loop_end_ok_def)
  qed
qed

text \<open>One round of the loop over the blocks\<close>

definition after_fields ::
  "string \<Rightarrow> string \<Rightarrow> bool \<Rightarrow> (nat \<Rightarrow> nat \<Rightarrow> cond_error + bool) \<Rightarrow> nat \<Rightarrow> nat \<Rightarrow> field_loop_end \<Rightarrow> cond_error + bool" where
  "after_fields linking btype ok rest succ fail r =
     (case r of
        Verdict v \<Rightarrow> Inr v
      | Skip_block \<Rightarrow> rest succ fail
      | Counted s f \<Rightarrow>
          if ok then if linking = ''or'' then Inr True else rest (succ + 1) fail
          else if linking = ''and'' \<and> btype \<noteq> ''xor'' then Inr False
          else rest succ (fail + 1))"

lemma block_loop_fine:
  assumes "block_fine env data tags b"
  obtains r where "loop_end_ok linking (block_type b) (block_holds env data tags b) r"
    and "block_loop env data tags linking (b # bs) succ fail =
      after_fields linking (block_type b) (block_holds env data tags b) (block_loop env data tags linking bs) succ fail r"
proof -
  obtain r where r: "field_loop env data tags linking (block_type b) (sort_key fst (cb_fields b)) 0 0 = Inr r"
      "loop_end_ok linking (block_type b) (block_holds env data tags b) r"
    using field_loop_end_ok [OF assms] by blast
  have "cb_fields b \<noteq> []" "block_type b \<in> set LINKINGS" using assms by (simp_all add: block_fine_def)
  with r have "block_loop env data tags linking (b # bs) succ fail =
      after_fields linking (block_type b) (block_holds env data tags b) (block_loop env data tags linking bs) succ fail r"
    by (cases r) (simp_all add: loop_end_ok_def after_fields_def Let_def)
  with r(2) show thesis by (rule that)
qed

lemma block_loop_and:
  assumes "list_all (block_fine env data tags) bs"
  shows "block_loop env data tags ''and'' bs succ fail = Inr (fail = 0 \<and> list_all (block_holds env data tags) bs)"
  using assms
proof (induction bs arbitrary: succ fail)
  case (Cons b bs)
  then have fine: "block_fine env data tags b" and IH: "\<And>succ fail. block_loop env data tags ''and'' bs succ fail = Inr (fail = 0 \<and> list_all (block_holds env data tags) bs)"
    by simp_all
  show ?case
    by (rule block_loop_fine [OF fine, of "''and''" bs succ fail], rename_tac r, case_tac r)
      (auto simp: loop_end_ok_def after_fields_def IH simp del: block_loop.simps)
qed simp

lemma block_loop_or:
  assumes "list_all (block_fine env data tags) bs"
  shows "block_loop env data tags ''or'' bs 0 fail = Inr (list_ex (block_holds env data tags) bs)"
  using assms
proof (induction bs arbitrary: fail)
  case (Cons b bs)
  then have fine: "block_fine env data tags b" and IH: "\<And>fail. block_loop env data tags ''or'' bs 0 fail = Inr (list_ex (block_holds env data tags) bs)"
    by simp_all
  show ?case
    by (rule block_loop_fine [OF fine, of "''or''" bs 0 fail], rename_tac r, case_tac r)
      (auto simp: loop_end_ok_def after_fields_def IH simp del: block_loop.simps)
qed simp

lemma block_loop_xor:
  assumes "list_all (block_fine env data tags) bs"
  shows "block_loop env data tags ''xor'' bs succ fail = Inr (succ + length (filter (\<lambda>b. block_type b \<noteq> ''or'' \<and> block_holds env data tags b) bs) = 1)"
  using assms
proof (induction bs arbitrary: succ fail)
  case (Cons b bs)
  then have fine: "block_fine env data tags b" and IH: "\<And>succ fail. block_loop env data tags ''xor'' bs succ fail = Inr (succ + length (filter (\<lambda>b. block_type b \<noteq> ''or'' \<and> block_holds env data tags b) bs) = 1)"
    by simp_all
  show ?case
    by (rule block_loop_fine [OF fine, of "''xor''" bs succ fail], rename_tac r, case_tac r)
      (auto simp: loop_end_ok_def after_fields_def IH simp del: block_loop.simps)
qed simp

text \<open>
  C30. The verdict on a transition, computed with early exits, skipped blocks and counters over the fields in the
  order of their names, depends neither on that order nor on the exits: if every field can be evaluated, the
  transition holds iff all its blocks hold (\<open>and\<close>), one of them holds (\<open>or\<close>), or exactly one that is not an \<open>or\<close>
  block holds (\<open>xor\<close>), where a block holds iff all, one or exactly one of its fields hold.
\<close>

theorem check_condition_verdict:
  assumes "tc_present cfg \<or> tc_blocks cfg \<noteq> []" and "tc_linking cfg \<in> set LINKINGS"
    and "list_all (block_fine env data tags) (tc_blocks cfg)"
  shows "check_condition env cfg data tags = Inr (transition_holds env data tags cfg)"
proof -
  consider "tc_linking cfg = ''and''" | "tc_linking cfg = ''or''" | "tc_linking cfg = ''xor''"
    using assms(2) by (auto simp: LINKINGS_def)
  then show ?thesis
    by cases (use assms in \<open>auto simp: check_condition_def transition_holds_def block_loop_and block_loop_or block_loop_xor\<close>)
qed

section \<open>A configuration evaluated\<close>

definition sample_env :: cond_env where
  "sample_env = \<lparr>ce_regex = (\<lambda>p s. Some (p = s)), ce_module = (\<lambda>_. None)\<rparr>"

definition sample_data :: cond_data where
  "sample_data = (\<lambda>k. if k = ''Queue'' then V_text ''Raw'' else if k = ''PriorityID'' then V_text ''3''
     else if k = ''DynamicField_Sites'' then V_list [''B'', ''A''] else V_none)"

definition sample_transition :: transition_config where
  "sample_transition = \<lparr>tc_linking = ''xor'',
     tc_blocks =
       [\<lparr>cb_type = ''or'', cb_fields = [(''Queue'', \<lparr>cn_match = M_text ''Raw'', cn_type = ''String''\<rparr>)]\<rparr>,
        \<lparr>cb_type = [], cb_fields = [(''Queue'', \<lparr>cn_match = M_text ''raw'', cn_type = ''Equal''\<rparr>),
           (''PriorityID'', \<lparr>cn_match = M_text ''2'', cn_type = ''GreaterThan''\<rparr>)]\<rparr>,
        \<lparr>cb_type = ''xor'', cb_fields = [(''DynamicField_Sites'', \<lparr>cn_match = M_list [''A'', ''C''], cn_type = ''Array''\<rparr>)]\<rparr>],
     tc_present = True\<rparr>"

lemma sample_fields_fine:
  "list_all (block_fine sample_env sample_data (\<lambda>_. None)) (tc_blocks sample_transition)"
  by code_simp

theorem check_condition_verdict_witness:
  "check_condition sample_env sample_transition sample_data (\<lambda>_. None) = Inr True \<and>
   transition_holds sample_env sample_data (\<lambda>_. None) sample_transition"
proof -
  have "check_condition sample_env sample_transition sample_data (\<lambda>_. None) = Inr True" by code_simp
  moreover have "check_condition sample_env sample_transition sample_data (\<lambda>_. None) =
      Inr (transition_holds sample_env sample_data (\<lambda>_. None) sample_transition)"
    by (rule check_condition_verdict [OF _ _ sample_fields_fine]) (simp_all add: sample_transition_def LINKINGS_def)
  ultimately show ?thesis by simp
qed

section \<open>Errors\<close>

text \<open>
  A date that does not exist raises in \<open>value_validate\<close>. Only configuration errors are caught, so a text a customer
  entered ends the whole run instead of counting as no match.
\<close>

lemma impossible_date_raises:
  "evaluate_transition sample_env
     \<lparr>tc_linking = ''and'',
      tc_blocks = [\<lparr>cb_type = ''and'', cb_fields = [(''Title'', \<lparr>cn_match = M_text ''x'', cn_type = ''Equal''\<rparr>)]\<rparr>],
      tc_present = True\<rparr>
     (\<lambda>k. if k = ''Title'' then V_text ''2024-02-30'' else V_none) (\<lambda>_. None) = Inl CondValueError"
  by code_simp

text \<open>Where a configuration error is met nothing is chosen; otherwise the choice holds and nothing before it does.\<close>

lemma first_holding_some:
  assumes "first_holding env data tags ts = Inr (Some i)"
  shows "\<exists>pre cfg post. ts = pre @ (i, cfg) # post \<and> check_condition env cfg data tags = Inr True \<and>
    list_all (\<lambda>t. check_condition env (snd t) data tags = Inr False) pre"
  using assms
proof (induction env data tags ts rule: first_holding.induct)
  case (2 env data tags j cfg ts)
  show ?case
  proof (cases "check_condition env cfg data tags = Inr False")
    case True
    then have "first_holding env data tags ts = Inr (Some i)" using "2.prems" by simp
    with True "2.IH" [of False] obtain pre cfg' post where "ts = pre @ (i, cfg') # post"
      "check_condition env cfg' data tags = Inr True" "list_all (\<lambda>t. check_condition env (snd t) data tags = Inr False) pre"
      by blast
    with True show ?thesis by (intro exI [of _ "(j, cfg) # pre"]) auto
  next
    case False
    with 2 have "check_condition env cfg data tags = Inr True" "j = i"
      by (auto split: sum.splits cond_error.splits bool.splits)
    then show ?thesis by (intro exI [of _ "[]"]) auto
  qed
qed simp

end
