(* ===== verification/Working_Time.thy ===== *)
theory Working_Time
  imports Civil_Time
begin

text \<open>
  \<open>znuny/escalation.py\<close> and \<open>reporting/working_time.py\<close>: working time over the business calendars. Deadlines add
  working minutes to an instant, reports count the working seconds between two instants; both walk hour by
  hour, a whole day at a time where that is safe, with a loop protection. The time zone data is a parameter: a
  zone is its offset from UTC in seconds at every instant. The theorems compare the walks with the plain count of
  the seconds that lie in working hours.
\<close>

section \<open>Local time\<close>

type_synonym zone = "int \<Rightarrow> int"

type_synonym zones = "string \<Rightarrow> zone option"

datatype clock_error = LoopProtection | ClockRange date_error

text \<open>\<open>_tzinfo\<close>: UTC where the name is not known\<close>

definition tzinfo :: "zones \<Rightarrow> string \<Rightarrow> zone" where
  "tzinfo zones name = (case zones name of Some z \<Rightarrow> z | None \<Rightarrow> (\<lambda>_. 0))"

record local_time =
  lt_year :: int
  lt_month :: int
  lt_day :: int
  lt_weekday :: int
  lt_hour :: int
  lt_minute :: int
  lt_second :: int

text \<open>Seconds since the epoch on the clock of the zone\<close>

definition local_secs :: "zone \<Rightarrow> int \<Rightarrow> int" where
  "local_secs z t = t + z t"

definition EPOCH_DAY :: int where
  "EPOCH_DAY = 719162"

definition local_fields :: "int \<Rightarrow> local_time" where
  "local_fields s =
     (case ord2ymd (s div 86400 + EPOCH_DAY + 1) of (y, m, d) \<Rightarrow>
        \<lparr>lt_year = y, lt_month = m, lt_day = d, lt_weekday = (s div 86400 + EPOCH_DAY) mod 7,
         lt_hour = s div 3600 mod 24, lt_minute = s div 60 mod 60, lt_second = s mod 60\<rparr>)"

definition day_in_range :: "int \<Rightarrow> bool" where
  "day_in_range s \<longleftrightarrow> 0 \<le> s div 86400 + EPOCH_DAY \<and> s div 86400 + EPOCH_DAY < MAX_ORDINAL"

text \<open>\<open>datetime.fromtimestamp(t, tz=z)\<close>\<close>

definition from_timestamp :: "zone \<Rightarrow> int \<Rightarrow> clock_error + local_time" where
  "from_timestamp z t =
     (if \<not> day_in_range t then Inl (ClockRange DateValueError)
      else if \<not> day_in_range (local_secs z t) then Inl (ClockRange OverflowError)
      else Inr (local_fields (local_secs z t)))"

section \<open>Calendars\<close>

record working_calendar =
  wc_hours :: "(string \<times> int list) list"
  wc_vacation :: "int \<Rightarrow> int \<Rightarrow> string option"
  wc_vacation_once :: "int \<Rightarrow> int \<Rightarrow> int \<Rightarrow> string option"
  wc_time_zone :: string

definition DAY_ABBR :: "string list" where
  "DAY_ABBR = [''Mon'', ''Tue'', ''Wed'', ''Thu'', ''Fri'', ''Sat'', ''Sun'']"

definition has_working_hours :: "working_calendar \<Rightarrow> bool" where
  "has_working_hours cal \<longleftrightarrow> list_ex (\<lambda>dh. snd dh \<noteq> []) (wc_hours cal)"

text \<open>A blank name or \<open>0\<close> is no vacation.\<close>

definition vacation_set :: "string option \<Rightarrow> bool" where
  "vacation_set name \<longleftrightarrow> (case name of None \<Rightarrow> False | Some n \<Rightarrow> n \<noteq> [] \<and> n \<noteq> ''0'')"

text \<open>The set of the hours of a day, without repetitions\<close>

definition day_hours :: "working_calendar \<Rightarrow> local_time \<Rightarrow> int list" where
  "day_hours cal dt =
     (case map_of (wc_hours cal) (DAY_ABBR ! nat (lt_weekday dt)) of None \<Rightarrow> [] | Some hs \<Rightarrow> remdups hs)"

definition is_vacation :: "working_calendar \<Rightarrow> local_time \<Rightarrow> bool" where
  "is_vacation cal dt \<longleftrightarrow>
     vacation_set (wc_vacation cal (lt_month dt) (lt_day dt)) \<or>
     vacation_set (wc_vacation_once cal (lt_year dt) (lt_month dt) (lt_day dt))"

definition is_working_day :: "working_calendar \<Rightarrow> local_time \<Rightarrow> bool" where
  "is_working_day cal dt \<longleftrightarrow> \<not> is_vacation cal dt \<and> day_hours cal dt \<noteq> []"

definition at_midnight :: "local_time \<Rightarrow> bool" where
  "at_midnight dt \<longleftrightarrow> lt_hour dt = 0 \<and> lt_minute dt = 0 \<and> lt_second dt = 0"

text \<open>The working seconds of a whole day\<close>

definition day_secs :: "working_calendar \<Rightarrow> local_time \<Rightarrow> int" where
  "day_secs cal dt = int (length (day_hours cal dt)) * 3600"

definition working_hour :: "working_calendar \<Rightarrow> local_time \<Rightarrow> bool" where
  "working_hour cal dt \<longleftrightarrow> is_working_day cal dt \<and> lt_hour dt \<in> set (day_hours cal dt)"

definition secs_to_next_hour :: "local_time \<Rightarrow> int" where
  "secs_to_next_hour dt = 3600 - (lt_minute dt * 60 + lt_second dt)"

section \<open>The walks\<close>

definition MAX_STEPS :: int where
  "MAX_STEPS = 5000000"

text \<open>A loop on two numbers with the loop protection of both walks\<close>

function walk ::
  "(int \<times> int \<Rightarrow> clock_error + int \<times> int) \<Rightarrow> (int \<times> int \<Rightarrow> bool) \<Rightarrow> int \<Rightarrow> int \<times> int \<Rightarrow> clock_error + int \<times> int" where
  "walk step busy guard s =
     (if busy s then
        if guard + 1 > MAX_STEPS then Inl LoopProtection
        else case step s of Inl e \<Rightarrow> Inl e | Inr s' \<Rightarrow> walk step busy (guard + 1) s'
      else Inr s)"
  by pat_completeness auto
termination
  by (relation "measure (\<lambda>(step, busy, guard, s). nat (MAX_STEPS - guard))") (auto simp: MAX_STEPS_def)

declare walk.simps [simp del]

text \<open>Whether the next midnight is 24 hours away and on another day\<close>

definition whole_day :: "local_time \<Rightarrow> local_time \<Rightarrow> bool" where
  "whole_day dt next_day \<longleftrightarrow> at_midnight next_day \<and> lt_day next_day \<noteq> lt_day dt"

text \<open>One round of \<open>destination_time_epoch\<close>: the instant, and the seconds that remain to be worked\<close>

definition dest_step :: "zone \<Rightarrow> working_calendar \<Rightarrow> int \<times> int \<Rightarrow> clock_error + int \<times> int" where
  "dest_step z cal = (\<lambda>(current, remaining).
     res_bind (from_timestamp z current) (\<lambda>dt.
       let by_hour =
         (if working_hour cal dt
          then (let n = min (secs_to_next_hour dt) remaining in (current + n, remaining - n))
          else (current + secs_to_next_hour dt, remaining))
       in if at_midnight dt then
            res_bind (from_timestamp z (current + 86400)) (\<lambda>next_day.
              if whole_day dt next_day \<and> \<not> is_working_day cal dt then Inr (current + 86400, remaining)
              else if whole_day dt next_day \<and> remaining > day_secs cal dt
              then Inr (current + 86400, remaining - day_secs cal dt)
              else Inr by_hour)
          else Inr by_hour))"

text \<open>One round of \<open>working_seconds_between\<close>: the instant, and the seconds worked so far\<close>

definition delta_step :: "zone \<Rightarrow> working_calendar \<Rightarrow> int \<Rightarrow> int \<times> int \<Rightarrow> clock_error + int \<times> int" where
  "delta_step z cal stop = (\<lambda>(current, done_secs).
     res_bind (from_timestamp z current) (\<lambda>dt.
       let remaining = stop - current;
           by_hour =
             (if working_hour cal dt
              then (let n = min (secs_to_next_hour dt) remaining in (current + n, done_secs + n))
              else (current + secs_to_next_hour dt, done_secs))
       in if at_midnight dt then
            res_bind (from_timestamp z (current + 86400)) (\<lambda>next_day.
              if whole_day dt next_day \<and> remaining > 86400 \<and> (is_working_day cal dt \<longrightarrow> remaining > day_secs cal dt)
              then Inr (current + 86400, if is_working_day cal dt then done_secs + day_secs cal dt else done_secs)
              else Inr by_hour)
          else Inr by_hour))"

definition destination_time_epoch :: "zones \<Rightarrow> working_calendar \<Rightarrow> int \<Rightarrow> int \<Rightarrow> clock_error + int" where
  "destination_time_epoch zones cal start minutes =
     (if minutes * 60 \<le> 0 then Inr start
      else if \<not> has_working_hours cal then Inr start
      else res_bind (walk (dest_step (tzinfo zones (wc_time_zone cal)) cal) (\<lambda>s. snd s > 0) 0 (start, minutes * 60))
        (\<lambda>s. Inr (fst s)))"

definition working_seconds_between :: "zones \<Rightarrow> working_calendar \<Rightarrow> int \<Rightarrow> int \<Rightarrow> clock_error + int" where
  "working_seconds_between zones cal start stop =
     (if stop \<le> start then Inr 0
      else if \<not> has_working_hours cal then Inr 0
      else res_bind (walk (delta_step (tzinfo zones (wc_time_zone cal)) cal stop) (\<lambda>s. fst s < stop) 0 (start, 0))
        (\<lambda>s. Inr (snd s)))"

section \<open>The plain count\<close>

text \<open>Whether the second that starts at an instant lies in working hours, and how many of a range do\<close>

definition on_duty :: "zone \<Rightarrow> working_calendar \<Rightarrow> int \<Rightarrow> bool" where
  "on_duty z cal t \<longleftrightarrow> working_hour cal (local_fields (local_secs z t))"

definition worked :: "zone \<Rightarrow> working_calendar \<Rightarrow> int \<Rightarrow> int \<Rightarrow> int" where
  "worked z cal a b = int (card {t. a \<le> t \<and> t < b \<and> on_duty z cal t})"

text \<open>The first instant of the next hour on the clock of the zone\<close>

definition hour_end :: "zone \<Rightarrow> int \<Rightarrow> int" where
  "hour_end z t = t + 3600 - local_secs z t mod 3600"

text \<open>
  What is asked of a zone in the range of a walk and the day after it, where the walk looks ahead: the offset stays below
  a day and changes by whole hours, on a full hour of the zone's clock, and not there and back between two midnights.
  What the zone did before or does later (local mean time, half hours) does not matter.
\<close>

definition zone_ok :: "zone \<Rightarrow> int \<Rightarrow> int \<Rightarrow> bool" where
  "zone_ok z a b \<longleftrightarrow>
     (\<forall>t. a \<le> t \<and> t \<le> b + 86400 \<longrightarrow> \<bar>z t\<bar> < 86400) \<and>
     (\<forall>t u. a \<le> t \<and> t \<le> u \<and> u \<le> b + 86400 \<longrightarrow> (z u - z t) mod 3600 = 0) \<and>
     (\<forall>t u. a \<le> t \<and> t \<le> u \<and> u \<le> b + 86400 \<and> u < hour_end z t \<longrightarrow> z u = z t) \<and>
     (\<forall>t. a \<le> t \<and> t \<le> b \<and> local_secs z t mod 86400 = 0 \<and> local_secs z (t + 86400) mod 86400 = 0 \<longrightarrow>
        (\<forall>u. t \<le> u \<and> u < t + 86400 \<longrightarrow> z u = z t))"

text \<open>Hours are 0 to 23.\<close>

definition hours_ok :: "working_calendar \<Rightarrow> bool" where
  "hours_ok cal \<longleftrightarrow> list_all (\<lambda>dh. list_all (\<lambda>h. 0 \<le> h \<and> h < 24) (snd dh)) (wc_hours cal)"

section \<open>Clock arithmetic\<close>

lemma local_fields_simps [simp]:
  "lt_hour (local_fields s) = s div 3600 mod 24"
  "lt_minute (local_fields s) = s div 60 mod 60"
  "lt_second (local_fields s) = s mod 60"
  by (simp_all add: local_fields_def split: prod.split)

lemma minute_seconds: "s div 60 mod 60 * 60 + s mod 60 = s mod (3600 :: int)"
  using zmod_zmult2_eq [of 60 s 60] by simp

lemma hour_seconds: "s mod 86400 = 3600 * (s div 3600 mod 24) + s mod (3600 :: int)"
  using zmod_zmult2_eq [of 24 s 3600] by simp

lemma day_of_hour: "s div 86400 = s div 3600 div (24 :: int)"
  using zdiv_zmult2_eq [of 24 s 3600] by simp

lemma secs_to_next_hour_eq [simp]: "secs_to_next_hour (local_fields s) = 3600 - s mod 3600"
  by (simp add: secs_to_next_hour_def minute_seconds)

lemma at_midnight_iff [simp]: "at_midnight (local_fields s) \<longleftrightarrow> s mod 86400 = 0"
proof -
  have "at_midnight (local_fields s) \<longleftrightarrow> s div 3600 mod 24 = 0 \<and> s div 60 mod 60 * 60 + s mod 60 = 0"
    using pos_mod_sign [of 60 "s div 60"] pos_mod_sign [of 60 s] by (auto simp: at_midnight_def)
  also have "\<dots> \<longleftrightarrow> s mod 86400 = 0"
    using pos_mod_sign [of 24 "s div 3600"] pos_mod_sign [of 3600 s] by (simp add: minute_seconds hour_seconds) linarith
  finally show ?thesis .
qed

text \<open>What a calendar says depends on the number of the local hour only.\<close>

lemma local_fields_hour:
  assumes "s div 3600 = s' div 3600"
  shows "lt_hour (local_fields s) = lt_hour (local_fields s')"
    "lt_weekday (local_fields s) = lt_weekday (local_fields s')"
    "lt_day (local_fields s) = lt_day (local_fields s')"
    "lt_month (local_fields s) = lt_month (local_fields s')"
    "lt_year (local_fields s) = lt_year (local_fields s')"
  using assms by (simp_all add: local_fields_def day_of_hour split: prod.split)

lemma day_fields:
  assumes "s div 86400 = s' div 86400"
  shows "day_hours cal (local_fields s) = day_hours cal (local_fields s')"
    "is_vacation cal (local_fields s) = is_vacation cal (local_fields s')"
    "is_working_day cal (local_fields s) = is_working_day cal (local_fields s')"
  using assms by (simp_all add: day_hours_def is_vacation_def is_working_day_def local_fields_def split: prod.split)

lemma working_hour_same:
  assumes "s div 3600 = s' div 3600"
  shows "working_hour cal (local_fields s) = working_hour cal (local_fields s')"
proof -
  have "s div 86400 = s' div 86400" using assms by (simp add: day_of_hour)
  from day_fields [OF this] assms show ?thesis by (simp add: working_hour_def)
qed

lemma same_quotient:
  fixes s r :: int
  assumes "0 \<le> r" "s mod b + r < b" "0 < b"
  shows "(s + r) div b = s div b"
  by (rule divmod_eq [of _ _ _ "s mod b + r"]) (use assms in simp_all)

lemma zone_okD:
  assumes "zone_ok z a b" "a \<le> t"
  shows "t \<le> b + 86400 \<Longrightarrow> \<bar>z t\<bar> < 86400"
    "t \<le> u \<Longrightarrow> u \<le> b + 86400 \<Longrightarrow> (z u - z t) mod 3600 = 0"
    "t \<le> u \<Longrightarrow> u \<le> b + 86400 \<Longrightarrow> u < hour_end z t \<Longrightarrow> z u = z t"
    "t \<le> b \<Longrightarrow> local_secs z t mod 86400 = 0 \<Longrightarrow> local_secs z (t + 86400) mod 86400 = 0 \<Longrightarrow> t \<le> u \<Longrightarrow> u < t + 86400 \<Longrightarrow> z u = z t"
proof -
  note ok = assms(1) [unfolded zone_ok_def]
  from ok assms(2) show "t \<le> b + 86400 \<Longrightarrow> \<bar>z t\<bar> < 86400"
    "t \<le> u \<Longrightarrow> u \<le> b + 86400 \<Longrightarrow> (z u - z t) mod 3600 = 0" by blast+
  from ok have "\<forall>t u. a \<le> t \<and> t \<le> u \<and> u \<le> b + 86400 \<and> u < hour_end z t \<longrightarrow> z u = z t" by (elim conjE)
  then show "t \<le> u \<Longrightarrow> u \<le> b + 86400 \<Longrightarrow> u < hour_end z t \<Longrightarrow> z u = z t" using assms(2) by blast
  from ok have "\<forall>t. a \<le> t \<and> t \<le> b \<and> local_secs z t mod 86400 = 0 \<and> local_secs z (t + 86400) mod 86400 = 0 \<longrightarrow>
      (\<forall>u. t \<le> u \<and> u < t + 86400 \<longrightarrow> z u = z t)" by (elim conjE)
  from this [rule_format, of t u] assms(2) show "t \<le> b \<Longrightarrow> local_secs z t mod 86400 = 0 \<Longrightarrow>
      local_secs z (t + 86400) mod 86400 = 0 \<Longrightarrow> t \<le> u \<Longrightarrow> u < t + 86400 \<Longrightarrow> z u = z t" by simp
qed

lemma zone_ok_sub:
  assumes "zone_ok z a b" "b' \<le> b" shows "zone_ok z a b'"
  unfolding zone_ok_def
proof (intro conjI allI impI)
  note ok = zone_okD [OF assms(1)]
  show "\<bar>z t\<bar> < 86400" if "a \<le> t \<and> t \<le> b' + 86400" for t using ok(1) [of t] that assms(2) by simp
  show "(z u - z t) mod 3600 = 0" if "a \<le> t \<and> t \<le> u \<and> u \<le> b' + 86400" for t u using ok(2) [of t u] that assms(2) by simp
  show "z u = z t" if "a \<le> t \<and> t \<le> u \<and> u \<le> b' + 86400 \<and> u < hour_end z t" for t u
    using ok(3) [of t u] that assms(2) by simp
  show "z u = z t" if "a \<le> t \<and> t \<le> b' \<and> local_secs z t mod 86400 = 0 \<and> local_secs z (t + 86400) mod 86400 = 0"
      "t \<le> u \<and> u < t + 86400" for t u
    using ok(4) [of t u] that assms(2) by simp
qed

text \<open>Within an hour of the zone's clock everything is the same.\<close>

lemma on_duty_hour:
  assumes "zone_ok z a b" "a \<le> t" "t \<le> u" "u \<le> b + 86400" "u < hour_end z t"
  shows "on_duty z cal u = on_duty z cal t"
proof -
  have "local_secs z u = local_secs z t + (u - t)"
    using zone_okD(3) [OF assms] by (simp add: local_secs_def)
  moreover have "(local_secs z t + (u - t)) div 3600 = local_secs z t div 3600"
    by (rule same_quotient) (use assms(3,5) in \<open>simp_all add: hour_end_def\<close>)
  ultimately have "local_secs z u div 3600 = local_secs z t div 3600" by simp
  then show ?thesis unfolding on_duty_def by (rule working_hour_same)
qed

section \<open>Counting\<close>

lemma finite_range: "finite {t. a \<le> t \<and> t < (b :: int) \<and> P t}"
  by (rule finite_subset [of _ "{a..b}"]) auto

lemma worked_nonneg [simp]: "0 \<le> worked z cal a b"
  by (simp add: worked_def)

lemma worked_empty [simp]: "b \<le> a \<Longrightarrow> worked z cal a b = 0"
proof -
  assume "b \<le> a"
  then have "{t. a \<le> t \<and> t < b \<and> on_duty z cal t} = {}" by auto
  then show ?thesis by (simp only: worked_def) simp
qed

lemma worked_split:
  assumes "a \<le> b" "b \<le> c"
  shows "worked z cal a c = worked z cal a b + worked z cal b c"
proof -
  have eq: "{t. a \<le> t \<and> t < c \<and> on_duty z cal t} =
      {t. a \<le> t \<and> t < b \<and> on_duty z cal t} \<union> {t. b \<le> t \<and> t < c \<and> on_duty z cal t}"
    using assms by auto
  have "card {t. a \<le> t \<and> t < c \<and> on_duty z cal t} =
      card {t. a \<le> t \<and> t < b \<and> on_duty z cal t} + card {t. b \<le> t \<and> t < c \<and> on_duty z cal t}"
    unfolding eq by (rule card_Un_disjoint) (auto intro: finite_range)
  then show ?thesis by (simp add: worked_def)
qed

lemma worked_mono: "a \<le> b \<Longrightarrow> b \<le> c \<Longrightarrow> worked z cal a b \<le> worked z cal a c"
  using worked_split [of a b c z cal] worked_nonneg [of z cal b c] by linarith

lemma worked_constant:
  assumes "a \<le> b" "\<And>t. a \<le> t \<Longrightarrow> t < b \<Longrightarrow> on_duty z cal t = p"
  shows "worked z cal a b = (if p then b - a else 0)"
proof (cases p)
  case True
  then have "{t. a \<le> t \<and> t < b \<and> on_duty z cal t} = {a..<b}" using assms(2) by auto
  then show ?thesis using True assms(1) by (simp add: worked_def)
next
  case False
  then have "{t. a \<le> t \<and> t < b \<and> on_duty z cal t} = {}" using assms(2) by auto
  then show ?thesis using False by (simp only: worked_def) simp
qed

lemma worked_in_hour:
  assumes "zone_ok z a b" "a \<le> t" "t \<le> u" "u \<le> b + 86400" "u \<le> hour_end z t"
  shows "worked z cal t u = (if on_duty z cal t then u - t else 0)"
proof (rule worked_constant [OF assms(3)])
  fix v assume v: "t \<le> v" "v < u"
  show "on_duty z cal v = on_duty z cal t"
    by (rule on_duty_hour [OF assms(1,2) v(1)]) (use v(2) assms(4,5) in linarith)+
qed

text \<open>A day of 24 hours from midnight: the hours that are worked, 3600 seconds each\<close>

lemma worked_hours:
  assumes z: "zone_ok z a b" and t: "a \<le> t" "t \<le> b" and midnight: "local_secs z t mod 86400 = 0"
    and const: "\<And>u. t \<le> u \<Longrightarrow> u < t + 86400 \<Longrightarrow> z u = z t" and n: "n \<le> 24"
  shows "worked z cal t (t + int n * 3600) =
    (if is_working_day cal (local_fields (local_secs z t))
     then int (card (set (day_hours cal (local_fields (local_secs z t))) \<inter> {0..<int n})) * 3600 else 0)"
  using n
proof (induction n)
  case (Suc n)
  let ?L = "local_secs z t" and ?t = "t + int n * 3600"
  let ?H = "set (day_hours cal (local_fields (local_secs z t)))"
  have L: "local_secs z ?t = ?L + int n * 3600"
    using const [of ?t] Suc.prems by (simp add: local_secs_def)
  have "?L mod 3600 = 0" using midnight mod_mod_cancel [of 3600 86400 ?L] by simp
  then have aligned: "local_secs z ?t mod 3600 = 0" by (simp add: L)
  have day: "local_secs z ?t div 86400 = ?L div 86400"
    unfolding L by (rule same_quotient) (use midnight Suc.prems in simp_all)
  have "local_secs z ?t mod 86400 = int n * 3600"
    unfolding L using midnight Suc.prems by (simp add: mod_add_left_eq [symmetric])
  then have "3600 * (local_secs z ?t div 3600 mod 24) = int n * 3600"
    using hour_seconds [of "local_secs z ?t"] aligned by simp
  then have hour: "local_secs z ?t div 3600 mod 24 = int n" by simp
  have duty: "on_duty z cal ?t \<longleftrightarrow> is_working_day cal (local_fields ?L) \<and> int n \<in> ?H"
    by (simp add: on_duty_def working_hour_def hour day_fields [OF day])
  have "worked z cal t (t + int (Suc n) * 3600) = worked z cal t ?t + worked z cal ?t (?t + 3600)"
    using worked_split [of t ?t "?t + 3600" z cal] by (simp add: algebra_simps)
  also have "worked z cal ?t (?t + 3600) = (if on_duty z cal ?t then 3600 else 0)"
    using worked_in_hour [OF z, of ?t "?t + 3600" cal] aligned t Suc.prems by (simp add: hour_end_def)
  finally have split: "worked z cal t (t + int (Suc n) * 3600) = worked z cal t ?t + (if on_duty z cal ?t then 3600 else 0)" .
  have range: "{0..<int (Suc n)} = insert (int n) {0..<int n}" by auto
  show ?case
  proof (cases "int n \<in> ?H")
    case True
    then have "?H \<inter> {0..<int (Suc n)} = insert (int n) (?H \<inter> {0..<int n})" unfolding range by auto
    then have "card (?H \<inter> {0..<int (Suc n)}) = Suc (card (?H \<inter> {0..<int n}))" by simp
    with split Suc.IH Suc.prems True duty show ?thesis by simp
  next
    case False
    then have "?H \<inter> {0..<int (Suc n)} = ?H \<inter> {0..<int n}" unfolding range by auto
    with split Suc.IH Suc.prems False duty show ?thesis by simp
  qed
qed simp

lemma day_hours_range:
  assumes "hours_ok cal"
  shows "set (day_hours cal dt) \<subseteq> {0..<24}"
proof
  fix h assume "h \<in> set (day_hours cal dt)"
  then obtain hs where "map_of (wc_hours cal) (DAY_ABBR ! nat (lt_weekday dt)) = Some hs" "h \<in> set hs"
    by (cases "map_of (wc_hours cal) (DAY_ABBR ! nat (lt_weekday dt))") (auto simp: day_hours_def)
  then show "h \<in> {0..<24}"
    using assms map_of_SomeD by (fastforce simp: hours_ok_def list_all_iff)
qed

lemma distinct_day_hours: "distinct (day_hours cal dt)"
  by (cases "map_of (wc_hours cal) (DAY_ABBR ! nat (lt_weekday dt))") (simp_all add: day_hours_def)

lemma worked_day:
  assumes "zone_ok z a b" "a \<le> t" "t \<le> b" "hours_ok cal" "local_secs z t mod 86400 = 0" "local_secs z (t + 86400) mod 86400 = 0"
  shows "worked z cal t (t + 86400) =
    (if is_working_day cal (local_fields (local_secs z t)) then day_secs cal (local_fields (local_secs z t)) else 0)"
proof -
  let ?dt = "local_fields (local_secs z t)"
  have "worked z cal t (t + int 24 * 3600) =
      (if is_working_day cal ?dt then int (card (set (day_hours cal ?dt) \<inter> {0..<int 24})) * 3600 else 0)"
    by (rule worked_hours [OF assms(1-3,5) zone_okD(4) [OF assms(1-3,5,6)]]) simp_all
  moreover have "set (day_hours cal ?dt) \<inter> {0..<int 24} = set (day_hours cal ?dt)"
    using Int_absorb2 [OF day_hours_range [OF assms(4), of ?dt]] by simp
  moreover have "card (set (day_hours cal ?dt)) = length (day_hours cal ?dt)"
    by (rule distinct_card [OF distinct_day_hours])
  ultimately show ?thesis by (simp add: day_secs_def)
qed

section \<open>One round\<close>

text \<open>Instants whose dates, and those of the day after, can be written down in every zone\<close>

definition instants_ok :: "int \<Rightarrow> int \<Rightarrow> bool" where
  "instants_ok a b \<longleftrightarrow> (1 - EPOCH_DAY) * 86400 \<le> a \<and> b \<le> (MAX_ORDINAL - EPOCH_DAY - 2) * 86400"

lemma div_less_iff:
  fixes s b q :: int
  assumes "0 < b" shows "s div b < q \<longleftrightarrow> s < q * b"
proof -
  have "(s - q * b) div b = s div b - q"
    using assms div_mult_self1 [of b s "- q"] by simp
  then have "s div b < q \<longleftrightarrow> (s - q * b) div b < 0" by linarith
  also have "\<dots> \<longleftrightarrow> s < q * b" using pos_imp_zdiv_neg_iff [OF assms] by simp
  finally show ?thesis .
qed

lemma day_in_range_iff: "day_in_range s \<longleftrightarrow> - EPOCH_DAY * 86400 \<le> s \<and> s < (MAX_ORDINAL - EPOCH_DAY) * 86400"
proof -
  have "s div 86400 + EPOCH_DAY = (s + EPOCH_DAY * 86400) div 86400" by simp
  then have lower: "0 \<le> s div 86400 + EPOCH_DAY \<longleftrightarrow> - EPOCH_DAY * 86400 \<le> s"
    using pos_imp_zdiv_nonneg_iff [of 86400 "s + EPOCH_DAY * 86400"] by auto
  have "s div 86400 + EPOCH_DAY < MAX_ORDINAL \<longleftrightarrow> s div 86400 < MAX_ORDINAL - EPOCH_DAY" by linarith
  also have "\<dots> \<longleftrightarrow> s < (MAX_ORDINAL - EPOCH_DAY) * 86400"
    by (rule div_less_iff) simp
  finally show ?thesis using lower by (simp add: day_in_range_def)
qed

lemma from_timestamp_ok:
  assumes "\<bar>z t\<bar> < 86400" "instants_ok a b" "a \<le> t" "t \<le> b + 86400"
  shows "from_timestamp z t = Inr (local_fields (local_secs z t))"
proof -
  from assms(1) have "day_in_range t" "day_in_range (local_secs z t)"
    using assms(2-4) by (auto simp: day_in_range_iff instants_ok_def local_secs_def)
  then show ?thesis by (simp add: from_timestamp_def)
qed

definition on_the_hour :: "zone \<Rightarrow> int \<Rightarrow> bool" where
  "on_the_hour z t \<longleftrightarrow> local_secs z t mod 3600 = 0"

text \<open>A round that does not end the walk reaches a full hour, and a later one from a full hour.\<close>

definition reaches_hour :: "zone \<Rightarrow> int \<Rightarrow> int \<Rightarrow> bool" where
  "reaches_hour z t t' \<longleftrightarrow> on_the_hour z t' \<and> (on_the_hour z t \<longrightarrow> t + 3600 \<le> t')"

lemma hour_end_bounds: "t < hour_end z t" "hour_end z t \<le> t + 3600" "on_the_hour z t \<Longrightarrow> hour_end z t = t + 3600"
  using pos_mod_bound [of 3600 "local_secs z t"] pos_mod_sign [of 3600 "local_secs z t"]
  by (simp_all add: hour_end_def on_the_hour_def)

lemma local_secs_shift:
  assumes "zone_ok z a b" "a \<le> t" "t \<le> u" "u \<le> b + 86400"
  shows "local_secs z u mod 3600 = (local_secs z t + (u - t)) mod 3600"
proof -
  have "local_secs z u = local_secs z t + (u - t) + (z u - z t)" by (simp add: local_secs_def)
  then show ?thesis using zone_okD(2) [OF assms] by (metis add.right_neutral mod_add_right_eq)
qed

lemma reaches_hour_end:
  assumes z: "zone_ok z a b" and t: "a \<le> t" "t \<le> b" shows "reaches_hour z t (hour_end z t)"
proof -
  have range: "t \<le> hour_end z t" "hour_end z t \<le> b + 86400" using hour_end_bounds(1,2) [where z = z and t = t] t(2) by simp_all
  have "local_secs z (hour_end z t) mod 3600 = (local_secs z t - local_secs z t mod 3600 + 3600) mod 3600"
    unfolding local_secs_shift [OF z t(1) range] by (simp add: hour_end_def algebra_simps)
  also have "\<dots> = 0" by (simp add: minus_mod_eq_div_mult)
  finally show ?thesis using hour_end_bounds(3) [where z = z and t = t] by (simp add: reaches_hour_def on_the_hour_def)
qed

lemma reaches_next_day:
  assumes "zone_ok z a b" "a \<le> t" "t \<le> b" "local_secs z t mod 86400 = 0"
  shows "reaches_hour z t (t + 86400)"
proof -
  have "local_secs z t mod 3600 = 0" using assms(4) mod_mod_cancel [of 3600 86400 "local_secs z t"] by simp
  moreover have le: "t \<le> t + 86400" "t + 86400 \<le> b + 86400" using assms(3) by simp_all
  ultimately have "local_secs z (t + 86400) mod 3600 = 0"
    unfolding local_secs_shift [OF assms(1,2) le] by (simp add: mod_add_left_eq [symmetric])
  then show ?thesis by (simp add: reaches_hour_def on_the_hour_def)
qed

text \<open>The time worked up to the end of the current hour\<close>

lemma worked_upto:
  assumes "zone_ok z a b" "a \<le> t" "t \<le> u" "u \<le> b + 86400" "u \<le> hour_end z t"
  shows "worked z cal t u = (if working_hour cal (local_fields (local_secs z t)) then u - t else 0)"
  using worked_in_hour [OF assms] by (simp add: on_duty_def)

lemma delta_step_ok:
  assumes z: "zone_ok z start stop" and h: "hours_ok cal" and range: "instants_ok start stop" and c: "start \<le> c" "c < stop"
  shows "\<exists>c' w'. delta_step z cal stop (c, w) = Inr (c', w') \<and> c < c' \<and> w' = w + worked z cal c (min c' stop) \<and>
    (c' < stop \<longrightarrow> reaches_hour z c c')"
proof -
  let ?dt = "local_fields (local_secs z c)" and ?next = "local_fields (local_secs z (c + 86400))"
  have offsets: "\<bar>z c\<bar> < 86400" "\<bar>z (c + 86400)\<bar> < 86400" using zone_okD(1) [OF z] c by simp_all
  note ft = from_timestamp_ok [of z c, OF offsets(1) range c(1)] from_timestamp_ok [of z "c + 86400", OF offsets(2) range]
  let ?whole = "at_midnight ?dt \<and> whole_day ?dt ?next \<and> stop - c > 86400 \<and>
    (is_working_day cal ?dt \<longrightarrow> stop - c > day_secs cal ?dt)"
  show ?thesis
  proof (cases ?whole)
    case True
    then have mid: "local_secs z c mod 86400 = 0" "local_secs z (c + 86400) mod 86400 = 0"
      by (simp_all add: whole_day_def)
    have "delta_step z cal stop (c, w) =
        Inr (c + 86400, if is_working_day cal ?dt then w + day_secs cal ?dt else w)"
      using True ft c by (simp add: delta_step_def)
    then show ?thesis
      using worked_day [OF z c(1) less_imp_le [OF c(2)] h mid] reaches_next_day [OF z c(1) less_imp_le [OF c(2)] mid(1)] True
      by (auto simp: min_def)
  next
    case False
    let ?n = "if working_hour cal ?dt then min (hour_end z c - c) (stop - c) else hour_end z c - c"
    have "delta_step z cal stop (c, w) = Inr (c + ?n, if working_hour cal ?dt then w + ?n else w)"
      using False ft c by (auto simp: delta_step_def Let_def hour_end_def algebra_simps)
    moreover have "c < c + ?n" using hour_end_bounds(1) [where z = z and t = c] c by auto
    moreover have "(if working_hour cal ?dt then w + ?n else w) = w + worked z cal c (min (c + ?n) stop)"
      using worked_upto [OF z c(1), of "min (c + ?n) stop" cal] hour_end_bounds(1) [where z = z and t = c] c by auto
    moreover have "c + ?n < stop \<longrightarrow> reaches_hour z c (c + ?n)"
      using reaches_hour_end [OF z c(1)] c(2) by (auto simp: min_def)
    ultimately show ?thesis by blast
  qed
qed

lemma dest_step_ok:
  assumes z: "zone_ok z start limit" and h: "hours_ok cal" and range: "instants_ok start limit" and c: "start \<le> c" "c \<le> limit"
    and r: "0 < r"
  shows "\<exists>c' r'. dest_step z cal (c, r) = Inr (c', r') \<and> c < c' \<and> r' = r - worked z cal c c' \<and> 0 \<le> r' \<and>
    (r' = 0 \<longrightarrow> on_duty z cal (c' - 1)) \<and> (0 < r' \<longrightarrow> reaches_hour z c c')"
proof -
  let ?dt = "local_fields (local_secs z c)" and ?next = "local_fields (local_secs z (c + 86400))"
  have offsets: "\<bar>z c\<bar> < 86400" "\<bar>z (c + 86400)\<bar> < 86400" using zone_okD(1) [OF z] c by simp_all
  note ft = from_timestamp_ok [of z c, OF offsets(1) range c(1)] from_timestamp_ok [of z "c + 86400", OF offsets(2) range]
  let ?whole = "at_midnight ?dt \<and> whole_day ?dt ?next \<and> (is_working_day cal ?dt \<longrightarrow> r > day_secs cal ?dt)"
  show ?thesis
  proof (cases ?whole)
    case True
    then have mid: "local_secs z c mod 86400 = 0" "local_secs z (c + 86400) mod 86400 = 0"
      by (simp_all add: whole_day_def)
    have "dest_step z cal (c, r) =
        Inr (c + 86400, if is_working_day cal ?dt then r - day_secs cal ?dt else r)"
      using True ft c by (simp add: dest_step_def)
    then show ?thesis
      using worked_day [OF z c h mid] reaches_next_day [OF z c mid(1)] True r by auto
  next
    case False
    let ?n = "if working_hour cal ?dt then min (hour_end z c - c) r else hour_end z c - c"
    have step: "dest_step z cal (c, r) = Inr (c + ?n, if working_hour cal ?dt then r - ?n else r)"
      using False ft c by (auto simp: dest_step_def Let_def hour_end_def algebra_simps)
    have le: "c \<le> c + ?n" "c < c + ?n" "c + ?n \<le> hour_end z c" using hour_end_bounds(1) [where z = z and t = c] r by auto
    have near: "c + ?n \<le> limit + 86400" using le(3) hour_end_bounds(2) [where z = z and t = c] c(2) by linarith
    moreover have "(if working_hour cal ?dt then r - ?n else r) = r - worked z cal c (c + ?n)"
      using worked_upto [OF z c(1) le(1) near le(3), of cal] by auto
    moreover have "(if working_hour cal ?dt then r - ?n else r) = 0 \<longrightarrow> on_duty z cal (c + ?n - 1)"
      using on_duty_hour [OF z c(1), of "c + ?n - 1" cal] le near r by (auto simp: on_duty_def)
    moreover have "0 < (if working_hour cal ?dt then r - ?n else r) \<longrightarrow> reaches_hour z c (c + ?n)"
      using reaches_hour_end [OF z c] by (auto simp: min_def)
    moreover have "0 \<le> (if working_hour cal ?dt then r - ?n else r)" using r by simp
    ultimately show ?thesis using step le(2) by blast
  qed
qed

section \<open>Walks that end\<close>

text \<open>
  The contract of a walk: a round keeps the invariant, does not raise, and brings the end closer. Then the loop
  protection is not reached as long as the rounds that are left fit.
\<close>

locale guarded_walk =
  fixes step :: "int \<times> int \<Rightarrow> clock_error + int \<times> int"
    and busy :: "int \<times> int \<Rightarrow> bool"
    and inv :: "int \<times> int \<Rightarrow> bool"
    and rounds :: "int \<times> int \<Rightarrow> nat"
  assumes progress: "inv s \<Longrightarrow> busy s \<Longrightarrow> \<exists>s'. step s = Inr s' \<and> inv s' \<and> rounds s' < rounds s"
begin

lemma walk_returns:
  assumes "inv s" "guard + int (rounds s) \<le> MAX_STEPS"
  shows "\<exists>s'. walk step busy guard s = Inr s' \<and> inv s' \<and> \<not> busy s'"
  using assms
proof (induction "rounds s" arbitrary: s guard rule: less_induct)
  case less
  show ?case
  proof (cases "busy s")
    case True
    with progress [OF less.prems(1)] obtain s' where s': "step s = Inr s'" "inv s'" "rounds s' < rounds s" by blast
    then have "guard + 1 + int (rounds s') \<le> MAX_STEPS" using less.prems(2) by linarith
    from less.hyps [OF s'(3,2) this] show ?thesis
      using True s'(1) less.prems(2) s'(3) by (simp add: walk.simps [of step busy guard s])
  next
    case False
    then show ?thesis using less.prems(1) by (simp add: walk.simps [of step busy guard s])
  qed
qed

end

text \<open>The rounds left to an instant: the hours, and one to reach a full hour\<close>

definition hours_left :: "zone \<Rightarrow> int \<Rightarrow> int \<Rightarrow> nat" where
  "hours_left z t limit =
     (if limit \<le> t then 0 else nat ((limit - t + 3599) div 3600) + (if on_the_hour z t then 0 else 1))"

lemma hours_left_less:
  assumes "t < limit" "t < t'" "t' < limit \<longrightarrow> reaches_hour z t t'"
  shows "hours_left z t' limit < hours_left z t limit"
proof -
  have one: "1 \<le> (limit - t + 3599) div 3600" using zdiv_mono1 [of 3600 "limit - t + 3599" 3600] assms(1) by simp
  show ?thesis
  proof (cases "t' < limit")
    case True
    then have hour: "on_the_hour z t'" and far: "on_the_hour z t \<Longrightarrow> t + 3600 \<le> t'"
      using assms(3) by (simp_all add: reaches_hour_def)
    show ?thesis
    proof (cases "on_the_hour z t")
      case True
      then have "(limit - t' + 3599) div 3600 \<le> (limit - t + 3599 - 3600) div 3600"
        using far by (intro zdiv_mono1) simp_all
      also have "\<dots> = (limit - t + 3599) div 3600 - 1"
        using div_mult_self1 [of 3600 "limit - t + 3599" "-1"] by simp
      finally show ?thesis using True \<open>t' < limit\<close> assms(1) hour one by (simp add: hours_left_def)
    next
      case False
      have "(limit - t' + 3599) div 3600 \<le> (limit - t + 3599) div 3600"
        using assms(2) by (intro zdiv_mono1) simp_all
      then show ?thesis using False \<open>t' < limit\<close> assms(1) hour one by (simp add: hours_left_def)
    qed
  qed (use one assms(1) in \<open>simp add: hours_left_def\<close>)
qed

lemma hours_left_bound:
  assumes "limit - t \<le> 3600 * (MAX_STEPS - 1)"
  shows "int (hours_left z t limit) \<le> MAX_STEPS"
proof (cases "limit \<le> t")
  case True
  then show ?thesis by (simp add: hours_left_def MAX_STEPS_def)
next
  case False
  have "limit - t + 3599 < MAX_STEPS * 3600" using assms by (simp add: MAX_STEPS_def)
  then have "(limit - t + 3599) div 3600 < MAX_STEPS" using div_less_iff [of 3600] by simp
  moreover have "0 \<le> (limit - t + 3599) div 3600" using False by (simp add: pos_imp_zdiv_nonneg_iff)
  ultimately show ?thesis using False by (simp add: hours_left_def)
qed

text \<open>The two walks keep this contract.\<close>

definition delta_inv :: "zone \<Rightarrow> working_calendar \<Rightarrow> int \<Rightarrow> int \<Rightarrow> int \<times> int \<Rightarrow> bool" where
  "delta_inv z cal start stop = (\<lambda>(c, w).
     zone_ok z start stop \<and> hours_ok cal \<and> instants_ok start stop \<and> start \<le> stop \<and> start \<le> c \<and> w = worked z cal start (min c stop))"

interpretation delta: guarded_walk "delta_step z cal stop" "\<lambda>s. fst s < stop" "delta_inv z cal start stop"
  "\<lambda>s. hours_left z (fst s) stop" for z cal start stop
proof
  fix s assume inv: "delta_inv z cal start stop s" and busy: "fst s < stop"
  obtain c w where s: "s = (c, w)" by force
  with inv busy have ok: "zone_ok z start stop" "hours_ok cal" "instants_ok start stop" "start \<le> c" "c < stop"
    and w: "w = worked z cal start c" by (auto simp: delta_inv_def)
  obtain c' w' where step: "delta_step z cal stop (c, w) = Inr (c', w')" "c < c'"
      "w' = w + worked z cal c (min c' stop)" "c' < stop \<longrightarrow> reaches_hour z c c'"
    using delta_step_ok [OF ok] by blast
  have "w' = worked z cal start (min c' stop)"
    using step(2,3) ok(4,5) worked_split [of start c "min c' stop" z cal] by (simp add: w)
  then have "delta_inv z cal start stop (c', w')" using ok step(2) by (simp add: delta_inv_def)
  with step(1) hours_left_less [OF ok(5) step(2,4)] s
  show "\<exists>s'. delta_step z cal stop s = Inr s' \<and> delta_inv z cal start stop s' \<and>
      hours_left z (fst s') stop < hours_left z (fst s) stop"
    by auto
qed

definition dest_inv :: "zone \<Rightarrow> working_calendar \<Rightarrow> int \<Rightarrow> int \<Rightarrow> int \<Rightarrow> int \<times> int \<Rightarrow> bool" where
  "dest_inv z cal start limit budget = (\<lambda>(c, r).
     zone_ok z start limit \<and> hours_ok cal \<and> instants_ok start limit \<and> start \<le> c \<and> c \<le> limit \<and> 0 \<le> r \<and>
     worked z cal start c = budget - r \<and> budget \<le> worked z cal start limit \<and>
     (r = 0 \<longrightarrow> start < c \<and> on_duty z cal (c - 1)))"

lemma worked_last:
  assumes "a < b" "on_duty z cal (b - 1)"
  shows "worked z cal a b = worked z cal a (b - 1) + 1"
proof -
  have "worked z cal (b - 1) b = 1"
  proof -
    have "on_duty z cal t = True" if "b - 1 \<le> t" "t < b" for t
    proof -
      from that have "t = b - 1" by simp
      then show ?thesis using assms(2) by simp
    qed
    from worked_constant [OF _ this] show ?thesis by simp
  qed
  then show ?thesis using worked_split [of a "b - 1" b z cal] assms(1) by simp
qed

interpretation dest: guarded_walk "dest_step z cal" "\<lambda>s. snd s > 0" "dest_inv z cal start limit budget"
  "\<lambda>s. if snd s > 0 then hours_left z (fst s) limit else 0" for z cal start limit budget
proof
  fix s assume inv: "dest_inv z cal start limit budget s" and busy: "snd s > 0"
  obtain c r where s: "s = (c, r)" by force
  with inv busy have ok: "zone_ok z start limit" "hours_ok cal" "instants_ok start limit" "start \<le> c" "c \<le> limit" "0 < r"
    and w: "worked z cal start c = budget - r" "budget \<le> worked z cal start limit" by (auto simp: dest_inv_def)
  have "c < limit" using w ok(5,6) by (cases "c = limit") auto
  obtain c' r' where step: "dest_step z cal (c, r) = Inr (c', r')" "c < c'" "r' = r - worked z cal c c'" "0 \<le> r'"
      "r' = 0 \<longrightarrow> on_duty z cal (c' - 1)" "0 < r' \<longrightarrow> reaches_hour z c c'"
    using dest_step_ok [OF ok] by blast
  have w': "worked z cal start c' = budget - r'"
    using step(2,3) ok(4) w(1) worked_split [of start c c' z cal] by simp
  have "c' \<le> limit"
  proof (rule ccontr)
    assume past: "\<not> c' \<le> limit"
    show False
    proof (cases "r' = 0")
      case True
      then have "worked z cal start c' = worked z cal start (c' - 1) + 1"
        using step(2,5) ok(4) by (intro worked_last) simp_all
      moreover have "worked z cal start limit \<le> worked z cal start (c' - 1)"
        using past ok(4,5) by (intro worked_mono) simp_all
      ultimately show False using w' w(2) True by simp
    next
      case False
      have "worked z cal start limit \<le> worked z cal start c'" using past ok(4,5) by (intro worked_mono) simp_all
      then show False using w' w(2) step(4) False by simp
    qed
  qed
  then have "dest_inv z cal start limit budget (c', r')"
    using ok step(2,4,5) w' w(2) by (simp add: dest_inv_def)
  moreover have "(if 0 < r' then hours_left z c' limit else 0) < hours_left z c limit"
    using hours_left_less [OF \<open>c < limit\<close> step(2), of z] step(6) hours_left_less [OF \<open>c < limit\<close> \<open>c < limit\<close>, of z] by auto
  ultimately show "\<exists>s'. dest_step z cal s = Inr s' \<and> dest_inv z cal start limit budget s' \<and>
      (if snd s' > 0 then hours_left z (fst s') limit else 0) < (if snd s > 0 then hours_left z (fst s) limit else 0)"
    using step(1) ok(6) by (intro exI [of _ "(c', r')"]) (auto simp: s split: if_splits)
qed

section \<open>What the walks compute\<close>

lemma no_hours_worked: "\<not> has_working_hours cal \<Longrightarrow> worked z cal a b = 0"
proof -
  assume none: "\<not> has_working_hours cal"
  have "day_hours cal dt = []" for dt
    using none map_of_SomeD
    by (cases "map_of (wc_hours cal) (DAY_ABBR ! nat (lt_weekday dt))") (fastforce simp: day_hours_def has_working_hours_def list_ex_iff)+
  then have "{t. a \<le> t \<and> t < b \<and> on_duty z cal t} = {}" by (simp add: on_duty_def working_hour_def)
  then show ?thesis by (simp only: worked_def) simp
qed

lemma working_seconds_returns:
  assumes "zone_ok (tzinfo zones (wc_time_zone cal)) start stop" "hours_ok cal" "instants_ok start stop"
    "stop - start \<le> 3600 * (MAX_STEPS - 1)"
  shows "working_seconds_between zones cal start stop = Inr (worked (tzinfo zones (wc_time_zone cal)) cal start stop)"
proof (cases "stop \<le> start \<or> \<not> has_working_hours cal")
  case True
  then show ?thesis by (auto simp: working_seconds_between_def no_hours_worked)
next
  case False
  let ?z = "tzinfo zones (wc_time_zone cal)"
  have "delta_inv ?z cal start stop (start, 0)" using assms False by (simp add: delta_inv_def)
  moreover have "0 + int (hours_left ?z (fst (start, 0 :: int)) stop) \<le> MAX_STEPS"
    using hours_left_bound [OF assms(4)] by simp
  ultimately obtain s where s: "walk (delta_step ?z cal stop) (\<lambda>s. fst s < stop) 0 (start, 0) = Inr s"
      "delta_inv ?z cal start stop s" "\<not> fst s < stop"
    using delta.walk_returns by blast
  then have "snd s = worked ?z cal start stop" by (auto simp: delta_inv_def min_def split: prod.splits)
  then show ?thesis using s(1) False by (simp add: working_seconds_between_def)
qed

lemma destination_returns:
  assumes "zone_ok (tzinfo zones (wc_time_zone cal)) start limit" "hours_ok cal" "instants_ok start limit"
    "limit - start \<le> 3600 * (MAX_STEPS - 1)" "0 < minutes" "start \<le> limit"
    "minutes * 60 \<le> worked (tzinfo zones (wc_time_zone cal)) cal start limit"
  shows "\<exists>d. destination_time_epoch zones cal start minutes = Inr d \<and> start < d \<and> d \<le> limit \<and>
    worked (tzinfo zones (wc_time_zone cal)) cal start d = minutes * 60 \<and>
    on_duty (tzinfo zones (wc_time_zone cal)) cal (d - 1)"
proof -
  let ?z = "tzinfo zones (wc_time_zone cal)"
  have hours: "has_working_hours cal" using assms(5,7) no_hours_worked by fastforce
  have "dest_inv ?z cal start limit (minutes * 60) (start, minutes * 60)" using assms by (simp add: dest_inv_def)
  moreover have "0 + int (if snd (start, minutes * 60) > 0 then hours_left ?z (fst (start, minutes * 60)) limit else 0) \<le> MAX_STEPS"
    using hours_left_bound [OF assms(4)] by (simp add: MAX_STEPS_def)
  ultimately obtain s where s: "walk (dest_step ?z cal) (\<lambda>s. snd s > 0) 0 (start, minutes * 60) = Inr s"
      "dest_inv ?z cal start limit (minutes * 60) s" "\<not> snd s > 0"
    using dest.walk_returns [of ?z cal start limit "minutes * 60"] by blast
  then have "snd s = 0" "start < fst s" "fst s \<le> limit" "worked ?z cal start (fst s) = minutes * 60" "on_duty ?z cal (fst s - 1)"
    by (auto simp: dest_inv_def split: prod.splits)
  then show ?thesis using s(1) hours assms(5) by (simp add: destination_time_epoch_def)
qed

text \<open>
  C17. The walk over the working time ends and counts right: between two instants of representable dates, at most
  4999999 hours (570 years) apart, no loop protection is reached and no date is out of range, for every calendar whose
  hours are 0 to 23 and every zone whose clock, in that range and the day after, changes only by whole hours on a full
  hour, not there and back within a day; the result is the number of seconds of the range that lie in working hours, so taking whole days at once changes
  nothing. What the zone did before the range (local mean time before 1893) is free.
\<close>

theorem working_seconds_exact:
  assumes "zone_ok (tzinfo zones (wc_time_zone cal)) start stop" and "hours_ok cal" and "instants_ok start stop"
    and "stop - start \<le> 3600 * (MAX_STEPS - 1)"
  shows "working_seconds_between zones cal start stop = Inr (worked (tzinfo zones (wc_time_zone cal)) cal start stop)"
  by (rule working_seconds_returns [OF assms])

text \<open>
  C16. A deadline is found whenever the calendar has enough working time before a limit at most 4999999 hours away, and it
  is the first instant by which that much has been worked: exactly the minutes asked for, and one second before still
  less. The hours of the calendar are 0 to 23, the dates up to the limit representable, and the zone's clock, up to the
  limit and the day after, changes only by whole hours on a full hour, not there and back within a day.
\<close>

theorem deadline_is_first:
  assumes "zone_ok (tzinfo zones (wc_time_zone cal)) start limit" and "hours_ok cal" and "instants_ok start limit"
    and "limit - start \<le> 3600 * (MAX_STEPS - 1)" and "start \<le> limit" and "0 < minutes"
    and "minutes * 60 \<le> worked (tzinfo zones (wc_time_zone cal)) cal start limit"
  shows "\<exists>d. destination_time_epoch zones cal start minutes = Inr d \<and> start < d \<and> d \<le> limit \<and>
    worked (tzinfo zones (wc_time_zone cal)) cal start d = minutes * 60 \<and>
    worked (tzinfo zones (wc_time_zone cal)) cal start (d - 1) < minutes * 60"
proof -
  obtain d where d: "destination_time_epoch zones cal start minutes = Inr d" "start < d" "d \<le> limit"
      "worked (tzinfo zones (wc_time_zone cal)) cal start d = minutes * 60" "on_duty (tzinfo zones (wc_time_zone cal)) cal (d - 1)"
    using destination_returns [OF assms(1-4,6,5,7)] by blast
  with worked_last [OF d(2,5)] show ?thesis by auto
qed

section \<open>Wall clock times\<close>

text \<open>
  Stored times are seconds on the wall clock of the storage zone. Which instant a wall clock time is, is
  again data of the zone: its offset at the time of the clock.
\<close>

type_synonym wall_clock = "string \<Rightarrow> int \<Rightarrow> int"

definition to_epoch :: "wall_clock \<Rightarrow> string \<Rightarrow> int \<Rightarrow> int" where
  "to_epoch wall tz s = s - wall tz s"

definition from_epoch :: "zones \<Rightarrow> string \<Rightarrow> int \<Rightarrow> clock_error + int" where
  "from_epoch zones tz t =
     res_bind (from_timestamp (tzinfo zones tz) t) (\<lambda>_. Inr (local_secs (tzinfo zones tz) t))"

definition working_minutes ::
  "zones \<Rightarrow> wall_clock \<Rightarrow> int \<Rightarrow> int \<Rightarrow> working_calendar \<Rightarrow> string \<Rightarrow> clock_error + int option" where
  "working_minutes zones wall start stop cal tz =
     (if \<not> has_working_hours cal then Inr None
      else res_bind (working_seconds_between zones cal (to_epoch wall tz start) (to_epoch wall tz stop))
        (\<lambda>n. Inr (Some (n div 60))))"

definition due_at :: "zones \<Rightarrow> wall_clock \<Rightarrow> int \<Rightarrow> int \<Rightarrow> working_calendar \<Rightarrow> string \<Rightarrow> clock_error + int" where
  "due_at zones wall start minutes cal tz =
     (if \<not> has_working_hours cal
      then if day_in_range (start + minutes * 60) then Inr (start + minutes * 60) else Inl (ClockRange OverflowError)
      else res_bind (destination_time_epoch zones cal (to_epoch wall tz start) minutes) (from_epoch zones tz))"


section \<open>A calendar\<close>

text \<open>
  Europe/Berlin with its local mean time (53 minutes and 28 seconds) before April 1893 and the changes of 2024; Monday to
  Friday from 9 to 16, and the first of May free
\<close>

definition summer_zone :: zone where
  "summer_zone t =
     (if t < -2422054408 then 3208 else if t < 1711846800 then 3600 else if t < 1729990800 then 7200 else 3600)"

definition sample_zones :: zones where
  "sample_zones name = (if name = ''Europe/Berlin'' then Some summer_zone else None)"

definition office_hours :: "int list" where
  "office_hours = [9, 10, 11, 12, 13, 14, 15, 16]"

definition sample_calendar :: working_calendar where
  "sample_calendar = \<lparr>wc_hours = map (\<lambda>d. (d, office_hours)) [''Mon'', ''Tue'', ''Wed'', ''Thu'', ''Fri''],
     wc_vacation = (\<lambda>m d. if m = 5 \<and> d = 1 then Some ''Labour Day'' else None),
     wc_vacation_once = (\<lambda>_ _ _. None), wc_time_zone = ''Europe/Berlin''\<rparr>"

lemma summer_zone_2024: "1711726200 \<le> t \<Longrightarrow> t \<le> 1712043000 \<Longrightarrow> summer_zone t = (if t < 1711846800 then 3600 else 7200)"
  by (simp add: summer_zone_def)

lemma summer_zone_ok: "zone_ok summer_zone 1711726200 1711956600"
  unfolding zone_ok_def
proof (intro conjI allI impI)
  show "\<bar>summer_zone t\<bar> < 86400" for t by (simp add: summer_zone_def)
  show "(summer_zone u - summer_zone t) mod 3600 = 0" if "1711726200 \<le> t \<and> t \<le> u \<and> u \<le> 1711956600 + 86400" for t u
    using that by (simp add: summer_zone_2024)
next
  fix t u :: int
  assume range: "1711726200 \<le> t \<and> t \<le> u \<and> u \<le> 1711956600 + 86400 \<and> u < hour_end summer_zone t"
  have "u < 1711846800" if "t < 1711846800"
  proof -
    have "t div 3600 < 475513" using div_less_iff [of 3600 t 475513] that by simp
    moreover have "hour_end summer_zone t = 3600 * (t div 3600) + 3600"
      using that range by (simp add: hour_end_def local_secs_def summer_zone_2024 minus_mod_eq_mult_div)
    ultimately show ?thesis using range by linarith
  qed
  then show "summer_zone u = summer_zone t" using range by (auto simp: summer_zone_2024)
next
  fix t u :: int
  assume midnight: "1711726200 \<le> t \<and> t \<le> 1711956600 \<and> local_secs summer_zone t mod 86400 = 0 \<and>
      local_secs summer_zone (t + 86400) mod 86400 = 0"
    and range: "t \<le> u \<and> u < t + 86400"
  have "t + 86400 \<le> 1711846800" if "t < 1711846800"
  proof (rule ccontr)
    assume "\<not> t + 86400 \<le> 1711846800"
    then have "local_secs summer_zone (t + 86400) = local_secs summer_zone t + 90000"
      using that midnight by (simp add: local_secs_def summer_zone_2024)
    then have "local_secs summer_zone (t + 86400) mod 86400 = 90000 mod 86400"
      using midnight mod_add_left_eq [of "local_secs summer_zone t" 86400 90000] by simp
    then show False using midnight by simp
  qed
  then show "summer_zone u = summer_zone t" using range midnight by (auto simp: summer_zone_2024)
qed

text \<open>Over all instants the zone would not do: its local mean time is no whole number of hours away.\<close>

lemma summer_zone_past: "(summer_zone 0 - summer_zone (-2422054409)) mod 3600 \<noteq> 0"
  by (simp add: summer_zone_def)

lemma sample_calendar_facts:
  "tzinfo sample_zones (wc_time_zone sample_calendar) = summer_zone"
  "hours_ok sample_calendar"
  "instants_ok 1711726200 1711956600"
  "(1711956600 :: int) - 1711726200 \<le> 3600 * (MAX_STEPS - 1)"
  by (simp_all add: tzinfo_def sample_zones_def sample_calendar_def hours_ok_def office_hours_def instants_ok_def
      EPOCH_DAY_def MAX_ORDINAL_def MAX_STEPS_def)

text \<open>From Friday 16:30 to Monday 9:30, over the change of the clock\<close>

lemma sample_delta: "working_seconds_between sample_zones sample_calendar 1711726200 1711956600 = Inr 3600"
  by code_simp

lemma sample_worked: "worked summer_zone sample_calendar 1711726200 1711956600 = 3600"
  using working_seconds_returns [of sample_zones sample_calendar 1711726200 1711956600] sample_delta
  by (simp add: sample_calendar_facts summer_zone_ok MAX_STEPS_def)

theorem working_seconds_exact_witness:
  "working_seconds_between sample_zones sample_calendar 1711726200 1711956600 = Inr 3600 \<and>
   worked summer_zone sample_calendar 1711726200 1711956600 = 3600"
  using working_seconds_exact [of sample_zones sample_calendar 1711726200 1711956600] sample_delta
  by (simp add: sample_calendar_facts summer_zone_ok MAX_STEPS_def)

theorem deadline_is_first_witness:
  "\<exists>d. destination_time_epoch sample_zones sample_calendar 1711726200 60 = Inr d \<and> 1711726200 < d \<and> d \<le> 1711956600"
  using deadline_is_first [of sample_zones sample_calendar 1711726200 1711956600 60] sample_worked
  by (auto simp: sample_calendar_facts summer_zone_ok MAX_STEPS_def)


end
