(* ===== verification/Ticket_Store.thy ===== *)
theory Ticket_Store
  imports Working_Time
begin

text \<open>
  The rows and settings the ticket modules share: the ticket table with the tables it refers to, its history, the
  outbox of events and the queue of cache invalidations as lists of rows, the readers of the system configuration, and
  the statements every writer uses (\<open>history_add\<close> in \<open>znuny/history.py\<close>, \<open>_emit_event\<close>). A transaction that
  raises leaves the tables as they were.
\<close>

section \<open>Tables\<close>

datatype esc_error = Esc_clock clock_error | UnknownHistoryType string | TicketGone int | TicketNotFound int | InvalidInput

record esc_ticket =
  et_id :: int
  et_title :: "string option"
  et_queue :: int
  et_type :: "int option"
  et_owner :: int
  et_responsible :: int
  et_priority :: int
  et_state :: int
  et_lock :: int
  et_service :: "int option"
  et_sla :: "int option"
  et_customer :: "string option"
  et_customer_user :: "string option"
  et_archive :: int
  et_until :: int
  et_timeout :: int
  et_created :: int
  et_response :: int
  et_update :: int
  et_solution :: int
  et_escalation :: int
  et_change_time :: int
  et_change_by :: int

record esc_article =
  ea_ticket :: int
  ea_sender :: string
  ea_visible :: bool
  ea_created :: int

record esc_history =
  eh_ticket :: int
  eh_name :: string
  eh_type_id :: int
  eh_queue :: int
  eh_type :: int
  eh_owner :: int
  eh_priority :: int
  eh_state :: int
  eh_created :: int
  eh_by :: int

text \<open>First response, update and solution minutes and the calendar of an SLA or a queue\<close>

record esc_targets =
  eg_response :: "int option"
  eg_update :: "int option"
  eg_solution :: "int option"
  eg_calendar :: "string option"

record user_name =
  un_login :: string
  un_first :: string
  un_last :: string

text \<open>A row of the static ticket index\<close>

record index_row =
  ix_ticket :: int
  ix_queue :: int
  ix_queue_name :: string
  ix_group :: int
  ix_lock :: string
  ix_state :: string
  ix_created :: int

record ai_state =
  ai_ticket :: int
  ai_escalated_at :: "int option"
  ai_escalated_reason :: "string option"
  ai_grant :: "(int \<times> int \<times> int \<times> int) option"

datatype payload = PInt int | PText string | PBool bool | PNull | PInts "int list"

type_synonym ticket_event = "string \<times> int \<times> (string \<times> payload) list"

text \<open>States carry the name of their type, queues their group.\<close>

record esc_db =
  ed_tickets :: "esc_ticket list"
  ed_states :: "(int \<times> string) list"
  ed_state_names :: "(int \<times> string) list"
  ed_articles :: "esc_article list"
  ed_history :: "esc_history list"
  ed_history_types :: "(int \<times> string) list"
  ed_slas :: "(int \<times> esc_targets) list"
  ed_sla_names :: "(int \<times> string) list"
  ed_queues :: "(int \<times> esc_targets) list"
  ed_queue_names :: "(int \<times> string \<times> int) list"
  ed_priorities :: "(int \<times> string) list"
  ed_types :: "(int \<times> string) list"
  ed_locks :: "(int \<times> string) list"
  ed_users :: "(int \<times> user_name) list"
  ed_watchers :: "(int \<times> int) list"
  ed_index :: "index_row list"
  ed_lock_index :: "int list"
  ed_ai :: "ai_state list"
  ed_outbox :: "ticket_event list"
  ed_invalidations :: "int list"

section \<open>Configuration\<close>

record sys_config =
  sc_text :: "string \<Rightarrow> string option"
  sc_flag :: "string \<Rightarrow> bool option"
  sc_list :: "string \<Rightarrow> string list option"
  sc_hours :: "string \<Rightarrow> (string \<times> int list) list"
  sc_vacation :: "string \<Rightarrow> int \<Rightarrow> int \<Rightarrow> string option"
  sc_vacation_once :: "string \<Rightarrow> int \<Rightarrow> int \<Rightarrow> int \<Rightarrow> string option"

record esc_env =
  ee_zones :: zones
  ee_wall :: wall_clock
  ee_config :: sys_config

definition otrs_time_zone :: "sys_config \<Rightarrow> string" where
  "otrs_time_zone sc = (case sc_text sc ''OTRSTimeZone'' of None \<Rightarrow> ''UTC'' | Some z \<Rightarrow> z)"

text \<open>A text setting that is set\<close>

definition sc_set :: "sys_config \<Rightarrow> string \<Rightarrow> string option" where
  "sc_set sc key = (case sc_text sc key of Some v \<Rightarrow> if v = [] then None else Some v | None \<Rightarrow> None)"

section \<open>Statements every writer uses\<close>

definition find_ticket :: "esc_db \<Rightarrow> int \<Rightarrow> esc_ticket option" where
  "find_ticket db tid = find (\<lambda>t. et_id t = tid) (ed_tickets db)"

definition history_add :: "int \<Rightarrow> int \<Rightarrow> string \<Rightarrow> string \<Rightarrow> int \<Rightarrow> esc_db \<Rightarrow> esc_error + esc_db" where
  "history_add now tid htype name uid db =
     (case find_ticket db tid of
        None \<Rightarrow> Inl (TicketGone tid)
      | Some t \<Rightarrow>
          (case find (\<lambda>(i, n). n = htype) (ed_history_types db) of
             None \<Rightarrow> Inl (UnknownHistoryType htype)
           | Some (i, _) \<Rightarrow>
               Inr (db\<lparr>ed_history := ed_history db @ [\<lparr>eh_ticket = tid, eh_name = take 200 name, eh_type_id = i,
                 eh_queue = et_queue t, eh_type = (case et_type t of None \<Rightarrow> 1 | Some ty \<Rightarrow> ty), eh_owner = et_owner t,
                 eh_priority = et_priority t, eh_state = et_state t, eh_created = now, eh_by = uid\<rparr>]\<rparr>)))"

definition emit_event :: "int \<Rightarrow> string \<Rightarrow> (string \<times> payload) list \<Rightarrow> esc_db \<Rightarrow> esc_db" where
  "emit_event tid event data db = db\<lparr>ed_outbox := ed_outbox db @ [(event, tid, data)]\<rparr>"

lemma find_ticket_id: "find_ticket db tid = Some t \<Longrightarrow> et_id t = tid"
  by (auto simp: find_ticket_def find_Some_iff)

lemma find_ticket_row:
  assumes "\<And>t. et_id (f t) = et_id t" "find (\<lambda>t. et_id t = tid) ts = Some t"
  shows "find (\<lambda>t. et_id t = tid) (upd_where (\<lambda>t. et_id t = tid) f ts) = Some (f t)"
  using assms(2) by (induction ts) (auto simp: assms(1) split: if_splits)

end
