(* ===== verification/Escalation_Index.thy ===== *)
theory Escalation_Index
  imports Ticket_Store
begin

text \<open>
  The escalation columns of a ticket (\<open>escalation_index_build\<close> in \<open>znuny/escalation.py\<close>), the sweep that recomputes
  them and fires events (\<open>worker/escalation.py\<close>), and the nearest deadline a dashboard shows. The theorems say that
  the index holds the earliest deadline and that the sweep is idempotent.
\<close>

section \<open>The calendar of a queue or an SLA\<close>

definition calendar_config :: "sys_config \<Rightarrow> string option \<Rightarrow> working_calendar" where
  "calendar_config sc calendar =
     (let named = (case calendar of None \<Rightarrow> None | Some c \<Rightarrow>
            (case sc_set sc (''TimeZone::Calendar'' @ c @ ''Name'') of None \<Rightarrow> None | Some _ \<Rightarrow> Some c));
          key = (\<lambda>base. case named of None \<Rightarrow> base | Some c \<Rightarrow> base @ ''::Calendar'' @ c);
          tz = (case named of None \<Rightarrow> otrs_time_zone sc
                | Some c \<Rightarrow> (case sc_set sc (''TimeZone::Calendar'' @ c) of None \<Rightarrow> otrs_time_zone sc | Some z \<Rightarrow> z))
      in \<lparr>wc_hours = sc_hours sc (key ''TimeWorkingHours''), wc_vacation = sc_vacation sc (key ''TimeVacationDays''),
          wc_vacation_once = sc_vacation_once sc (key ''TimeVacationDaysOneTime''), wc_time_zone = tz\<rparr>)"

section \<open>What is read\<close>

definition set_or_zero :: "int option \<Rightarrow> int" where
  "set_or_zero v = (case v of None \<Rightarrow> 0 | Some i \<Rightarrow> i)"

definition escalation_preferences :: "esc_db \<Rightarrow> int option \<Rightarrow> int \<Rightarrow> int \<times> int \<times> int \<times> string option" where
  "escalation_preferences db sla queue =
     (case (case sla of Some i \<Rightarrow> map_of (ed_slas db) i | None \<Rightarrow> map_of (ed_queues db) queue) of
        None \<Rightarrow> (0, 0, 0, None)
      | Some g \<Rightarrow> (set_or_zero (eg_response g), set_or_zero (eg_update g), set_or_zero (eg_solution g),
          case eg_calendar g of Some c \<Rightarrow> if c = [] then None else Some c | None \<Rightarrow> None))"

definition first_response_done :: "esc_db \<Rightarrow> int \<Rightarrow> bool" where
  "first_response_done db tid \<longleftrightarrow>
     list_ex (\<lambda>a. ea_ticket a = tid \<and> ea_sender a = ''agent'' \<and> ea_visible a) (ed_articles db)"

text \<open>The articles from the newest back; the last argument says whether a customer wrote what was looked at last\<close>

fun sender_walk :: "esc_article list \<Rightarrow> int option \<Rightarrow> bool \<Rightarrow> int option" where
  "sender_walk [] last_time customer = last_time"
| "sender_walk (a # older) last_time customer =
     (let t = (case last_time of None \<Rightarrow> Some (ea_created a) | Some _ \<Rightarrow> last_time) in
      if \<not> ea_visible a \<or> ea_sender a \<notin> {''agent'', ''customer''} then sender_walk older t customer
      else if ea_sender a = ''agent'' \<and> customer then t
      else if ea_sender a = ''customer'' then sender_walk older (Some (ea_created a)) True
      else Some (ea_created a))"

definition articles_of :: "esc_db \<Rightarrow> int \<Rightarrow> esc_article list" where
  "articles_of db tid = sort_key ea_created (filter (\<lambda>a. ea_ticket a = tid) (ed_articles db))"

definition last_sender_time :: "esc_db \<Rightarrow> int \<Rightarrow> int option" where
  "last_sender_time db tid = sender_walk (rev (articles_of db tid)) None False"

definition solution_done :: "esc_db \<Rightarrow> int \<Rightarrow> bool" where
  "solution_done db tid \<longleftrightarrow>
     list_ex (\<lambda>h. eh_ticket h = tid \<and> (eh_state h, ''closed'') \<in> set (ed_states db) \<and>
         list_ex (\<lambda>(i, n). i = eh_type_id h \<and> n \<in> {''StateUpdate'', ''NewTicket''}) (ed_history_types db))
       (ed_history db)"

text \<open>\<open>^(merge|close|remove)\<close> and \<open>^pending\<close>, whatever the case\<close>

definition no_escalation_state :: "string \<Rightarrow> bool" where
  "no_escalation_state s \<longleftrightarrow> take 5 (lower s) \<in> {''merge'', ''close''} \<or> take 6 (lower s) = ''remove''"

definition pending_state :: "string \<Rightarrow> bool" where
  "pending_state s \<longleftrightarrow> take 7 (lower s) = ''pending''"

section \<open>The index\<close>

text \<open>\<open>_set_column\<close>\<close>

definition set_column :: "int \<Rightarrow> int \<Rightarrow> int \<Rightarrow> (esc_ticket \<Rightarrow> esc_ticket) \<Rightarrow> esc_db \<Rightarrow> esc_db" where
  "set_column now uid tid f db =
     db\<lparr>ed_tickets := upd_where (\<lambda>t. et_id t = tid) (\<lambda>t. (f t)\<lparr>et_change_time := now, et_change_by := uid\<rparr>) (ed_tickets db)\<rparr>"

definition clock_result :: "clock_error + 'a \<Rightarrow> esc_error + 'a" where
  "clock_result r = (case r of Inl e \<Rightarrow> Inl (Esc_clock e) | Inr x \<Rightarrow> Inr x)"

definition deadline :: "esc_env \<Rightarrow> working_calendar \<Rightarrow> int \<Rightarrow> int \<Rightarrow> esc_error + int option" where
  "deadline env cal start minutes =
     (case destination_time_epoch (ee_zones env) cal start minutes of Inl e \<Rightarrow> Inl (Esc_clock e) | Inr d \<Rightarrow> Inr (Some d))"

text \<open>The deadline of each column, nothing where none runs\<close>

definition response_deadline ::
  "esc_env \<Rightarrow> working_calendar \<Rightarrow> esc_db \<Rightarrow> int \<Rightarrow> int \<Rightarrow> int \<Rightarrow> esc_error + int option" where
  "response_deadline env cal db tid created minutes =
     (if minutes = 0 \<or> first_response_done db tid then Inr None else deadline env cal created minutes)"

definition update_deadline ::
  "esc_env \<Rightarrow> working_calendar \<Rightarrow> esc_db \<Rightarrow> int \<Rightarrow> string \<Rightarrow> int \<Rightarrow> esc_error + int option" where
  "update_deadline env cal db tid state_type minutes =
     (if minutes = 0 \<or> pending_state state_type then Inr None
      else case last_sender_time db tid of
          None \<Rightarrow> Inr None
        | Some t \<Rightarrow> deadline env cal (to_epoch (ee_wall env) (otrs_time_zone (ee_config env)) t) minutes)"

definition solution_deadline ::
  "esc_env \<Rightarrow> working_calendar \<Rightarrow> esc_db \<Rightarrow> int \<Rightarrow> int \<Rightarrow> int \<Rightarrow> esc_error + int option" where
  "solution_deadline env cal db tid created minutes =
     (if minutes = 0 \<or> solution_done db tid then Inr None else deadline env cal created minutes)"

text \<open>The earliest deadline so far, 0 for none\<close>

definition sooner :: "int \<Rightarrow> int option \<Rightarrow> int" where
  "sooner esc d = (case d of None \<Rightarrow> esc | Some t \<Rightarrow> if esc = 0 \<or> t < esc then t else esc)"

definition escalation_index_build :: "esc_env \<Rightarrow> int \<Rightarrow> int \<Rightarrow> int \<Rightarrow> esc_db \<Rightarrow> esc_error + esc_db" where
  "escalation_index_build env now tid uid db =
     (let put = set_column now uid tid in
      case find_ticket db tid of
        None \<Rightarrow> Inr db
      | Some t \<Rightarrow>
          (case map_of (ed_states db) (et_state t) of
             None \<Rightarrow> Inr db
           | Some state_type \<Rightarrow>
               if no_escalation_state state_type then
                 Inr (put (et_update_update (\<lambda>_. 0)) (put (et_escalation_update (\<lambda>_. 0))
                   (put (et_solution_update (\<lambda>_. 0)) (put (et_response_update (\<lambda>_. 0)) db))))
               else
                 (case escalation_preferences db (if et_sla t = Some 0 then None else et_sla t) (et_queue t) of
                    (response_min, update_min, solution_min, calendar) \<Rightarrow>
                      let cal = calendar_config (ee_config env) calendar;
                          created = to_epoch (ee_wall env) (otrs_time_zone (ee_config env)) (et_created t) in
                      res_bind (response_deadline env cal db tid created response_min) (\<lambda>r.
                      let db1 = put (et_response_update (\<lambda>_. set_or_zero r)) db; esc1 = set_or_zero r in
                      res_bind (update_deadline env cal db1 tid state_type update_min) (\<lambda>u.
                      let db2 = put (et_update_update (\<lambda>_. set_or_zero u)) db1; esc2 = sooner esc1 u in
                      res_bind (solution_deadline env cal db2 tid created solution_min) (\<lambda>s.
                      let db3 = put (et_solution_update (\<lambda>_. set_or_zero s)) db2; esc3 = sooner esc2 s in
                      Inr (put (et_escalation_update (\<lambda>_. esc3)) db3)))))))"

section \<open>The dashboard\<close>

text \<open>\<open>nearest_deadline\<close>: the smallest column above 0 and its kind, the first where two are equal\<close>

definition DEADLINE_KINDS :: "(string \<times> (esc_ticket \<Rightarrow> int)) list" where
  "DEADLINE_KINDS = [(''first_response'', et_response), (''update'', et_update), (''solution'', et_solution),
     (''escalation'', et_escalation)]"

definition nearest_deadline :: "esc_ticket \<Rightarrow> (int \<times> string) option" where
  "nearest_deadline t =
     foldl (\<lambda>best (kind, column). let e = column t in
       if e > 0 \<and> (case best of None \<Rightarrow> True | Some (b, _) \<Rightarrow> e < b) then Some (e, kind) else best) None DEADLINE_KINDS"

section \<open>The sweep\<close>

text \<open>A history line and its event\<close>

definition fire :: "int \<Rightarrow> int \<Rightarrow> int \<Rightarrow> string \<Rightarrow> string \<Rightarrow> esc_db \<Rightarrow> esc_error + esc_db" where
  "fire now tid uid event name db =
     res_bind (history_add now tid event name uid db) (\<lambda>db'. Inr (emit_event tid event [] db'))"

text \<open>Each column with the types of its start, its stop and its notification\<close>

record esc_column =
  col_value :: "esc_ticket \<Rightarrow> int"
  col_start :: string
  col_stop :: string
  col_notify :: string

definition COLUMNS :: "esc_column list" where
  "COLUMNS =
     [\<lparr>col_value = et_response, col_start = ''EscalationResponseTimeStart'', col_stop = ''EscalationResponseTimeStop'',
       col_notify = ''EscalationResponseTimeNotifyBefore''\<rparr>,
      \<lparr>col_value = et_update, col_start = ''EscalationUpdateTimeStart'', col_stop = ''EscalationUpdateTimeStop'',
       col_notify = ''EscalationUpdateTimeNotifyBefore''\<rparr>,
      \<lparr>col_value = et_solution, col_start = ''EscalationSolutionTimeStart'', col_stop = ''EscalationSolutionTimeStop'',
       col_notify = ''EscalationSolutionTimeNotifyBefore''\<rparr>]"

definition notify_before_seen :: "esc_db \<Rightarrow> int \<Rightarrow> string \<Rightarrow> string \<Rightarrow> bool" where
  "notify_before_seen db tid htype marker \<longleftrightarrow>
     list_ex (\<lambda>h. eh_ticket h = tid \<and> eh_name h = marker \<and> (eh_type_id h, htype) \<in> set (ed_history_types db)) (ed_history db)"

text \<open>How many events of each kind were fired\<close>

record fired =
  fd_start :: nat
  fd_stop :: nat
  fd_notify :: nat

definition none_fired :: fired where
  "none_fired = \<lparr>fd_start = 0, fd_stop = 0, fd_notify = 0\<rparr>"

definition start_stop ::
  "int \<Rightarrow> int \<Rightarrow> int \<Rightarrow> esc_column \<Rightarrow> int \<Rightarrow> int \<Rightarrow> fired \<times> esc_db \<Rightarrow> esc_error + fired \<times> esc_db" where
  "start_stop now tid uid col old new = (\<lambda>(f, db).
     if new \<noteq> 0 \<and> old = 0 then
       res_bind (fire now tid uid (col_start col) [] db) (\<lambda>db'. Inr (f\<lparr>fd_start := fd_start f + 1\<rparr>, db'))
     else if old \<noteq> 0 \<and> new = 0 then
       res_bind (fire now tid uid (col_stop col) [] db) (\<lambda>db'. Inr (f\<lparr>fd_stop := fd_stop f + 1\<rparr>, db'))
     else Inr (f, db))"

definition notify_before ::
  "int \<Rightarrow> int \<Rightarrow> int \<Rightarrow> int \<Rightarrow> int \<Rightarrow> esc_column \<Rightarrow> int \<Rightarrow> fired \<times> esc_db \<Rightarrow> esc_error + fired \<times> esc_db" where
  "notify_before now now_epoch window tid uid col new = (\<lambda>(f, db).
     if new \<noteq> 0 \<and> new > now_epoch \<and> new - now_epoch \<le> window \<and>
        \<not> notify_before_seen db tid (col_notify col) (int_text new) then
       res_bind (fire now tid uid (col_notify col) (int_text new) db) (\<lambda>db'. Inr (f\<lparr>fd_notify := fd_notify f + 1\<rparr>, db'))
     else Inr (f, db))"

definition sweep_column ::
  "int \<Rightarrow> int \<Rightarrow> int \<Rightarrow> int \<Rightarrow> int \<Rightarrow> esc_ticket \<Rightarrow> esc_ticket \<Rightarrow> esc_column \<Rightarrow> fired \<times> esc_db \<Rightarrow> esc_error + fired \<times> esc_db" where
  "sweep_column now now_epoch window tid uid before after col s =
     res_bind (start_stop now tid uid col (col_value col before) (col_value col after) s)
       (notify_before now now_epoch window tid uid col (col_value col after))"

definition sweep_ticket :: "esc_env \<Rightarrow> int \<Rightarrow> int \<Rightarrow> int \<Rightarrow> int \<Rightarrow> int \<Rightarrow> esc_db \<Rightarrow> esc_error + fired \<times> esc_db" where
  "sweep_ticket env now now_epoch window tid uid db =
     (case find_ticket db tid of
        None \<Rightarrow> Inr (none_fired, db)
      | Some before \<Rightarrow>
          res_bind (escalation_index_build env now tid uid db) (\<lambda>db1.
          case find_ticket db1 tid of
            None \<Rightarrow> Inr (none_fired, db1)
          | Some after \<Rightarrow> res_fold (sweep_column now now_epoch window tid uid before after) COLUMNS (none_fired, db1)))"

definition sweepable :: "esc_db \<Rightarrow> esc_ticket \<Rightarrow> bool" where
  "sweepable db t \<longleftrightarrow>
     (case map_of (ed_states db) (et_state t) of None \<Rightarrow> False | Some st \<Rightarrow> \<not> no_escalation_state st)"

definition sweepable_ticket_ids :: "esc_db \<Rightarrow> nat \<Rightarrow> int list" where
  "sweepable_ticket_ids db batch =
     take batch (map et_id (sort_key et_change_time (sort_key et_id (filter (sweepable db) (ed_tickets db)))))"

record sweep_result =
  sr_swept :: nat
  sr_fired :: fired
  sr_errors :: nat

definition add_fired :: "fired \<Rightarrow> fired \<Rightarrow> fired" where
  "add_fired f g = \<lparr>fd_start = fd_start f + fd_start g, fd_stop = fd_stop f + fd_stop g, fd_notify = fd_notify f + fd_notify g\<rparr>"

text \<open>One tick: a transaction per ticket, a failed one changes nothing. Each ticket has its own clock reading.\<close>

fun sweep_tickets ::
  "esc_env \<Rightarrow> int \<Rightarrow> int \<Rightarrow> (int \<times> int \<times> int) list \<Rightarrow> sweep_result \<times> esc_db \<Rightarrow> sweep_result \<times> esc_db" where
  "sweep_tickets env window uid [] s = s"
| "sweep_tickets env window uid ((tid, now, now_epoch) # ts) (r, db) =
     (case sweep_ticket env now now_epoch window tid uid db of
        Inl _ \<Rightarrow> sweep_tickets env window uid ts (r\<lparr>sr_errors := sr_errors r + 1\<rparr>, db)
      | Inr (f, db') \<Rightarrow>
          sweep_tickets env window uid ts (r\<lparr>sr_swept := sr_swept r + 1, sr_fired := add_fired (sr_fired r) f\<rparr>, db'))"

definition run_escalation_tick ::
  "esc_env \<Rightarrow> bool \<Rightarrow> nat \<Rightarrow> int \<Rightarrow> int \<Rightarrow> (int \<Rightarrow> int \<times> int) \<Rightarrow> esc_db \<Rightarrow> sweep_result option \<times> esc_db" where
  "run_escalation_tick env enabled batch window uid clock db =
     (if \<not> enabled then (None, db)
      else case sweep_tickets env window uid (map (\<lambda>i. (i, clock i)) (sweepable_ticket_ids db batch))
          (\<lparr>sr_swept = 0, sr_fired = none_fired, sr_errors = 0\<rparr>, db) of
        (r, db') \<Rightarrow> (Some r, db'))"

section \<open>What the index writes\<close>

text \<open>The four columns of a ticket, nothing where its state is not known\<close>

definition index_columns :: "esc_env \<Rightarrow> esc_db \<Rightarrow> esc_ticket \<Rightarrow> esc_error + (int \<times> int \<times> int \<times> int) option" where
  "index_columns env db t =
     (case map_of (ed_states db) (et_state t) of
        None \<Rightarrow> Inr None
      | Some state_type \<Rightarrow>
          if no_escalation_state state_type then Inr (Some (0, 0, 0, 0))
          else
            (case escalation_preferences db (if et_sla t = Some 0 then None else et_sla t) (et_queue t) of
               (response_min, update_min, solution_min, calendar) \<Rightarrow>
                 let cal = calendar_config (ee_config env) calendar;
                     created = to_epoch (ee_wall env) (otrs_time_zone (ee_config env)) (et_created t) in
                 res_bind (response_deadline env cal db (et_id t) created response_min) (\<lambda>r.
                 res_bind (update_deadline env cal db (et_id t) state_type update_min) (\<lambda>u.
                 res_bind (solution_deadline env cal db (et_id t) created solution_min) (\<lambda>s.
                 Inr (Some (set_or_zero r, set_or_zero u, set_or_zero s, sooner (sooner (set_or_zero r) u) s)))))))"

definition with_columns :: "int \<Rightarrow> int \<Rightarrow> int \<times> int \<times> int \<times> int \<Rightarrow> esc_ticket \<Rightarrow> esc_ticket" where
  "with_columns now uid c t =
     (case c of (r, u, s, e) \<Rightarrow> t\<lparr>et_response := r, et_update := u, et_solution := s, et_escalation := e,
        et_change_time := now, et_change_by := uid\<rparr>)"

lemma set_column_frame [simp]:
  "ed_articles (set_column now uid tid f db) = ed_articles db"
  "ed_history (set_column now uid tid f db) = ed_history db"
  "ed_history_types (set_column now uid tid f db) = ed_history_types db"
  "ed_states (set_column now uid tid f db) = ed_states db"
  by (simp_all add: set_column_def)

lemma set_column_reads [simp]:
  "last_sender_time (set_column now uid tid f db) i = last_sender_time db i"
  "first_response_done (set_column now uid tid f db) i = first_response_done db i"
  "solution_done (set_column now uid tid f db) i = solution_done db i"
  by (simp_all add: last_sender_time_def articles_of_def first_response_done_def solution_done_def)

lemma set_column_deadlines [simp]:
  "update_deadline env cal (set_column now uid tid f db) i st m = update_deadline env cal db i st m"
  "solution_deadline env cal (set_column now uid tid f db) i c m = solution_deadline env cal db i c m"
  by (simp_all add: update_deadline_def solution_deadline_def)

lemma set_columns:
  "set_column now uid tid (et_escalation_update (\<lambda>_. e)) (set_column now uid tid (et_solution_update (\<lambda>_. s))
     (set_column now uid tid (et_update_update (\<lambda>_. u)) (set_column now uid tid (et_response_update (\<lambda>_. r)) db))) =
   db\<lparr>ed_tickets := upd_where (\<lambda>t. et_id t = tid) (with_columns now uid (r, u, s, e)) (ed_tickets db)\<rparr>"
  "set_column now uid tid (et_update_update (\<lambda>_. u)) (set_column now uid tid (et_escalation_update (\<lambda>_. e))
     (set_column now uid tid (et_solution_update (\<lambda>_. s)) (set_column now uid tid (et_response_update (\<lambda>_. r)) db))) =
   db\<lparr>ed_tickets := upd_where (\<lambda>t. et_id t = tid) (with_columns now uid (r, u, s, e)) (ed_tickets db)\<rparr>"
  by (simp_all add: set_column_def upd_where_def with_columns_def)

text \<open>The statements of the index, one after the other, write the columns at once.\<close>

lemma index_build_eq [code]:
  "escalation_index_build env now tid uid db =
     (case find_ticket db tid of
        None \<Rightarrow> Inr db
      | Some t \<Rightarrow>
          res_bind (index_columns env db t) (\<lambda>c. case c of
            None \<Rightarrow> Inr db
          | Some c \<Rightarrow> Inr (db\<lparr>ed_tickets := upd_where (\<lambda>t. et_id t = tid) (with_columns now uid c) (ed_tickets db)\<rparr>)))"
proof (cases "find_ticket db tid")
  case (Some t)
  then have id: "et_id t = tid" by (rule find_ticket_id)
  show ?thesis
  proof (cases "map_of (ed_states db) (et_state t)")
    case st: (Some st)
    show ?thesis
    proof (cases "no_escalation_state st")
      case True
      then show ?thesis
        using set_columns(2) [of now uid tid 0 0 0 0 db] by (simp add: escalation_index_build_def index_columns_def Some st)
    next
      case False
      then show ?thesis
        by (simp add: escalation_index_build_def index_columns_def Some st id set_columns(1) Let_def split: prod.split)
          (auto simp: res_bind_def split: sum.split)
    qed
  qed (simp add: escalation_index_build_def index_columns_def Some)
qed (simp add: escalation_index_build_def)

lemma with_columns_fields [simp]:
  "et_id (with_columns now uid c t) = et_id t" "et_state (with_columns now uid c t) = et_state t"
  "et_sla (with_columns now uid c t) = et_sla t" "et_queue (with_columns now uid c t) = et_queue t"
  "et_created (with_columns now uid c t) = et_created t"
  "et_response (with_columns now uid (r, u, s, e) t) = r" "et_update (with_columns now uid (r, u, s, e) t) = u"
  "et_solution (with_columns now uid (r, u, s, e) t) = s" "et_escalation (with_columns now uid (r, u, s, e) t) = e"
  by (simp_all add: with_columns_def split: prod.split)

lemma filter_upd_where_other:
  "(\<And>t. et_id (f t) = et_id t) \<Longrightarrow>
    filter (\<lambda>t. et_id t \<noteq> tid) (upd_where (\<lambda>t. et_id t = tid) f ts) = filter (\<lambda>t. et_id t \<noteq> tid) ts"
  by (induction ts) auto

section \<open>The earliest deadline\<close>

definition earliest :: "int list \<Rightarrow> int" where
  "earliest xs = (case filter (\<lambda>x. x \<noteq> 0) xs of [] \<Rightarrow> 0 | y # ys \<Rightarrow> foldl min y ys)"

lemma sooner_earliest:
  assumes "\<And>d. r = Some d \<Longrightarrow> 0 < d" "\<And>d. u = Some d \<Longrightarrow> 0 < d" "\<And>d. s = Some d \<Longrightarrow> 0 < d"
  shows "sooner (sooner (set_or_zero r) u) s = earliest [set_or_zero r, set_or_zero u, set_or_zero s]"
  using assms by (cases r; cases u; cases s) (auto simp: sooner_def set_or_zero_def earliest_def min_def)

text \<open>A walk keeps what every round keeps.\<close>

lemma walk_invariant:
  assumes "walk step busy guard s = Inr s'" "P s"
    and "\<And>s s'. P s \<Longrightarrow> busy s \<Longrightarrow> step s = Inr s' \<Longrightarrow> P s'"
  shows "P s' \<and> \<not> busy s'"
  using assms
proof (induction step busy guard s rule: walk.induct)
  case (1 step busy guard s)
  show ?case
  proof (cases "busy s")
    case True
    then obtain t where t: "step s = Inr t" "walk step busy (guard + 1) t = Inr s'" "\<not> guard + 1 > MAX_STEPS"
      using "1.prems"(1) walk.simps [of step busy guard s] by (auto split: if_splits sum.splits)
    from "1.IH" [OF True t(3,1) t(2)] "1.prems"(2,3) True t(1) show ?thesis by blast
  next
    case False
    then show ?thesis using "1.prems" walk.simps [of step busy guard s] by simp
  qed
qed

lemma dest_step_later:
  assumes "dest_step z cal (c, r) = Inr (c', r')" "0 < r" shows "c < c'"
proof -
  have "0 < secs_to_next_hour (local_fields (local_secs z c))"
    using pos_mod_bound [of 3600 "local_secs z c"] by simp
  then show ?thesis
    using assms by (auto simp: dest_step_def from_timestamp_def Let_def res_bind_Inr_iff split: if_splits)
qed

lemma destination_later:
  assumes "destination_time_epoch zones cal start minutes = Inr d" shows "start \<le> d"
proof (cases "minutes * 60 \<le> 0 \<or> \<not> has_working_hours cal")
  case True
  then show ?thesis using assms by (auto simp: destination_time_epoch_def split: if_splits)
next
  case False
  then obtain s where s: "walk (dest_step (tzinfo zones (wc_time_zone cal)) cal) (\<lambda>s. snd s > 0) 0 (start, minutes * 60) = Inr s"
      "d = fst s"
    using assms by (auto simp: destination_time_epoch_def res_bind_Inr_iff)
  have "start \<le> fst s \<and> \<not> snd s > 0"
    by (rule walk_invariant [OF s(1), where P = "\<lambda>s. start \<le> fst s"]) (use dest_step_later in fastforce)+
  then show ?thesis using s(2) by simp
qed

lemma deadline_positive: "deadline env cal start minutes = Inr (Some d) \<Longrightarrow> 0 < start \<Longrightarrow> 0 < d"
  using destination_later by (fastforce simp: deadline_def split: sum.splits)

text \<open>The stored times of a ticket lie after the epoch.\<close>

definition times_positive :: "esc_env \<Rightarrow> esc_db \<Rightarrow> esc_ticket \<Rightarrow> bool" where
  "times_positive env db t \<longleftrightarrow>
     0 < to_epoch (ee_wall env) (otrs_time_zone (ee_config env)) (et_created t) \<and>
     list_all (\<lambda>a. 0 < to_epoch (ee_wall env) (otrs_time_zone (ee_config env)) (ea_created a)) (articles_of db (et_id t))"

lemma sender_walk_in:
  "sender_walk older last_time customer = Some t \<Longrightarrow> last_time = Some t \<or> t \<in> ea_created ` set older"
  by (induction older last_time customer rule: sender_walk.induct) (auto simp: Let_def split: if_splits option.splits)

lemma index_columns_earliest:
  assumes "index_columns env db t = Inr (Some (r, u, s, e))" "times_positive env db t"
  shows "e = earliest [r, u, s]" "0 \<le> r" "0 \<le> u" "0 \<le> s"
proof -
  have "e = earliest [r, u, s] \<and> 0 \<le> r \<and> 0 \<le> u \<and> 0 \<le> s"
  proof (cases "map_of (ed_states db) (et_state t)")
    case (Some st)
    show ?thesis
    proof (cases "no_escalation_state st")
      case True
      then show ?thesis using assms Some by (simp add: index_columns_def earliest_def)
    next
      case False
      obtain rm um sm calendar where prefs:
          "escalation_preferences db (if et_sla t = Some 0 then None else et_sla t) (et_queue t) = (rm, um, sm, calendar)"
        by (metis surj_pair)
      let ?cal = "calendar_config (ee_config env) calendar"
      let ?created = "to_epoch (ee_wall env) (otrs_time_zone (ee_config env)) (et_created t)"
      obtain r' u' s' where d: "response_deadline env ?cal db (et_id t) ?created rm = Inr r'"
          "update_deadline env ?cal db (et_id t) st um = Inr u'" "solution_deadline env ?cal db (et_id t) ?created sm = Inr s'"
          and eq: "r = set_or_zero r'" "u = set_or_zero u'" "s = set_or_zero s'" "e = sooner (sooner (set_or_zero r') u') s'"
        using assms(1) Some False prefs by (auto simp: index_columns_def Let_def res_bind_Inr_iff)
      have created: "0 < ?created" using assms(2) by (simp add: times_positive_def)
      have r: "\<And>d. r' = Some d \<Longrightarrow> 0 < d"
        using d(1) deadline_positive created by (fastforce simp: response_deadline_def split: if_splits)
      have s: "\<And>d. s' = Some d \<Longrightarrow> 0 < d"
        using d(3) deadline_positive created by (fastforce simp: solution_deadline_def split: if_splits)
      have u: "\<And>d. u' = Some d \<Longrightarrow> 0 < d"
      proof -
        fix x assume x: "u' = Some x"
        then obtain a where a: "last_sender_time db (et_id t) = Some a"
            "deadline env ?cal (to_epoch (ee_wall env) (otrs_time_zone (ee_config env)) a) um = Inr (Some x)"
          using d(2) by (auto simp: update_deadline_def split: if_splits option.splits)
        then have "a \<in> ea_created ` set (articles_of db (et_id t))"
          using sender_walk_in by (fastforce simp: last_sender_time_def)
        then show "0 < x" using a(2) deadline_positive assms(2) by (auto simp: times_positive_def list_all_iff)
      qed
      have "0 \<le> set_or_zero x" if "\<And>d. x = Some d \<Longrightarrow> 0 < d" for x
        using that by (cases x) (force simp: set_or_zero_def)+
      then show ?thesis using sooner_earliest [OF r u s] r u s eq by simp
    qed
  qed (use assms in \<open>simp add: index_columns_def\<close>)
  then show "e = earliest [r, u, s]" "0 \<le> r" "0 \<le> u" "0 \<le> s" by simp_all
qed

lemma nearest_deadline_earliest:
  assumes "et_escalation t = earliest [et_response t, et_update t, et_solution t]"
    "0 \<le> et_response t" "0 \<le> et_update t" "0 \<le> et_solution t"
  shows "map_option fst (nearest_deadline t) = (if et_escalation t = 0 then None else Some (et_escalation t))"
  using assms
  by (cases "et_response t = 0"; cases "et_update t = 0"; cases "et_solution t = 0")
    (auto simp: nearest_deadline_def DEADLINE_KINDS_def earliest_def min_def Let_def)

text \<open>
  C19. The index of a ticket: where it is computed, the escalation time is the earliest of the deadlines that run for
  it, or 0 where none runs (always so for merged, closed and removed tickets), which is also the nearest deadline the
  dashboard shows; nothing but the row of this ticket is changed.
\<close>

theorem index_is_earliest:
  assumes "escalation_index_build env now tid uid db = Inr db'" and "find_ticket db tid = Some t"
    and "map_of (ed_states db) (et_state t) = Some state_type" and "times_positive env db t"
  shows "\<exists>t'. find_ticket db' tid = Some t' \<and>
    et_escalation t' = earliest [et_response t', et_update t', et_solution t'] \<and>
    map_option fst (nearest_deadline t') = (if et_escalation t' = 0 then None else Some (et_escalation t')) \<and>
    (no_escalation_state state_type \<longrightarrow> et_escalation t' = 0) \<and>
    filter (\<lambda>x. et_id x \<noteq> tid) (ed_tickets db') = filter (\<lambda>x. et_id x \<noteq> tid) (ed_tickets db) \<and>
    db'\<lparr>ed_tickets := ed_tickets db\<rparr> = db"
proof -
  obtain c where c: "index_columns env db t = Inr c"
      "(case c of None \<Rightarrow> Inr db | Some c \<Rightarrow> Inr (db\<lparr>ed_tickets := upd_where (\<lambda>t. et_id t = tid) (with_columns now uid c) (ed_tickets db)\<rparr>))
        = (Inr db' :: esc_error + esc_db)"
    using assms(1,2) by (auto simp: index_build_eq res_bind_Inr_iff)
  have "c \<noteq> None"
    using c(1) assms(3) by (auto simp: index_columns_def Let_def res_bind_Inr_iff split: if_splits prod.splits)
  then obtain r u s e where cs: "c = Some (r, u, s, e)" by (metis option.exhaust surj_pair)
  let ?t = "with_columns now uid (r, u, s, e) t"
  have db': "db' = db\<lparr>ed_tickets := upd_where (\<lambda>t. et_id t = tid) (with_columns now uid (r, u, s, e)) (ed_tickets db)\<rparr>"
    using c(2) by (simp add: cs)
  have "find_ticket db' tid = Some ?t"
    using find_ticket_row [of "with_columns now uid (r, u, s, e)" tid] assms(2) by (simp add: db' find_ticket_def)
  moreover note cols = index_columns_earliest [OF c(1) [unfolded cs] assms(4)]
  moreover have "map_option fst (nearest_deadline ?t) = (if et_escalation ?t = 0 then None else Some (et_escalation ?t))"
    by (rule nearest_deadline_earliest) (simp_all add: cols)
  moreover have "no_escalation_state state_type \<longrightarrow> e = 0"
    using c(1) assms(3) by (auto simp: index_columns_def cs)
  ultimately show ?thesis by (simp add: db' filter_upd_where_other)
qed

section \<open>Sweeping twice\<close>

definition ESCALATION_EVENTS :: "string list" where
  "ESCALATION_EVENTS = concat (map (\<lambda>c. [col_start c, col_stop c, col_notify c]) COLUMNS)"

text \<open>What the events of a sweep add to the tables\<close>

definition grown :: "int \<Rightarrow> esc_db \<Rightarrow> esc_db \<Rightarrow> bool" where
  "grown tid db db' \<longleftrightarrow>
     (\<exists>hs es. db' = db\<lparr>ed_history := ed_history db @ hs, ed_outbox := ed_outbox db @ es\<rparr> \<and>
        list_all (\<lambda>h. eh_ticket h = tid \<and> list_ex (\<lambda>n. (eh_type_id h, n) \<in> set (ed_history_types db)) ESCALATION_EVENTS) hs)"

lemma grown_refl [simp]: "grown tid db db"
  unfolding grown_def by (rule exI [of _ "[]"], rule exI [of _ "[]"]) simp

lemma grown_trans: "grown tid db db' \<Longrightarrow> grown tid db' db'' \<Longrightarrow> grown tid db db''"
proof -
  assume "grown tid db db'" "grown tid db' db''"
  then obtain hs es hs' es' where
    "db' = db\<lparr>ed_history := ed_history db @ hs, ed_outbox := ed_outbox db @ es\<rparr>"
    "list_all (\<lambda>h. eh_ticket h = tid \<and> list_ex (\<lambda>n. (eh_type_id h, n) \<in> set (ed_history_types db)) ESCALATION_EVENTS) hs"
    "db'' = db'\<lparr>ed_history := ed_history db' @ hs', ed_outbox := ed_outbox db' @ es'\<rparr>"
    "list_all (\<lambda>h. eh_ticket h = tid \<and> list_ex (\<lambda>n. (eh_type_id h, n) \<in> set (ed_history_types db')) ESCALATION_EVENTS) hs'"
    unfolding grown_def by blast
  then show ?thesis
    unfolding grown_def by (intro exI [of _ "hs @ hs'"] exI [of _ "es @ es'"]) simp
qed

lemma grown_frame:
  assumes "grown tid db db'"
  shows "ed_tickets db' = ed_tickets db" "ed_states db' = ed_states db" "ed_articles db' = ed_articles db"
    "ed_history_types db' = ed_history_types db" "ed_slas db' = ed_slas db" "ed_queues db' = ed_queues db"
    "set (ed_history db) \<subseteq> set (ed_history db')"
  using assms by (auto simp: grown_def)

lemma fire_grown:
  assumes "fire now tid uid event name db = Inr db'" "event \<in> set ESCALATION_EVENTS"
  shows "grown tid db db'" "length name \<le> 200 \<Longrightarrow> notify_before_seen db' tid event name"
proof -
  obtain t i n where t: "find_ticket db tid = Some t" and i: "find (\<lambda>(i, n). n = event) (ed_history_types db) = Some (i, n)"
    using assms(1) by (auto simp: fire_def history_add_def res_bind_Inr_iff split: option.splits)
  then have type: "(i, event) \<in> set (ed_history_types db)" by (auto simp: find_Some_iff) (metis nth_mem)
  define h where "h = \<lparr>eh_ticket = tid, eh_name = take 200 name, eh_type_id = i, eh_queue = et_queue t,
    eh_type = (case et_type t of None \<Rightarrow> 1 | Some ty \<Rightarrow> ty), eh_owner = et_owner t, eh_priority = et_priority t,
    eh_state = et_state t, eh_created = now, eh_by = uid\<rparr>"
  have h: "eh_ticket h = tid" "eh_name h = take 200 name" "eh_type_id h = i" by (simp_all add: h_def)
  have db': "db' = db\<lparr>ed_history := ed_history db @ [h], ed_outbox := ed_outbox db @ [(event, tid, [])]\<rparr>"
    using assms(1) t i by (simp add: fire_def history_add_def emit_event_def h_def)
  show "grown tid db db'"
    unfolding grown_def
    by (rule exI [of _ "[h]"], rule exI [of _ "[(event, tid, [])]"]) (use type h assms(2) db' in \<open>auto simp: list_ex_iff\<close>)
  show "length name \<le> 200 \<Longrightarrow> notify_before_seen db' tid event name"
    using type h by (simp add: notify_before_seen_def db')
qed

lemma seen_grown: "notify_before_seen db tid htype m \<Longrightarrow> grown tid' db db' \<Longrightarrow> notify_before_seen db' tid htype m"
  using grown_frame [of tid' db db'] by (auto simp: notify_before_seen_def list_ex_iff)

text \<open>Whether a column is due for a notification that is not in the history yet\<close>

definition notified :: "int \<Rightarrow> int \<Rightarrow> int \<Rightarrow> esc_column \<Rightarrow> int \<Rightarrow> esc_db \<Rightarrow> bool" where
  "notified now_epoch window tid col v db \<longleftrightarrow>
     (v \<noteq> 0 \<and> v > now_epoch \<and> v - now_epoch \<le> window \<longrightarrow> notify_before_seen db tid (col_notify col) (int_text v))"

lemma notified_grown: "notified e w tid col v db \<Longrightarrow> grown tid' db db' \<Longrightarrow> notified e w tid col v db'"
  using seen_grown by (fastforce simp: notified_def)

lemma sweep_column_grown:
  assumes "sweep_column now e w tid uid before after col (f, db) = Inr (f', db')" "col \<in> set COLUMNS"
    "length (int_text (col_value col after)) \<le> 200"
  shows "grown tid db db'" "notified e w tid col (col_value col after) db'"
proof -
  have ev: "col_start col \<in> set ESCALATION_EVENTS" "col_stop col \<in> set ESCALATION_EVENTS" "col_notify col \<in> set ESCALATION_EVENTS"
    using assms(2) by (auto simp: ESCALATION_EVENTS_def)
  obtain f1 db1 where 1: "start_stop now tid uid col (col_value col before) (col_value col after) (f, db) = Inr (f1, db1)"
      "notify_before now e w tid uid col (col_value col after) (f1, db1) = Inr (f', db')"
    using assms(1) by (auto simp: sweep_column_def res_bind_Inr_iff)
  have g1: "grown tid db db1"
    using 1(1) fire_grown(1) ev(1,2) by (fastforce simp: start_stop_def res_bind_Inr_iff split: if_splits)
  have g2: "grown tid db1 db'"
    using 1(2) fire_grown(1) ev(3) by (fastforce simp: notify_before_def res_bind_Inr_iff split: if_splits)
  show "grown tid db db'" by (rule grown_trans [OF g1 g2])
  show "notified e w tid col (col_value col after) db'"
    using 1(2) fire_grown(2) [OF _ ev(3) assms(3)]
    by (auto simp: notify_before_def notified_def res_bind_Inr_iff split: if_splits)
qed

lemma sweep_column_again:
  assumes "notified e w tid col (col_value col after) db"
  shows "sweep_column now e w tid uid after after col (f, db) = Inr (f, db)"
  using assms by (auto simp: sweep_column_def start_stop_def notify_before_def notified_def)

text \<open>The index reads nothing a sweep writes.\<close>

lemma solution_done_grown:
  assumes "grown tid' db db'" "distinct (map fst (ed_history_types db))"
  shows "solution_done db' tid = solution_done db tid"
proof -
  obtain hs es where db': "db' = db\<lparr>ed_history := ed_history db @ hs, ed_outbox := ed_outbox db @ es\<rparr>"
    and hs: "list_all (\<lambda>h. eh_ticket h = tid' \<and> list_ex (\<lambda>n. (eh_type_id h, n) \<in> set (ed_history_types db)) ESCALATION_EVENTS) hs"
    using assms(1) unfolding grown_def by blast
  have other: "n \<notin> {''StateUpdate'', ''NewTicket''}" if "n \<in> set ESCALATION_EVENTS" for n
    using that by (auto simp: ESCALATION_EVENTS_def COLUMNS_def)
  have "\<not> list_ex (\<lambda>(i, n). i = eh_type_id h \<and> n \<in> {''StateUpdate'', ''NewTicket''}) (ed_history_types db)"
    if h: "h \<in> set hs" for h
  proof
    assume "list_ex (\<lambda>(i, n). i = eh_type_id h \<and> n \<in> {''StateUpdate'', ''NewTicket''}) (ed_history_types db)"
    then obtain n where n: "(eh_type_id h, n) \<in> set (ed_history_types db)" "n \<in> {''StateUpdate'', ''NewTicket''}"
      by (auto simp: list_ex_iff)
    obtain m where m: "m \<in> set ESCALATION_EVENTS" "(eh_type_id h, m) \<in> set (ed_history_types db)"
      using hs h by (auto simp: list_all_iff list_ex_iff)
    have "n = m" using eq_key_imp_eq_value [OF assms(2) n(1) m(2)] .
    then show False using n(2) other [OF m(1)] by simp
  qed
  then have "\<not> list_ex (\<lambda>h. eh_ticket h = tid \<and> (eh_state h, ''closed'') \<in> set (ed_states db) \<and>
      list_ex (\<lambda>(i, n). i = eh_type_id h \<and> n \<in> {''StateUpdate'', ''NewTicket''}) (ed_history_types db)) hs"
    unfolding list_ex_iff by blast
  then show ?thesis by (simp add: solution_done_def db')
qed

lemma index_columns_again:
  assumes grown: "grown tid (db\<lparr>ed_tickets := ts\<rparr>) db'" and types: "distinct (map fst (ed_history_types db))"
    and same: "et_id t' = et_id t" "et_state t' = et_state t" "et_sla t' = et_sla t" "et_queue t' = et_queue t"
      "et_created t' = et_created t"
  shows "index_columns env db' t' = index_columns env db t"
proof -
  note frame = grown_frame [OF grown]
  have "articles_of db' i = articles_of db i" for i by (simp add: articles_of_def frame)
  then have sender: "last_sender_time db' i = last_sender_time db i" for i by (simp add: last_sender_time_def)
  have "first_response_done db' i = first_response_done db i" for i
    by (simp add: first_response_done_def frame)
  then have response: "response_deadline env cal db' i c m = response_deadline env cal db i c m" for cal i c m
    by (simp add: response_deadline_def)
  have update: "update_deadline env cal db' i st m = update_deadline env cal db i st m" for cal i st m
    by (simp add: update_deadline_def sender)
  have "solution_done db' i = solution_done db i" for i
    using solution_done_grown [OF grown, of i] types by (simp add: solution_done_def)
  then have solution: "solution_deadline env cal db' i c m = solution_deadline env cal db i c m" for cal i c m
    by (simp add: solution_deadline_def)
  have prefs: "escalation_preferences db' a b = escalation_preferences db a b" for a b
    by (cases a) (simp_all add: escalation_preferences_def frame)
  have states: "ed_states db' = ed_states db" by (simp add: frame)
  show ?thesis
    unfolding index_columns_def same prefs response update solution states by (rule refl)
qed

lemma sweep_columns_grown:
  assumes "res_fold (sweep_column now e w tid uid before after) cols (f, db) = Inr (f', db')" "set cols \<subseteq> set COLUMNS"
    "\<And>c. c \<in> set cols \<Longrightarrow> length (int_text (col_value c after)) \<le> 200"
  shows "grown tid db db' \<and> (\<forall>c \<in> set cols. notified e w tid c (col_value c after) db')"
  using assms
proof (induction cols arbitrary: f db)
  case (Cons c cols)
  obtain f1 db1 where 1: "sweep_column now e w tid uid before after c (f, db) = Inr (f1, db1)"
      "res_fold (sweep_column now e w tid uid before after) cols (f1, db1) = Inr (f', db')"
    using Cons.prems(1) by (auto simp: res_bind_Inr_iff)
  have c: "c \<in> set COLUMNS" "length (int_text (col_value c after)) \<le> 200" using Cons.prems(2,3) by simp_all
  have "grown tid db1 db' \<and> (\<forall>c \<in> set cols. notified e w tid c (col_value c after) db')"
    using Cons.IH [OF 1(2)] Cons.prems(2,3) by simp
  then show ?case
    using sweep_column_grown [OF 1(1) c] grown_trans notified_grown by (metis set_ConsD)
qed simp

lemma fire_tickets: "fire now tid uid event name db = Inr db' \<Longrightarrow> ed_tickets db' = ed_tickets db"
  by (auto simp: fire_def history_add_def emit_event_def res_bind_Inr_iff split: option.splits)

lemma sweep_column_tickets:
  "sweep_column now e w tid uid before after c (f, db) = Inr (f', db') \<Longrightarrow> ed_tickets db' = ed_tickets db"
  by (auto simp: sweep_column_def start_stop_def notify_before_def res_bind_Inr_iff dest!: fire_tickets split: if_splits)

lemma sweep_columns_tickets:
  "res_fold (sweep_column now e w tid uid before after) cols (f, db) = Inr (f', db') \<Longrightarrow> ed_tickets db' = ed_tickets db"
  by (induction cols arbitrary: f db) (auto simp: res_bind_Inr_iff dest: sweep_column_tickets)

lemma sweep_columns_again:
  assumes "\<And>c. c \<in> set cols \<Longrightarrow> notified e w tid c (col_value c after) db"
  shows "res_fold (sweep_column now e w tid uid after after) cols (f, db) = Inr (f, db)"
  using assms by (induction cols) (simp_all add: sweep_column_again)

lemma upd_where_idem:
  assumes "\<And>x. p (f x) = p x" "\<And>x. f (f x) = f x"
  shows "upd_where p f (upd_where p f xs) = upd_where p f xs"
  using assms by (simp add: upd_where_def)

lemma show_nat_length: "n < 10 ^ k \<Longrightarrow> 0 < k \<Longrightarrow> length (show_nat n) \<le> k"
proof (induction n arbitrary: k rule: show_nat.induct)
  case (1 n)
  show ?case
  proof (cases "n < 10")
    case False
    then obtain j where k: "k = Suc j" "0 < j" using "1.prems" by (cases k; cases "k - 1") auto
    then have "n div 10 < 10 ^ j" using "1.prems"(1) by (simp add: div_less_iff_less_mult)
    then show ?thesis using "1.IH" [OF False] k False by (simp add: show_nat.simps [of n])
  qed (use "1.prems" in \<open>simp add: show_nat.simps [of n]\<close>)
qed

lemma int_text_length:
  assumes "\<bar>i\<bar> < 2 ^ 63" shows "length (int_text i) \<le> 200"
proof -
  have "(2 :: nat) ^ 63 < 10 ^ 199" by simp
  moreover have "nat \<bar>i\<bar> < 2 ^ 63" using assms by (simp add: nat_less_iff)
  ultimately have "length (show_nat (nat \<bar>i\<bar>)) \<le> 199" by (intro show_nat_length) simp_all
  then show ?thesis by (auto simp: int_text_def abs_if split: if_splits)
qed

text \<open>
  C18. The sweep is idempotent: once it has handled a ticket, handling it again at the same time finds nothing to start,
  stop or announce and changes nothing, neither the columns nor the history nor the outbox.
\<close>

theorem sweep_twice:
  assumes "sweep_ticket env now now_epoch window tid uid db = Inr (f, db')"
    and "distinct (map fst (ed_history_types db))"
    and "list_all (\<lambda>t. list_all (\<lambda>c. \<bar>col_value c t\<bar> < 2 ^ 63) COLUMNS) (ed_tickets db')"
  shows "sweep_ticket env now now_epoch window tid uid db' = Inr (none_fired, db')"
proof (cases "find_ticket db tid")
  case None
  then show ?thesis using assms(1) by (simp add: sweep_ticket_def)
next
  case (Some before)
  define put where "put = (\<lambda>c (db :: esc_db). db\<lparr>ed_tickets := upd_where (\<lambda>t. et_id t = tid) (with_columns now uid c) (ed_tickets db)\<rparr>)"
  have build: "escalation_index_build env now tid uid x = (case find_ticket x tid of None \<Rightarrow> Inr x
      | Some t \<Rightarrow> res_bind (index_columns env x t) (\<lambda>c. Inr (case c of None \<Rightarrow> x | Some c \<Rightarrow> put c x)))" for x
    by (cases "find_ticket x tid") (simp_all add: index_build_eq put_def res_bind_def split: option.split sum.split)
  obtain c where c: "index_columns env db before = Inr c"
    using assms(1) Some by (auto simp: sweep_ticket_def build res_bind_Inr_iff)
  define db1 after where "db1 = (case c of None \<Rightarrow> db | Some c \<Rightarrow> put c db)"
    and "after = (case c of None \<Rightarrow> before | Some c \<Rightarrow> with_columns now uid c before)"
  have after: "find_ticket db1 tid = Some after"
    using Some find_ticket_row [of "with_columns now uid (the c)" tid "ed_tickets db" before]
    by (cases c) (simp_all add: db1_def after_def put_def find_ticket_def)
  have fold: "res_fold (sweep_column now now_epoch window tid uid before after) COLUMNS (none_fired, db1) = Inr (f, db')"
    using assms(1) Some c after by (simp add: sweep_ticket_def build db1_def [symmetric])
  have ts: "db1 = db\<lparr>ed_tickets := ed_tickets db1\<rparr>" by (simp add: db1_def put_def split: option.split)
  have member: "after \<in> set (ed_tickets db1)" using after by (auto simp: find_ticket_def find_Some_iff)
  have frame: "ed_tickets db' = ed_tickets db1" by (rule sweep_columns_tickets [OF fold])
  have len: "length (int_text (col_value col after)) \<le> 200" if "col \<in> set COLUMNS" for col
    using assms(3) member that by (intro int_text_length) (auto simp: list_all_iff frame)
  have grown: "grown tid db1 db'" and noted: "\<And>col. col \<in> set COLUMNS \<Longrightarrow> notified now_epoch window tid col (col_value col after) db'"
    using sweep_columns_grown [OF fold subset_refl len] by blast+
  have grown': "grown tid (db\<lparr>ed_tickets := ed_tickets db1\<rparr>) db'" using grown by (simp only: ts [symmetric])
  have found: "find_ticket db' tid = Some after" using after by (simp add: find_ticket_def frame)
  have "index_columns env db' after = Inr c"
    using index_columns_again [OF grown' assms(2), of after before env] c by (simp add: after_def split: option.split)
  moreover have "(case c of None \<Rightarrow> db' | Some c \<Rightarrow> put c db') = db'"
  proof (cases c)
    case (Some cc)
    have "upd_where (\<lambda>t. et_id t = tid) (with_columns now uid cc) (ed_tickets db') = ed_tickets db'"
      unfolding frame db1_def Some put_def
      by (simp add: upd_where_idem with_columns_def split: prod.split)
    then show ?thesis by (simp add: Some put_def)
  qed simp
  ultimately have "escalation_index_build env now tid uid db' = Inr db'" by (simp add: build found)
  with found show ?thesis by (simp add: sweep_ticket_def sweep_columns_again [OF noted])
qed

section \<open>Who is looked at\<close>

text \<open>An agent's visible article that is the newest starts the update clock anew; it does not stop it.\<close>

lemma agent_reply_restarts:
  "ea_visible a \<Longrightarrow> ea_sender a = ''agent'' \<Longrightarrow> sender_walk (a # older) None False = Some (ea_created a)"
  by simp

text \<open>
  A batch in which every ticket fails leaves everything as it is, so the next tick takes the same batch again and never
  comes to the tickets behind it.
\<close>

lemma failed_batch_repeats:
  assumes "list_all (\<lambda>i. case sweep_ticket env (fst (clock i)) (snd (clock i)) window i uid db of Inl _ \<Rightarrow> True | Inr _ \<Rightarrow> False)
      (sweepable_ticket_ids db batch)"
  shows "snd (run_escalation_tick env enabled batch window uid clock db) = db"
proof -
  have "snd (sweep_tickets env window uid (map (\<lambda>i. (i, clock i)) ids) (r, db)) = db"
    if "list_all (\<lambda>i. case sweep_ticket env (fst (clock i)) (snd (clock i)) window i uid db of Inl _ \<Rightarrow> True | Inr _ \<Rightarrow> False) ids"
    for ids r
    using that
  proof (induction ids arbitrary: r)
    case (Cons i ids)
    obtain now e where "clock i = (now, e)" by force
    with Cons show ?case by (auto split: sum.splits)
  qed simp
  note same = this [OF assms, of "\<lparr>sr_swept = 0, sr_fired = none_fired, sr_errors = 0\<rparr>"]
  show ?thesis
    by (cases enabled) (use same in \<open>simp_all add: run_escalation_tick_def prod.case_eq_if\<close>)
qed

section \<open>A ticket swept\<close>

definition sample_esc_env :: esc_env where
  "sample_esc_env = \<lparr>ee_zones = sample_zones, ee_wall = (\<lambda>_ _. 0),
     ee_config = \<lparr>sc_text = (\<lambda>_. None), sc_flag = (\<lambda>_. None), sc_list = (\<lambda>_. None), sc_hours = (\<lambda>_. map (\<lambda>d. (d, office_hours)) [''Mon'', ''Tue'', ''Wed'', ''Thu'', ''Fri'']),
       sc_vacation = (\<lambda>_ _ _. None), sc_vacation_once = (\<lambda>_ _ _ _. None)\<rparr>\<rparr>"

definition sample_esc_db :: esc_db where
  "sample_esc_db = \<lparr>
     ed_tickets = [\<lparr>et_id = 7, et_title = Some ''Printer'', et_queue = 1, et_type = None, et_owner = 2,
       et_responsible = 1, et_priority = 3, et_state = 1, et_lock = 1, et_service = None, et_sla = None, et_customer = None,
       et_customer_user = None, et_archive = 0, et_until = 0, et_timeout = 0, et_created = 1711726200, et_response = 0, et_update = 0, et_solution = 1711700000, et_escalation = 0,
       et_change_time = 0, et_change_by = 2\<rparr>],
     ed_states = [(1, ''open''), (2, ''closed'')],
     ed_state_names = [(1, ''open''), (2, ''closed successful'')],
     ed_articles = [\<lparr>ea_ticket = 7, ea_sender = ''customer'', ea_visible = True, ea_created = 1711726200\<rparr>],
     ed_history = [\<lparr>eh_ticket = 7, eh_name = [], eh_type_id = 27, eh_queue = 1, eh_type = 1, eh_owner = 2, eh_priority = 3,
       eh_state = 2, eh_created = 0, eh_by = 2\<rparr>],
     ed_history_types = (27, ''StateUpdate'') # zip [31..39] ESCALATION_EVENTS,
     ed_slas = [],
     ed_sla_names = [],
     ed_queues = [(1, \<lparr>eg_response = Some 30, eg_update = Some 60, eg_solution = Some 90, eg_calendar = None\<rparr>),
       (2, \<lparr>eg_response = None, eg_update = None, eg_solution = None, eg_calendar = None\<rparr>)],
     ed_queue_names = [(1, ''Raw'', 1), (2, ''Junk'', 1)],
     ed_priorities = [(3, ''3 normal''), (5, ''5 very high'')],
     ed_types = [(1, ''Unclassified'')],
     ed_locks = [(1, ''unlock''), (2, ''lock''), (3, ''tmp_lock'')],
     ed_users = [(1, \<lparr>un_login = ''root@localhost'', un_first = ''Admin'', un_last = ''Znuny''\<rparr>),
       (2, \<lparr>un_login = ''anna'', un_first = ''Anna'', un_last = ''Acker''\<rparr>),
       (3, \<lparr>un_login = ''ben'', un_first = ''Ben'', un_last = ''Bach''\<rparr>)],
     ed_watchers = [], ed_index = [], ed_lock_index = [], ed_ai = [],
     ed_outbox = [], ed_invalidations = []\<rparr>"

definition sample_ticket :: esc_ticket where
  "sample_ticket = hd (ed_tickets sample_esc_db)"

definition sample_columns :: "int \<times> int \<times> int \<times> int" where
  "sample_columns = (1711728000, 1711729800, 0, 1711728000)"

definition sample_built :: esc_db where
  "sample_built = sample_esc_db\<lparr>ed_tickets := [with_columns 1711726300 1 sample_columns sample_ticket]\<rparr>"

lemma sample_index: "index_columns sample_esc_env sample_esc_db sample_ticket = Inr (Some sample_columns)"
  by code_simp

lemma sample_found:
  "find_ticket sample_esc_db 7 = Some sample_ticket"
  "find_ticket sample_built 7 = Some (with_columns 1711726300 1 sample_columns sample_ticket)"
  "map_of (ed_states sample_esc_db) (et_state sample_ticket) = Some ''open''"
  by (simp_all add: find_ticket_def sample_ticket_def sample_esc_db_def sample_built_def)

lemma sample_build: "escalation_index_build sample_esc_env 1711726300 7 1 sample_esc_db = Inr sample_built"
  by (simp add: index_build_eq sample_found sample_index sample_built_def)
    (simp add: sample_ticket_def sample_esc_db_def)

text \<open>The first sweep starts two clocks, stops the third and announces both deadlines.\<close>

lemma int_text_not_Nil [simp]: "int_text i \<noteq> []" "[] \<noteq> int_text i"
  using show_nat_not_Nil by (simp_all add: int_text_def, metis)

lemmas sweep_defs = sweep_column_def start_stop_def notify_before_def notify_before_seen_def fire_def history_add_def
  emit_event_def find_ticket_def

lemma sample_events:
  "case res_fold (sweep_column 1711726300 1711726300 86400 7 1 sample_ticket (with_columns 1711726300 1 sample_columns sample_ticket))
      COLUMNS (none_fired, sample_built) of
     Inr (f, db') \<Rightarrow> f = \<lparr>fd_start = 2, fd_stop = 1, fd_notify = 2\<rparr> \<and> length (ed_outbox db') = 5
   | Inl _ \<Rightarrow> False"
proof -
  have types: "ed_history_types sample_built = (27, ''StateUpdate'') # zip [31,32,33,34,35,36,37,38,39] ESCALATION_EVENTS"
    by (simp add: sample_built_def sample_esc_db_def upto.simps)
  have built: "ed_tickets sample_built = [with_columns 1711726300 1 sample_columns sample_ticket]" "ed_outbox sample_built = []"
      "list_all (\<lambda>h. eh_name h = []) (ed_history sample_built)"
    by (simp_all add: sample_built_def sample_esc_db_def)
  have ticket: "et_id sample_ticket = 7" "et_response sample_ticket = 0" "et_update sample_ticket = 0" "et_solution sample_ticket \<noteq> 0"
    by (simp_all add: sample_ticket_def sample_esc_db_def)
  have unseen: "\<not> list_ex (\<lambda>h. eh_ticket h = 7 \<and> eh_name h = int_text v \<and> P h) (ed_history sample_built)" for v P
    using built(3) by (auto simp: list_all_iff list_ex_iff)
  show ?thesis
    by (simp add: COLUMNS_def sweep_defs types built ticket unseen sample_columns_def ESCALATION_EVENTS_def none_fired_def)
qed

lemma sample_sweep:
  obtains f db' where "sweep_ticket sample_esc_env 1711726300 1711726300 86400 7 1 sample_esc_db = Inr (f, db')"
    "f = \<lparr>fd_start = 2, fd_stop = 1, fd_notify = 2\<rparr>" "length (ed_outbox db') = 5" "ed_tickets db' = ed_tickets sample_built"
proof -
  obtain f db' where r: "res_fold (sweep_column 1711726300 1711726300 86400 7 1 sample_ticket
        (with_columns 1711726300 1 sample_columns sample_ticket)) COLUMNS (none_fired, sample_built) = Inr (f, db')"
      "f = \<lparr>fd_start = 2, fd_stop = 1, fd_notify = 2\<rparr>" "length (ed_outbox db') = 5"
    using sample_events by (auto split: sum.splits prod.splits)
  moreover have "sweep_ticket sample_esc_env 1711726300 1711726300 86400 7 1 sample_esc_db = Inr (f, db')"
    using r(1) by (simp add: sweep_ticket_def sample_found sample_build)
  ultimately show thesis using that sweep_columns_tickets by blast
qed

theorem index_is_earliest_witness:
  "\<exists>t'. find_ticket sample_built 7 = Some t' \<and> et_escalation t' = earliest [et_response t', et_update t', et_solution t']"
proof -
  have "times_positive sample_esc_env sample_esc_db sample_ticket" by code_simp
  from index_is_earliest [OF sample_build sample_found(1,3) this] show ?thesis by blast
qed

theorem sweep_twice_witness:
  "\<exists>db'. sweep_ticket sample_esc_env 1711726300 1711726300 86400 7 1 db' = Inr (none_fired, db') \<and> length (ed_outbox db') = 5"
proof (rule sample_sweep)
  fix f db'
  assume r: "sweep_ticket sample_esc_env 1711726300 1711726300 86400 7 1 sample_esc_db = Inr (f, db')"
    "length (ed_outbox db') = 5" "ed_tickets db' = ed_tickets sample_built"
  have "distinct (map fst (ed_history_types sample_esc_db))" by code_simp
  moreover have "list_all (\<lambda>t. list_all (\<lambda>c. \<bar>col_value c t\<bar> < 2 ^ 63) COLUMNS) (ed_tickets db')"
    unfolding r(3) by code_simp
  ultimately show ?thesis using sweep_twice [OF r(1)] r(2) by blast
qed

end
