(* ===== verification/Ticket_Writes.thy ===== *)
theory Ticket_Writes
  imports Escalation_Index
begin

text \<open>
  The field changes of \<open>domain/ticket_write_service.py\<close> with the side effects Znuny expects of them: the history line
  (\<open>znuny/history.py\<close>), the static ticket index (\<open>znuny/ticket_index.py\<close>), the escalation columns, the cache
  invalidation and the events. Each operation is a transaction of its own; the clock gives the wall time of the
  database and the seconds since the epoch.
\<close>

record clock =
  ck_now :: int
  ck_epoch :: int

section \<open>History lines\<close>

type_synonym writer = "esc_db \<Rightarrow> esc_error + esc_db"

definition marked :: "string list \<Rightarrow> string" where
  "marked parts = concat (map (\<lambda>p. ''%%'' @ p) parts)"

definition add_state_update :: "clock \<Rightarrow> int \<Rightarrow> int \<Rightarrow> string \<Rightarrow> string \<Rightarrow> writer" where
  "add_state_update ck tid uid old new = history_add (ck_now ck) tid ''StateUpdate'' (marked [old, new, []]) uid"

definition add_move :: "clock \<Rightarrow> int \<Rightarrow> int \<Rightarrow> string \<Rightarrow> int \<Rightarrow> string \<Rightarrow> int \<Rightarrow> writer" where
  "add_move ck tid uid new new_id old old_id =
     history_add (ck_now ck) tid ''Move'' (marked [new, int_text new_id, old, int_text old_id]) uid"

text \<open>Identifiers that are missing are blank.\<close>

definition id_text :: "int \<Rightarrow> string" where
  "id_text i = (if i = 0 then [] else int_text i)"

definition add_type_update :: "clock \<Rightarrow> int \<Rightarrow> int \<Rightarrow> string \<Rightarrow> int \<Rightarrow> string \<Rightarrow> int \<Rightarrow> writer" where
  "add_type_update ck tid uid new new_id old old_id =
     history_add (ck_now ck) tid ''TypeUpdate'' (marked [new, int_text new_id, old, id_text old_id]) uid"

definition add_sla_update :: "clock \<Rightarrow> int \<Rightarrow> int \<Rightarrow> string \<Rightarrow> int \<Rightarrow> string \<Rightarrow> int \<Rightarrow> writer" where
  "add_sla_update ck tid uid new new_id old old_id =
     history_add (ck_now ck) tid ''SLAUpdate'' (marked [new, id_text new_id, old, id_text old_id]) uid"

definition add_priority_update :: "clock \<Rightarrow> int \<Rightarrow> int \<Rightarrow> string \<Rightarrow> int \<Rightarrow> string \<Rightarrow> int \<Rightarrow> writer" where
  "add_priority_update ck tid uid old old_id new new_id =
     history_add (ck_now ck) tid ''PriorityUpdate'' (marked [old, int_text old_id, new, int_text new_id]) uid"

definition add_owner_update :: "clock \<Rightarrow> int \<Rightarrow> int \<Rightarrow> string \<Rightarrow> int \<Rightarrow> writer" where
  "add_owner_update ck tid uid new new_id = history_add (ck_now ck) tid ''OwnerUpdate'' (marked [new, int_text new_id]) uid"

definition add_responsible_update :: "clock \<Rightarrow> int \<Rightarrow> int \<Rightarrow> string \<Rightarrow> int \<Rightarrow> writer" where
  "add_responsible_update ck tid uid new new_id =
     history_add (ck_now ck) tid ''ResponsibleUpdate'' (marked [new, int_text new_id]) uid"

definition add_lock :: "clock \<Rightarrow> int \<Rightarrow> int \<Rightarrow> string \<Rightarrow> writer" where
  "add_lock ck tid uid name =
     history_add (ck_now ck) tid
       (if lower name = ''unlock'' then ''Unlock'' else if lower name = ''lock'' then ''Lock'' else ''Misc'') (marked [name]) uid"

definition add_customer_update :: "clock \<Rightarrow> int \<Rightarrow> int \<Rightarrow> string option \<Rightarrow> string option \<Rightarrow> writer" where
  "add_customer_update ck tid uid customer customer_user db =
     (let line = (case customer of None \<Rightarrow> [] | Some c \<Rightarrow> ''CustomerID='' @ c @ '';'') @
                 (case customer_user of None \<Rightarrow> [] | Some c \<Rightarrow> ''CustomerUser='' @ c @ '';'')
      in if line = [] then Inr db else history_add (ck_now ck) tid ''CustomerUpdate'' (marked [line]) uid db)"

text \<open>A pending time: its instant and the fields of its clock\<close>

record pending =
  pt_epoch :: int
  pt_year :: int
  pt_month :: int
  pt_day :: int
  pt_hour :: int
  pt_minute :: int

definition no_pending :: pending where
  "no_pending = \<lparr>pt_epoch = 0, pt_year = 0, pt_month = 0, pt_day = 0, pt_hour = 0, pt_minute = 0\<rparr>"

definition two_digits :: "int \<Rightarrow> string" where
  "two_digits i = (if 0 \<le> i \<and> i < 10 then CHR ''0'' # int_text i else int_text i)"

definition add_pending_time :: "clock \<Rightarrow> int \<Rightarrow> int \<Rightarrow> pending \<Rightarrow> writer" where
  "add_pending_time ck tid uid p =
     history_add (ck_now ck) tid ''SetPendingTime''
       (marked [two_digits (pt_year p) @ ''-'' @ two_digits (pt_month p) @ ''-'' @ two_digits (pt_day p) @ '' '' @
         two_digits (pt_hour p) @ '':'' @ two_digits (pt_minute p)]) uid"

definition add_subscribe :: "clock \<Rightarrow> int \<Rightarrow> int \<Rightarrow> string \<Rightarrow> writer" where
  "add_subscribe ck tid uid name = history_add (ck_now ck) tid ''Subscribe'' (marked [name]) uid"

definition add_unsubscribe :: "clock \<Rightarrow> int \<Rightarrow> int \<Rightarrow> string \<Rightarrow> writer" where
  "add_unsubscribe ck tid uid name = history_add (ck_now ck) tid ''Unsubscribe'' (marked [name]) uid"

definition add_archive_flag_update :: "clock \<Rightarrow> int \<Rightarrow> int \<Rightarrow> string \<Rightarrow> writer" where
  "add_archive_flag_update ck tid uid flag = history_add (ck_now ck) tid ''ArchiveFlagUpdate'' (marked [flag]) uid"

section \<open>The static ticket index\<close>

definition STATIC_DB :: string where
  "STATIC_DB = ''Kernel::System::Ticket::IndexAccelerator::StaticDB''"

definition is_static_db :: "sys_config \<Rightarrow> bool" where
  "is_static_db sc \<longleftrightarrow> sc_text sc ''Ticket::IndexModule'' = Some STATIC_DB"

definition viewable_state_types :: "sys_config \<Rightarrow> string list" where
  "viewable_state_types sc =
     (case sc_list sc ''Ticket::ViewableStateType'' of
        Some (v # vs) \<Rightarrow> v # vs
      | _ \<Rightarrow> [''new'', ''open'', ''pending reminder'', ''pending auto''])"

text \<open>The row the index should have for a ticket, with its state type and archive flag\<close>

definition index_source :: "esc_db \<Rightarrow> esc_ticket \<Rightarrow> (index_row \<times> string \<times> int) option" where
  "index_source db t =
     (case map_of (ed_queue_names db) (et_queue t) of None \<Rightarrow> None | Some (queue, grp) \<Rightarrow>
     (case map_of (ed_locks db) (et_lock t) of None \<Rightarrow> None | Some lock \<Rightarrow>
     (case map_of (ed_state_names db) (et_state t) of None \<Rightarrow> None | Some state \<Rightarrow>
     (case map_of (ed_states db) (et_state t) of None \<Rightarrow> None | Some state_type \<Rightarrow>
        Some (\<lparr>ix_ticket = et_id t, ix_queue = et_queue t, ix_queue_name = queue, ix_group = grp, ix_lock = lock,
          ix_state = state, ix_created = et_created t\<rparr>, state_type, et_archive t)))))"

definition index_ticket_row :: "esc_db \<Rightarrow> int \<Rightarrow> (index_row \<times> string \<times> int) option" where
  "index_ticket_row db tid = (case find_ticket db tid of None \<Rightarrow> None | Some t \<Rightarrow> index_source db t)"

definition is_viewable :: "sys_config \<Rightarrow> index_row \<times> string \<times> int \<Rightarrow> bool" where
  "is_viewable sc r \<longleftrightarrow> fst (snd r) \<in> set (viewable_state_types sc) \<and> snd (snd r) = 0"

definition ticket_accelerator_add :: "sys_config \<Rightarrow> int \<Rightarrow> esc_db \<Rightarrow> esc_db" where
  "ticket_accelerator_add sc tid db =
     (if \<not> is_static_db sc then db
      else case index_ticket_row db tid of
          None \<Rightarrow> db
        | Some r \<Rightarrow> if is_viewable sc r then db\<lparr>ed_index := ed_index db @ [fst r]\<rparr> else db)"

definition ticket_accelerator_delete :: "sys_config \<Rightarrow> int \<Rightarrow> esc_db \<Rightarrow> esc_db" where
  "ticket_accelerator_delete sc tid db =
     (if \<not> is_static_db sc then db
      else db\<lparr>ed_lock_index := filter (\<lambda>i. i \<noteq> tid) (ed_lock_index db),
             ed_index := filter (\<lambda>r. ix_ticket r \<noteq> tid) (ed_index db)\<rparr>)"

definition needs_resync :: "index_row option \<Rightarrow> index_row \<Rightarrow> bool" where
  "needs_resync idx r \<longleftrightarrow>
     (case idx of None \<Rightarrow> True | Some i \<Rightarrow> ix_lock i \<noteq> ix_lock r \<or> ix_state i \<noteq> ix_state r \<or> ix_queue i \<noteq> ix_queue r)"

definition ticket_accelerator_update :: "sys_config \<Rightarrow> int \<Rightarrow> esc_db \<Rightarrow> esc_db" where
  "ticket_accelerator_update sc tid db =
     (if \<not> is_static_db sc then db
      else case index_ticket_row db tid of
          None \<Rightarrow> db
        | Some r \<Rightarrow>
            let idx = find (\<lambda>i. ix_ticket i = tid) (ed_index db) in
            if \<not> is_viewable sc r then (if idx = None then db else ticket_accelerator_delete sc tid db)
            else if needs_resync idx (fst r)
            then ticket_accelerator_add sc tid (ticket_accelerator_delete sc tid db)
            else db)"

section \<open>Lookups and the end of a write\<close>

definition ticket_must_exist :: "esc_db \<Rightarrow> int \<Rightarrow> esc_error + esc_ticket" where
  "ticket_must_exist db tid = (case find_ticket db tid of None \<Rightarrow> Inl (TicketNotFound tid) | Some t \<Rightarrow> Inr t)"

definition lookup_row :: "(int \<times> 'a) list \<Rightarrow> int \<Rightarrow> esc_error + 'a" where
  "lookup_row table i = (case map_of table i of None \<Rightarrow> Inl InvalidInput | Some r \<Rightarrow> Inr r)"

definition queue_name :: "esc_db \<Rightarrow> int \<Rightarrow> esc_error + string" where
  "queue_name db q = res_bind (lookup_row (ed_queue_names db) q) (\<lambda>r. Inr (fst r))"

definition state_type_name :: "esc_db \<Rightarrow> int \<Rightarrow> string" where
  "state_type_name db s = (case map_of (ed_states db) s of None \<Rightarrow> ''open'' | Some ty \<Rightarrow> ty)"

definition user_login :: "esc_db \<Rightarrow> int \<Rightarrow> esc_error + string" where
  "user_login db u = res_bind (lookup_row (ed_users db) u) (\<lambda>r. Inr (un_login r))"

text \<open>\<open>_lookup_name_or_null\<close>: \<open>NULL\<close> for no id, an unknown id and a blank name\<close>

definition name_or_null :: "(int \<times> string) list \<Rightarrow> int \<Rightarrow> string" where
  "name_or_null table i =
     (if i = 0 then ''NULL'' else case map_of table i of None \<Rightarrow> ''NULL'' | Some n \<Rightarrow> if n = [] then ''NULL'' else n)"

definition invalidate_ticket_cache :: "int \<Rightarrow> esc_db \<Rightarrow> esc_db" where
  "invalidate_ticket_cache tid db = db\<lparr>ed_invalidations := ed_invalidations db @ [tid]\<rparr>"

text \<open>A legacy notification names the users that are not told.\<close>

definition emit_legacy_notification :: "int \<Rightarrow> string \<Rightarrow> (string \<times> payload) list \<Rightarrow> int list \<Rightarrow> esc_db \<Rightarrow> esc_db" where
  "emit_legacy_notification tid event data skip =
     emit_event tid event (if skip = [] then data else data @ [(''skip_user_ids'', PInts skip)])"

definition put :: "clock \<Rightarrow> int \<Rightarrow> int \<Rightarrow> (esc_ticket \<Rightarrow> esc_ticket) \<Rightarrow> esc_db \<Rightarrow> esc_db" where
  "put ck tid uid = set_column (ck_now ck) uid tid"

section \<open>The field changes\<close>

definition move_queue :: "esc_env \<Rightarrow> clock \<Rightarrow> int \<Rightarrow> int \<Rightarrow> int \<Rightarrow> writer" where
  "move_queue env ck uid tid new_queue db =
     res_bind (ticket_must_exist db tid) (\<lambda>t.
     res_bind (queue_name db (et_queue t)) (\<lambda>old.
     res_bind (queue_name db new_queue) (\<lambda>new.
     res_bind (add_move ck tid uid new new_queue old (et_queue t) (put ck tid uid (et_queue_update (\<lambda>_. new_queue)) db)) (\<lambda>db1.
       let db2 = invalidate_ticket_cache tid (ticket_accelerator_update (ee_config env) tid db1);
           db3 = (if state_type_name db2 (et_state t) \<noteq> ''closed''
                  then emit_legacy_notification tid ''NotificationMove'' [(''queue'', PText new)] [] db2 else db2)
       in Inr (emit_event tid ''TicketQueueUpdate'' [(''queue_id'', PInt new_queue)] db3)))))"

definition clear_ai :: "int \<Rightarrow> esc_db \<Rightarrow> esc_db" where
  "clear_ai tid db =
     db\<lparr>ed_ai := upd_where (\<lambda>a. ai_ticket a = tid) (\<lambda>a. a\<lparr>ai_escalated_at := None, ai_escalated_reason := None, ai_grant := None\<rparr>)
       (ed_ai db)\<rparr>"

definition change_state :: "esc_env \<Rightarrow> clock \<Rightarrow> int \<Rightarrow> int \<Rightarrow> int \<Rightarrow> pending option \<Rightarrow> writer" where
  "change_state env ck uid tid new_state pending_time db =
     res_bind (ticket_must_exist db tid) (\<lambda>t.
     res_bind (lookup_row (ed_state_names db) (et_state t)) (\<lambda>old.
     res_bind (lookup_row (ed_state_names db) new_state) (\<lambda>new.
       let new_type = state_type_name db new_state;
           until = (case pending_time of Some p \<Rightarrow> if pending_state new_type then pt_epoch p else 0 | None \<Rightarrow> 0) in
     res_bind (add_state_update ck tid uid old new
         (put ck tid uid (\<lambda>t. t\<lparr>et_state := new_state, et_until := until\<rparr>) db)) (\<lambda>db1.
     res_bind (case pending_time of
           Some p \<Rightarrow> add_pending_time ck tid uid (if pending_state new_type then p else no_pending) db1
         | None \<Rightarrow> if pending_state new_type then Inr db1 else add_pending_time ck tid uid no_pending db1) (\<lambda>db2.
     res_bind (escalation_index_build env (ck_now ck) tid uid db2) (\<lambda>db3.
       let db4 = emit_event tid ''TicketStateUpdate'' [(''state_id'', PInt new_state)]
             (invalidate_ticket_cache tid (ticket_accelerator_update (ee_config env) tid db3))
       in Inr (if lower new_type \<in> {''closed'', ''merged'', ''removed''} then clear_ai tid db4 else db4)))))))"

definition change_priority :: "esc_env \<Rightarrow> clock \<Rightarrow> int \<Rightarrow> int \<Rightarrow> int \<Rightarrow> writer" where
  "change_priority env ck uid tid new_priority db =
     res_bind (ticket_must_exist db tid) (\<lambda>t.
     res_bind (lookup_row (ed_priorities db) (et_priority t)) (\<lambda>old.
     res_bind (lookup_row (ed_priorities db) new_priority) (\<lambda>new.
     res_bind (add_priority_update ck tid uid old (et_priority t) new new_priority
         (put ck tid uid (et_priority_update (\<lambda>_. new_priority)) db)) (\<lambda>db1.
       Inr (emit_event tid ''TicketPriorityUpdate'' [(''priority_id'', PInt new_priority)]
         (invalidate_ticket_cache tid (ticket_accelerator_update (ee_config env) tid db1)))))))"

definition change_ticket_type :: "clock \<Rightarrow> int \<Rightarrow> int \<Rightarrow> int \<Rightarrow> writer" where
  "change_ticket_type ck uid tid new_type db =
     res_bind (ticket_must_exist db tid) (\<lambda>t.
       let old = set_or_zero (et_type t); new_name = name_or_null (ed_types db) new_type in
       if old = new_type then Inr db
       else if new_name = ''NULL'' then Inl InvalidInput
       else res_bind (add_type_update ck tid uid new_name new_type (name_or_null (ed_types db) old) old
           (put ck tid uid (et_type_update (\<lambda>_. Some new_type)) db)) (\<lambda>db1.
         Inr (emit_event tid ''TicketTypeUpdate'' [(''type_id'', PInt new_type)] (invalidate_ticket_cache tid db1))))"

definition change_sla :: "esc_env \<Rightarrow> clock \<Rightarrow> int \<Rightarrow> int \<Rightarrow> int option \<Rightarrow> writer" where
  "change_sla env ck uid tid new_sla db =
     res_bind (ticket_must_exist db tid) (\<lambda>t.
       let old = set_or_zero (et_sla t); new_id = set_or_zero new_sla;
           new_name = (case new_sla of None \<Rightarrow> ''NULL'' | Some i \<Rightarrow> name_or_null (ed_sla_names db) i) in
       if old = new_id then Inr db
       else if new_sla \<noteq> None \<and> new_name = ''NULL'' then Inl InvalidInput
       else res_bind (add_sla_update ck tid uid new_name new_id (name_or_null (ed_sla_names db) old) old
           (put ck tid uid (et_sla_update (\<lambda>_. new_sla)) db)) (\<lambda>db1.
         res_bind (escalation_index_build env (ck_now ck) tid uid db1) (\<lambda>db2.
         Inr (emit_event tid ''TicketSLAUpdate'' [(''sla_id'', case new_sla of None \<Rightarrow> PNull | Some i \<Rightarrow> PInt i)]
           (invalidate_ticket_cache tid (ticket_accelerator_update (ee_config env) tid db2))))))"

definition opt_text :: "string option \<Rightarrow> payload" where
  "opt_text v = (case v of None \<Rightarrow> PNull | Some s \<Rightarrow> PText s)"

definition set_customer :: "clock \<Rightarrow> int \<Rightarrow> int \<Rightarrow> string option \<Rightarrow> string option \<Rightarrow> bool \<Rightarrow> writer" where
  "set_customer ck uid tid customer customer_user only_given db =
     res_bind (ticket_must_exist db tid) (\<lambda>t.
       if only_given \<and> customer = None \<and> customer_user = None then Inr db
       else res_bind (add_customer_update ck tid uid customer customer_user
           (put ck tid uid (\<lambda>t. t\<lparr>
             et_customer := (if only_given \<and> customer = None then et_customer t else customer),
             et_customer_user := (if only_given \<and> customer_user = None then et_customer_user t else customer_user)\<rparr>) db)) (\<lambda>db1.
         Inr (emit_event tid ''TicketCustomerUpdate'' [(''customer_id'', opt_text customer), (''customer_user_id'', opt_text customer_user)]
           (invalidate_ticket_cache tid db1))))"

definition ticket_unlock_timeout_update :: "clock \<Rightarrow> int \<Rightarrow> int \<Rightarrow> int \<Rightarrow> writer" where
  "ticket_unlock_timeout_update ck uid tid unlock_timeout db =
     (case find_ticket db tid of
        None \<Rightarrow> Inl (TicketGone tid)
      | Some t \<Rightarrow>
          if et_timeout t = unlock_timeout then Inr db
          else res_bind (history_add (ck_now ck) tid ''Misc'' ''Reset of unlock time.'' uid
              (put ck tid uid (et_timeout_update (\<lambda>_. unlock_timeout)) db)) (\<lambda>db1.
            Inr (emit_event tid ''TicketUnlockTimeoutUpdate'' [] (invalidate_ticket_cache tid db1))))"

definition assign_owner :: "esc_env \<Rightarrow> clock \<Rightarrow> int \<Rightarrow> int \<Rightarrow> int \<Rightarrow> bool \<Rightarrow> writer" where
  "assign_owner env ck uid tid new_owner lock db =
     res_bind (ticket_must_exist db tid) (\<lambda>t.
       if et_owner t = new_owner then Inr db
       else res_bind (user_login db new_owner) (\<lambda>login.
         let locks = (lock \<and> et_lock t = 1) in
         res_bind (add_owner_update ck tid uid login new_owner
             (put ck tid uid (\<lambda>x. x\<lparr>et_owner := new_owner, et_lock := (if locks then 2 else et_lock t)\<rparr>) db)) (\<lambda>db1.
         res_bind (if locks
             then res_bind (add_lock ck tid uid ''lock'' db1) (ticket_unlock_timeout_update ck uid tid (ck_epoch ck))
             else Inr db1) (\<lambda>db2.
         Inr (emit_event tid ''TicketOwnerUpdate'' [(''owner_id'', PInt new_owner)]
           (emit_legacy_notification tid ''NotificationOwnerUpdate'' [(''owner_id'', PInt new_owner)]
             (if uid = new_owner then [uid] else [])
             (invalidate_ticket_cache tid (ticket_accelerator_update (ee_config env) tid db2))))))))"

definition assign_responsible :: "clock \<Rightarrow> int \<Rightarrow> int \<Rightarrow> int \<Rightarrow> writer" where
  "assign_responsible ck uid tid new_responsible db =
     res_bind (ticket_must_exist db tid) (\<lambda>t.
     res_bind (user_login db new_responsible) (\<lambda>login.
     res_bind (add_responsible_update ck tid uid login new_responsible
         (put ck tid uid (et_responsible_update (\<lambda>_. new_responsible)) db)) (\<lambda>db1.
       Inr (emit_event tid ''TicketResponsibleUpdate'' [(''responsible_id'', PInt new_responsible)]
         (emit_legacy_notification tid ''NotificationResponsibleUpdate'' [(''responsible_id'', PInt new_responsible)]
           (if uid = new_responsible then [uid] else []) (invalidate_ticket_cache tid db1))))))"

section \<open>Locks\<close>

definition lock_ticket :: "esc_env \<Rightarrow> clock \<Rightarrow> int \<Rightarrow> int \<Rightarrow> writer" where
  "lock_ticket env ck uid tid db =
     res_bind (ticket_must_exist db tid) (\<lambda>t.
       if et_lock t \<noteq> 1 then Inr db
       else res_bind (add_lock ck tid uid ''lock'' (put ck tid uid (et_lock_update (\<lambda>_. 2)) db)) (\<lambda>db1.
         res_bind (ticket_unlock_timeout_update ck uid tid (ck_epoch ck) db1) (\<lambda>db2.
         Inr (emit_event tid ''TicketLockUpdate'' [(''lock'', PText ''lock'')]
           (invalidate_ticket_cache tid (ticket_accelerator_update (ee_config env) tid db2))))))"

definition unlock_ticket :: "esc_env \<Rightarrow> clock \<Rightarrow> int \<Rightarrow> int \<Rightarrow> writer" where
  "unlock_ticket env ck uid tid db =
     res_bind (ticket_must_exist db tid) (\<lambda>t.
       if et_lock t = 1 then Inr db
       else res_bind (add_lock ck tid uid ''unlock'' (put ck tid uid (et_lock_update (\<lambda>_. 1)) db)) (\<lambda>db1.
         Inr (emit_event tid ''TicketLockUpdate'' [(''lock'', PText ''unlock'')]
           (emit_legacy_notification tid ''NotificationLockTimeout'' [] (if et_owner t = uid then [uid] else [])
             (invalidate_ticket_cache tid (ticket_accelerator_update (ee_config env) tid db1))))))"

definition set_ticket_lock :: "esc_env \<Rightarrow> clock \<Rightarrow> int \<Rightarrow> int \<Rightarrow> int \<Rightarrow> writer" where
  "set_ticket_lock env ck uid tid lock_id db =
     (if lock_id = 1 then unlock_ticket env ck uid tid db
      else if lock_id = 2 then lock_ticket env ck uid tid db
      else res_bind (ticket_must_exist db tid) (\<lambda>t.
        if et_lock t = lock_id then Inr db
        else res_bind (lookup_row (ed_locks db) lock_id) (\<lambda>name.
          res_bind (add_lock ck tid uid name (put ck tid uid (et_lock_update (\<lambda>_. lock_id)) db)) (\<lambda>db1.
          Inr (emit_event tid ''TicketLockUpdate'' [(''lock'', PText name)]
            (invalidate_ticket_cache tid (ticket_accelerator_update (ee_config env) tid db1)))))))"

text \<open>The answers to opening a composer\<close>

datatype acquire_result = Not_required | Acquired | Already_mine | Taken_over | Locked_by_other int string

definition user_display_name :: "esc_db \<Rightarrow> int \<Rightarrow> string" where
  "user_display_name db u =
     (case map_of (ed_users db) u of
        None \<Rightarrow> CHR ''#'' # int_text u
      | Some n \<Rightarrow>
          let full = (if un_first n = [] then un_last n else if un_last n = [] then un_first n
                      else un_first n @ '' '' @ un_last n)
          in if full = [] then un_login n else full)"

definition REQUIRED_LOCK_ACTIONS :: "(string \<times> string) list" where
  "REQUIRED_LOCK_ACTIONS =
     [(''compose'', ''Ticket::Frontend::AgentTicketCompose###RequiredLock''),
      (''forward'', ''Ticket::Frontend::AgentTicketForward###RequiredLock''),
      (''bounce'', ''Ticket::Frontend::AgentTicketBounce###RequiredLock''),
      (''close'', ''Ticket::Frontend::AgentTicketClose###RequiredLock''),
      (''phone_outbound'', ''Ticket::Frontend::AgentTicketPhoneOutbound###RequiredLock''),
      (''phone_inbound'', ''Ticket::Frontend::AgentTicketPhoneInbound###RequiredLock'')]"

definition required_lock :: "sys_config \<Rightarrow> string \<Rightarrow> bool" where
  "required_lock sc action =
     (case map_of REQUIRED_LOCK_ACTIONS action of
        None \<Rightarrow> False
      | Some key \<Rightarrow> (case sc_flag sc key of None \<Rightarrow> True | Some b \<Rightarrow> b))"

definition acquire_lock ::
  "esc_env \<Rightarrow> clock \<Rightarrow> int \<Rightarrow> int \<Rightarrow> string \<Rightarrow> bool \<Rightarrow> esc_db \<Rightarrow> esc_error + acquire_result \<times> esc_db" where
  "acquire_lock env ck uid tid action takeover db =
     (if \<not> required_lock (ee_config env) action then Inr (Not_required, db)
      else res_bind (ticket_must_exist db tid) (\<lambda>t.
        if et_lock t \<noteq> 1 then
          if et_owner t = uid then Inr (Already_mine, db)
          else if \<not> takeover then Inr (Locked_by_other (et_owner t) (user_display_name db (et_owner t)), db)
          else res_bind (assign_owner env ck uid tid uid False db) (\<lambda>db1. Inr (Taken_over, db1))
        else
          res_bind (lock_ticket env ck uid tid db) (\<lambda>db1.
          res_bind (if et_owner t \<noteq> uid then assign_owner env ck uid tid uid False db1 else Inr db1) (\<lambda>db2.
          Inr (Acquired, db2)))))"

section \<open>Watchers and archive\<close>

definition watcher_name :: "esc_db \<Rightarrow> int \<Rightarrow> string" where
  "watcher_name db u =
     (case map_of (ed_users db) u of None \<Rightarrow> int_text u | Some n \<Rightarrow> strip (un_first n @ '' '' @ un_last n))"

definition watch_ticket :: "clock \<Rightarrow> int \<Rightarrow> int \<Rightarrow> int \<Rightarrow> writer" where
  "watch_ticket ck uid tid watcher db =
     res_bind (ticket_must_exist db tid) (\<lambda>t.
       let db1 = (if (tid, watcher) \<in> set (ed_watchers db) then db else db\<lparr>ed_watchers := ed_watchers db @ [(tid, watcher)]\<rparr>) in
     res_bind (add_subscribe ck tid uid (watcher_name db watcher) db1) (\<lambda>db2.
       Inr (invalidate_ticket_cache tid (emit_event tid ''TicketSubscribe'' [(''watcher_user_id'', PInt watcher)] db2))))"

definition unwatch_ticket :: "clock \<Rightarrow> int \<Rightarrow> int \<Rightarrow> int \<Rightarrow> writer" where
  "unwatch_ticket ck uid tid watcher db =
     res_bind (ticket_must_exist db tid) (\<lambda>t.
     res_bind (add_unsubscribe ck tid uid (watcher_name db watcher)
         (db\<lparr>ed_watchers := filter (\<lambda>w. w \<noteq> (tid, watcher)) (ed_watchers db)\<rparr>)) (\<lambda>db1.
       Inr (invalidate_ticket_cache tid (emit_event tid ''TicketUnsubscribe'' [(''watcher_user_id'', PInt watcher)] db1))))"

definition archive_ticket :: "esc_env \<Rightarrow> clock \<Rightarrow> int \<Rightarrow> int \<Rightarrow> bool \<Rightarrow> writer" where
  "archive_ticket env ck uid tid archive db =
     res_bind (ticket_must_exist db tid) (\<lambda>t.
     res_bind (add_archive_flag_update ck tid uid (if archive then ''y'' else ''n'')
         (put ck tid uid (et_archive_update (\<lambda>_. if archive then 1 else 0)) db)) (\<lambda>db1.
       Inr (emit_event tid ''TicketArchiveFlagUpdate'' [(''archive'', PBool archive)]
         (invalidate_ticket_cache tid (ticket_accelerator_update (ee_config env) tid db1)))))"

section \<open>All writes\<close>

datatype ticket_op =
    Move int | State int "pending option" | Priority int | Type int | Sla "int option"
  | Customer "string option" "string option" bool | Owner int bool | Responsible int
  | Lock | Unlock | Set_lock int | Acquire string bool | Watch int | Unwatch int | Archive bool | Sweep int

definition run_write :: "esc_env \<Rightarrow> clock \<times> int \<times> int \<times> ticket_op \<Rightarrow> writer" where
  "run_write env w db =
     (case w of (ck, uid, tid, oper) \<Rightarrow>
        (case oper of
           Move q \<Rightarrow> move_queue env ck uid tid q db
         | State s p \<Rightarrow> change_state env ck uid tid s p db
         | Priority p \<Rightarrow> change_priority env ck uid tid p db
         | Type y \<Rightarrow> change_ticket_type ck uid tid y db
         | Sla i \<Rightarrow> change_sla env ck uid tid i db
         | Customer c u g \<Rightarrow> set_customer ck uid tid c u g db
         | Owner u l \<Rightarrow> assign_owner env ck uid tid u l db
         | Responsible u \<Rightarrow> assign_responsible ck uid tid u db
         | Lock \<Rightarrow> lock_ticket env ck uid tid db
         | Unlock \<Rightarrow> unlock_ticket env ck uid tid db
         | Set_lock i \<Rightarrow> set_ticket_lock env ck uid tid i db
         | Acquire a k \<Rightarrow> res_bind (acquire_lock env ck uid tid a k db) (\<lambda>r. Inr (snd r))
         | Watch u \<Rightarrow> watch_ticket ck uid tid u db
         | Unwatch u \<Rightarrow> unwatch_ticket ck uid tid u db
         | Archive b \<Rightarrow> archive_ticket env ck uid tid b db
         | Sweep window \<Rightarrow> res_bind (sweep_ticket env (ck_now ck) (ck_epoch ck) window tid uid db) (\<lambda>r. Inr (snd r))))"

section \<open>The history tells the present\<close>

text \<open>What a history line keeps of the ticket, and whether the last line of a ticket keeps what the ticket is now\<close>

definition snapshot :: "esc_ticket \<Rightarrow> int \<times> int \<times> int \<times> int \<times> int" where
  "snapshot t = (et_queue t, case et_type t of None \<Rightarrow> 1 | Some y \<Rightarrow> y, et_owner t, et_priority t, et_state t)"

definition line_snapshot :: "esc_history \<Rightarrow> int \<times> int \<times> int \<times> int \<times> int" where
  "line_snapshot h = (eh_queue h, eh_type h, eh_owner h, eh_priority h, eh_state h)"

definition lines_of :: "esc_db \<Rightarrow> int \<Rightarrow> esc_history list" where
  "lines_of db tid = filter (\<lambda>h. eh_ticket h = tid) (ed_history db)"

definition tells_present :: "esc_db \<Rightarrow> esc_ticket \<Rightarrow> bool" where
  "tells_present db t \<longleftrightarrow> lines_of db (et_id t) = [] \<or> line_snapshot (last (lines_of db (et_id t))) = snapshot t"

definition history_current :: "esc_db \<Rightarrow> bool" where
  "history_current db \<longleftrightarrow> distinct (map et_id (ed_tickets db)) \<and> list_all (tells_present db) (ed_tickets db)"

text \<open>The same for all tickets but one\<close>

definition others_current :: "int \<Rightarrow> esc_db \<Rightarrow> bool" where
  "others_current tid db \<longleftrightarrow>
     distinct (map et_id (ed_tickets db)) \<and> list_all (\<lambda>t. et_id t \<noteq> tid \<longrightarrow> tells_present db t) (ed_tickets db)"

lemma current_others: "history_current db \<Longrightarrow> others_current tid db"
  by (simp add: history_current_def others_current_def list_all_iff)

lemma map_id_upd_where: "(\<And>t. et_id (f t) = et_id t) \<Longrightarrow> map et_id (upd_where p f ts) = map et_id ts"
  by (induction ts) auto

lemma tells_present_tickets [simp]: "tells_present (db\<lparr>ed_tickets := ts\<rparr>) t = tells_present db t"
  by (simp add: tells_present_def lines_of_def)

lemma others_put:
  assumes "others_current tid db" "\<And>t. et_id (f t) = et_id t"
  shows "others_current tid (put ck tid uid f db)"
proof -
  let ?g = "\<lambda>t. (f t)\<lparr>et_change_time := ck_now ck, et_change_by := uid\<rparr>"
  have "map et_id (upd_where (\<lambda>t. et_id t = tid) ?g (ed_tickets db)) = map et_id (ed_tickets db)"
    by (rule map_id_upd_where) (simp add: assms(2))
  with assms show ?thesis
    by (auto simp: others_current_def put_def set_column_def list_all_iff set_upd_where)
qed

lemma current_put:
  assumes "history_current db" "\<And>t. et_id (f t) = et_id t" "\<And>t. snapshot (f t) = snapshot t"
  shows "history_current (put ck tid uid f db)"
proof -
  let ?g = "\<lambda>t. (f t)\<lparr>et_change_time := ck_now ck, et_change_by := uid\<rparr>"
  have "map et_id (upd_where (\<lambda>t. et_id t = tid) ?g (ed_tickets db)) = map et_id (ed_tickets db)"
    by (rule map_id_upd_where) (simp add: assms(2))
  moreover have "tells_present db (?g t) = tells_present db t" for t
    using assms(2) [of t] assms(3) [of t] by (simp add: tells_present_def snapshot_def)
  ultimately show ?thesis
    using assms(1) by (auto simp: history_current_def put_def set_column_def list_all_iff set_upd_where)
qed

lemma find_ticket_unique:
  assumes "distinct (map et_id (ed_tickets db))" "find_ticket db tid = Some t" "x \<in> set (ed_tickets db)" "et_id x = tid"
  shows "x = t"
proof -
  have "t \<in> set (ed_tickets db)" "et_id t = tid" using find_SomeD [OF assms(2) [unfolded find_ticket_def]] by simp_all
  with assms show ?thesis by (metis distinct_map inj_on_def)
qed

text \<open>A line that is added keeps the ticket as it is.\<close>

lemma current_history_add:
  assumes "history_add now tid ty name uid db = Inr db'" "others_current tid db"
  shows "history_current db'"
proof -
  obtain t i where t: "find_ticket db tid = Some t" and i: "find (\<lambda>(i, n). n = ty) (ed_history_types db) = Some (i, ty)"
    using assms(1) by (auto simp: history_add_def split: option.splits dest: find_SomeD)
  define h where "h = \<lparr>eh_ticket = tid, eh_name = take 200 name, eh_type_id = i, eh_queue = et_queue t,
    eh_type = (case et_type t of None \<Rightarrow> 1 | Some y \<Rightarrow> y), eh_owner = et_owner t, eh_priority = et_priority t,
    eh_state = et_state t, eh_created = now, eh_by = uid\<rparr>"
  have db': "db' = db\<lparr>ed_history := ed_history db @ [h]\<rparr>" using assms(1) t i by (simp add: history_add_def h_def)
  have dist: "distinct (map et_id (ed_tickets db))" using assms(2) by (simp add: others_current_def)
  have "tells_present db' x" if x: "x \<in> set (ed_tickets db)" for x
  proof (cases "et_id x = tid")
    case True
    have "x = t" by (rule find_ticket_unique [OF dist t x True])
    moreover have "lines_of db' tid = lines_of db tid @ [h]" by (simp add: lines_of_def db' h_def)
    ultimately show ?thesis using True by (simp add: tells_present_def line_snapshot_def snapshot_def h_def)
  next
    case False
    then have "lines_of db' (et_id x) = lines_of db (et_id x)" by (auto simp: lines_of_def db' h_def)
    then show ?thesis using assms(2) x False by (simp add: tells_present_def others_current_def list_all_iff)
  qed
  then show ?thesis using dist by (simp add: history_current_def list_all_iff db')
qed

text \<open>Statements that touch neither tickets nor history\<close>

lemma current_frame: "ed_tickets db' = ed_tickets db \<Longrightarrow> ed_history db' = ed_history db \<Longrightarrow> history_current db' = history_current db"
  by (simp add: history_current_def tells_present_def lines_of_def list_all_iff)

lemma write_frames [simp]:
  "ed_tickets (emit_event tid e d db) = ed_tickets db" "ed_history (emit_event tid e d db) = ed_history db"
  "ed_tickets (emit_legacy_notification tid e d us db) = ed_tickets db"
  "ed_history (emit_legacy_notification tid e d us db) = ed_history db"
  "ed_tickets (invalidate_ticket_cache tid db) = ed_tickets db" "ed_history (invalidate_ticket_cache tid db) = ed_history db"
  "ed_tickets (clear_ai tid db) = ed_tickets db" "ed_history (clear_ai tid db) = ed_history db"
  "ed_tickets (ticket_accelerator_update sc tid db) = ed_tickets db"
  "ed_history (ticket_accelerator_update sc tid db) = ed_history db"
  by (simp_all add: emit_event_def emit_legacy_notification_def invalidate_ticket_cache_def clear_ai_def Let_def
      ticket_accelerator_update_def ticket_accelerator_delete_def ticket_accelerator_add_def split: option.splits)

lemma current_frames [simp]:
  "history_current (emit_event tid e d db) = history_current db"
  "history_current (emit_legacy_notification tid e d us db) = history_current db"
  "history_current (invalidate_ticket_cache tid db) = history_current db"
  "history_current (clear_ai tid db) = history_current db"
  "history_current (ticket_accelerator_update sc tid db) = history_current db"
  by (rule current_frame; simp)+

lemma current_index_build:
  assumes "escalation_index_build env now tid uid db = Inr db'" "history_current db"
  shows "history_current db'"
proof -
  have same: "tells_present db (with_columns now uid c x) = tells_present db x" for c x
    by (simp add: tells_present_def snapshot_def with_columns_def split: prod.split)
  have ids: "map et_id (upd_where p (with_columns now uid c) ts) = map et_id ts" for p c ts
    by (rule map_id_upd_where) simp
  show ?thesis
    using assms
    by (auto simp: index_build_eq res_bind_Inr_iff history_current_def list_all_iff set_upd_where same ids split: option.splits)
qed

text \<open>The lines of the different writers\<close>

lemmas line_defs = add_state_update_def add_move_def add_type_update_def add_sla_update_def add_priority_update_def
  add_owner_update_def add_responsible_update_def add_lock_def add_pending_time_def add_subscribe_def
  add_unsubscribe_def add_archive_flag_update_def

lemmas write_defs = move_queue_def change_priority_def change_ticket_type_def change_sla_def
  assign_responsible_def unlock_ticket_def lock_ticket_def set_ticket_lock_def archive_ticket_def

text \<open>An update with its line\<close>

lemma current_written:
  assumes "history_add now tid ty name uid (put ck tid uid f db) = Inr db'" "history_current db" "\<And>t. et_id (f t) = et_id t"
  shows "history_current db'"
  by (rule current_history_add [OF assms(1) others_put [OF current_others [OF assms(2)]]]) (rule assms(3))

lemma current_line: "history_add now tid ty name uid db = Inr db' \<Longrightarrow> history_current db \<Longrightarrow> history_current db'"
  by (rule current_history_add [OF _ current_others])

lemma current_timeout:
  "ticket_unlock_timeout_update ck uid tid to db = Inr db' \<Longrightarrow> history_current db \<Longrightarrow> history_current db'"
  by (auto simp: ticket_unlock_timeout_update_def res_bind_Inr_iff split: option.splits if_splits)
    (erule current_written; simp)

lemma current_move: "move_queue env ck uid tid q db = Inr db' \<Longrightarrow> history_current db \<Longrightarrow> history_current db'"
  by (auto simp: move_queue_def line_defs res_bind_Inr_iff Let_def) (erule current_written; simp)+

lemma current_pending:
  "add_pending_time ck tid uid p db = Inr db' \<Longrightarrow> history_current db \<Longrightarrow> history_current db'"
  by (simp add: add_pending_time_def current_line)

lemma current_state: "change_state env ck uid tid st p db = Inr db' \<Longrightarrow> history_current db \<Longrightarrow> history_current db'"
proof -
  assume "change_state env ck uid tid st p db = Inr db'" and cur: "history_current db"
  then obtain t old new until db1 db2 db3 where
      1: "add_state_update ck tid uid old new (put ck tid uid (\<lambda>t. t\<lparr>et_state := st, et_until := until\<rparr>) db) = Inr db1"
    and 2: "(case p of Some p \<Rightarrow> add_pending_time ck tid uid (if pending_state (state_type_name db st) then p else no_pending) db1
         | None \<Rightarrow> if pending_state (state_type_name db st) then Inr db1 else add_pending_time ck tid uid no_pending db1) = Inr db2"
    and 3: "escalation_index_build env (ck_now ck) tid uid db2 = Inr db3"
    and 4: "history_current db' = history_current db3"
    by (auto simp: change_state_def res_bind_Inr_iff Let_def)
  have "history_current db1" using 1 cur by (auto simp: line_defs intro: current_written)
  then have "history_current db2" using 2 by (auto split: option.splits if_splits intro: current_pending)
  then show "history_current db'" using current_index_build [OF 3] 4 by simp
qed

lemma current_priority: "change_priority env ck uid tid q db = Inr db' \<Longrightarrow> history_current db \<Longrightarrow> history_current db'"
  by (auto simp: change_priority_def line_defs res_bind_Inr_iff Let_def) (erule current_written; simp)

lemma current_type: "change_ticket_type ck uid tid q db = Inr db' \<Longrightarrow> history_current db \<Longrightarrow> history_current db'"
  by (auto simp: change_ticket_type_def line_defs res_bind_Inr_iff Let_def split: if_splits) (erule current_written; simp)

lemma current_sla: "change_sla env ck uid tid q db = Inr db' \<Longrightarrow> history_current db \<Longrightarrow> history_current db'"
  by (auto simp: change_sla_def line_defs res_bind_Inr_iff Let_def split: if_splits)
    (erule current_index_build, erule current_written; simp)+

lemma current_customer: "set_customer ck uid tid c u g db = Inr db' \<Longrightarrow> history_current db \<Longrightarrow> history_current db'"
  by (auto simp: set_customer_def add_customer_update_def line_defs res_bind_Inr_iff Let_def snapshot_def
      intro!: current_put split: if_splits) (erule current_written; simp)+

lemma current_lock_line: "add_lock ck tid uid name db = Inr db' \<Longrightarrow> history_current db \<Longrightarrow> history_current db'"
  by (simp add: add_lock_def current_line)

lemma current_owner: "assign_owner env ck uid tid u l db = Inr db' \<Longrightarrow> history_current db \<Longrightarrow> history_current db'"
proof -
  assume run: "assign_owner env ck uid tid u l db = Inr db'" and cur: "history_current db"
  from run obtain t where t: "ticket_must_exist db tid = Inr t" by (auto simp: assign_owner_def res_bind_Inr_iff)
  show "history_current db'"
  proof (cases "et_owner t = u")
    case False
    with run t obtain login db1 db2 where
        1: "add_owner_update ck tid uid login u
          (put ck tid uid (\<lambda>x. x\<lparr>et_owner := u, et_lock := (if l \<and> et_lock t = 1 then 2 else et_lock t)\<rparr>) db) = Inr db1"
      and 2: "(if l \<and> et_lock t = 1
          then res_bind (add_lock ck tid uid ''lock'' db1) (ticket_unlock_timeout_update ck uid tid (ck_epoch ck))
          else Inr db1) = Inr db2"
      and 3: "history_current db' = history_current db2"
      by (auto simp: assign_owner_def res_bind_Inr_iff Let_def simp del: if_image_distrib)
    have "history_current db1" using 1 cur by (auto simp: line_defs intro: current_written)
    then have "history_current db2"
      using 2 by (auto simp: res_bind_Inr_iff split: if_splits intro: current_lock_line current_timeout)
    then show ?thesis using 3 by simp
  qed (use run t cur in \<open>simp add: assign_owner_def\<close>)
qed

lemma current_responsible: "assign_responsible ck uid tid q db = Inr db' \<Longrightarrow> history_current db \<Longrightarrow> history_current db'"
  by (auto simp: assign_responsible_def line_defs res_bind_Inr_iff Let_def) (erule current_written; simp)+

lemma current_lock: "lock_ticket env ck uid tid db = Inr db' \<Longrightarrow> history_current db \<Longrightarrow> history_current db'"
  by (auto simp: lock_ticket_def line_defs res_bind_Inr_iff Let_def split: if_splits)
    (erule current_timeout, erule current_written; simp)+

lemma current_unlock: "unlock_ticket env ck uid tid db = Inr db' \<Longrightarrow> history_current db \<Longrightarrow> history_current db'"
  by (auto simp: unlock_ticket_def line_defs res_bind_Inr_iff Let_def split: if_splits) (erule current_written; simp)+

lemma current_set_lock: "set_ticket_lock env ck uid tid i db = Inr db' \<Longrightarrow> history_current db \<Longrightarrow> history_current db'"
  by (auto simp: set_ticket_lock_def line_defs res_bind_Inr_iff Let_def split: if_splits intro: current_lock current_unlock)
    (erule current_written; simp)+

lemma current_acquire:
  "acquire_lock env ck uid tid a k db = Inr (r, db') \<Longrightarrow> history_current db \<Longrightarrow> history_current db'"
  by (auto simp: acquire_lock_def res_bind_Inr_iff split: if_splits intro: current_lock current_owner)

lemma current_watchers [simp]: "history_current (db\<lparr>ed_watchers := ws\<rparr>) = history_current db"
  by (rule current_frame) simp_all

lemma current_watch: "watch_ticket ck uid tid u db = Inr db' \<Longrightarrow> history_current db \<Longrightarrow> history_current db'"
  by (auto simp: watch_ticket_def add_subscribe_def res_bind_Inr_iff Let_def split: if_splits) (erule current_line; simp)+

lemma current_unwatch: "unwatch_ticket ck uid tid u db = Inr db' \<Longrightarrow> history_current db \<Longrightarrow> history_current db'"
  by (auto simp: unwatch_ticket_def add_unsubscribe_def res_bind_Inr_iff Let_def) (erule current_line; simp)+

lemma current_archive: "archive_ticket env ck uid tid b db = Inr db' \<Longrightarrow> history_current db \<Longrightarrow> history_current db'"
  by (auto simp: archive_ticket_def line_defs res_bind_Inr_iff Let_def) (erule current_written; simp)+

lemma current_fire: "fire now tid uid e nm db = Inr db' \<Longrightarrow> history_current db \<Longrightarrow> history_current db'"
  by (auto simp: fire_def res_bind_Inr_iff intro: current_line)

lemma current_sweep: "sweep_ticket env now e w tid uid db = Inr (f, db') \<Longrightarrow> history_current db \<Longrightarrow> history_current db'"
proof -
  assume sweep: "sweep_ticket env now e w tid uid db = Inr (f, db')" and cur: "history_current db"
  have column: "history_current d'" if "sweep_column now e w tid uid b a c (g, d) = Inr (g', d')" "history_current d" for b a c g d g' d'
    using that by (auto simp: sweep_column_def start_stop_def notify_before_def res_bind_Inr_iff split: if_splits intro: current_fire)
  have fold: "history_current d'" if "res_fold (sweep_column now e w tid uid b a) cs (g, d) = Inr (g', d')" "history_current d"
    for b a cs g d g' d'
    using that by (induction cs arbitrary: g d) (auto simp: res_bind_Inr_iff dest: column)
  show "history_current db'"
    using sweep cur current_index_build fold by (auto simp: sweep_ticket_def res_bind_Inr_iff split: option.splits)
qed

lemma current_run: "run_write env w db = Inr db' \<Longrightarrow> history_current db \<Longrightarrow> history_current db'"
  by (auto simp: run_write_def res_bind_Inr_iff split: prod.splits ticket_op.splits
      dest: current_move current_state current_priority current_type current_sla current_customer current_owner
        current_responsible current_lock current_unlock current_set_lock current_acquire current_watch current_unwatch
        current_archive current_sweep)

text \<open>
  C21. However the fields of tickets are changed, the last line of the history of a ticket that has one tells the queue,
  the type, the owner, the priority and the state it has now: no write changes one of them without a line, and no line
  is written before the change it tells. This holds for every sequence of writes that all succeed, whatever the clocks,
  the users and the other tickets do in between.
\<close>

theorem history_tells_present:
  assumes "res_fold (run_write env) ws db = Inr db'" and "history_current db"
  shows "history_current db'"
  using assms by (induction ws arbitrary: db) (auto simp: res_bind_Inr_iff dest: current_run)

section \<open>Writes run\<close>

definition sample_write_env :: esc_env where
  "sample_write_env = sample_esc_env\<lparr>ee_config := (ee_config sample_esc_env)\<lparr>
     sc_text := (\<lambda>k. if k = ''Ticket::IndexModule'' then Some STATIC_DB else None)\<rparr>\<rparr>"

definition WRITE_LINES :: "string list" where
  "WRITE_LINES = [''Move'', ''StateUpdate'', ''SetPendingTime'', ''PriorityUpdate'', ''TypeUpdate'', ''SLAUpdate'',
     ''CustomerUpdate'', ''OwnerUpdate'', ''ResponsibleUpdate'', ''Lock'', ''Unlock'', ''Misc'', ''Subscribe'',
     ''Unsubscribe'', ''ArchiveFlagUpdate'']"

definition sample_write_db :: esc_db where
  "sample_write_db = sample_esc_db\<lparr>
     ed_history := [],
     ed_history_types := zip [1, 2, 3, 4, 5, 6, 7, 8, 9, 10, 11, 12, 13, 14, 15] WRITE_LINES,
     ed_index := [\<lparr>ix_ticket = 7, ix_queue = 1, ix_queue_name = ''Raw'', ix_group = 1, ix_lock = ''unlock'',
       ix_state = ''open'', ix_created = 1711726200\<rparr>],
     ed_ai := [\<lparr>ai_ticket = 7, ai_escalated_at = Some 5, ai_escalated_reason = None, ai_grant = None\<rparr>]\<rparr>"

definition sample_clock :: clock where
  "sample_clock = \<lparr>ck_now = 1711726300, ck_epoch = 1711726300\<rparr>"

definition sample_writes :: "(clock \<times> int \<times> int \<times> ticket_op) list" where
  "sample_writes = map (\<lambda>(u, x). (sample_clock, u, 7, x))
     [(3, Acquire ''compose'' False), (3, Priority 5), (2, Move 2), (3, Watch 2), (3, State 2 None)]"

lemma sample_writes_run:
  "case res_fold (run_write sample_write_env) sample_writes sample_write_db of
     Inr db' \<Rightarrow> map eh_name (ed_history db') =
         [''%%lock'', ''Reset of unlock time.'', ''%%ben%%3'', ''%%3 normal%%3%%5 very high%%5'', ''%%Junk%%2%%Raw%%1'',
          ''%%Anna Acker'', ''%%open%%closed successful%%'', ''%%00-00-00 00:00''] \<and>
       map ai_escalated_at (ed_ai db') = [None] \<and> ed_index db' = []
   | Inl _ \<Rightarrow> False"
  by code_simp

theorem history_tells_present_witness:
  "\<exists>db'. res_fold (run_write sample_write_env) sample_writes sample_write_db = Inr db' \<and> history_current db' \<and>
    length (ed_history db') = 8"
proof -
  obtain db' where r: "res_fold (run_write sample_write_env) sample_writes sample_write_db = Inr db'"
      "map eh_name (ed_history db') =
         [''%%lock'', ''Reset of unlock time.'', ''%%ben%%3'', ''%%3 normal%%3%%5 very high%%5'', ''%%Junk%%2%%Raw%%1'',
          ''%%Anna Acker'', ''%%open%%closed successful%%'', ''%%00-00-00 00:00'']"
    using sample_writes_run by (auto split: sum.splits)
  have "history_current sample_write_db" by code_simp
  moreover have "length (ed_history db') = 8" using arg_cong [OF r(2), of length] by simp
  ultimately show ?thesis using history_tells_present [OF r(1)] r(1) by blast
qed

end
