(* ===== verification/Ticket_Mirror.thy ===== *)
theory Ticket_Mirror
  imports Ticket_Writes
begin

text \<open>
  The static index follows the field changes, locks exclude each other, and closing a ticket ends its escalation:
  what the writes of \<open>Ticket_Writes\<close> guarantee beyond the history.
\<close>

section \<open>The index mirrors the tickets\<close>

definition rows_of :: "esc_db \<Rightarrow> int \<Rightarrow> index_row list" where
  "rows_of db tid = filter (\<lambda>r. ix_ticket r = tid) (ed_index db)"

text \<open>Every state has a type, the two locks that writes set are there.\<close>

definition index_tables :: "esc_db \<Rightarrow> bool" where
  "index_tables db \<longleftrightarrow> map_of (ed_locks db) 1 \<noteq> None \<and> map_of (ed_locks db) 2 \<noteq> None \<and>
     list_all (\<lambda>(i, _). map_of (ed_states db) i \<noteq> None) (ed_state_names db)"

definition mirrored :: "sys_config \<Rightarrow> esc_db \<Rightarrow> esc_ticket \<Rightarrow> bool" where
  "mirrored sc db t \<longleftrightarrow>
     (case index_source db t of
        None \<Rightarrow> False
      | Some r \<Rightarrow> rows_of db (et_id t) = (if is_viewable sc r then [fst r] else []))"

definition index_mirrors :: "sys_config \<Rightarrow> esc_db \<Rightarrow> bool" where
  "index_mirrors sc db \<longleftrightarrow>
     distinct (map et_id (ed_tickets db)) \<and> index_tables db \<and> list_all (mirrored sc db) (ed_tickets db)"

text \<open>A row that may be out of date in what the index is compared by\<close>

definition dated :: "esc_db \<Rightarrow> esc_ticket \<Rightarrow> bool" where
  "dated db t \<longleftrightarrow> index_source db t \<noteq> None \<and>
     (case rows_of db (et_id t) of
        [] \<Rightarrow> True
      | [i] \<Rightarrow> ix_created i = et_created t \<and> map_of (ed_queue_names db) (ix_queue i) = Some (ix_queue_name i, ix_group i)
      | _ \<Rightarrow> False)"

definition mirrors_but :: "int \<Rightarrow> sys_config \<Rightarrow> esc_db \<Rightarrow> bool" where
  "mirrors_but tid sc db \<longleftrightarrow> distinct (map et_id (ed_tickets db)) \<and> index_tables db \<and>
     list_all (\<lambda>t. if et_id t = tid then dated db t else mirrored sc db t) (ed_tickets db)"

text \<open>What the index reads of a ticket and of the other tables\<close>

definition index_key :: "esc_ticket \<Rightarrow> int \<times> int \<times> int \<times> int \<times> int \<times> int" where
  "index_key t = (et_id t, et_queue t, et_lock t, et_state t, et_archive t, et_created t)"

definition reference_frame :: "esc_db \<Rightarrow> esc_db \<Rightarrow> bool" where
  "reference_frame db db' \<longleftrightarrow> ed_queue_names db' = ed_queue_names db \<and>
     ed_locks db' = ed_locks db \<and> ed_state_names db' = ed_state_names db \<and> ed_states db' = ed_states db"

definition index_frame :: "esc_db \<Rightarrow> esc_db \<Rightarrow> bool" where
  "index_frame db db' \<longleftrightarrow> ed_index db' = ed_index db \<and> reference_frame db db'"

lemma source_frame:
  assumes "reference_frame db db'" "index_key t' = index_key t"
  shows "index_source db' t' = index_source db t"
  using assms by (auto simp: index_source_def reference_frame_def index_key_def split: option.split)

lemma index_frame_refl [simp]: "index_frame db db"
  by (simp add: index_frame_def reference_frame_def)

lemma frame_reads:
  assumes "index_frame db db'" "index_key t' = index_key t"
  shows "index_source db' t' = index_source db t" "mirrored sc db' t' = mirrored sc db t" "dated db' t' = dated db t"
    "index_tables db' = index_tables db" "rows_of db' tid = rows_of db tid"
proof -
  show source: "index_source db' t' = index_source db t"
    using assms by (simp add: source_frame index_frame_def)
  have same: "rows_of db' = rows_of db" "et_id t' = et_id t" "et_created t' = et_created t"
      "ed_queue_names db' = ed_queue_names db"
    using assms by (simp_all add: fun_eq_iff rows_of_def index_frame_def reference_frame_def index_key_def)
  show "mirrored sc db' t' = mirrored sc db t" "dated db' t' = dated db t"
    unfolding mirrored_def dated_def source same by (rule refl)+
  show "index_tables db' = index_tables db" "rows_of db' tid = rows_of db tid"
    using assms(1) by (simp_all add: index_tables_def rows_of_def index_frame_def reference_frame_def)
qed

lemma list_all_key:
  assumes "map k ys = map k xs" "\<And>x y. k y = k x \<Longrightarrow> Q y = P x"
  shows "list_all Q ys = list_all P xs"
  using assms(1)
proof (induction xs arbitrary: ys)
  case (Cons x xs)
  then obtain y zs where "ys = y # zs" "k y = k x" "map k zs = map k xs" by (cases ys) auto
  then show ?case using Cons.IH [of zs] assms(2) [of y x] by simp
qed simp

text \<open>A write that keeps what the index reads keeps the mirror.\<close>

lemma mirrors_frame:
  assumes "index_frame db db'" "map index_key (ed_tickets db') = map index_key (ed_tickets db)"
  shows "index_mirrors sc db' = index_mirrors sc db" "mirrors_but tid sc db' = mirrors_but tid sc db"
proof -
  have ids: "map et_id (ed_tickets db') = map et_id (ed_tickets db)"
    using arg_cong [OF assms(2), of "map fst"] by (simp add: index_key_def comp_def)
  have "list_all (mirrored sc db') (ed_tickets db') = list_all (mirrored sc db) (ed_tickets db)"
    by (rule list_all_key [OF assms(2)]) (rule frame_reads(2) [OF assms(1)])
  then show "index_mirrors sc db' = index_mirrors sc db"
    by (simp add: index_mirrors_def ids frame_reads(4) [OF assms(1) refl])
  have "list_all (\<lambda>t. if et_id t = tid then dated db' t else mirrored sc db' t) (ed_tickets db') =
      list_all (\<lambda>t. if et_id t = tid then dated db t else mirrored sc db t) (ed_tickets db)"
  proof (rule list_all_key [OF assms(2)])
    fix x y assume k: "index_key y = index_key x"
    then have "et_id y = et_id x" by (simp add: index_key_def)
    then show "(if et_id y = tid then dated db' y else mirrored sc db' y) =
        (if et_id x = tid then dated db x else mirrored sc db x)"
      by (simp add: frame_reads(2,3) [OF assms(1) k])
  qed
  then show "mirrors_but tid sc db' = mirrors_but tid sc db"
    by (simp add: mirrors_but_def ids frame_reads(4) [OF assms(1) refl])
qed

lemma index_frames [simp]:
  "index_frame db (emit_event tid e d db)" "index_frame db (emit_legacy_notification tid e d us db)"
  "index_frame db (invalidate_ticket_cache tid db)" "index_frame db (clear_ai tid db)"
  "index_frame db (db\<lparr>ed_watchers := ws\<rparr>)" "index_frame db (put ck tid uid f db)"
  by (simp_all add: index_frame_def reference_frame_def emit_event_def emit_legacy_notification_def invalidate_ticket_cache_def clear_ai_def
      put_def set_column_def)

lemma mirror_frames [simp]:
  "index_mirrors sc (emit_event tid e d db) = index_mirrors sc db"
  "index_mirrors sc (emit_legacy_notification tid e d us db) = index_mirrors sc db"
  "index_mirrors sc (invalidate_ticket_cache tid db) = index_mirrors sc db"
  "index_mirrors sc (clear_ai tid db) = index_mirrors sc db"
  "index_mirrors sc (db\<lparr>ed_watchers := ws\<rparr>) = index_mirrors sc db"
  "mirrors_but i sc (emit_event tid e d db) = mirrors_but i sc db"
  "mirrors_but i sc (invalidate_ticket_cache tid db) = mirrors_but i sc db"
  by (rule mirrors_frame; simp)+

text \<open>A line\<close>

lemma history_add_frame:
  assumes "history_add now tid ty name uid db = Inr db'"
  shows "index_frame db db'" "ed_tickets db' = ed_tickets db"
  using assms by (auto simp: history_add_def index_frame_def reference_frame_def split: option.splits)

lemma mirrors_line:
  assumes "history_add now tid ty name uid db = Inr db'"
  shows "index_mirrors sc db' = index_mirrors sc db" "mirrors_but i sc db' = mirrors_but i sc db"
  by (rule mirrors_frame; simp add: history_add_frame [OF assms])+

text \<open>The index of escalations\<close>

lemma mirrors_index_build:
  assumes "escalation_index_build env now tid uid db = Inr db'"
  shows "index_mirrors sc db' = index_mirrors sc db" "mirrors_but i sc db' = mirrors_but i sc db"
proof -
  have "index_key (with_columns now uid c x) = index_key x" for c x
    by (simp add: index_key_def with_columns_def split: prod.split)
  then have keys: "map index_key (upd_where p (with_columns now uid c) ts) = map index_key ts" for p c ts
    by (simp add: upd_where_def)
  have "index_frame db db'" "map index_key (ed_tickets db') = map index_key (ed_tickets db)"
    using assms by (auto simp: index_build_eq res_bind_Inr_iff index_frame_def reference_frame_def keys split: option.splits)
  then show "index_mirrors sc db' = index_mirrors sc db" "mirrors_but i sc db' = mirrors_but i sc db"
    by (rule mirrors_frame)+
qed


text \<open>The columns of one ticket are written.\<close>

lemma put_unique:
  assumes "distinct (map et_id (ed_tickets db))" "find_ticket db tid = Some t"
  shows "ed_tickets (put ck tid uid f db) =
    map (\<lambda>x. if x = t then (f t)\<lparr>et_change_time := ck_now ck, et_change_by := uid\<rparr> else x) (ed_tickets db)"
proof -
  have "et_id x = tid \<longleftrightarrow> x = t" if "x \<in> set (ed_tickets db)" for x
    using find_ticket_unique [OF assms that] find_ticket_id [OF assms(2)] by blast
  then show ?thesis by (simp add: put_def set_column_def upd_where_def)
qed

lemma put_keys:
  assumes "distinct (map et_id (ed_tickets db))" "find_ticket db tid = Some t" "index_key (f t) = index_key t"
  shows "map index_key (ed_tickets (put ck tid uid f db)) = map index_key (ed_tickets db)"
  using assms(3) by (simp add: put_unique [OF assms(1,2), of ck uid f] index_key_def)

lemma mirrors_put_key:
  assumes "find_ticket db tid = Some t" "index_key (f t) = index_key t"
  shows "index_mirrors sc db \<Longrightarrow> index_mirrors sc (put ck tid uid f db)"
    and "mirrors_but i sc db \<Longrightarrow> mirrors_but i sc (put ck tid uid f db)"
proof -
  assume m: "index_mirrors sc db"
  then have "distinct (map et_id (ed_tickets db))" by (simp add: index_mirrors_def)
  from mirrors_frame(1) [OF _ put_keys [of db tid t f ck uid, OF this assms]] m
  show "index_mirrors sc (put ck tid uid f db)" by simp
next
  assume m: "mirrors_but i sc db"
  then have "distinct (map et_id (ed_tickets db))" by (simp add: mirrors_but_def)
  from mirrors_frame(2) [OF _ put_keys [of db tid t f ck uid, OF this assms]] m
  show "mirrors_but i sc (put ck tid uid f db)" by simp
qed

lemma mirrored_dated:
  assumes "mirrored sc db t" shows "dated db t"
  using assms by (auto simp: mirrored_def dated_def index_source_def split: option.splits prod.splits if_splits)

lemma mirrors_put:
  assumes mirrors: "index_mirrors sc db" and t: "find_ticket db tid = Some t"
    and keeps: "et_id (f t) = et_id t" "et_created (f t) = et_created t"
    and source: "index_source db t \<noteq> None \<Longrightarrow> index_source db (f t) \<noteq> None"
  shows "mirrors_but tid sc (put ck tid uid f db)"
proof -
  let ?db = "put ck tid uid f db" and ?t = "(f t)\<lparr>et_change_time := ck_now ck, et_change_by := uid\<rparr>"
  have dist: "distinct (map et_id (ed_tickets db))" and tab: "index_tables db"
    and all: "list_all (mirrored sc db) (ed_tickets db)" using mirrors by (simp_all add: index_mirrors_def)
  note tickets = put_unique [OF dist t, of ck uid f]
  have mem: "t \<in> set (ed_tickets db)" "et_id t = tid" using find_SomeD [OF t [unfolded find_ticket_def]] by simp_all
  have ids: "map et_id (ed_tickets ?db) = map et_id (ed_tickets db)" using keeps(1) by (auto simp: tickets)
  have fr: "index_frame db ?db" by simp
  have reads: "index_source ?db x = index_source db x" "rows_of ?db i = rows_of db i" "ed_queue_names ?db = ed_queue_names db" for x i
    using frame_reads(1,5) [OF fr refl] fr by (simp_all add: index_frame_def reference_frame_def)
  have "dated db t" using all mem(1) by (auto simp: list_all_iff intro: mirrored_dated)
  moreover have "index_source db ?t = index_source db (f t)" by (rule frame_reads) (simp_all add: index_key_def)
  moreover have "et_id ?t = et_id t" "et_created ?t = et_created t" using keeps by simp_all
  ultimately have new: "dated ?db ?t" using source unfolding dated_def reads by (simp split: list.splits)
  have old: "mirrored sc ?db x" if "x \<in> set (ed_tickets db)" for x
    using all that frame_reads(2) [OF fr refl] by (auto simp: list_all_iff)
  have "list_all (\<lambda>x. if et_id x = tid then dated ?db x else mirrored sc ?db x) (ed_tickets ?db)"
    unfolding tickets list_all_iff using new old keeps(1) mem(2) find_ticket_unique [OF dist t] by auto
  then show ?thesis by (simp add: mirrors_but_def ids dist frame_reads(4) [OF fr refl] tab)
qed


section \<open>The accelerator repairs one ticket\<close>

lemma mirrors_dated: "index_mirrors sc db \<Longrightarrow> mirrors_but tid sc db"
  by (auto simp: index_mirrors_def mirrors_but_def list_all_iff intro: mirrored_dated)

lemma find_index_row: "find (\<lambda>i. ix_ticket i = tid) (ed_index db) = (case rows_of db tid of [] \<Rightarrow> None | i # _ \<Rightarrow> Some i)"
proof -
  have "find P xs = (case filter P xs of [] \<Rightarrow> None | i # _ \<Rightarrow> Some i)" for P :: "index_row \<Rightarrow> bool" and xs
    by (induction xs) auto
  then show ?thesis by (simp add: rows_of_def)
qed

lemma source_ticket: "index_source db t = Some r \<Longrightarrow> ix_ticket (fst r) = et_id t"
  by (auto simp: index_source_def split: option.splits)

lemma accelerator_frame:
  "reference_frame db (ticket_accelerator_update sc tid db)" "reference_frame db (ticket_accelerator_delete sc tid db)"
  by (auto simp: reference_frame_def ticket_accelerator_update_def ticket_accelerator_delete_def ticket_accelerator_add_def
      Let_def split: option.split)

lemma deleted_tickets: "ed_tickets (ticket_accelerator_delete sc tid db) = ed_tickets db"
  by (simp add: ticket_accelerator_delete_def)

lemma rows_deleted:
  "is_static_db sc \<Longrightarrow> rows_of (ticket_accelerator_delete sc tid db) i = (if i = tid then [] else rows_of db i)"
  by (auto simp: rows_of_def ticket_accelerator_delete_def intro!: filter_cong)

lemma rows_added:
  "is_static_db sc \<Longrightarrow> index_ticket_row db tid = Some r \<Longrightarrow> ix_ticket (fst r) = tid \<Longrightarrow>
    rows_of (ticket_accelerator_add sc tid db) i =
      (if i = tid \<and> is_viewable sc r then rows_of db i @ [fst r] else rows_of db i)"
  by (simp add: rows_of_def ticket_accelerator_add_def)

lemma accelerator_rows:
  assumes static: "is_static_db sc" and t: "find_ticket db tid = Some t" and r: "index_source db t = Some r"
  shows "rows_of (ticket_accelerator_update sc tid db) i =
    (if i \<noteq> tid then rows_of db i
     else if \<not> is_viewable sc r then []
     else if needs_resync (case rows_of db tid of [] \<Rightarrow> None | x # _ \<Rightarrow> Some x) (fst r) then [fst r]
     else rows_of db i)"
proof -
  let ?del = "ticket_accelerator_delete sc tid db"
  have id: "ix_ticket (fst r) = tid" using source_ticket [OF r] find_ticket_id [OF t] by simp
  have row: "index_ticket_row db tid = Some r" by (simp add: index_ticket_row_def t r)
  have "index_ticket_row ?del tid = index_ticket_row db tid"
    unfolding index_ticket_row_def find_ticket_def deleted_tickets source_frame [OF accelerator_frame(2) refl] by (rule refl)
  note added = rows_added [OF static this [unfolded row] id]
  show ?thesis
    using static by (auto simp: ticket_accelerator_update_def Let_def row find_index_row added rows_deleted split: list.splits)
qed

lemma accelerator_mirrored:
  assumes static: "is_static_db sc" and t: "find_ticket db tid = Some t" and dated: "dated db t"
  shows "mirrored sc (ticket_accelerator_update sc tid db) t"
proof -
  from dated obtain r where r: "index_source db t = Some r" by (auto simp: dated_def)
  have id: "et_id t = tid" by (rule find_ticket_id [OF t])
  have "i = fst r" if "rows_of db tid = [i]" "\<not> needs_resync (Some i) (fst r)" for i
  proof -
    have "i \<in> set (rows_of db tid)" using that(1) by simp
    then have "ix_ticket i = tid" by (simp add: rows_of_def)
    with that dated r id show ?thesis
      by (auto simp: dated_def needs_resync_def index_source_def split: option.splits intro!: index_row.equality)
  qed
  moreover have "\<exists>i. rows_of db tid = [i]" if "rows_of db tid \<noteq> []"
    using that dated id by (auto simp: dated_def split: list.splits)
  ultimately have "rows_of (ticket_accelerator_update sc tid db) tid = (if is_viewable sc r then [fst r] else [])"
    unfolding accelerator_rows [OF static t r]
    by (cases "rows_of db tid = []") (auto simp: needs_resync_def [of None])
  then show ?thesis by (simp add: mirrored_def source_frame [OF accelerator_frame(1) refl] r id)
qed

lemma mirrors_accelerator:
  assumes static: "is_static_db sc" and but: "mirrors_but tid sc db"
  shows "index_mirrors sc (ticket_accelerator_update sc tid db)"
proof (cases "find_ticket db tid")
  case None
  then have "\<And>x. x \<in> set (ed_tickets db) \<Longrightarrow> et_id x \<noteq> tid" by (auto simp: find_ticket_def find_None_iff)
  with but None show ?thesis
    by (auto simp: ticket_accelerator_update_def index_ticket_row_def mirrors_but_def index_mirrors_def list_all_iff)
next
  case (Some t)
  let ?db = "ticket_accelerator_update sc tid db"
  have dist: "distinct (map et_id (ed_tickets db))" using but by (simp add: mirrors_but_def)
  have mem: "t \<in> set (ed_tickets db)" "et_id t = tid" using find_SomeD [OF Some [unfolded find_ticket_def]] by simp_all
  have dated: "dated db t" using but mem by (auto simp: mirrors_but_def list_all_iff)
  then obtain r where r: "index_source db t = Some r" by (auto simp: dated_def)
  have "mirrored sc ?db x" if x: "x \<in> set (ed_tickets db)" for x
  proof (cases "et_id x = tid")
    case True
    then show ?thesis using find_ticket_unique [OF dist Some x True] accelerator_mirrored [OF static Some dated] by simp
  next
    case False
    then have "mirrored sc db x" using but x by (auto simp: mirrors_but_def list_all_iff)
    then show ?thesis
      unfolding mirrored_def source_frame [OF accelerator_frame(1) refl] accelerator_rows [OF static Some r]
      using False by simp
  qed
  moreover have "index_tables ?db"
    using but accelerator_frame(1) [of db sc tid] by (simp add: mirrors_but_def index_tables_def reference_frame_def)
  ultimately show ?thesis using dist by (simp add: index_mirrors_def list_all_iff)
qed


section \<open>Every write keeps the mirror\<close>

lemma must_exist_iff: "ticket_must_exist db tid = Inr t \<longleftrightarrow> find_ticket db tid = Some t"
  by (simp add: ticket_must_exist_def split: option.split)

lemma lookup_row_iff: "lookup_row table i = Inr r \<longleftrightarrow> map_of table i = Some r"
  by (simp add: lookup_row_def split: option.split)

lemma queue_name_iff: "queue_name db q = Inr n \<longleftrightarrow> (\<exists>g. map_of (ed_queue_names db) q = Some (n, g))"
  by (auto simp: queue_name_def res_bind_Inr_iff lookup_row_iff)

definition has_source :: "esc_db \<Rightarrow> esc_ticket \<Rightarrow> bool" where
  "has_source db t \<longleftrightarrow> index_source db t \<noteq> None"

lemma source_iff: "has_source db t \<longleftrightarrow> map_of (ed_queue_names db) (et_queue t) \<noteq> None \<and>
    map_of (ed_locks db) (et_lock t) \<noteq> None \<and> map_of (ed_state_names db) (et_state t) \<noteq> None \<and>
    map_of (ed_states db) (et_state t) \<noteq> None"
  by (auto simp: has_source_def index_source_def split: option.split)

lemma tables_lock: "index_mirrors sc db \<Longrightarrow> \<exists>n. map_of (ed_locks db) 1 = Some n" "index_mirrors sc db \<Longrightarrow> \<exists>n. map_of (ed_locks db) 2 = Some n"
  by (auto simp: index_mirrors_def index_tables_def)

lemma tables_state: "index_mirrors sc db \<Longrightarrow> map_of (ed_state_names db) i = Some n \<Longrightarrow> \<exists>ty. map_of (ed_states db) i = Some ty"
  by (auto simp: index_mirrors_def index_tables_def list_all_iff dest!: map_of_SomeD)

text \<open>A change of the ticket with its line, seen or not seen by the index\<close>

definition sourced :: "esc_db \<Rightarrow> int \<Rightarrow> (esc_ticket \<Rightarrow> esc_ticket) \<Rightarrow> bool" where
  "sourced db tid f \<longleftrightarrow>
     (case find_ticket db tid of
        None \<Rightarrow> False
      | Some t \<Rightarrow> et_id (f t) = et_id t \<and> et_created (f t) = et_created t \<and>
          (has_source db t \<longrightarrow> has_source db (f t)))"

lemma mirrors_written:
  assumes "history_add now i ty name uid (put ck tid uid f db) = Inr db'" "index_mirrors sc db" "sourced db tid f"
  shows "mirrors_but tid sc db'"
  using assms mirrors_put [OF assms(2)] by (auto simp: mirrors_line(2) [OF assms(1)] sourced_def has_source_def split: option.splits)

lemma mirrors_kept:
  assumes "history_add now i ty name uid (put ck tid uid f db) = Inr db'" "index_mirrors sc db" "find_ticket db tid = Some t"
    "index_key (f t) = index_key t"
  shows "index_mirrors sc db'"
  using mirrors_put_key(1) [of db tid t f sc ck uid, OF assms(3,4,2)] by (simp add: mirrors_line(1) [OF assms(1)])

lemma mirrors_move:
  assumes "is_static_db (ee_config env)" "move_queue env ck uid tid q db = Inr db'" "index_mirrors (ee_config env) db"
  shows "index_mirrors (ee_config env) db'"
  using assms by (auto simp: move_queue_def line_defs res_bind_Inr_iff Let_def must_exist_iff queue_name_iff split: if_splits)
    (rule mirrors_accelerator, assumption, erule mirrors_written; simp add: sourced_def source_iff)+

lemma mirrors_priority:
  assumes "is_static_db (ee_config env)" "change_priority env ck uid tid q db = Inr db'" "index_mirrors (ee_config env) db"
  shows "index_mirrors (ee_config env) db'"
  using assms by (auto simp: change_priority_def line_defs res_bind_Inr_iff Let_def must_exist_iff)
    (rule mirrors_accelerator, assumption, erule mirrors_written; simp add: sourced_def source_iff)

lemma mirrors_archive:
  assumes "is_static_db (ee_config env)" "archive_ticket env ck uid tid q db = Inr db'" "index_mirrors (ee_config env) db"
  shows "index_mirrors (ee_config env) db'"
  using assms by (auto simp: archive_ticket_def line_defs res_bind_Inr_iff Let_def must_exist_iff)
    (rule mirrors_accelerator, assumption, erule mirrors_written; simp add: sourced_def source_iff)+

lemma mirrors_type: "change_ticket_type ck uid tid q db = Inr db' \<Longrightarrow> index_mirrors sc db \<Longrightarrow> index_mirrors sc db'"
  by (auto simp: change_ticket_type_def line_defs res_bind_Inr_iff Let_def must_exist_iff split: if_splits)
    (erule mirrors_kept; simp add: index_key_def)

lemma mirrors_responsible: "assign_responsible ck uid tid q db = Inr db' \<Longrightarrow> index_mirrors sc db \<Longrightarrow> index_mirrors sc db'"
  by (auto simp: assign_responsible_def line_defs res_bind_Inr_iff Let_def must_exist_iff)
    (erule mirrors_kept; simp add: index_key_def)+

lemma mirrors_customer_line:
  assumes "add_customer_update ck tid uid c u (put ck tid uid f db) = Inr db'" "index_mirrors sc db" "find_ticket db tid = Some t"
    "index_key (f t) = index_key t"
  shows "index_mirrors sc db'"
  using assms(1) mirrors_put_key(1) [of db tid t f sc ck uid, OF assms(3,4,2)]
  by (auto simp: add_customer_update_def Let_def mirrors_line split: if_splits)

lemma mirrors_customer: "set_customer ck uid tid c u g db = Inr db' \<Longrightarrow> index_mirrors sc db \<Longrightarrow> index_mirrors sc db'"
  by (auto simp: set_customer_def res_bind_Inr_iff must_exist_iff split: if_split_asm simp del: if_image_distrib)
    (erule mirrors_customer_line; simp add: index_key_def)+

lemma mirrors_timeout:
  assumes "ticket_unlock_timeout_update ck uid tid n db = Inr db'"
  shows "index_mirrors sc db \<Longrightarrow> index_mirrors sc db'" "mirrors_but i sc db \<Longrightarrow> mirrors_but i sc db'"
proof -
  obtain t where t: "find_ticket db tid = Some t"
    using assms by (auto simp: ticket_unlock_timeout_update_def split: option.splits)
  note key = mirrors_put_key [OF t, of "et_timeout_update (\<lambda>_. n)", unfolded index_key_def, simplified]
  show "index_mirrors sc db \<Longrightarrow> index_mirrors sc db'" "mirrors_but i sc db \<Longrightarrow> mirrors_but i sc db'"
    using assms key by (auto simp: ticket_unlock_timeout_update_def t res_bind_Inr_iff mirrors_line split: if_splits)
qed

lemma mirrors_lock_line:
  assumes "add_lock ck tid uid name db = Inr db'"
  shows "index_mirrors sc db' = index_mirrors sc db" "mirrors_but i sc db' = mirrors_but i sc db"
  using assms by (simp_all add: add_lock_def mirrors_line)

lemma mirrors_lock:
  assumes "is_static_db (ee_config env)" "lock_ticket env ck uid tid db = Inr db'" "index_mirrors (ee_config env) db"
  shows "index_mirrors (ee_config env) db'"
  using assms tables_lock [OF assms(3)] by (auto simp: lock_ticket_def add_lock_def res_bind_Inr_iff must_exist_iff split: if_split_asm)
    (rule mirrors_accelerator, assumption, erule mirrors_timeout, erule mirrors_written; simp add: sourced_def source_iff)+

lemma mirrors_unlock:
  assumes "is_static_db (ee_config env)" "unlock_ticket env ck uid tid db = Inr db'" "index_mirrors (ee_config env) db"
  shows "index_mirrors (ee_config env) db'"
  using assms tables_lock [OF assms(3)] by (auto simp: unlock_ticket_def add_lock_def res_bind_Inr_iff must_exist_iff split: if_split_asm)
    (rule mirrors_accelerator, assumption, erule mirrors_written; simp add: sourced_def source_iff)+

lemma mirrors_set_lock:
  assumes "is_static_db (ee_config env)" "set_ticket_lock env ck uid tid i db = Inr db'" "index_mirrors (ee_config env) db"
  shows "index_mirrors (ee_config env) db'"
  using assms by (auto simp: set_ticket_lock_def add_lock_def res_bind_Inr_iff must_exist_iff lookup_row_iff
      split: if_split_asm intro: mirrors_lock mirrors_unlock)
    (rule mirrors_accelerator, assumption, erule mirrors_written; simp add: sourced_def source_iff)+

lemma mirrors_watch: "watch_ticket ck uid tid u db = Inr db' \<Longrightarrow> index_mirrors sc db \<Longrightarrow> index_mirrors sc db'"
  by (auto simp: watch_ticket_def add_subscribe_def res_bind_Inr_iff Let_def mirrors_line split: if_splits)

lemma mirrors_unwatch: "unwatch_ticket ck uid tid u db = Inr db' \<Longrightarrow> index_mirrors sc db \<Longrightarrow> index_mirrors sc db'"
  by (auto simp: unwatch_ticket_def add_unsubscribe_def res_bind_Inr_iff mirrors_line)

lemma mirrors_state:
  assumes "is_static_db (ee_config env)" "change_state env ck uid tid st p db = Inr db'" "index_mirrors (ee_config env) db"
  shows "index_mirrors (ee_config env) db'"
proof -
  let ?sc = "ee_config env"
  from assms(2) obtain t old new until db1 db2 db3 where t: "find_ticket db tid = Some t"
    and new: "map_of (ed_state_names db) st = Some new"
    and 1: "add_state_update ck tid uid old new (put ck tid uid (\<lambda>t. t\<lparr>et_state := st, et_until := until\<rparr>) db) = Inr db1"
    and 2: "(case p of Some p \<Rightarrow> add_pending_time ck tid uid (if pending_state (state_type_name db st) then p else no_pending) db1
         | None \<Rightarrow> if pending_state (state_type_name db st) then Inr db1 else add_pending_time ck tid uid no_pending db1) = Inr db2"
    and 3: "escalation_index_build env (ck_now ck) tid uid db2 = Inr db3"
    and 4: "index_mirrors ?sc db' = index_mirrors ?sc (ticket_accelerator_update ?sc tid db3)"
    by (auto simp: change_state_def res_bind_Inr_iff Let_def must_exist_iff lookup_row_iff)
  have "sourced db tid (\<lambda>t. t\<lparr>et_state := st, et_until := until\<rparr>)"
    using t new tables_state [OF assms(3) new] by (simp add: sourced_def source_iff)
  then have "mirrors_but tid ?sc db1" using 1 assms(3) by (auto simp: add_state_update_def intro: mirrors_written)
  then have "mirrors_but tid ?sc db2" using 2 by (auto simp: add_pending_time_def mirrors_line split: option.splits if_splits)
  then have "mirrors_but tid ?sc db3" by (simp add: mirrors_index_build [OF 3])
  then show ?thesis using 4 mirrors_accelerator [OF assms(1)] by simp
qed

lemma mirrors_sla:
  assumes "is_static_db (ee_config env)" "change_sla env ck uid tid i db = Inr db'" "index_mirrors (ee_config env) db"
  shows "index_mirrors (ee_config env) db'"
  using assms by (auto simp: change_sla_def add_sla_update_def res_bind_Inr_iff Let_def must_exist_iff split: if_split_asm)
    (rule mirrors_accelerator, assumption, simp only: mirrors_index_build, erule mirrors_written; simp add: sourced_def source_iff)+

lemma mirrors_owner:
  assumes static: "is_static_db (ee_config env)" and run: "assign_owner env ck uid tid u l db = Inr db'"
    and mirrors: "index_mirrors (ee_config env) db"
  shows "index_mirrors (ee_config env) db'"
proof -
  let ?sc = "ee_config env"
  from run obtain t where t: "find_ticket db tid = Some t" by (auto simp: assign_owner_def res_bind_Inr_iff must_exist_iff)
  show ?thesis
  proof (cases "et_owner t = u")
    case False
    let ?f = "\<lambda>x. x\<lparr>et_owner := u, et_lock := (if l \<and> et_lock t = 1 then 2 else et_lock t)\<rparr>"
    from False run t obtain login db1 db2 where
        1: "add_owner_update ck tid uid login u (put ck tid uid ?f db) = Inr db1"
      and 2: "(if l \<and> et_lock t = 1
          then res_bind (add_lock ck tid uid ''lock'' db1) (ticket_unlock_timeout_update ck uid tid (ck_epoch ck))
          else Inr db1) = Inr db2"
      and 3: "index_mirrors ?sc db' = index_mirrors ?sc (ticket_accelerator_update ?sc tid db2)"
      by (auto simp: assign_owner_def res_bind_Inr_iff must_exist_iff Let_def simp del: if_image_distrib)
    have "sourced db tid ?f" using t tables_lock [OF mirrors] by (auto simp: sourced_def source_iff)
    then have "mirrors_but tid ?sc db1" using 1 mirrors by (auto simp: add_owner_update_def intro: mirrors_written)
    then have "mirrors_but tid ?sc db2"
      using 2 by (auto simp: res_bind_Inr_iff mirrors_lock_line split: if_splits intro: mirrors_timeout)
    then show ?thesis using 3 mirrors_accelerator [OF static] by simp
  qed (use run t mirrors in \<open>simp add: assign_owner_def must_exist_iff [THEN iffD2]\<close>)
qed

lemma mirrors_acquire:
  assumes "is_static_db (ee_config env)" "acquire_lock env ck uid tid a k db = Inr (r, db')" "index_mirrors (ee_config env) db"
  shows "index_mirrors (ee_config env) db'"
  using assms by (auto simp: acquire_lock_def res_bind_Inr_iff split: if_splits intro: mirrors_lock mirrors_owner)

lemma mirrors_fire: "fire now tid uid e nm db = Inr db' \<Longrightarrow> index_mirrors sc db \<Longrightarrow> index_mirrors sc db'"
  by (auto simp: fire_def res_bind_Inr_iff mirrors_line)

lemma mirrors_sweep:
  assumes "sweep_ticket env now e w tid uid db = Inr (f, db')" "index_mirrors sc db"
  shows "index_mirrors sc db'"
proof -
  have column: "index_mirrors sc d'" if "sweep_column now e w tid uid b a c (g, d) = Inr (g', d')" "index_mirrors sc d"
    for b a c g d g' d'
    using that by (auto simp: sweep_column_def start_stop_def notify_before_def res_bind_Inr_iff split: if_splits intro: mirrors_fire)
  have fold: "index_mirrors sc d'" if "res_fold (sweep_column now e w tid uid b a) cs (g, d) = Inr (g', d')" "index_mirrors sc d"
    for b a cs g d g' d'
    using that by (induction cs arbitrary: g d) (auto simp: res_bind_Inr_iff dest: column)
  show ?thesis
    using assms by (auto simp: sweep_ticket_def res_bind_Inr_iff split: option.splits
        intro: fold mirrors_index_build(1) [THEN iffD2])
qed

lemma mirrors_run:
  assumes "is_static_db (ee_config env)" "run_write env w db = Inr db'" "index_mirrors (ee_config env) db"
  shows "index_mirrors (ee_config env) db'"
  using assms by (auto simp: run_write_def res_bind_Inr_iff split: prod.splits ticket_op.splits
      intro: mirrors_move mirrors_state mirrors_priority mirrors_type mirrors_sla mirrors_customer mirrors_owner
        mirrors_responsible mirrors_lock mirrors_unlock mirrors_set_lock mirrors_acquire mirrors_watch mirrors_unwatch
        mirrors_archive mirrors_sweep)

text \<open>
  C22. With the static index in use, the index has for every ticket exactly the row its queue, lock, state and creation
  time give, if the type of its state is viewable and it is not archived, and no row otherwise; every sequence of writes
  that all succeed keeps it so. The comparison of lock, state and queue with the stored row is enough for that: no write
  changes what else is in the row.
\<close>

theorem index_mirrors_tickets:
  assumes "res_fold (run_write env) ws db = Inr db'" and "is_static_db (ee_config env)" and "index_mirrors (ee_config env) db"
  shows "index_mirrors (ee_config env) db'"
  using assms(1,3) by (induction ws arbitrary: db) (auto simp: res_bind_Inr_iff dest: mirrors_run [OF assms(2)])

theorem index_mirrors_tickets_witness:
  "\<exists>db'. res_fold (run_write sample_write_env) sample_writes sample_write_db = Inr db' \<and>
    index_mirrors (ee_config sample_write_env) db' \<and> ed_index db' = []"
proof -
  obtain db' where r: "res_fold (run_write sample_write_env) sample_writes sample_write_db = Inr db'" "ed_index db' = []"
    using sample_writes_run by (auto split: sum.splits)
  have "is_static_db (ee_config sample_write_env)" "index_mirrors (ee_config sample_write_env) sample_write_db"
    by code_simp+
  with index_mirrors_tickets [OF r(1)] r show ?thesis by blast
qed

section \<open>Locks exclude each other\<close>

lemma find_frames [simp]:
  "find_ticket (emit_event i e d db) tid = find_ticket db tid"
  "find_ticket (emit_legacy_notification i e d us db) tid = find_ticket db tid"
  "find_ticket (invalidate_ticket_cache i db) tid = find_ticket db tid"
  "find_ticket (clear_ai i db) tid = find_ticket db tid"
  "find_ticket (ticket_accelerator_update sc i db) tid = find_ticket db tid"
  by (simp_all add: find_ticket_def)

lemma find_line: "history_add now i ty name uid db = Inr db' \<Longrightarrow> find_ticket db' tid = find_ticket db tid"
  by (simp add: find_ticket_def history_add_frame)

lemma find_put:
  assumes "\<And>t. et_id (f t) = et_id t" "find_ticket db tid = Some t"
  shows "find_ticket (put ck tid uid f db) tid = Some ((f t)\<lparr>et_change_time := ck_now ck, et_change_by := uid\<rparr>)"
  using find_ticket_row [of "\<lambda>t. (f t)\<lparr>et_change_time := ck_now ck, et_change_by := uid\<rparr>" tid] assms
  by (simp add: put_def set_column_def find_ticket_def)

text \<open>Lock and owner of a ticket\<close>

definition holder :: "esc_db \<Rightarrow> int \<Rightarrow> (int \<times> int) option" where
  "holder db tid = map_option (\<lambda>t. (et_lock t, et_owner t)) (find_ticket db tid)"

lemma holder_timeout: "ticket_unlock_timeout_update ck uid tid n db = Inr db' \<Longrightarrow> holder db' tid = holder db tid"
  by (auto simp: ticket_unlock_timeout_update_def holder_def res_bind_Inr_iff find_line find_put split: option.splits if_splits)

lemma holder_lock:
  assumes "lock_ticket env ck uid tid db = Inr db'" "find_ticket db tid = Some t"
  shows "holder db' tid = Some (if et_lock t = 1 then 2 else et_lock t, et_owner t)"
proof (cases "et_lock t = 1")
  case True
  with assms obtain db1 db2 where
      1: "add_lock ck tid uid ''lock'' (put ck tid uid (et_lock_update (\<lambda>_. 2)) db) = Inr db1"
    and 2: "ticket_unlock_timeout_update ck uid tid (ck_epoch ck) db1 = Inr db2"
    and 3: "holder db' tid = holder db2 tid"
    by (auto simp: lock_ticket_def res_bind_Inr_iff must_exist_iff holder_def)
  have "holder db1 tid = Some (2, et_owner t)" using 1 by (auto simp: add_lock_def holder_def find_line find_put assms(2))
  then show ?thesis using True 3 holder_timeout [OF 2] by simp
qed (use assms in \<open>auto simp: lock_ticket_def res_bind_Inr_iff must_exist_iff holder_def\<close>)

lemma holder_owner:
  assumes "assign_owner env ck uid tid u False db = Inr db'" "holder db tid = Some (l, w)"
  shows "holder db' tid = Some (l, u)"
  using assms by (auto simp: assign_owner_def add_owner_update_def res_bind_Inr_iff must_exist_iff holder_def find_line find_put
      split: if_splits)

text \<open>
  C23. Who gets an answer other than ``locked by somebody'' for an action that requires the lock has the ticket: it is
  locked and owned by the asking agent, and everybody else who asks afterwards without taking over is told the agent's
  name and changes nothing. Who is refused has changed nothing either.
\<close>

theorem acquired_excludes:
  assumes "acquire_lock env ck uid tid act takeover db = Inr (r, db')"
    and "required_lock (ee_config env) act" and "required_lock (ee_config env) act'" and "uid' \<noteq> uid"
  shows "case r of
      Locked_by_other w n \<Rightarrow> \<not> takeover \<and> w \<noteq> uid \<and> db' = db
    | Not_required \<Rightarrow> False
    | _ \<Rightarrow> acquire_lock env ck' uid' tid act' False db' = Inr (Locked_by_other uid (user_display_name db' uid), db') \<and>
        acquire_lock env ck' uid tid act' takeover' db' = Inr (Already_mine, db')"
proof -
  obtain t where t: "find_ticket db tid = Some t" using assms(1,2) by (auto simp: acquire_lock_def res_bind_Inr_iff must_exist_iff)
  have got: "acquire_lock env ck' uid' tid act' False db' = Inr (Locked_by_other uid (user_display_name db' uid), db') \<and>
        acquire_lock env ck' uid tid act' takeover' db' = Inr (Already_mine, db')"
    if "holder db' tid = Some (l, uid)" "l \<noteq> 1" for l
  proof -
    obtain t' where "find_ticket db' tid = Some t'" "et_lock t' \<noteq> 1" "et_owner t' = uid"
      using \<open>holder db' tid = Some (l, uid)\<close> \<open>l \<noteq> 1\<close> by (auto simp: holder_def)
    then show ?thesis using assms(3,4) by (simp add: acquire_lock_def ticket_must_exist_def)
  qed
  show ?thesis
  proof (cases "et_lock t = 1")
    case True
    with assms(1,2) t obtain db1 where 1: "lock_ticket env ck uid tid db = Inr db1"
      and 2: "(if et_owner t \<noteq> uid then assign_owner env ck uid tid uid False db1 else Inr db1) = Inr db'" and r: "r = Acquired"
      by (auto simp: acquire_lock_def res_bind_Inr_iff must_exist_iff)
    have "holder db1 tid = Some (2, et_owner t)" using holder_lock [OF 1 t] True by simp
    then have "holder db' tid = Some (2, uid)" using 2 by (auto split: if_splits dest: holder_owner)
    then show ?thesis using got r by simp
  next
    case False
    with assms(1,2) t consider "r = Already_mine" "db' = db" "et_owner t = uid"
      | w n where "r = Locked_by_other w n" "\<not> takeover" "w \<noteq> uid" "db' = db"
      | "r = Taken_over" "assign_owner env ck uid tid uid False db = Inr db'"
      by (auto simp: acquire_lock_def res_bind_Inr_iff must_exist_iff split: if_splits)
    then show ?thesis
    proof cases
      case 1
      then show ?thesis using got False t by (simp add: holder_def)
    next
      case 3
      have "holder db' tid = Some (et_lock t, uid)" by (rule holder_owner [OF 3(2)]) (simp add: holder_def t)
      then show ?thesis using got 3(1) False by simp
    qed simp
  qed
qed

theorem acquired_excludes_witness:
  "\<exists>db'. acquire_lock sample_write_env sample_clock 3 7 ''compose'' False sample_write_db = Inr (Acquired, db') \<and>
    acquire_lock sample_write_env sample_clock 2 7 ''forward'' False db' =
      Inr (Locked_by_other 3 (user_display_name db' 3), db')"
proof -
  have "case acquire_lock sample_write_env sample_clock 3 7 ''compose'' False sample_write_db of
      Inr (r, _) \<Rightarrow> r = Acquired | Inl _ \<Rightarrow> False"
    by code_simp
  then obtain db' where r: "acquire_lock sample_write_env sample_clock 3 7 ''compose'' False sample_write_db = Inr (Acquired, db')"
    by (auto split: sum.splits prod.splits)
  have "required_lock (ee_config sample_write_env) ''compose''" "required_lock (ee_config sample_write_env) ''forward''"
    by code_simp+
  from acquired_excludes [OF r this, of 2] r show ?thesis by auto
qed

section \<open>Closing ends the escalation\<close>

lemma closed_not_pending: "no_escalation_state s \<Longrightarrow> \<not> pending_state s"
proof
  assume a: "no_escalation_state s" "pending_state s"
  have "take n (lower s) = take n ''pending''" if "n \<le> 7" for n
    using arg_cong [OF a(2) [unfolded pending_state_def], of "take n"] that by (simp add: min_def)
  from this [of 5] this [of 6] a(1) show False by (simp add: no_escalation_state_def)
qed

definition idle :: "esc_ticket \<Rightarrow> bool" where
  "idle t \<longleftrightarrow> et_until t = 0 \<and> et_response t = 0 \<and> et_update t = 0 \<and> et_solution t = 0 \<and> et_escalation t = 0"

lemma build_idle:
  assumes "escalation_index_build env now tid uid db = Inr db'" "find_ticket db tid = Some t" "et_until t = 0"
    "map_of (ed_states db) (et_state t) = Some ty" "no_escalation_state ty"
  shows "\<exists>t'. find_ticket db' tid = Some t' \<and> et_state t' = et_state t \<and> idle t'" "ed_states db' = ed_states db"
proof -
  have cols: "index_columns env db t = Inr (Some (0, 0, 0, 0))" using assms(4,5) by (simp add: index_columns_def)
  have db': "db' = db\<lparr>ed_tickets := upd_where (\<lambda>t. et_id t = tid) (with_columns now uid (0, 0, 0, 0)) (ed_tickets db)\<rparr>"
    using assms(1) by (simp add: index_build_eq assms(2) cols)
  have "find_ticket db' tid = Some (with_columns now uid (0, 0, 0, 0) t)"
    using find_ticket_row [of "with_columns now uid (0, 0, 0, 0)" tid] assms(2) by (simp add: db' find_ticket_def)
  moreover have "idle (with_columns now uid (0, 0, 0, 0) t)" using assms(3) by (simp add: idle_def with_columns_def)
  ultimately show "\<exists>t'. find_ticket db' tid = Some t' \<and> et_state t' = et_state t \<and> idle t'" by simp
  show "ed_states db' = ed_states db" by (simp add: db')
qed

lemma idle_deadline: "idle t \<Longrightarrow> nearest_deadline t = None"
  by (simp add: idle_def nearest_deadline_def DEADLINE_KINDS_def)

lemma states_frames [simp]:
  "ed_states (emit_event i e d db) = ed_states db" "ed_states (invalidate_ticket_cache i db) = ed_states db"
  "ed_states (clear_ai i db) = ed_states db" "ed_states (ticket_accelerator_update sc i db) = ed_states db"
  "ed_states (put ck i uid f db) = ed_states db"
  using accelerator_frame(1) [of db sc i]
  by (simp_all add: emit_event_def invalidate_ticket_cache_def clear_ai_def put_def reference_frame_def)

lemma states_line: "history_add now i ty name uid db = Inr db' \<Longrightarrow> ed_states db' = ed_states db"
  using history_add_frame(1) by (simp add: index_frame_def reference_frame_def)

lemma clear_ai_cleared:
  "list_all (\<lambda>a. ai_ticket a = tid \<longrightarrow> ai_escalated_at a = None \<and> ai_grant a = None) (ed_ai (clear_ai tid db))"
  by (simp add: clear_ai_def upd_where_def list.pred_map list.pred_True comp_def)

text \<open>
  C24. A change to a closed, merged or removed state ends everything that runs for a ticket: the new state is stored, the
  pending time and the four escalation columns are 0, so that no deadline is shown and no sweep picks the ticket, and
  the handoff marks and grants of the assistant are gone.
\<close>

theorem closing_ends_escalation:
  assumes "change_state env ck uid tid st p db = Inr db'" and "no_escalation_state (state_type_name db st)"
  shows "\<exists>t. find_ticket db' tid = Some t \<and> et_state t = st \<and> idle t \<and> nearest_deadline t = None \<and> \<not> sweepable db' t \<and>
    (lower (state_type_name db st) \<in> {''closed'', ''merged'', ''removed''} \<longrightarrow>
      list_all (\<lambda>a. ai_ticket a = tid \<longrightarrow> ai_escalated_at a = None \<and> ai_grant a = None) (ed_ai db'))"
proof -
  let ?f = "\<lambda>t. t\<lparr>et_state := st, et_until := 0\<rparr>" and ?ends = "lower (state_type_name db st) \<in> {''closed'', ''merged'', ''removed''}"
  have "\<not> no_escalation_state ''open''" by code_simp
  then obtain ty where ty: "map_of (ed_states db) st = Some ty" "no_escalation_state ty"
    using assms(2) by (auto simp: state_type_name_def split: option.splits)
  have "\<not> pending_state (state_type_name db st)" by (rule closed_not_pending [OF assms(2)])
  with assms(1) obtain t old new db1 db2 db3 where t: "find_ticket db tid = Some t"
    and 1: "add_state_update ck tid uid old new (put ck tid uid ?f db) = Inr db1"
    and 2: "add_pending_time ck tid uid no_pending db1 = Inr db2"
    and 3: "escalation_index_build env (ck_now ck) tid uid db2 = Inr db3"
    and db': "db' = (let db4 = emit_event tid ''TicketStateUpdate'' [(''state_id'', PInt st)]
        (invalidate_ticket_cache tid (ticket_accelerator_update (ee_config env) tid db3)) in if ?ends then clear_ai tid db4 else db4)"
    by (auto simp: change_state_def res_bind_Inr_iff Let_def must_exist_iff split: option.splits)
  obtain t2 where t2: "find_ticket db2 tid = Some t2" "et_state t2 = st" "et_until t2 = 0"
    using 1 2 by (auto simp: add_state_update_def add_pending_time_def find_line find_put t)
  have states: "ed_states db2 = ed_states db" using 1 2 by (auto simp: add_state_update_def add_pending_time_def dest!: states_line)
  have st: "map_of (ed_states db2) (et_state t2) = Some ty" by (simp add: states t2(2) ty(1))
  note idle = build_idle [OF 3 t2(1) t2(3) st ty(2)]
  then obtain t3 where t3: "find_ticket db3 tid = Some t3" "et_state t3 = st" "idle t3" using t2(2) by auto
  have "find_ticket db' tid = Some t3" "ed_states db' = ed_states db" using t3(1) states idle(2) by (auto simp: db' Let_def)
  moreover have "\<not> sweepable db' t3" using \<open>ed_states db' = ed_states db\<close> t3(2) ty by (simp add: sweepable_def)
  moreover have "list_all (\<lambda>a. ai_ticket a = tid \<longrightarrow> ai_escalated_at a = None \<and> ai_grant a = None) (ed_ai db')" if ?ends
    unfolding db' Let_def if_P [OF that] by (rule clear_ai_cleared)
  ultimately show ?thesis using t3 idle_deadline by blast
qed

theorem closing_ends_escalation_witness:
  "\<exists>db'. change_state sample_write_env sample_clock 3 7 2 None sample_write_db = Inr db' \<and>
    (\<exists>t. find_ticket db' 7 = Some t \<and> et_state t = 2 \<and> idle t)"
proof -
  have "case change_state sample_write_env sample_clock 3 7 2 None sample_write_db of Inr _ \<Rightarrow> True | Inl _ \<Rightarrow> False"
    by code_simp
  then obtain db' where r: "change_state sample_write_env sample_clock 3 7 2 None sample_write_db = Inr db'"
    by (auto split: sum.splits)
  have "no_escalation_state (state_type_name sample_write_db 2)" by code_simp
  from closing_ends_escalation [OF r this] r show ?thesis by blast
qed

text \<open>A move stores the queue and leaves the columns that were computed for the old one.\<close>

lemma move_keeps_columns:
  assumes "move_queue env ck uid tid q db = Inr db'" "find_ticket db tid = Some t"
  obtains t' where "find_ticket db' tid = Some t'" "et_queue t' = q"
    "et_response t' = et_response t" "et_update t' = et_update t" "et_solution t' = et_solution t" "et_escalation t' = et_escalation t"
proof -
  from assms obtain new old db1 where 1: "add_move ck tid uid new q old (et_queue t) (put ck tid uid (et_queue_update (\<lambda>_. q)) db) = Inr db1"
    and 2: "find_ticket db' tid = find_ticket db1 tid"
    by (auto simp: move_queue_def res_bind_Inr_iff must_exist_iff Let_def)
  have "find_ticket db' tid = Some (t\<lparr>et_queue := q, et_change_time := ck_now ck, et_change_by := uid\<rparr>)"
    using 1 by (simp add: 2 add_move_def find_line find_put assms(2))
  then show thesis by (rule that) simp_all
qed

text \<open>In the sample, queue 2 has no targets: the index would clear what the move leaves.\<close>

definition moved_sample :: esc_db where
  "moved_sample = sample_write_db\<lparr>ed_tickets := map (with_columns 0 1 sample_columns) (ed_tickets sample_write_db)\<rparr>"

lemma move_leaves_stale_deadlines:
  "case move_queue sample_write_env sample_clock 3 7 2 moved_sample of
     Inr db' \<Rightarrow> map et_escalation (ed_tickets db') = [1711728000] \<and>
       (case escalation_index_build sample_write_env 1711726300 7 1 db' of
          Inr db2 \<Rightarrow> map et_escalation (ed_tickets db2) = [0] | Inl _ \<Rightarrow> False)
   | Inl _ \<Rightarrow> False"
  by code_simp

end
