(* ===== verification/Spec2Isabelle.thy ===== *)
theory Spec2Isabelle
  imports
    Change_Phases
    Job_Queue
    Approval_Decisions
    Cron
    Change_Conflicts
    Process_Conditions
    Ticket_Mirror
begin

text \<open>
  Tiqora, a ticket system that runs beside or in place of Znuny on the same database: a model of the parts of
  \<open>src/backend/src/tiqora\<close> that carry its own rules, and the theorems that make them correct. Paths below are
  relative to that directory.

  \<^bold>\<open>The parts and how they work together.\<close>
  Agents and customers work on tickets. \<open>domain/ticket_write_service.py\<close> changes the fields of a ticket; each change
  writes a line of the history, refreshes the static index, recomputes the escalation columns where the code says so,
  queues a cache signal and an event. \<open>znuny/escalation.py\<close> computes the columns from the working hours of the calendars
  and \<open>worker/escalation.py\<close> sweeps the open tickets. \<open>permissions\<close> says who may do what in the queue of a ticket.
  \<open>approvals\<close> is the approval module that other modules use: a request belongs to a ticket, has stages of steps, and is
  decided by the people its entries resolve to; its sweep watches the deadlines, its notifications are jobs of \<open>jobs\<close>.
  \<open>itsm/change\<close> is change management: the phases of a change, freeze windows (expanded by \<open>calendar/recurrence.py\<close>)
  and conflicts, which are counted for the guards of a phase. \<open>process/conditions.py\<close> decides which transition of a
  process runs, \<open>util/cron.py\<close> when a schedule runs next.

  \<^bold>\<open>How code becomes definitions.\<close>
  A table is a list of records in the order of the ids, a database a record of tables, an operation a function from the
  database of its transaction to the result and the new database. A call that may raise returns a sum, with \<open>Inl\<close> the
  exception; the caller then rolls back, so an exception carries no database. \<open>res_bind\<close> and \<open>res_fold\<close> of \<open>Tiqora_Prelude\<close>
  sequence such calls. An ORM object is its row, read again where the session does (\<open>cur\<close>). Python integers are \<open>int\<close>; the
  code has no integers of a fixed width. An instant is an \<open>int\<close>, microseconds in the approval, job, cron and change theories, seconds in
  the ticket theories. Strings are character lists with code points below 256, for which the replacement of characters
  outside the basic plane changes nothing. Loops are structural recursions, functions with a measure, or bounded as the
  code bounds them. Definitions and records have the names of the code, with a suffix or another word where a name is
  taken (\<open>check_condition\<close> is \<open>check_transition\<close> of \<open>process/conditions.py\<close>, \<open>change_ticket_type\<close> is \<open>change_type\<close>).

  \<^bold>\<open>Theories and sources.\<close>
  \<^item> \<open>Tiqora_Prelude\<close>: sums, tables and their locale \<open>row_table\<close>, decimal numbers, texts. \<open>Civil_Time\<close>: dates and instants.
  \<^item> \<open>Permission_Engine\<close>: \<open>permissions/engine.py\<close>, \<open>sharing.py\<close>. The engine is compared with one predicate over the rows, and
    the question who has a permission with the question which permissions somebody has (locale \<open>permission_directory\<close>).
  \<^item> \<open>Job_Queue\<close>: \<open>jobs/service.py\<close>, \<open>runner.py\<close>, \<open>registry.py\<close>, \<open>context.py\<close>. The statements of service, runners and handlers
    (checkpoint, progress, files, and the hooks of \<open>gi/jobs.py\<close> and \<open>itsm/linked_articles.py\<close> that rewrite an interrupted job) are
    the rules of a step relation; its invariant, the finality of ended jobs and the exclusiveness of a claim are shown for
    every interleaving. A handler that was not told may still write progress, which the theorem on ended jobs leaves open.
  \<^item> \<open>Approval_Contract\<close>, \<open>Approval_Rules\<close>, \<open>Approval_Store\<close>, \<open>Approval_Resolve\<close>, \<open>Approval_Tokens\<close>, \<open>Approval_Templates\<close>,
    \<open>Approval_Access\<close>, \<open>Approval_Engine\<close>, \<open>Approval_Service\<close>, \<open>Approval_Links\<close>, \<open>Approval_Sweep\<close>: the files of \<open>approvals\<close> of
    these names (the access theory also holds \<open>delegation.py\<close> and \<open>availability.py\<close>, the templates theory \<open>lists.py\<close>).
  \<^item> \<open>Approval_Invariant\<close>, \<open>Approval_Correct\<close>, \<open>Approval_Voting\<close>, \<open>Approval_Lifecycle\<close>, \<open>Approval_History\<close>, \<open>Approval_Waits\<close>,
    \<open>Approval_Growth\<close>: what holds of the approval tables between operations, that every operation keeps it, moves the
    database forward, and never leaves an active step without an approver who is still asked. The contract of an operation is the locale
    \<open>service_operation\<close>, extended by \<open>request_operation\<close> and \<open>lasting_operation\<close>; every operation is an interpretation.
  \<^item> \<open>Approval_Sweep_Correct\<close>, \<open>Approval_Pauses\<close>: the same for the sweep, with its deadlines, reminders and pauses.
  \<^item> \<open>Approval_System\<close>, \<open>Approval_Transitions\<close>, \<open>Approval_Ballots\<close>, \<open>Approval_Verdicts\<close>, \<open>Approval_Decisions\<close>: the module as one
    step relation \<open>service_step\<close> with the operations, the items of the sweep and the writes of the mail job (\<open>notify.py\<close>), its
    reachable databases, the abstract ballot it refines, and what a decision means. A tick of the sweep is a run of it.
  \<^item> \<open>Change_Phases\<close>, \<open>Change_Freeze\<close>, \<open>Change_Conflicts\<close>: \<open>itsm/change/phases.py\<close>, \<open>freeze.py\<close>, \<open>conflicts.py\<close> and the counting in
    \<open>transitions.py\<close>; \<open>Calendar_Recurrence\<close>: \<open>calendar/recurrence.py\<close>; \<open>Cron\<close>: \<open>util/cron.py\<close>.
  \<^item> \<open>Process_Conditions\<close>: \<open>process/conditions.py\<close>, \<open>condition_modules.py\<close>, the loop of \<open>run_transitions\<close> in \<open>engine.py\<close>.
  \<^item> \<open>Working_Time\<close>: the walks over working time of \<open>znuny/escalation.py\<close> and \<open>reporting/working_time.py\<close>, both
    instances of the locale \<open>guarded_walk\<close> and compared with the plain count of the working seconds.
  \<^item> \<open>Ticket_Store\<close>, \<open>Escalation_Index\<close>, \<open>Ticket_Writes\<close>, \<open>Ticket_Mirror\<close>: the ticket tables, the escalation columns and
    their sweep, the field changes with \<open>znuny/history.py\<close>, \<open>ticket_index.py\<close> and \<open>cache_invalidation.py\<close>, and what every
    sequence of them keeps: the history, the index, the exclusive lock.

  \<^bold>\<open>Bounds.\<close>
  The bounds are those of the code. \<open>MAX_DAYS\<close> (2928) ends the search of a schedule after eight years; where it gives up,
  the theorem says that there is no time in those days. \<open>MAX_OCCURRENCES\<close> (2000) bounds the steps of a series; the theorem on
  freeze windows holds for ranges below the bound, and \<open>freeze_cut_unreported\<close> shows what happens above; a window by months or
  years is not forwarded to the range, so its first 2000 occurrences are reached. \<open>MAX_STEPS\<close> (5000000)
  protects the walks over working time; the working time of a range is always found within it for ranges the theorem
  names, and a deadline is found whenever the calendar has enough working time before the bound. The pages of the approval
  sweep end because each has a greater last key. The purge of links ends because every batch deletes rows.

  \<^bold>\<open>Parameters.\<close>
  What the code takes from elsewhere is an argument: the digest and the random secret of a link, resolvers and subject
  types other modules register, the handlers of jobs and how they end, clocks, the settings readers, regular expressions
  and condition modules, the offsets of time zones (\<open>zones\<close>, \<open>wall_clock\<close>). Hypotheses about them are stated in the
  theorems that use them, and every witness instantiates them with concrete functions. Of a zone only its range matters:
  between the two ends of a walk and the day after, it changes its offset by whole hours at a full hour of its clock, not there
  and back between two midnights (\<open>zone_ok\<close>); so Europe/Berlin does, whose local mean time before 1893 is 53 minutes and 28
  seconds (\<open>summer_zone\<close>), and zones with changes of half an hour in the range do not.

  \<^bold>\<open>Concurrency.\<close>
  A transaction is one step. Jobs interleave by single statements, because the runner commits between them. Approvals lock
  the request first, so that transactions on one request are serial; different requests share no rows. The sweep
  reads its candidates in one transaction and works on each in another, and the steps in between are any steps.

  \<^bold>\<open>Not modelled.\<close>
  Code that mainly moves data between the database, the network and a person and has no rule of its own to state: the HTTP
  routes and their schemas (\<open>api\<close>), the channels (mail, telegram, sms, web chat), the assistant and its tools (\<open>ai\<close>,
  \<open>mcp_server\<close>, \<open>kb\<close>), search indexing, the metrics and dashboards other than the nearest deadline, reports other than working time, the
  database models and migrations, settings screens and plugins. Left for further work because they have rules: the rest
  of the ticket service (creating, articles, merging, splitting, dynamic fields), the erasure of personal data (\<open>gdpr\<close>, which
  also rewrites names in the approval tables and deletes links: the properties of the approval module hold between its runs), the
  configuration database (\<open>cmdb\<close>), the activities of processes, and the transitions of changes as a whole (their tasks, risk
  and texts). Texts of errors are left out everywhere, codes and the HTTP status of approval errors are not. Logging,
  metrics, publish and subscribe and the savepoints around optional tables are left out.
\<close>

end
